(* ===== verification/Prelude.thy ===== *)
theory Prelude
  imports Main "HOL-Library.Word"
begin

text \<open>
  What the components share: the kernel's error codes, the unsigned widths of the C code
  written out on \<open>nat\<close>, little-endian fields of byte lists, first-match searches over
  index ranges (the shape of every table scan in the kernel), and the collections of rules
  that the component theories extend.
\<close>

unbundle bit_operations_syntax

named_theorems wrap_simps \<open>values that stay inside their machine width\<close>
named_theorems op_defs \<open>definitions of operations, unfolded by the proofs of one component\<close>

section \<open>Error codes\<close>

text \<open>The kernel's errors (src/src/include/errno.h). A C function returning 0 or a negated
  code, with results in out parameters, becomes a function into \<open>errno + 'a\<close>.\<close>

datatype errno =
    EPERM | ENOENT | ESRCH | EINTR | EIO | ENXIO | E2BIG | ENOEXEC | EBADF | EAGAIN
  | ENOMEM | EACCES | EFAULT | EBUSY | EEXIST | EXDEV | ENOTDIR | EISDIR | EINVAL | ENFILE
  | EMFILE | EFBIG | ENOSPC | EROFS | EPIPE | ERANGE | ENAMETOOLONG | ENOTEMPTY | ETIMEDOUT

type_synonym byte = "8 word"

type_synonym 'a res = "errno + 'a"

section \<open>Unsigned widths\<close>

definition u32 :: "nat \<Rightarrow> nat" where
  "u32 x = x mod 2 ^ 32"

definition u64 :: "nat \<Rightarrow> nat" where
  "u64 x = x mod 2 ^ 64"

text \<open>\<open>a - b\<close> on \<open>uint32_t\<close>, for operands inside the width.\<close>

definition sub32 :: "nat \<Rightarrow> nat \<Rightarrow> nat" where
  "sub32 a b = (a + 2 ^ 32 - b) mod 2 ^ 32"

definition sub64 :: "nat \<Rightarrow> nat \<Rightarrow> nat" where
  "sub64 a b = (a + 2 ^ 64 - b) mod 2 ^ 64"

lemma u32_id [wrap_simps]: "x < 2 ^ 32 \<Longrightarrow> u32 x = x"
  by (simp add: u32_def)

lemma u64_id [wrap_simps]: "x < 2 ^ 64 \<Longrightarrow> u64 x = x"
  by (simp add: u64_def)

lemma sub32_id [wrap_simps]: "b \<le> a \<Longrightarrow> a < 2 ^ 32 \<Longrightarrow> sub32 a b = a - b"
proof -
  assume "b \<le> a" "a < 2 ^ 32"
  then have "(a + 2 ^ 32 - b) mod 2 ^ 32 = (a - b + 2 ^ 32) mod 2 ^ 32"
    by simp
  with \<open>a < 2 ^ 32\<close> show ?thesis
    by (simp add: sub32_def)
qed

lemma sub64_id [wrap_simps]: "b \<le> a \<Longrightarrow> a < 2 ^ 64 \<Longrightarrow> sub64 a b = a - b"
proof -
  assume "b \<le> a" "a < 2 ^ 64"
  then have "(a + 2 ^ 64 - b) mod 2 ^ 64 = (a - b + 2 ^ 64) mod 2 ^ 64"
    by simp
  with \<open>a < 2 ^ 64\<close> show ?thesis
    by (simp add: sub64_def)
qed

lemma u32_less [simp]: "u32 x < 2 ^ 32"
  by (simp add: u32_def)

lemma u64_less [simp]: "u64 x < 2 ^ 64"
  by (simp add: u64_def)

section \<open>Arithmetic\<close>

lemma div_min: "min a b div c = min (a div c) (b div c :: nat)"
  using div_le_mono [of a b c] div_le_mono [of b a c] by (auto simp: min_def)

lemma disjoint_intervals:
  assumes "{a..<b} \<inter> {c..<d} = {}" "a < b" "c < (d :: nat)"
  shows "b \<le> c \<or> d \<le> a"
proof (rule ccontr)
  assume "\<not> (b \<le> c \<or> d \<le> a)"
  then have "max a c \<in> {a..<b} \<inter> {c..<d}" using assms(2,3) by auto
  with assms(1) show False by blast
qed

section \<open>Ring indices\<close>

lemma ring_index_inj:
  fixes h i j m :: nat
  assumes "(h + i) mod m = (h + j) mod m" "i < m" "j < m"
  shows "i = j"
proof -
  have le: "a = b" if "(h + b) mod m = (h + a) mod m" "a \<le> b" "b < m" for a b
  proof -
    have "m dvd (h + b) - (h + a)"
      using that(1,2) mod_eq_dvd_iff_nat [of "h + a" "h + b" m] by simp
    with that(2,3) show ?thesis by (auto dest: dvd_imp_le)
  qed
  from le [of i j] le [of j i] assms show ?thesis by (cases "i \<le> j") auto
qed

section \<open>First match in an index range\<close>

text \<open>\<open>for (i = lo; i < hi; i++) if (P(i)) return i;\<close>\<close>

definition first_idx :: "(nat \<Rightarrow> bool) \<Rightarrow> nat \<Rightarrow> nat \<Rightarrow> nat option" where
  "first_idx P lo hi = List.find P [lo..<hi]"

lemma first_idx_Some:
  "first_idx P lo hi = Some i \<longleftrightarrow> lo \<le> i \<and> i < hi \<and> P i \<and> (\<forall>j. lo \<le> j \<and> j < i \<longrightarrow> \<not> P j)"
proof
  assume "first_idx P lo hi = Some i"
  then obtain k where k: "k < length [lo..<hi]" "P ([lo..<hi] ! k)" "i = [lo..<hi] ! k"
      "\<forall>j<k. \<not> P ([lo..<hi] ! j)"
    by (auto simp: first_idx_def find_Some_iff)
  have "\<not> P j" if "lo \<le> j" "j < i" for j
    using k(4) [rule_format, of "j - lo"] k(1,3) that by auto
  with k show "lo \<le> i \<and> i < hi \<and> P i \<and> (\<forall>j. lo \<le> j \<and> j < i \<longrightarrow> \<not> P j)"
    by auto
next
  assume a: "lo \<le> i \<and> i < hi \<and> P i \<and> (\<forall>j. lo \<le> j \<and> j < i \<longrightarrow> \<not> P j)"
  then have "i - lo < length [lo..<hi] \<and> P ([lo..<hi] ! (i - lo)) \<and> i = [lo..<hi] ! (i - lo)
      \<and> (\<forall>j<i - lo. \<not> P ([lo..<hi] ! j))"
    by auto
  then show "first_idx P lo hi = Some i"
    unfolding first_idx_def find_Some_iff by blast
qed

lemma first_idx_None: "first_idx P lo hi = None \<longleftrightarrow> (\<forall>i. lo \<le> i \<and> i < hi \<longrightarrow> \<not> P i)"
  by (auto simp: first_idx_def find_None_iff)

lemma first_idx_SomeD:
  assumes "first_idx P lo hi = Some i"
  shows "lo \<le> i" "i < hi" "P i" "lo \<le> j \<Longrightarrow> j < i \<Longrightarrow> \<not> P j"
  using assms by (auto simp: first_idx_Some)

section \<open>Little-endian fields\<close>

text \<open>A \<open>uint16_t\<close> or \<open>uint32_t\<close> inside a buffer, as the packed structs and the
  casts of the source read and write it on x86.\<close>

definition rd16 :: "byte list \<Rightarrow> nat \<Rightarrow> nat" where
  "rd16 bs i = unat (bs ! i) + 256 * unat (bs ! (i + 1))"

definition rd32 :: "byte list \<Rightarrow> nat \<Rightarrow> nat" where
  "rd32 bs i = unat (bs ! i) + 256 * unat (bs ! (i + 1)) + 65536 * unat (bs ! (i + 2))
     + 16777216 * unat (bs ! (i + 3))"

definition wr16 :: "byte list \<Rightarrow> nat \<Rightarrow> nat \<Rightarrow> byte list" where
  "wr16 bs i v = bs[i := word_of_nat v, i + 1 := word_of_nat (v div 256)]"

definition wr32 :: "byte list \<Rightarrow> nat \<Rightarrow> nat \<Rightarrow> byte list" where
  "wr32 bs i v = bs[i := word_of_nat v, i + 1 := word_of_nat (v div 256),
     i + 2 := word_of_nat (v div 65536), i + 3 := word_of_nat (v div 16777216)]"

lemma unat_byte: "unat (word_of_nat v :: byte) = v mod 256"
  by (simp add: unat_of_nat)

lemma byte_less [simp]: "unat (b :: byte) < 256"
  using unsigned_less [of b] by simp

lemma rd32_less: "rd32 bs i < 2 ^ 32"
proof -
  have "unat (bs ! k) \<le> 255" for k
    using byte_less [of "bs ! k"] by linarith
  from this [of i] this [of "i + 1"] this [of "i + 2"] this [of "i + 3"] show ?thesis
    unfolding rd32_def by simp
qed

lemma length_wr [simp]: "length (wr16 bs i v) = length bs" "length (wr32 bs i v) = length bs"
  by (simp_all add: wr16_def wr32_def)

lemma rd16_wr16: "i + 2 \<le> length bs \<Longrightarrow> v < 2 ^ 16 \<Longrightarrow> rd16 (wr16 bs i v) i = v"
  by (simp add: rd16_def wr16_def unat_byte)

lemma rd32_sum:
  "v = 256 * (a::nat) + r \<Longrightarrow> a = 256 * b + s \<Longrightarrow> b = 256 * c + t \<Longrightarrow>
    r + 256 * s + 65536 * t + 16777216 * c = v"
  by simp

lemma rd32_wr32:
  assumes "i + 4 \<le> length bs" and "v < 2 ^ 32"
  shows "rd32 (wr32 bs i v) i = v"
proof -
  have e: "rd32 (wr32 bs i v) i = v mod 256 + 256 * (v div 256 mod 256)
      + 65536 * (v div 65536 mod 256) + 16777216 * (v div 16777216 mod 256)"
    using assms(1) by (simp add: rd32_def wr32_def unat_byte)
  have "v div 65536 = v div 256 div 256" "v div 16777216 = v div 256 div 256 div 256"
    by (simp_all flip: div_mult2_eq)
  moreover have "v div 256 div 256 div 256 < 256"
    using assms(2) by (simp add: div_less_iff_less_mult flip: div_mult2_eq)
  moreover have "v = 256 * (v div 256) + v mod 256"
    "v div 256 = 256 * (v div 256 div 256) + v div 256 mod 256"
    "v div 256 div 256 = 256 * (v div 256 div 256 div 256) + v div 256 div 256 mod 256"
    by (rule mult_div_mod_eq [symmetric])+
  ultimately show ?thesis
    unfolding e by (metis (no_types, lifting) rd32_sum mod_less)
qed

lemma rd32_wr32_other:
  "j + 4 \<le> i \<or> i + 4 \<le> j \<Longrightarrow> rd32 (wr32 bs i v) j = rd32 bs j"
  by (auto simp: rd32_def wr32_def)

end
