(* ===== verification/Kobject.thy ===== *)
theory Kobject
  imports Prelude
begin

text \<open>
  Kernel objects and handle tables (src/src/kernel/obj/object.cpp, include/obj/object.h).

  An object header is a \<open>kobject\<close>: its operation table and a reference count. Objects are
  named by their address (\<open>oid\<close>); the store maps addresses to headers and records, in
  order, the objects whose \<open>destroy\<close> operation ran. A handle table is the array of 64
  slots, each null (\<open>None\<close>) or the address of a referenced object.

  The lemmas show what each operation does to the counts, that the counts stay equal to the
  number of references (handle slots and kernel references together), and that a handle never
  refers to an object that was destroyed.
\<close>

section \<open>Objects\<close>

type_synonym oid = nat

datatype obj_type = NoneT | FileT | ProcessT | EventT | ThreadT

text \<open>The operation table: the type, whether \<open>destroy\<close> is non-null, whether the object can
  be waited on (\<open>signaled\<close> and \<open>waitq\<close> non-null) and whether \<open>consume\<close> is non-null.\<close>

record kobject_ops =
  otype :: obj_type
  destroys :: bool
  waitable :: bool
  consumes :: bool

record kobject =
  ops :: kobject_ops
  refcnt :: nat

record obj_store =
  hdr :: "oid \<Rightarrow> kobject"
  destroyed :: "oid list"

definition set_hdr :: "oid \<Rightarrow> kobject \<Rightarrow> obj_store \<Rightarrow> obj_store" where
  "set_hdr p k s = s\<lparr>hdr := (hdr s)(p := k)\<rparr>"

definition kobj_init :: "oid \<Rightarrow> kobject_ops \<Rightarrow> obj_store \<Rightarrow> obj_store" where
  "kobj_init p ops_tab s = set_hdr p \<lparr>ops = ops_tab, refcnt = 1\<rparr> s"

definition kobj_get :: "oid \<Rightarrow> obj_store \<Rightarrow> obj_store" where
  "kobj_get p s = set_hdr p ((hdr s p)\<lparr>refcnt := u32 (refcnt (hdr s p) + 1)\<rparr>) s"

definition kobj_put :: "oid \<Rightarrow> obj_store \<Rightarrow> obj_store" where
  "kobj_put p s =
     (let k = hdr s p in
      if refcnt k = 0 then s
      else let s' = set_hdr p (k\<lparr>refcnt := refcnt k - 1\<rparr>) s in
        if refcnt k - 1 = 0 \<and> destroys (ops k)
        then s'\<lparr>destroyed := destroyed s' @ [p]\<rparr> else s')"

definition kobj_type :: "oid \<Rightarrow> obj_store \<Rightarrow> obj_type" where
  "kobj_type p s = otype (ops (hdr s p))"

section \<open>Handle tables\<close>

definition HANDLE_TABLE_SIZE :: nat where
  "HANDLE_TABLE_SIZE = 64"

type_synonym handle_table = "oid option list"

definition handle_in_range :: "int \<Rightarrow> bool" where
  "handle_in_range h \<longleftrightarrow> 0 \<le> h \<and> h < int HANDLE_TABLE_SIZE"

definition handle_release :: "handle_table \<Rightarrow> nat \<Rightarrow> obj_store \<Rightarrow> handle_table \<times> obj_store" where
  "handle_release t i s =
     (t[i := None], case t ! i of None \<Rightarrow> s | Some p \<Rightarrow> kobj_put p s)"

definition handles_init :: "handle_table \<Rightarrow> handle_table" where
  "handles_init t = map (\<lambda>_. None) t"

definition handles_install ::
  "handle_table \<Rightarrow> oid \<Rightarrow> obj_store \<Rightarrow> int res \<times> handle_table \<times> obj_store" where
  "handles_install t p s =
     (case first_idx (\<lambda>h. t ! h = None) 0 HANDLE_TABLE_SIZE of
        None \<Rightarrow> (Inl EMFILE, t, s)
      | Some h \<Rightarrow> (Inr (int h), t[h := Some p], kobj_get p s))"

definition handles_get :: "handle_table \<Rightarrow> int \<Rightarrow> obj_type \<Rightarrow> obj_store \<Rightarrow> oid res" where
  "handles_get t h want s =
     (case (if handle_in_range h then t ! nat h else None) of
        None \<Rightarrow> Inl EBADF
      | Some p \<Rightarrow> if want \<noteq> NoneT \<and> kobj_type p s \<noteq> want then Inl EBADF else Inr p)"

definition handles_close ::
  "handle_table \<Rightarrow> int \<Rightarrow> obj_store \<Rightarrow> unit res \<times> handle_table \<times> obj_store" where
  "handles_close t h s =
     (if \<not> handle_in_range h \<or> t ! nat h = None then (Inl EBADF, t, s)
      else (Inr (), handle_release t (nat h) s))"

definition handles_close_all :: "handle_table \<Rightarrow> obj_store \<Rightarrow> handle_table \<times> obj_store" where
  "handles_close_all t s =
     fold (\<lambda>i (t, s). if t ! i \<noteq> None then handle_release t i s else (t, s))
       [0..<HANDLE_TABLE_SIZE] (t, s)"

section \<open>Counting references\<close>

text \<open>The handle slots of all tables that hold an object.\<close>

definition slot_refs :: "handle_table list \<Rightarrow> oid \<Rightarrow> nat" where
  "slot_refs ts p = (\<Sum>t\<leftarrow>ts. count_list t (Some p))"

text \<open>Every count is the number of handle slots plus the references the kernel itself holds
  (\<open>ext\<close>).\<close>

definition refs_exact :: "handle_table list \<Rightarrow> (oid \<Rightarrow> nat) \<Rightarrow> obj_store \<Rightarrow> bool" where
  "refs_exact ts ext s \<longleftrightarrow>
     (\<forall>t \<in> set ts. length t = HANDLE_TABLE_SIZE) \<and>
     (\<forall>p. refcnt (hdr s p) = slot_refs ts p + ext p)"

lemma hdr_set_hdr [simp]: "hdr (set_hdr p k s) q = (if q = p then k else hdr s q)"
  by (simp add: set_hdr_def)

lemma destroyed_set_hdr [simp]: "destroyed (set_hdr p k s) = destroyed s"
  by (simp add: set_hdr_def)

lemma refcnt_kobj_get [simp]:
  "refcnt (hdr (kobj_get p s) q) =
     (if q = p then u32 (refcnt (hdr s p) + 1) else refcnt (hdr s q))"
  by (simp add: kobj_get_def)

lemma refcnt_kobj_put [simp]:
  "refcnt (hdr (kobj_put p s) q) = (if q = p then refcnt (hdr s p) - 1 else refcnt (hdr s q))"
  by (auto simp: kobj_put_def Let_def)

lemma ops_kobj [simp]:
  "ops (hdr (kobj_get p s) q) = ops (hdr s q)" "ops (hdr (kobj_put p s) q) = ops (hdr s q)"
  by (auto simp: kobj_put_def kobj_get_def Let_def)

lemma destroyed_kobj_get [simp]: "destroyed (kobj_get p s) = destroyed s"
  by (simp add: kobj_get_def)

lemma destroyed_kobj_put:
  "destroyed (kobj_put p s) =
     destroyed s @ (if refcnt (hdr s p) = 1 \<and> destroys (ops (hdr s p)) then [p] else [])"
  by (auto simp: kobj_put_def Let_def)

lemma count_list_update:
  "i < length xs \<Longrightarrow>
    count_list (xs[i := y]) z + (if xs ! i = z then 1 else 0) =
    count_list xs z + (if y = z then 1 else 0)"
proof (induction xs arbitrary: i)
  case (Cons x xs)
  show ?case
  proof (cases i)
    case (Suc n)
    with Cons.prems Cons.IH [of n] show ?thesis by auto
  qed auto
qed simp

lemma sum_list_map_update:
  "k < length ts \<Longrightarrow>
    (\<Sum>t\<leftarrow>ts[k := t']. f t) + f (ts ! k) = (\<Sum>t\<leftarrow>ts. f t) + (f t' :: nat)"
proof (induction ts arbitrary: k)
  case (Cons a ts)
  then show ?case by (cases k) auto
qed simp

lemma slot_refs_update:
  assumes "k < length ts" "i < length (ts ! k)"
  shows "slot_refs (ts[k := (ts ! k)[i := y]]) p + (if ts ! k ! i = Some p then 1 else 0) =
    slot_refs ts p + (if y = Some p then 1 else 0)"
  using sum_list_map_update [OF assms(1), of "\<lambda>t. count_list t (Some p)" "(ts ! k)[i := y]"]
    count_list_update [OF assms(2), of y "Some p"]
  by (simp add: slot_refs_def)

lemma slot_refs_ge: "k < length ts \<Longrightarrow> count_list (ts ! k) (Some p) \<le> slot_refs ts p"
  unfolding slot_refs_def by (intro member_le_sum_list) auto

lemma slot_refs_pos:
  assumes "k < length ts" "i < length (ts ! k)" "ts ! k ! i = Some p"
  shows "0 < slot_refs ts p"
proof -
  have "Some p \<in> set (ts ! k)"
    using assms(2,3) by (metis nth_mem)
  then have "0 < count_list (ts ! k) (Some p)"
    by (simp add: count_list_0_iff zero_less_iff_neq_zero)
  then show ?thesis
    using slot_refs_ge [OF assms(1), of p] by linarith
qed


section \<open>Closing a whole table\<close>

definition close_upto :: "nat \<Rightarrow> handle_table \<Rightarrow> obj_store \<Rightarrow> handle_table \<times> obj_store" where
  "close_upto n t s =
     fold (\<lambda>i (t, s). if t ! i \<noteq> None then handle_release t i s else (t, s)) [0..<n] (t, s)"

lemma close_upto_Suc:
  "close_upto (Suc n) t s =
     (case close_upto n t s of (t, s) \<Rightarrow>
        if t ! n \<noteq> None then handle_release t n s else (t, s))"
  by (simp add: close_upto_def)

lemma close_upto_table:
  "n \<le> length t \<Longrightarrow> fst (close_upto n t s) = replicate n None @ drop n t"
proof (induction n)
  case 0
  then show ?case by (simp add: close_upto_def)
next
  case (Suc n)
  then have ih: "fst (close_upto n t s) = replicate n None @ drop n t" by simp
  have d: "drop n t = t ! n # drop (Suc n) t"
    using Suc.prems by (simp add: Cons_nth_drop_Suc)
  show ?case
    using ih by (auto simp: close_upto_Suc handle_release_def d nth_append list_update_append
        replicate_append_same [symmetric] split: prod.split)
qed

lemma count_list_take_Suc:
  "n < length t \<Longrightarrow>
    count_list (take (Suc n) t) z = count_list (take n t) z + (if t ! n = z then 1 else 0)"
  by (simp add: take_Suc_conv_app_nth)

lemma close_upto_refs:
  assumes "n \<le> length t"
  shows "refcnt (hdr (snd (close_upto n t s)) p) =
      refcnt (hdr s p) - count_list (take n t) (Some p)"
    and "ops (hdr (snd (close_upto n t s)) p) = ops (hdr s p)"
  using assms
proof (induction n)
  case 0
  { case 1 then show ?case by (simp add: close_upto_def) }
  { case 2 then show ?case by (simp add: close_upto_def) }
next
  case (Suc n)
  have t: "fst (close_upto n t s) ! n = t ! n" if "Suc n \<le> length t"
    using that by (simp add: close_upto_table nth_append)
  { case 1
    with Suc t show ?case
      by (auto simp: close_upto_Suc handle_release_def count_list_take_Suc
          split: prod.split option.split) }
  { case 2
    with Suc t show ?case
      by (auto simp: close_upto_Suc handle_release_def split: prod.split option.split) }
qed

lemma close_upto_destroyed:
  assumes "n \<le> length t"
  shows "\<exists>xs. destroyed (snd (close_upto n t s)) = destroyed s @ xs \<and> distinct xs \<and>
    set xs = {p. destroys (ops (hdr s p)) \<and> 0 < refcnt (hdr s p) \<and>
                 refcnt (hdr s p) \<le> count_list (take n t) (Some p)}"
  using assms
proof (induction n)
  case 0
  then show ?case by (auto simp: close_upto_def)
next
  case (Suc n)
  then obtain xs where xs: "destroyed (snd (close_upto n t s)) = destroyed s @ xs" "distinct xs"
    "set xs = {p. destroys (ops (hdr s p)) \<and> 0 < refcnt (hdr s p) \<and>
                  refcnt (hdr s p) \<le> count_list (take n t) (Some p)}"
    by auto
  obtain t' s' where st: "close_upto n t s = (t', s')" by fastforce
  have tn: "t' ! n = t ! n"
    using close_upto_table [of n t s] Suc.prems by (simp add: st nth_append)
  have r: "refcnt (hdr s' q) = refcnt (hdr s q) - count_list (take n t) (Some q)"
    and o: "ops (hdr s' q) = ops (hdr s q)" for q
    using close_upto_refs [of n t s q] Suc.prems by (simp_all add: st)
  show ?case
  proof (cases "t ! n")
    case None
    then show ?thesis
      using xs Suc.prems tn st by (simp add: close_upto_Suc count_list_take_Suc)
  next
    case (Some p)
    define ys where "ys = (if refcnt (hdr s' p) = 1 \<and> destroys (ops (hdr s p)) then [p] else [])"
    have d: "destroyed (snd (close_upto (Suc n) t s)) = destroyed s @ xs @ ys"
      using xs(1) Some tn
      by (simp add: close_upto_Suc st handle_release_def destroyed_kobj_put o ys_def)
    have "p \<notin> set xs" if "refcnt (hdr s' p) = 1"
      using that xs(3) by (auto simp: r)
    then have dist: "distinct (xs @ ys)"
      using xs(2) by (auto simp: ys_def)
    have "set (xs @ ys) = {p. destroys (ops (hdr s p)) \<and> 0 < refcnt (hdr s p) \<and>
            refcnt (hdr s p) \<le> count_list (take (Suc n) t) (Some p)}"
      using Suc.prems Some unfolding set_append xs(3)
      by (auto simp: count_list_take_Suc r ys_def)
    with d dist show ?thesis
      by blast
  qed
qed

lemma close_all_eq: "handles_close_all t s = close_upto HANDLE_TABLE_SIZE t s"
  by (simp add: handles_close_all_def close_upto_def)


section \<open>The object system as a state machine\<close>

text \<open>The state is the tables of all processes, the references the kernel holds outside them,
  and the store. A step is one call of the interface above, on any table, by a caller that holds
  what the interface asks for: a reference to hand to \<open>install\<close>, to copy with \<open>get\<close> or to
  give back with \<open>put\<close>. The counts are \<open>uint32_t\<close>: taking a reference assumes the count is
  not at its maximum.\<close>

type_synonym osys = "handle_table list \<times> (oid \<Rightarrow> nat) \<times> obj_store"

inductive obj_step :: "osys \<Rightarrow> osys \<Rightarrow> bool" where
  create: "slot_refs ts p = 0 \<Longrightarrow> ext p = 0 \<Longrightarrow>
     obj_step (ts, ext, s) (ts, ext(p := 1), kobj_init p ops_tab s)"
| take: "0 < ext p \<Longrightarrow> refcnt (hdr s p) + 1 < 2 ^ 32 \<Longrightarrow>
     obj_step (ts, ext, s) (ts, ext(p := ext p + 1), kobj_get p s)"
| drop: "0 < ext p \<Longrightarrow> obj_step (ts, ext, s) (ts, ext(p := ext p - 1), kobj_put p s)"
| install: "k < length ts \<Longrightarrow> 0 < ext p \<Longrightarrow> refcnt (hdr s p) + 1 < 2 ^ 32 \<Longrightarrow>
     handles_install (ts ! k) p s = (r, t', s') \<Longrightarrow>
     obj_step (ts, ext, s) (ts[k := t'], ext, s')"
| close: "k < length ts \<Longrightarrow> handles_close (ts ! k) h s = (r, t', s') \<Longrightarrow>
     obj_step (ts, ext, s) (ts[k := t'], ext, s')"
| close_all: "k < length ts \<Longrightarrow> handles_close_all (ts ! k) s = (t', s') \<Longrightarrow>
     obj_step (ts, ext, s) (ts[k := t'], ext, s')"

inductive obj_reach :: "osys \<Rightarrow> bool" where
  boot: "(\<And>t. t \<in> set ts \<Longrightarrow> length t = HANDLE_TABLE_SIZE) \<Longrightarrow>
     (\<And>p. refcnt (hdr s p) = 0) \<Longrightarrow> obj_reach (map handles_init ts, (\<lambda>_. 0), s)"
| more: "obj_reach a \<Longrightarrow> obj_step a b \<Longrightarrow> obj_reach b"

lemma count_list_replicate_None: "count_list (replicate n None) (Some p) = 0"
  by (induction n) auto

lemma slot_refs_replace:
  assumes "k < length ts"
  shows "slot_refs (ts[k := t']) p + count_list (ts ! k) (Some p) =
    slot_refs ts p + count_list t' (Some p)"
  using sum_list_map_update [OF assms, of "\<lambda>t. count_list t (Some p)"]
  by (simp add: slot_refs_def)

lemma refs_exact_replace:
  assumes "refs_exact ts ext s" "k < length ts" "length t' = HANDLE_TABLE_SIZE"
    and "\<And>p. refcnt (hdr s' p) + count_list (ts ! k) (Some p) =
        refcnt (hdr s p) + count_list t' (Some p)"
  shows "refs_exact (ts[k := t']) ext s'"
  unfolding refs_exact_def
proof (intro conjI ballI allI)
  fix t assume "t \<in> set (ts[k := t'])"
  then show "length t = HANDLE_TABLE_SIZE"
    using assms(1,3) set_update_subset_insert [of ts k t'] by (auto simp: refs_exact_def)
next
  fix p
  show "refcnt (hdr s' p) = slot_refs (ts[k := t']) p + ext p"
    using assms(1) assms(4) [of p] slot_refs_replace [OF assms(2), of t' p]
    by (auto simp: refs_exact_def)
qed

lemma install_refs:
  assumes "handles_install t p s = (r, t', s')" "length t = HANDLE_TABLE_SIZE"
    "refcnt (hdr s p) + 1 < 2 ^ 32"
  shows "length t' = HANDLE_TABLE_SIZE"
    "refcnt (hdr s' q) + count_list t (Some q) = refcnt (hdr s q) + count_list t' (Some q)"
proof -
  show "length t' = HANDLE_TABLE_SIZE"
    using assms(1,2) by (auto simp: handles_install_def split: option.splits)
  show "refcnt (hdr s' q) + count_list t (Some q) = refcnt (hdr s q) + count_list t' (Some q)"
  proof (cases "first_idx (\<lambda>h. t ! h = None) 0 HANDLE_TABLE_SIZE")
    case None
    with assms(1) show ?thesis by (simp add: handles_install_def)
  next
    case (Some h)
    then have "h < length t" "t ! h = None"
      using assms(2) first_idx_SomeD [OF Some] by auto
    with count_list_update [of h t "Some p" "Some q"] Some assms(1,3) show ?thesis
      by (auto simp: handles_install_def wrap_simps)
  qed
qed

lemma close_refs:
  assumes "handles_close t h s = (r, t', s')" "length t = HANDLE_TABLE_SIZE"
    "\<And>q. count_list t (Some q) \<le> refcnt (hdr s q)"
  shows "length t' = HANDLE_TABLE_SIZE"
    "refcnt (hdr s' q) + count_list t (Some q) = refcnt (hdr s q) + count_list t' (Some q)"
proof -
  show "length t' = HANDLE_TABLE_SIZE"
    using assms(1,2) by (auto simp: handles_close_def handle_release_def split: if_splits)
  show "refcnt (hdr s' q) + count_list t (Some q) = refcnt (hdr s q) + count_list t' (Some q)"
  proof (cases "\<not> handle_in_range h \<or> t ! nat h = None")
    case True
    with assms(1) show ?thesis by (auto simp: handles_close_def)
  next
    case False
    then obtain p where p: "t ! nat h = Some p" and h: "nat h < length t"
      using assms(2) by (auto simp: handle_in_range_def)
    have "0 < count_list t (Some p)"
      using p h by (metis count_list_0_iff neq0_conv nth_mem)
    with assms(3) [of p] have "0 < refcnt (hdr s p)" by linarith
    with False p h assms(1) count_list_update [OF h, of None "Some q"] show ?thesis
      by (auto simp: handles_close_def handle_release_def)
  qed
qed

lemma close_all_refs:
  assumes "handles_close_all t s = (t', s')" "length t = HANDLE_TABLE_SIZE"
    "\<And>q. count_list t (Some q) \<le> refcnt (hdr s q)"
  shows "length t' = HANDLE_TABLE_SIZE"
    "refcnt (hdr s' q) + count_list t (Some q) = refcnt (hdr s q) + count_list t' (Some q)"
  using close_upto_table [of "length t" t s] close_upto_refs(1) [of "length t" t s q] assms
  by (simp_all add: close_all_eq count_list_replicate_None)


lemma refs_exact_slots:
  assumes "refs_exact ts ext s" "k < length ts"
  shows "count_list (ts ! k) (Some q) \<le> refcnt (hdr s q)" "length (ts ! k) = HANDLE_TABLE_SIZE"
  using assms slot_refs_ge [OF assms(2), of q] nth_mem [OF assms(2)]
  by (auto simp: refs_exact_def intro: trans_le_add1)

lemma slot_refs_init: "slot_refs (map handles_init ts) p = 0"
  by (induction ts) (auto simp: slot_refs_def handles_init_def map_replicate_const
      count_list_replicate_None)

lemma obj_step_refs_exact:
  assumes "obj_step a b" "refs_exact (fst a) (fst (snd a)) (snd (snd a))"
  shows "refs_exact (fst b) (fst (snd b)) (snd (snd b))"
  using assms
proof (induction rule: obj_step.induct)
  case (create ts p ext s ops_tab)
  then show ?case by (auto simp: refs_exact_def kobj_init_def)
next
  case (take ext p s ts)
  then show ?case by (auto simp: refs_exact_def wrap_simps)
next
  case (drop ext p ts s)
  then show ?case by (auto simp: refs_exact_def)
next
  case (install k ts ext p s r t' s')
  then show ?case
    using install_refs [OF install.hyps(4)] refs_exact_slots [OF _ install.hyps(1)]
    by (auto intro!: refs_exact_replace)
next
  case (close k ts h s r t' s' ext)
  then show ?case
    using close_refs [OF close.hyps(2)] refs_exact_slots [OF _ close.hyps(1)]
    by (auto intro!: refs_exact_replace)
next
  case (close_all k ts s t' s' ext)
  then show ?case
    using close_all_refs [OF close_all.hyps(2)] refs_exact_slots [OF _ close_all.hyps(1)]
    by (auto intro!: refs_exact_replace)
qed

lemma obj_reach_refs:
  "obj_reach a \<Longrightarrow> refs_exact (fst a) (fst (snd a)) (snd (snd a))"
proof (induction rule: obj_reach.induct)
  case (boot ts s)
  then show ?case by (auto simp: refs_exact_def slot_refs_init handles_init_def)
next
  case (more a b)
  then show ?case by (blast intro: obj_step_refs_exact)
qed

text \<open>The objects newly destroyed by a step.\<close>

definition new_destroyed :: "obj_store \<Rightarrow> obj_store \<Rightarrow> oid list" where
  "new_destroyed s s' = List.drop (length (destroyed s)) (destroyed s')"

lemma new_destroyed_put:
  "p \<in> set (new_destroyed s (kobj_put q s)) \<Longrightarrow> p = q \<and> refcnt (hdr s q) = 1"
  by (auto simp: new_destroyed_def destroyed_kobj_put split: if_splits)

lemma obj_step_destroys:
  assumes "obj_step a b" "refs_exact (fst a) (fst (snd a)) (snd (snd a))"
    and "p \<in> set (new_destroyed (snd (snd a)) (snd (snd b)))"
  shows "refcnt (hdr (snd (snd b)) p) = 0"
  using assms
proof (induction rule: obj_step.induct)
  case (drop ext q ts s)
  then show ?case using new_destroyed_put by fastforce
next
  case (close k ts h s r t' s' ext)
  then have "s' = (case ts ! k ! nat h of None \<Rightarrow> s | Some q \<Rightarrow> kobj_put q s)"
    by (auto simp: handles_close_def handle_release_def new_destroyed_def split: if_splits)
  with close show ?case
    using new_destroyed_put by (fastforce simp: new_destroyed_def split: option.splits)
next
  case (close_all k ts s t' s' ext)
  have l: "length (ts ! k) = HANDLE_TABLE_SIZE"
    using refs_exact_slots(2) close_all by auto
  then obtain xs where xs: "destroyed s' = destroyed s @ xs"
      "set xs = {p. destroys (ops (hdr s p)) \<and> 0 < refcnt (hdr s p) \<and>
                   refcnt (hdr s p) \<le> count_list (ts ! k) (Some p)}"
    using close_upto_destroyed [of HANDLE_TABLE_SIZE "ts ! k" s] close_all.hyps(2)
    by (auto simp: close_all_eq)
  have "p \<in> set xs"
    using close_all.prems(2) xs(1) by (simp add: new_destroyed_def)
  then have "refcnt (hdr s p) \<le> count_list (ts ! k) (Some p)"
    by (simp add: xs(2))
  then show ?case
    using close_upto_refs(1) [of HANDLE_TABLE_SIZE "ts ! k" s p] l close_all.hyps(2)
    by (simp add: close_all_eq)
qed (auto simp: new_destroyed_def kobj_init_def handles_install_def split: option.splits)

section \<open>Properties\<close>

text \<open>C2. In every state the object system can reach, the reference count of every object is
  exactly the number of handle slots (over all processes) that hold it plus the references the
  kernel holds itself.\<close>

theorem obj_reach_refs_exact: "obj_reach (ts, ext, s) \<Longrightarrow> refs_exact ts ext s"
  using obj_reach_refs by fastforce

definition demo_ops :: kobject_ops where
  "demo_ops = \<lparr>otype = EventT, destroys = True, waitable = True, consumes = True\<rparr>"

definition demo_store :: obj_store where
  "demo_store = \<lparr>hdr = (\<lambda>_. \<lparr>ops = demo_ops, refcnt = 0\<rparr>), destroyed = []\<rparr>"

lemma demo_reach0:
  "obj_reach ([replicate HANDLE_TABLE_SIZE None], (\<lambda>_. 0), demo_store)"
  using obj_reach.boot [of "[replicate HANDLE_TABLE_SIZE None]" demo_store]
  by (simp add: demo_store_def handles_init_def)

lemma demo_reach1:
  "obj_reach ([replicate HANDLE_TABLE_SIZE None], (\<lambda>_. 0)(7 := 1),
     kobj_init 7 demo_ops demo_store)"
  by (rule obj_reach.more [OF demo_reach0], rule obj_step.create)
    (simp_all add: slot_refs_def count_list_replicate_None)

lemma demo_install:
  "handles_install (replicate HANDLE_TABLE_SIZE None) 7 (kobj_init 7 demo_ops demo_store) =
     (Inr 0, (replicate HANDLE_TABLE_SIZE None)[0 := Some 7],
      kobj_get 7 (kobj_init 7 demo_ops demo_store))"
proof -
  have "first_idx (\<lambda>h. replicate HANDLE_TABLE_SIZE None ! h = (None :: oid option))
      0 HANDLE_TABLE_SIZE = Some 0"
    by (auto simp: first_idx_Some HANDLE_TABLE_SIZE_def)
  then show ?thesis by (simp add: handles_install_def)
qed

lemma demo_reach2:
  "obj_reach ([(replicate HANDLE_TABLE_SIZE None)[0 := Some 7]], (\<lambda>_. 0)(7 := 1),
     kobj_get 7 (kobj_init 7 demo_ops demo_store))"
proof -
  let ?ts = "[replicate HANDLE_TABLE_SIZE None]"
  have "obj_step (?ts, (\<lambda>_. 0)(7 := 1), kobj_init 7 demo_ops demo_store)
      (?ts[0 := (replicate HANDLE_TABLE_SIZE None)[0 := Some 7]], (\<lambda>_. 0)(7 := 1),
       kobj_get 7 (kobj_init 7 demo_ops demo_store))"
    by (rule obj_step.install [where p = 7 and r = "Inr 0"])
      (simp_all add: demo_install, simp add: kobj_init_def)
  with demo_reach1 show ?thesis
    by (simp add: obj_reach.more)
qed

theorem obj_reach_refs_exact_witness:
  "refs_exact [(replicate HANDLE_TABLE_SIZE None)[0 := Some 7]] ((\<lambda>_. 0)(7 := 1))
     (kobj_get 7 (kobj_init 7 demo_ops demo_store))"
  by (rule obj_reach_refs_exact [OF demo_reach2])


text \<open>C18. When a step of the object system runs an object's \<open>destroy\<close>, nothing refers to the
  object any more: no handle slot of any process and no reference held by the kernel.\<close>

theorem destroy_only_unreferenced:
  assumes "obj_reach (ts, ext, s)" "obj_step (ts, ext, s) (ts', ext', s')"
    and "p \<in> set (new_destroyed s s')"
  shows "slot_refs ts' p = 0 \<and> ext' p = 0"
proof -
  have r: "refs_exact ts ext s"
    using obj_reach_refs [OF assms(1)] by simp
  have "refs_exact ts' ext' s'"
    using obj_step_refs_exact [OF assms(2)] r by simp
  moreover have "refcnt (hdr s' p) = 0"
    using obj_step_destroys [OF assms(2)] r assms(3) by simp
  ultimately show ?thesis
    by (auto simp: refs_exact_def)
qed

theorem destroy_only_unreferenced_witness:
  "7 \<in> set (new_destroyed (kobj_init 7 demo_ops demo_store)
      (kobj_put 7 (kobj_init 7 demo_ops demo_store))) \<and>
   slot_refs [replicate HANDLE_TABLE_SIZE None] 7 = 0"
proof -
  let ?s = "kobj_init 7 demo_ops demo_store"
  have d: "7 \<in> set (new_destroyed ?s (kobj_put 7 ?s))"
    by (simp add: new_destroyed_def destroyed_kobj_put kobj_init_def demo_ops_def)
  have "obj_step ([replicate HANDLE_TABLE_SIZE None], (\<lambda>_. 0)(7 := 1), ?s)
      ([replicate HANDLE_TABLE_SIZE None], ((\<lambda>_. 0)(7 := 1))(7 := ((\<lambda>_. 0)(7 := 1)) (7 :: oid) - 1),
       kobj_put 7 ?s)"
    by (rule obj_step.drop) simp
  from destroy_only_unreferenced [OF demo_reach1 this d] d show ?thesis by simp
qed

text \<open>C33. A handle that \<open>handles::get\<close> accepts leads to an object that is still referenced
  (so it was not destroyed) and that has the type asked for.\<close>

theorem handle_refers_to_live_object:
  assumes "obj_reach (ts, ext, s)" "k < length ts" "handles_get (ts ! k) h want s = Inr p"
  shows "0 < refcnt (hdr s p) \<and> (want = NoneT \<or> kobj_type p s = want)"
proof -
  have r: "refs_exact ts ext s"
    using obj_reach_refs [OF assms(1)] by simp
  then have "length (ts ! k) = HANDLE_TABLE_SIZE"
    using assms(2) by (rule refs_exact_slots)
  with assms(3) have "ts ! k ! nat h = Some p" "nat h < length (ts ! k)"
    and "want = NoneT \<or> kobj_type p s = want"
    by (auto simp: handles_get_def handle_in_range_def split: option.splits if_splits)
  with slot_refs_pos [OF assms(2)] r show ?thesis
    by (auto simp: refs_exact_def)
qed

theorem handle_refers_to_live_object_witness:
  "handles_get ((replicate HANDLE_TABLE_SIZE None)[0 := Some 7]) 0 EventT
      (kobj_get 7 (kobj_init 7 demo_ops demo_store)) = Inr 7 \<and>
   0 < refcnt (hdr (kobj_get 7 (kobj_init 7 demo_ops demo_store)) 7)"
proof -
  have g: "handles_get ([(replicate HANDLE_TABLE_SIZE None)[0 := Some 7]] ! 0) 0 EventT
      (kobj_get 7 (kobj_init 7 demo_ops demo_store)) = Inr 7"
    by (simp add: handles_get_def handle_in_range_def HANDLE_TABLE_SIZE_def kobj_type_def
        kobj_init_def demo_ops_def)
  from handle_refers_to_live_object [OF demo_reach2 _ g] g show ?thesis by simp
qed

text \<open>C34. \<open>handles::install\<close> fails, changing nothing, exactly when the table is full; otherwise
  it uses the lowest free slot, the new handle finds the object, and closing that handle gives
  back the table and every reference count as they were.\<close>

theorem handles_install_close:
  assumes "length t = HANDLE_TABLE_SIZE" "refcnt (hdr s p) + 1 < 2 ^ 32"
  shows "case handles_install t p s of
      (Inl e, t', s') \<Rightarrow> e = EMFILE \<and> t' = t \<and> s' = s \<and> None \<notin> set t
    | (Inr h, t', s') \<Rightarrow> handle_in_range h \<and> t ! nat h = None \<and> None \<notin> set (List.take (nat h) t) \<and>
        handles_get t' h NoneT s' = Inr p \<and>
        (\<exists>s''. handles_close t' h s' = (Inr (), t, s'') \<and>
           (\<forall>q. refcnt (hdr s'' q) = refcnt (hdr s q)))"
proof (cases "first_idx (\<lambda>h. t ! h = None) 0 HANDLE_TABLE_SIZE")
  case None
  then have "None \<notin> set t"
    using assms(1) by (auto simp: first_idx_None in_set_conv_nth)
  with None show ?thesis by (simp add: handles_install_def)
next
  case (Some h)
  note f = first_idx_SomeD [OF Some]
  have "None \<notin> set (List.take h t)"
    using f assms(1) by (auto simp: in_set_conv_nth)
  moreover have "t[h := None] = t"
    using f(3) by (metis list_update_id)
  ultimately show ?thesis
    using Some f assms
    by (auto simp: handles_install_def handles_get_def handles_close_def handle_release_def
        handle_in_range_def wrap_simps)
qed

theorem handles_install_close_witness:
  "handles_install (replicate HANDLE_TABLE_SIZE None) 7 (kobj_init 7 demo_ops demo_store) =
     (Inr 0, (replicate HANDLE_TABLE_SIZE None)[0 := Some 7],
      kobj_get 7 (kobj_init 7 demo_ops demo_store)) \<and>
   (\<exists>s''. handles_close ((replicate HANDLE_TABLE_SIZE None)[0 := Some 7]) 0
        (kobj_get 7 (kobj_init 7 demo_ops demo_store)) =
        (Inr (), replicate HANDLE_TABLE_SIZE None, s''))"
  using handles_install_close [of "replicate HANDLE_TABLE_SIZE None"
      "kobj_init 7 demo_ops demo_store" 7] demo_install
  by (auto simp: kobj_init_def)

end
