(* ===== verification/Event.thy ===== *)
theory Event
  imports Kobject
begin

text \<open>
  Events and waiting on kernel objects (src/src/kernel/obj/event.cpp) over the wait queues of the
  scheduler (\<open>queue_sleep\<close>, \<open>queue_wake\<close> and \<open>wait_event\<close> of src/src/kernel/cpu/process.cpp).

  The event pool is the addresses below \<open>MAX_EVENTS\<close>; a wait queue is the set of threads linked
  into it. One iteration of the loop in \<open>wait_event\<close> runs with interrupts off and
  the kernel is not preempted, so it is one step, and so is what \<open>objects::wait\<close> does after
  the loop: the machine interleaves those steps of all threads with \<open>set\<close>, \<open>reset\<close>, time and
  end requests in any order. A sleeping thread may be resumed at any moment (the scheduler resumes
  it when it is woken, when its tick is due, when its process is to be ended, or spuriously).
  As event.h asks of the callers, who waits for an object holds a reference to it: a wait starts
  on a live event, and the last reference is not dropped while somebody sleeps on it. The sleepers
  of \<open>wait_any\<close>, which every \<open>wake_up\<close> wakes too, are not among these threads.

  The lemmas show that a wakeup is never lost, that an automatic event lets at most one waiter
  through per \<open>set\<close>, and what each result of a wait means.
\<close>

section \<open>The event pool\<close>

type_synonym tid = nat

record event_obj =
  is_set :: bool
  auto_reset :: bool
  waiters :: "tid set"
  used :: bool

datatype wait_pc = NotWaiting | Sleeping oid nat | Result "unit res"

text \<open>The fields of a thread that waiting uses: the queue it sleeps on, whether \<open>wake_up\<close>
  ended the sleep, its deadline, whether its process is to be ended; and where it is in
  \<open>objects::wait\<close>.\<close>

record thread =
  wq :: "oid option"
  woken :: bool
  wake_tick :: nat
  end_requested :: bool
  pc :: wait_pc

text \<open>\<open>nset\<close> and \<open>npass\<close> count, for each event since its creation, the calls of \<open>set\<close> and
  the waits that succeeded.\<close>

record event_sys =
  objs :: obj_store
  ev :: "oid \<Rightarrow> event_obj"
  thr :: "tid \<Rightarrow> thread"
  now :: nat
  nset :: "oid \<Rightarrow> nat"
  npass :: "oid \<Rightarrow> nat"

definition MAX_EVENTS :: nat where
  "MAX_EVENTS = 256"

definition event_ops :: kobject_ops where
  "event_ops = \<lparr>otype = EventT, destroys = True, waitable = True, consumes = True\<rparr>"

definition upd_ev :: "oid \<Rightarrow> event_obj \<Rightarrow> event_sys \<Rightarrow> event_sys" where
  "upd_ev p e es = es\<lparr>ev := (ev es)(p := e)\<rparr>"

definition upd_thr :: "tid \<Rightarrow> thread \<Rightarrow> event_sys \<Rightarrow> event_sys" where
  "upd_thr t r es = es\<lparr>thr := (thr es)(t := r)\<rparr>"

definition ev_destroy :: "oid \<Rightarrow> event_sys \<Rightarrow> event_sys" where
  "ev_destroy p es = upd_ev p ((ev es p)\<lparr>used := False\<rparr>) es"

text \<open>\<open>kobj::put\<close> of an event: the header's count, and \<open>ev_destroy\<close> when it was the last.\<close>

definition event_put :: "oid \<Rightarrow> event_sys \<Rightarrow> event_sys" where
  "event_put p es =
     (let es' = es\<lparr>objs := kobj_put p (objs es)\<rparr>
      in if destroyed (objs es') = destroyed (objs es) then es' else ev_destroy p es')"

definition event_create :: "bool \<Rightarrow> event_sys \<Rightarrow> oid option \<times> event_sys" where
  "event_create auto es =
     (case first_idx (\<lambda>i. \<not> used (ev es i)) 0 MAX_EVENTS of
        None \<Rightarrow> (None, es)
      | Some i \<Rightarrow> (Some i,
          upd_ev i \<lparr>is_set = False, auto_reset = auto, waiters = {}, used = True\<rparr>
            (es\<lparr>objs := kobj_init i event_ops (objs es),
               nset := (nset es)(i := 0), npass := (npass es)(i := 0)\<rparr>)))"

definition queue_wake :: "oid \<Rightarrow> event_sys \<Rightarrow> event_sys" where
  "queue_wake p es = upd_ev p ((ev es p)\<lparr>waiters := {}\<rparr>)
     (es\<lparr>thr := (\<lambda>t. let r = thr es t in
        if t \<in> waiters (ev es p) then r\<lparr>wq := None, woken := True\<rparr> else r)\<rparr>)"

definition event_set :: "oid \<Rightarrow> event_sys \<Rightarrow> event_sys" where
  "event_set p es =
     (if kobj_type p (objs es) \<noteq> EventT then es
      else queue_wake p (upd_ev p ((ev es p)\<lparr>is_set := True\<rparr>)
             (es\<lparr>nset := (nset es)(p := nset es p + 1)\<rparr>)))"

definition event_reset :: "oid \<Rightarrow> event_sys \<Rightarrow> event_sys" where
  "event_reset p es =
     (if kobj_type p (objs es) = EventT then upd_ev p ((ev es p)\<lparr>is_set := False\<rparr>) es else es)"

section \<open>Waiting\<close>

definition ev_consume :: "oid \<Rightarrow> event_sys \<Rightarrow> event_sys" where
  "ev_consume p es =
     (if auto_reset (ev es p) then upd_ev p ((ev es p)\<lparr>is_set := False\<rparr>) es else es)"

definition set_pc :: "tid \<Rightarrow> wait_pc \<Rightarrow> event_sys \<Rightarrow> event_sys" where
  "set_pc t c es = upd_thr t ((thr es t)\<lparr>pc := c\<rparr>) es"

text \<open>\<open>queue_sleep\<close> up to the switch: the thread joins the queue.\<close>

definition queue_sleep :: "tid \<Rightarrow> oid \<Rightarrow> nat \<Rightarrow> event_sys \<Rightarrow> event_sys" where
  "queue_sleep t p tick es =
     upd_thr t ((thr es t)\<lparr>woken := False, wake_tick := tick, wq := Some p,
       pc := Sleeping p tick\<rparr>)
       (upd_ev p ((ev es p)\<lparr>waiters := insert t (waiters (ev es p))\<rparr>) es)"

definition unlink_wait :: "tid \<Rightarrow> event_sys \<Rightarrow> event_sys" where
  "unlink_wait t es = (case wq (thr es t) of
     None \<Rightarrow> es
   | Some p \<Rightarrow> upd_thr t ((thr es t)\<lparr>wq := None\<rparr>)
       (upd_ev p ((ev es p)\<lparr>waiters := waiters (ev es p) - {t}\<rparr>) es))"

text \<open>One iteration of \<open>wait_event\<close>: when the condition holds or the deadline passed, what
  \<open>objects::wait\<close> does next; otherwise the thread goes to sleep.\<close>

definition wait_check :: "tid \<Rightarrow> oid \<Rightarrow> nat \<Rightarrow> event_sys \<Rightarrow> event_sys" where
  "wait_check t p tick es =
     (if is_set (ev es p) \<or> (tick \<noteq> 0 \<and> tick \<le> now es)
      then if \<not> is_set (ev es p) then set_pc t (Result (Inl ETIMEDOUT)) es
           else set_pc t (Result (Inr ()))
             (ev_consume p (es\<lparr>npass := (npass es)(p := npass es p + 1)\<rparr>))
      else queue_sleep t p tick es)"

definition objects_wait :: "tid \<Rightarrow> oid \<Rightarrow> nat \<Rightarrow> event_sys \<Rightarrow> event_sys" where
  "objects_wait t p tick es =
     (if \<not> waitable (ops (hdr (objs es) p)) then set_pc t (Result (Inl EINVAL)) es
      else wait_check t p tick es)"

text \<open>\<open>queue_sleep\<close> after the switch (off the queue, and false only when the process is to be
  ended and nothing woke it), then back into the loop of \<open>wait_event\<close>.\<close>

definition wait_resume :: "tid \<Rightarrow> oid \<Rightarrow> nat \<Rightarrow> event_sys \<Rightarrow> event_sys" where
  "wait_resume t p tick es =
     (let es1 = unlink_wait t es; r = thr es1 t;
          es' = upd_thr t (r\<lparr>woken := False, wake_tick := 0\<rparr>) es1
      in if woken r \<or> \<not> end_requested r then wait_check t p tick es'
         else set_pc t (Result (Inl EINTR)) es')"

section \<open>The machine\<close>

inductive ev_step :: "event_sys \<Rightarrow> event_sys \<Rightarrow> bool" where
  s_create: "event_create auto es = (r, es') \<Longrightarrow> ev_step es es'"
| s_put: "destroyed (objs (event_put p es)) = destroyed (objs es) \<or>
     (\<forall>t tick. pc (thr es t) \<noteq> Sleeping p tick) \<Longrightarrow> ev_step es (event_put p es)"
| s_set: "ev_step es (event_set p es)"
| s_reset: "ev_step es (event_reset p es)"
| s_wait: "pc (thr es t) = NotWaiting \<Longrightarrow> p < MAX_EVENTS \<Longrightarrow> used (ev es p) \<Longrightarrow>
     ev_step es (objects_wait t p tick es)"
| s_resume: "pc (thr es t) = Sleeping p tick \<Longrightarrow> ev_step es (wait_resume t p tick es)"
| s_return: "pc (thr es t) = Result r \<Longrightarrow> ev_step es (set_pc t NotWaiting es)"
| s_time: "ev_step es (es\<lparr>now := now es + 1\<rparr>)"
| s_end: "ev_step es (upd_thr t ((thr es t)\<lparr>end_requested := True\<rparr>) es)"

inductive ev_reach :: "event_sys \<Rightarrow> bool" where
  r_boot: "(\<And>p. \<not> is_set (ev es p) \<and> waiters (ev es p) = {}) \<Longrightarrow>
     (\<And>t. pc (thr es t) = NotWaiting \<and> wq (thr es t) = None)
     \<Longrightarrow> (\<And>p. npass es p = 0) \<Longrightarrow> ev_reach es"
| r_step: "ev_reach es \<Longrightarrow> ev_step es es' \<Longrightarrow> ev_reach es'"

lemmas event_defs = upd_ev_def upd_thr_def ev_destroy_def event_put_def event_create_def
  queue_wake_def event_set_def event_reset_def ev_consume_def set_pc_def queue_sleep_def
  unlink_wait_def wait_check_def objects_wait_def wait_resume_def Let_def

text \<open>A set event has no sleeper left on its queue.\<close>

definition no_lost_wakeup :: "event_sys \<Rightarrow> bool" where
  "no_lost_wakeup es \<longleftrightarrow> (\<forall>p. is_set (ev es p) \<longrightarrow> waiters (ev es p) = {})"

definition pass_bound :: "event_sys \<Rightarrow> bool" where
  "pass_bound es \<longleftrightarrow> (\<forall>p. auto_reset (ev es p) \<longrightarrow>
     npass es p + (if is_set (ev es p) then 1 else 0) \<le> nset es p)"

lemma ev_step_no_lost_wakeup: "ev_step es es' \<Longrightarrow> no_lost_wakeup es \<Longrightarrow> no_lost_wakeup es'"
  by (induction rule: ev_step.induct)
    (auto simp: no_lost_wakeup_def event_defs split: option.splits if_splits)


lemma ev_step_pass_bound: "ev_step es es' \<Longrightarrow> pass_bound es \<Longrightarrow> pass_bound es'"
  by (induction rule: ev_step.induct)
    (auto simp: pass_bound_def event_defs split: option.splits if_splits)

text \<open>A thread asleep in \<open>wait_event\<close> is on the queue of a live event, or was woken.\<close>

definition sleepers_queued :: "event_sys \<Rightarrow> bool" where
  "sleepers_queued es \<longleftrightarrow> (\<forall>t p tick. pc (thr es t) = Sleeping p tick \<longrightarrow>
     used (ev es p) \<and> (t \<in> waiters (ev es p) \<or> woken (thr es t)))"

lemma ev_step_sleepers_queued: "ev_step es es' \<Longrightarrow> sleepers_queued es \<Longrightarrow> sleepers_queued es'"
  by (induction rule: ev_step.induct)
    (auto simp: sleepers_queued_def event_defs split: option.splits if_splits
      dest: first_idx_SomeD(3) [OF sym])

lemma ev_reach_inv:
  "ev_reach es \<Longrightarrow> no_lost_wakeup es \<and> pass_bound es \<and> sleepers_queued es"
proof (induction rule: ev_reach.induct)
  case (r_boot es)
  then show ?case by (auto simp: no_lost_wakeup_def pass_bound_def sleepers_queued_def)
next
  case (r_step es es')
  then show ?case
    by (blast intro: ev_step_no_lost_wakeup ev_step_pass_bound ev_step_sleepers_queued)
qed

section \<open>Properties\<close>

text \<open>C7. No wakeup is lost: whatever the interleaving, a thread asleep on an event that is set
  was woken (it is off the queue), and as soon as it runs its wait succeeds.\<close>

theorem set_event_wakes_sleeper:
  assumes "ev_reach es" "is_set (ev es p)" "pc (thr es t) = Sleeping p tick"
  shows "woken (thr es t) \<and> t \<notin> waiters (ev es p) \<and>
    pc (thr (wait_resume t p tick es) t) = Result (Inr ())"
proof -
  have w: "t \<notin> waiters (ev es p)"
    using ev_reach_inv [OF assms(1)] assms(2) by (auto simp: no_lost_wakeup_def)
  then have "woken (thr es t)"
    using ev_reach_inv [OF assms(1)] assms(3) unfolding sleepers_queued_def by blast
  with w assms(2) show ?thesis
    by (simp add: event_defs split: option.splits)
qed

definition ev0 :: event_sys where
  "ev0 = \<lparr>objs = \<lparr>hdr = (\<lambda>_. \<lparr>ops = event_ops, refcnt = 0\<rparr>), destroyed = []\<rparr>,
     ev = (\<lambda>_. \<lparr>is_set = False, auto_reset = False, waiters = {}, used = False\<rparr>),
     thr = (\<lambda>_. \<lparr>wq = None, woken = False, wake_tick = 0, end_requested = False, pc = NotWaiting\<rparr>),
     now = 0, nset = (\<lambda>_. 0), npass = (\<lambda>_. 0)\<rparr>"

text \<open>An automatic event is created, a thread waits for it without a deadline, and it is set.\<close>

definition ev1 :: event_sys where
  "ev1 = event_set 0 (objects_wait 5 0 0 (snd (event_create True ev0)))"

lemma ev0_create: "event_create True ev0 = (Some 0,
    upd_ev 0 \<lparr>is_set = False, auto_reset = True, waiters = {}, used = True\<rparr>
      (ev0\<lparr>objs := kobj_init 0 event_ops (objs ev0),
         nset := (nset ev0)(0 := 0), npass := (npass ev0)(0 := 0)\<rparr>))"
proof -
  have "first_idx (\<lambda>i. \<not> used (ev ev0 i)) 0 MAX_EVENTS = Some 0"
    by (auto simp: first_idx_Some MAX_EVENTS_def ev0_def)
  then show ?thesis by (simp add: event_create_def)
qed

lemma ev1_reach: "ev_reach ev1"
proof -
  have "ev_reach ev0" by (rule r_boot) (simp_all add: ev0_def)
  then have "ev_reach (snd (event_create True ev0))"
    by (rule r_step) (rule s_create [of True ev0 "fst (event_create True ev0)"], simp)
  then have "ev_reach (objects_wait 5 0 0 (snd (event_create True ev0)))"
    by (rule r_step, intro s_wait)
      (simp_all add: ev0_create upd_ev_def MAX_EVENTS_def, simp add: ev0_def)
  then show ?thesis
    unfolding ev1_def by (rule r_step) (rule s_set)
qed

lemmas ev1_eval = upd_ev_def upd_thr_def queue_wake_def event_set_def
  set_pc_def queue_sleep_def unlink_wait_def wait_check_def objects_wait_def wait_resume_def
  ev_consume_def kobj_init_def kobj_type_def event_ops_def Let_def ev0_def

theorem set_event_wakes_sleeper_witness:
  "is_set (ev ev1 0) \<and> pc (thr ev1 5) = Sleeping 0 0 \<and> woken (thr ev1 5) \<and>
   pc (thr (wait_resume 5 0 0 ev1) 5) = Result (Inr ())"
proof -
  have a: "is_set (ev ev1 0)" "pc (thr ev1 5) = Sleeping 0 0"
    unfolding ev1_def ev0_create snd_conv by (simp_all add: ev1_eval)
  from set_event_wakes_sleeper [OF ev1_reach a] a show ?thesis by simp
qed

text \<open>C21. Each \<open>set\<close> of an automatic event lets at most one waiter through: the waits on it
  that succeeded are never more than the calls of \<open>set\<close>, and fewer while it is set.\<close>

theorem auto_event_one_waiter_per_set:
  assumes "ev_reach es" "auto_reset (ev es p)"
  shows "npass es p \<le> nset es p \<and> (is_set (ev es p) \<longrightarrow> npass es p < nset es p)"
  using ev_reach_inv [OF assms(1)] assms(2)
  by (cases "is_set (ev es p)") (auto simp: pass_bound_def dest: spec [of _ p])

theorem auto_event_one_waiter_per_set_witness:
  "auto_reset (ev ev1 0) \<and> npass ev1 0 < nset ev1 0"
proof -
  have a: "auto_reset (ev ev1 0)" "is_set (ev ev1 0)"
    unfolding ev1_def ev0_create snd_conv by (simp_all add: ev1_eval)
  from auto_event_one_waiter_per_set [OF ev1_reach a(1)] a show ?thesis by simp
qed

text \<open>What the result of \<open>objects::wait\<close> means: 0 says that the object was signaled, and an
  automatic event is consumed; \<open>-ETIMEDOUT\<close> that the deadline passed and it was not signaled;
  \<open>-EINTR\<close> that the process is to be ended; \<open>-EINVAL\<close> that the object cannot be waited on.\<close>

theorem wait_result_meaning:
  assumes "es' = objects_wait t p tick es \<or> es' = wait_resume t p tick es"
    and "pc (thr es t) = NotWaiting \<or> pc (thr es t) = Sleeping p tick"
    and "pc (thr es' t) = Result r"
  shows "case r of
      Inr _ \<Rightarrow> is_set (ev es p) \<and> npass es' p = npass es p + 1 \<and>
               (auto_reset (ev es p) \<longrightarrow> \<not> is_set (ev es' p))
    | Inl e \<Rightarrow>
        (e = ETIMEDOUT \<and> 0 < tick \<and> tick \<le> now es \<and> \<not> is_set (ev es p)) \<or>
        (e = EINTR \<and> end_requested (thr es t) \<and> \<not> woken (thr es t)) \<or>
        (e = EINVAL \<and> \<not> waitable (ops (hdr (objs es) p)))"
  using assms by (auto simp: event_defs split: if_splits option.splits)

theorem wait_result_meaning_witness:
  "pc (thr (wait_resume 5 0 0 ev1) 5) = Result (Inr ()) \<and> is_set (ev ev1 0) \<and>
   npass (wait_resume 5 0 0 ev1) 0 = npass ev1 0 + 1"
proof -
  have a: "pc (thr ev1 5) = Sleeping 0 0"
    unfolding ev1_def ev0_create snd_conv by (simp add: ev1_eval)
  have b: "pc (thr (wait_resume 5 0 0 ev1) 5) = Result (Inr ())"
    unfolding ev1_def ev0_create snd_conv by (simp add: ev1_eval)
  from wait_result_meaning [of _ 5 0 0 ev1, OF _ _ b] a b show ?thesis by auto
qed

end
