(* ===== verification/Waitqueue.thy ===== *)
theory Waitqueue
  imports Prelude
begin

text \<open>
  Wait queues as their users see them (\<open>wait_event\<close> and \<open>wake_up\<close> of
  src/src/kernel/cpu/process.cpp, contract in src/src/include/cpu/wait.h): a queue is the set of
  threads asleep on it. An iteration of \<open>wait_event\<close> without a deadline looks at the condition and,
  with interrupts still off, either goes on or joins the queue; \<open>wake_up\<close> empties the queue. The
  threads of \<open>wait_any\<close>, which every \<open>wake_up\<close> wakes too, belong to no user's queue.

  The locale states the discipline every user of a queue has to keep (who makes a condition true
  wakes the queue) and proves what it is for: no thread sleeps on a condition that holds.
\<close>

type_synonym wait_queue = "nat set"

definition wake_up :: "wait_queue \<Rightarrow> wait_queue" where
  "wake_up q = {}"

text \<open>One iteration of \<open>wait_event\<close>: whether the caller goes on, and the queue.\<close>

definition wait_iter :: "nat \<Rightarrow> bool \<Rightarrow> wait_queue \<Rightarrow> bool \<times> wait_queue" where
  "wait_iter t c q = (if c then (True, q - {t}) else (False, insert t q))"

lemma wake_up_empty [simp]: "t \<notin> wake_up q"
  by (simp add: wake_up_def)

lemma wait_iter_sleeps: "t' \<in> snd (wait_iter t c q) \<Longrightarrow> t' \<in> q \<or> t' = t \<and> \<not> c"
  by (auto simp: wait_iter_def split: if_splits)

locale wait_discipline =
  fixes inv :: "'s \<Rightarrow> bool"
    and step :: "'s \<Rightarrow> 's \<Rightarrow> bool"
    and waiters :: "'s \<Rightarrow> wait_queue"
    and cond :: "nat \<Rightarrow> 's \<Rightarrow> bool"
  assumes step_inv: "inv s \<Longrightarrow> step s s' \<Longrightarrow> inv s'"
    and step_wakes: "inv s \<Longrightarrow> step s s' \<Longrightarrow> t \<in> waiters s' \<Longrightarrow> cond t s' \<Longrightarrow>
      t \<in> waiters s \<and> cond t s"
begin

lemma reach_inv: "step\<^sup>*\<^sup>* s s' \<Longrightarrow> inv s \<Longrightarrow> inv s'"
  by (induction rule: rtranclp_induct) (use step_inv in blast)+

lemma sleeps_only_on_false:
  assumes "step\<^sup>*\<^sup>* s s'" "inv s" "\<And>t. t \<in> waiters s \<Longrightarrow> \<not> cond t s" "t \<in> waiters s'"
  shows "\<not> cond t s'"
  using assms
proof (induction arbitrary: t rule: rtranclp_induct)
  case (step s1 s2)
  from reach_inv [OF step.hyps(1) step.prems(1)] step.hyps(2) step.prems step.IH step_wakes
  show ?case by blast
qed blast

end

end
