(* ===== verification/Sleeplock.thy ===== *)
theory Sleeplock
  imports Event Waitqueue
begin

text \<open>
  The ticket lock whose holder may sleep (\<open>sleep_lock\<close> of src/src/include/cpu/wait.h; \<open>lock\<close>,
  \<open>unlock\<close> and \<open>pass\<close> of src/src/kernel/cpu/process.cpp). It is the lock all file system and
  disk work runs under.

  Who asks is a thread (\<open>Some t\<close>) or the boot code, where no thread runs yet (\<open>None\<close>, the
  null pointer of the source). \<open>lock\<close> is two steps: drawing a ticket (or finding that the caller
  has the lock already, or that it may not sleep), and leaving the waiting loop when it is the
  ticket's turn; in between, a thread whose turn it is not sleeps on the lock's queue. The tickets are \<open>uint64_t\<close> and wrap; drawing one assumes fewer than \<open>2 ^ 64\<close> were drawn. The lock's
  depth and a thread's count of holds are \<open>uint32_t\<close> and wrap; taking the lock assumes that it is
  nested less than \<open>2 ^ 32 - 1\<close> deep. The count of holds is that of one lock.

  The lemmas show mutual exclusion, that the lock is handed out in the order it was asked for,
  that a free lock somebody waits for is always takable by somebody awake, and that a thread with \<open>holds = 0\<close>
  neither holds the lock nor waits for it.
\<close>

record sleep_lock =
  owner :: "tid option"
  depth :: nat
  next_ticket :: nat
  serving :: nat

text \<open>Where somebody is: outside, waiting with a ticket (inside \<open>pass\<close> or not), or holding.\<close>

datatype lphase = Out | Wait nat bool | Hold

record lsys =
  lk :: sleep_lock
  lwq :: Waitqueue.wait_queue
  ph :: "tid option \<Rightarrow> lphase"
  holds :: "tid \<Rightarrow> nat"
  asked :: "tid option list"
  served :: "tid option list"

definition add_holds :: "tid option \<Rightarrow> int \<Rightarrow> (tid \<Rightarrow> nat) \<Rightarrow> tid \<Rightarrow> nat" where
  "add_holds me d h = (case me of None \<Rightarrow> h | Some t \<Rightarrow> h(t := nat ((int (h t) + d) mod 2 ^ 32)))"

definition my_turn :: "sleep_lock \<Rightarrow> nat \<Rightarrow> bool" where
  "my_turn l ticket \<longleftrightarrow> depth l = 0 \<and> serving l = ticket"

text \<open>\<open>lock\<close> up to its waiting loop: \<open>Some b\<close> when it returns \<open>b\<close> at once, \<open>None\<close> when a
  ticket was drawn.\<close>

definition lock_enter :: "tid option \<Rightarrow> bool \<Rightarrow> bool \<Rightarrow> lsys \<Rightarrow> bool option \<times> lsys" where
  "lock_enter me can_sleep in_pass s =
     (let l = lk s in
      if depth l \<noteq> 0 \<and> owner l = me
      then (Some True, s\<lparr>lk := l\<lparr>depth := u32 (depth l + 1)\<rparr>, holds := add_holds me 1 (holds s)\<rparr>)
      else if \<not> can_sleep \<and> \<not> (depth l = 0 \<and> serving l = next_ticket l) then (Some False, s)
      else (None, s\<lparr>lk := l\<lparr>next_ticket := u64 (next_ticket l + 1)\<rparr>,
                    ph := (ph s)(me := Wait (next_ticket l) in_pass),
                    holds := add_holds me 1 (holds s),
                    asked := asked s @ [me]\<rparr>))"

text \<open>\<open>lock\<close> after its waiting loop; inside \<open>pass\<close> the extra hold is dropped then.\<close>

definition lock_acquire :: "tid option \<Rightarrow> bool \<Rightarrow> lsys \<Rightarrow> lsys" where
  "lock_acquire me in_pass s =
     s\<lparr>lk := (lk s)\<lparr>owner := me, depth := 1\<rparr>, ph := (ph s)(me := Hold),
       holds := (if in_pass then add_holds me (- 1) (holds s) else holds s),
       served := served s @ [me]\<rparr>"

definition lock_unlock :: "tid option \<Rightarrow> lsys \<Rightarrow> lsys" where
  "lock_unlock me s =
     (let l = lk s; h = add_holds (owner l) (- 1) (holds s) in
      if sub32 (depth l) 1 = 0
      then s\<lparr>lk := l\<lparr>depth := 0, owner := None, serving := u64 (serving l + 1)\<rparr>,
             lwq := wake_up (lwq s), ph := (ph s)(me := Out), holds := h\<rparr>
      else s\<lparr>lk := l\<lparr>depth := sub32 (depth l) 1\<rparr>, holds := h\<rparr>)"

definition lock_pass :: "tid option \<Rightarrow> bool \<Rightarrow> lsys \<Rightarrow> lsys" where
  "lock_pass me can_sleep s =
     (let l = lk s in
      if me = None \<or> owner l \<noteq> me \<or> depth l \<noteq> 1 \<or> next_ticket l = u64 (serving l + 1) \<or> \<not> can_sleep
      then s
      else snd (lock_enter me can_sleep True
             (lock_unlock me (s\<lparr>holds := add_holds me 1 (holds s)\<rparr>))))"

text \<open>An iteration of the waiting loop of thread \<open>t\<close> with its ticket, when it is not its turn.\<close>

definition lock_wait :: "tid \<Rightarrow> nat \<Rightarrow> lsys \<Rightarrow> lsys" where
  "lock_wait t tk s = s\<lparr>lwq := snd (wait_iter t (my_turn (lk s) tk) (lwq s))\<rparr>"

section \<open>The machine\<close>

inductive lock_step :: "lsys \<Rightarrow> lsys \<Rightarrow> bool" where
  k_enter: "ph s me = Out \<or> ph s me = Hold \<Longrightarrow> me = None \<longrightarrow> \<not> cs \<Longrightarrow>
     next_ticket (lk s) + 1 < 2 ^ 64 \<Longrightarrow> depth (lk s) + 1 < 2 ^ 32 \<Longrightarrow> lock_step s (snd (lock_enter me cs False s))"
| k_sleep: "ph s (Some t) = Wait tk p \<Longrightarrow> t \<notin> lwq s \<Longrightarrow> lock_step s (lock_wait t tk s)"
| k_ended: "lock_step s (s\<lparr>lwq := lwq s - {t}\<rparr>)"
| k_acquire: "ph s me = Wait tk p \<Longrightarrow> (\<And>t. me = Some t \<Longrightarrow> t \<notin> lwq s) \<Longrightarrow> my_turn (lk s) tk \<Longrightarrow> lock_step s (lock_acquire me p s)"
| k_unlock: "ph s me = Hold \<Longrightarrow> lock_step s (lock_unlock me s)"
| k_pass: "ph s me = Hold \<Longrightarrow> next_ticket (lk s) + 1 < 2 ^ 64 \<Longrightarrow> lock_step s (lock_pass me cs s)"

definition lock_boot :: lsys where
  "lock_boot = \<lparr>lk = \<lparr>owner = None, depth = 0, next_ticket = 0, serving = 0\<rparr>, lwq = {}, ph = (\<lambda>_. Out),
     holds = (\<lambda>_. 0), asked = [], served = []\<rparr>"

inductive lock_reach :: "lsys \<Rightarrow> bool" where
  l_boot: "lock_reach lock_boot"
| l_step: "lock_reach s \<Longrightarrow> lock_step s s' \<Longrightarrow> lock_reach s'"

text \<open>The ticket after the one being served.\<close>

definition frontier :: "sleep_lock \<Rightarrow> nat" where
  "frontier l = serving l + (if depth l = 0 then 0 else 1)"

definition lock_inv :: "lsys \<Rightarrow> bool" where
  "lock_inv s \<longleftrightarrow>
     (\<forall>m. ph s m = Hold \<longleftrightarrow> depth (lk s) \<noteq> 0 \<and> owner (lk s) = m) \<and>
     frontier (lk s) \<le> next_ticket (lk s) \<and> next_ticket (lk s) < 2 ^ 64 \<and>
     length (asked s) = next_ticket (lk s) \<and> served s = take (frontier (lk s)) (asked s) \<and>
     (\<forall>m k p. ph s m = Wait k p \<longrightarrow>
        frontier (lk s) \<le> k \<and> k < next_ticket (lk s) \<and> asked s ! k = m) \<and>
     (\<forall>k. frontier (lk s) \<le> k \<and> k < next_ticket (lk s) \<longrightarrow> (\<exists>p. ph s (asked s ! k) = Wait k p)) \<and>
     (\<forall>t. holds s t = (case ph s (Some t) of Out \<Rightarrow> 0 | Wait _ p \<Rightarrow> if p then 2 else 1
                                            | Hold \<Rightarrow> depth (lk s))) \<and>
     depth (lk s) < 2 ^ 32"

lemma lock_invD:
  assumes "lock_inv s"
  shows "ph s m = Hold \<longleftrightarrow> depth (lk s) \<noteq> 0 \<and> owner (lk s) = m"
    "frontier (lk s) \<le> next_ticket (lk s)" "next_ticket (lk s) < 2 ^ 64"
    "length (asked s) = next_ticket (lk s)" "served s = take (frontier (lk s)) (asked s)"
    "ph s m = Wait k p \<Longrightarrow> frontier (lk s) \<le> k \<and> k < next_ticket (lk s) \<and> asked s ! k = m"
    "frontier (lk s) \<le> k \<Longrightarrow> k < next_ticket (lk s) \<Longrightarrow> \<exists>p. ph s (asked s ! k) = Wait k p"
    "holds s t = (case ph s (Some t) of Out \<Rightarrow> 0 | Wait _ p \<Rightarrow> if p then 2 else 1
                                      | Hold \<Rightarrow> depth (lk s))"
    "depth (lk s) < 2 ^ 32"
  using assms unfolding lock_inv_def by blast+

lemma lock_inv_lwq: "lock_inv (s\<lparr>lwq := q\<rparr>) = lock_inv s"
  by (simp add: lock_inv_def cong: lphase.case_cong)

lemma lock_inv_boot: "lock_inv lock_boot"
  by (simp add: lock_inv_def lock_boot_def frontier_def)

lemma lock_invI:
  assumes "\<And>m. ph s m = Hold \<longleftrightarrow> depth (lk s) \<noteq> 0 \<and> owner (lk s) = m"
    "frontier (lk s) \<le> next_ticket (lk s)" "next_ticket (lk s) < 2 ^ 64"
    "length (asked s) = next_ticket (lk s)" "served s = take (frontier (lk s)) (asked s)"
    "\<And>m k p. ph s m = Wait k p \<Longrightarrow>
       frontier (lk s) \<le> k \<and> k < next_ticket (lk s) \<and> asked s ! k = m"
    "\<And>k. frontier (lk s) \<le> k \<Longrightarrow> k < next_ticket (lk s) \<Longrightarrow> \<exists>p. ph s (asked s ! k) = Wait k p"
    "\<And>t. holds s t = (case ph s (Some t) of Out \<Rightarrow> 0 | Wait _ p \<Rightarrow> if p then 2 else 1
                                      | Hold \<Rightarrow> depth (lk s))"
    "depth (lk s) < 2 ^ 32"
  shows "lock_inv s"
  using assms unfolding lock_inv_def by blast

lemma hold_up: "n + 1 < 2 ^ 32 \<Longrightarrow> nat ((int n + 1) mod 4294967296) = Suc n"
  by (simp add: nat_mod_distrib)

lemma hold_down: "0 < n \<Longrightarrow> n < 2 ^ 32 \<Longrightarrow> nat ((int n - 1) mod 4294967296) = n - 1"
  by (simp add: nat_mod_distrib)

lemma lock_acquire_inv:
  assumes "lock_inv s" "ph s me = Wait tk p" "my_turn (lk s) tk"
  shows "lock_inv (lock_acquire me p s)"
proof -
  note i = lock_invD [OF assms(1)]
  have d: "depth (lk s) = 0" "serving (lk s) = tk"
    using assms(3) by (auto simp: my_turn_def)
  have f: "frontier (lk s) = tk" by (simp add: frontier_def d)
  have w: "tk < next_ticket (lk s)" "asked s ! tk = me"
    using i(6) [OF assms(2)] by auto
  have nh: "ph s m \<noteq> Hold" for m
    using i(1) d by simp
  let ?s = "lock_acquire me p s"
  have e: "ph ?s m = (if m = me then Hold else ph s m)" "asked ?s = asked s"
    "served ?s = served s @ [me]" "frontier (lk ?s) = Suc tk" "depth (lk ?s) = 1"
    "owner (lk ?s) = me" "next_ticket (lk ?s) = next_ticket (lk s)"
    "holds ?s = (if p then add_holds me (- 1) (holds s) else holds s)" for m
    by (simp_all add: lock_acquire_def frontier_def d)
  show ?thesis
  proof (rule lock_invI)
    show "ph ?s m = Hold \<longleftrightarrow> depth (lk ?s) \<noteq> 0 \<and> owner (lk ?s) = m" for m
      using nh by (auto simp: e)
    show "frontier (lk ?s) \<le> next_ticket (lk ?s)" using w by (simp add: e)
    show "next_ticket (lk ?s) < 2 ^ 64" "depth (lk ?s) < 2 ^ 32" using i(3) by (simp_all add: e)
    show "length (asked ?s) = next_ticket (lk ?s)" using i(4) by (simp add: e)
    show "served ?s = take (frontier (lk ?s)) (asked ?s)"
      using w i(4,5) f by (simp add: e take_Suc_conv_app_nth)
  next
    fix m k q
    assume "ph ?s m = Wait k q"
    then have m: "m \<noteq> me" "ph s m = Wait k q" by (auto simp: e split: if_splits)
    from i(6) [OF m(2)] m(1) w(2) f have "tk \<noteq> k" "tk \<le> k" by auto
    with i(6) [OF m(2)] show "frontier (lk ?s) \<le> k \<and> k < next_ticket (lk ?s) \<and> asked ?s ! k = m"
      by (auto simp: e)
  next
    fix k
    assume "frontier (lk ?s) \<le> k" "k < next_ticket (lk ?s)"
    then have k: "tk < k" "k < next_ticket (lk s)" by (auto simp: e)
    then obtain q where q: "ph s (asked s ! k) = Wait k q"
      using i(7) [of k] f by auto
    with assms(2) k have "asked s ! k \<noteq> me" by auto
    with q show "\<exists>p. ph ?s (asked ?s ! k) = Wait k p" by (simp add: e)
  next
    fix t
    show "holds ?s t = (case ph ?s (Some t) of Out \<Rightarrow> 0 | Wait _ p \<Rightarrow> if p then 2 else 1
                                      | Hold \<Rightarrow> depth (lk ?s))"
      unfolding e using i(8) [of t] assms(2) nh [of "Some t"]
      by (auto simp: add_holds_def split: option.splits lphase.splits)
  qed
qed

lemma lock_draw_inv:
  assumes "lock_inv s" "ph s me = Out" "next_ticket (lk s) + 1 < 2 ^ 64" "owner (lk s) \<noteq> me \<or> depth (lk s) = 0"
  shows "lock_inv (snd (lock_enter me cs False s))"
proof (cases "\<not> cs \<and> \<not> (depth (lk s) = 0 \<and> serving (lk s) = next_ticket (lk s))")
  case True
  then show ?thesis using assms by (auto simp: lock_enter_def Let_def)
next
  case False
  note i = lock_invD [OF assms(1)]
  let ?s = "snd (lock_enter me cs False s)" and ?n = "next_ticket (lk s)"
  have e: "ph ?s m = (if m = me then Wait ?n False else ph s m)" "asked ?s = asked s @ [me]"
    "served ?s = served s" "frontier (lk ?s) = frontier (lk s)" "depth (lk ?s) = depth (lk s)"
    "owner (lk ?s) = owner (lk s)" "next_ticket (lk ?s) = Suc ?n"
    "holds ?s = add_holds me 1 (holds s)" for m
    using False assms(3,4) by (auto simp: lock_enter_def Let_def frontier_def wrap_simps)
  show ?thesis
  proof (rule lock_invI)
    show "ph ?s m = Hold \<longleftrightarrow> depth (lk ?s) \<noteq> 0 \<and> owner (lk ?s) = m" for m
      using i(1) [of m] assms(2,4) by (auto simp: e)
    show "frontier (lk ?s) \<le> next_ticket (lk ?s)" using i(2) by (simp add: e)
    show "next_ticket (lk ?s) < 2 ^ 64" "depth (lk ?s) < 2 ^ 32" using assms(3) i(9) by (simp_all add: e)
    show "length (asked ?s) = next_ticket (lk ?s)" using i(4) by (simp add: e)
    show "served ?s = take (frontier (lk ?s)) (asked ?s)"
      using i(2,4,5) by (simp add: e)
  next
    fix m k q
    assume "ph ?s m = Wait k q"
    then show "frontier (lk ?s) \<le> k \<and> k < next_ticket (lk ?s) \<and> asked ?s ! k = m"
      using i(2,4) i(6) [of m k q] by (auto simp: e nth_append split: if_splits)
  next
    fix k
    assume k: "frontier (lk ?s) \<le> k" "k < next_ticket (lk ?s)"
    show "\<exists>p. ph ?s (asked ?s ! k) = Wait k p"
    proof (cases "k = ?n")
      case True
      then show ?thesis using i(4) by (auto simp: e nth_append)
    next
      case False
      with k obtain q where q: "ph s (asked s ! k) = Wait k q" "k < ?n"
        using i(7) [of k] by (auto simp: e)
      with assms(2) have "asked s ! k \<noteq> me" by auto
      with q i(4) show ?thesis by (auto simp: e nth_append)
    qed
  next
    fix t
    show "holds ?s t = (case ph ?s (Some t) of Out \<Rightarrow> 0 | Wait _ p \<Rightarrow> if p then 2 else 1
                                      | Hold \<Rightarrow> depth (lk ?s))"
      unfolding e using i(8) [of t] assms(2)
      by (auto simp: add_holds_def split: option.splits lphase.splits)
  qed
qed

lemma lock_nest_inv:
  assumes "lock_inv s" "ph s me = Hold" "depth (lk s) + 1 < 2 ^ 32"
  shows "lock_inv (snd (lock_enter me cs q s))"
proof -
  note i = lock_invD [OF assms(1)]
  have h: "depth (lk s) \<noteq> 0" "owner (lk s) = me" using i(1) assms(2) by auto
  let ?s = "snd (lock_enter me cs q s)"
  have e: "ph ?s = ph s" "asked ?s = asked s" "served ?s = served s"
    "frontier (lk ?s) = frontier (lk s)" "depth (lk ?s) = Suc (depth (lk s))"
    "owner (lk ?s) = owner (lk s)" "next_ticket (lk ?s) = next_ticket (lk s)"
    "holds ?s = add_holds me 1 (holds s)"
    using h assms(3) by (auto simp: lock_enter_def Let_def frontier_def wrap_simps)
  have "holds ?s t = (case ph ?s (Some t) of Out \<Rightarrow> 0 | Wait _ p \<Rightarrow> if p then 2 else 1
                                      | Hold \<Rightarrow> depth (lk ?s))" for t
    unfolding e using i(8) [of t] i(1) [of "Some t"] h assms(2,3)
    by (auto simp: add_holds_def hold_up split: option.splits lphase.splits)
  then show ?thesis
    using i h assms(3) by (intro lock_invI) (simp_all add: e)
qed


lemma lock_unlock_inv:
  assumes "lock_inv s" "ph s me = Hold"
  shows "lock_inv (lock_unlock me s)"
proof -
  note i = lock_invD [OF assms(1)]
  have h: "depth (lk s) \<noteq> 0" "owner (lk s) = me" using i(1) assms(2) by auto
  let ?s = "lock_unlock me s"
  let ?last = "depth (lk s) = 1"
  have f: "frontier (lk s) = Suc (serving (lk s))" using h by (simp add: frontier_def)
  have w: "sub32 (depth (lk s)) 1 = depth (lk s) - 1" using h i(9) by (intro sub32_id) simp_all
  have u: "u64 (Suc (serving (lk s))) = Suc (serving (lk s))"
    using i(2,3) f by (intro u64_id) simp
  have e: "ph ?s m = (if ?last \<and> m = me then Out else ph s m)" "asked ?s = asked s"
    "served ?s = served s" "frontier (lk ?s) = frontier (lk s)"
    "depth (lk ?s) = depth (lk s) - 1" "owner (lk ?s) = (if ?last then None else owner (lk s))"
    "next_ticket (lk ?s) = next_ticket (lk s)" "holds ?s = add_holds me (- 1) (holds s)" for m
    using h u f w by (auto simp: lock_unlock_def Let_def frontier_def)
  show ?thesis
  proof (rule lock_invI)
    show "ph ?s m = Hold \<longleftrightarrow> depth (lk ?s) \<noteq> 0 \<and> owner (lk ?s) = m" for m
      unfolding e using i(1) [of m] h by auto
    show "served ?s = take (frontier (lk ?s)) (asked ?s)" unfolding e by (rule i(5))
  next
    fix m k q
    assume "ph ?s m = Wait k q"
    then show "frontier (lk ?s) \<le> k \<and> k < next_ticket (lk ?s) \<and> asked ?s ! k = m"
      unfolding e using i(6) [of m k q] by (auto split: if_splits)
  next
    fix k
    assume "frontier (lk ?s) \<le> k" "k < next_ticket (lk ?s)"
    then obtain q where "ph s (asked s ! k) = Wait k q"
      using i(7) [of k] by (auto simp: e)
    with assms(2) show "\<exists>p. ph ?s (asked ?s ! k) = Wait k p" by (auto simp: e)
  next
    fix t
    show "holds ?s t = (case ph ?s (Some t) of Out \<Rightarrow> 0 | Wait _ p \<Rightarrow> if p then 2 else 1
                                      | Hold \<Rightarrow> depth (lk ?s))"
      unfolding e using i(8) [of t] i(1) [of "Some t"] i(9) h assms(2)
      by (auto simp: add_holds_def hold_down split: option.splits lphase.splits)
  qed (use i in \<open>simp_all add: e\<close>)
qed

text \<open>\<open>pass\<close>, when it does anything, is an unlock followed by drawing a ticket, with one hold
  more while the ticket waits.\<close>

lemma lock_pass_inv:
  assumes "lock_inv s" "ph s me = Hold" "next_ticket (lk s) + 1 < 2 ^ 64"
  shows "lock_inv (lock_pass me cs s)"
proof (cases "me = None \<or> owner (lk s) \<noteq> me \<or> depth (lk s) \<noteq> 1 \<or>
    next_ticket (lk s) = u64 (serving (lk s) + 1) \<or> \<not> cs")
  case True
  then show ?thesis using assms(1) by (simp add: lock_pass_def)
next
  case False
  then obtain t0 where me: "me = Some t0" and d: "depth (lk s) = 1" "owner (lk s) = me" and cs: cs
    by auto
  note i = lock_invD [OF assms(1)]
  let ?n = "next_ticket (lk s)"
  have f: "frontier (lk s) = Suc (serving (lk s))" using d by (simp add: frontier_def)
  have u: "u64 (Suc (serving (lk s))) = Suc (serving (lk s))"
    using i(2,3) f by (intro u64_id) simp
  have u': "u64 (Suc ?n) = Suc ?n" using assms(3) by (intro u64_id) simp
  have h1: "holds s t0 = 1" using i(8) [of t0] assms(2) me d by simp
  let ?s = "lock_pass me cs s"
  have e: "ph ?s m = (if m = me then Wait ?n True else ph s m)" "asked ?s = asked s @ [me]"
    "served ?s = served s" "frontier (lk ?s) = frontier (lk s)" "depth (lk ?s) = 0"
    "next_ticket (lk ?s) = Suc ?n" "holds ?s = (holds s)(t0 := 2)" for m
    using False me cs h1 u u' by (auto simp: lock_pass_def lock_unlock_def lock_enter_def Let_def
        frontier_def add_holds_def sub32_def)
  show ?thesis
  proof (rule lock_invI)
    show "ph ?s m = Hold \<longleftrightarrow> depth (lk ?s) \<noteq> 0 \<and> owner (lk ?s) = m" for m
      unfolding e using i(1) [of m] d by auto
    show "next_ticket (lk ?s) < 2 ^ 64" "depth (lk ?s) < 2 ^ 32" using assms(3) by (simp_all add: e)
    show "served ?s = take (frontier (lk ?s)) (asked ?s)"
      using i(2,4,5) by (simp add: e)
  next
    fix m k q
    assume "ph ?s m = Wait k q"
    then show "frontier (lk ?s) \<le> k \<and> k < next_ticket (lk ?s) \<and> asked ?s ! k = m"
      using i(2,4) i(6) [of m k q] by (auto simp: e nth_append split: if_splits)
  next
    fix k
    assume k: "frontier (lk ?s) \<le> k" "k < next_ticket (lk ?s)"
    show "\<exists>p. ph ?s (asked ?s ! k) = Wait k p"
    proof (cases "k = ?n")
      case True
      then show ?thesis using i(4) by (auto simp: e nth_append)
    next
      case False
      with k obtain q where q: "ph s (asked s ! k) = Wait k q" "k < ?n"
        using i(7) [of k] by (auto simp: e)
      with assms(2) have "asked s ! k \<noteq> me" by auto
      with q i(4) show ?thesis by (auto simp: e nth_append)
    qed
  next
    fix t
    show "holds ?s t = (case ph ?s (Some t) of Out \<Rightarrow> 0 | Wait _ p \<Rightarrow> if p then 2 else 1
                                      | Hold \<Rightarrow> depth (lk ?s))"
      unfolding e using i(8) [of t] i(1) [of "Some t"] me d
      by (auto split: lphase.splits)
  qed (use i(2,4) in \<open>simp_all add: e\<close>)
qed

lemma lock_step_inv: "lock_step s s' \<Longrightarrow> lock_inv s \<Longrightarrow> lock_inv s'"
proof (induction rule: lock_step.induct)
  case (k_enter s me cs)
  show ?case
  proof (cases "ph s me = Hold")
    case True
    with k_enter show ?thesis by (intro lock_nest_inv)
  next
    case False
    with k_enter have "ph s me = Out" "owner (lk s) \<noteq> me \<or> depth (lk s) = 0"
      using lock_invD(1) [OF k_enter.prems, of me] by auto
    with k_enter show ?thesis by (intro lock_draw_inv)
  qed
qed (auto intro: lock_acquire_inv lock_unlock_inv lock_pass_inv simp: lock_wait_def lock_inv_lwq)

lemma lock_reach_inv: "lock_reach s \<Longrightarrow> lock_inv s"
  by (induction rule: lock_reach.induct) (auto intro: lock_inv_boot lock_step_inv)

text \<open>Whether thread \<open>t\<close> has a ticket and it is its turn.\<close>

definition turn_come :: "nat \<Rightarrow> lsys \<Rightarrow> bool" where
  "turn_come t s = (case ph s (Some t) of Wait tk p \<Rightarrow> my_turn (lk s) tk | _ \<Rightarrow> False)"

text \<open>Only threads with a ticket sleep on the lock.\<close>

definition sleepers_wait :: "lsys \<Rightarrow> bool" where
  "sleepers_wait s \<longleftrightarrow> (\<forall>t \<in> lwq s. \<exists>k p. ph s (Some t) = Wait k p)"

lemma lock_enter_sleepers:
  assumes "sleepers_wait s"
  shows "sleepers_wait (snd (lock_enter me cs q s))"
  using assms by (auto simp: sleepers_wait_def lock_enter_def Let_def)

lemma lock_unlock_sleepers:
  assumes "sleepers_wait s" "ph s me = Hold"
  shows "sleepers_wait (lock_unlock me s)"
  using assms by (fastforce simp: sleepers_wait_def lock_unlock_def Let_def)

lemma lock_step_sleepers: "lock_step s s' \<Longrightarrow> sleepers_wait s \<Longrightarrow> sleepers_wait s'"
proof (induction rule: lock_step.induct)
  case (k_pass s me cs)
  let ?s = "s\<lparr>holds := add_holds me 1 (holds s)\<rparr>"
  have "sleepers_wait ?s" "ph ?s me = Hold" using k_pass by (simp_all add: sleepers_wait_def)
  from lock_enter_sleepers [OF lock_unlock_sleepers [OF this]] k_pass.prems show ?case
    by (simp add: lock_pass_def Let_def)
next
  case (k_acquire s me tk p)
  then show ?case by (fastforce simp: sleepers_wait_def lock_acquire_def)
next
  case (k_sleep s t tk p)
  then show ?case by (auto simp: sleepers_wait_def lock_wait_def dest!: wait_iter_sleeps)
next
  case (k_ended s t)
  then show ?case by (simp add: sleepers_wait_def)
qed (blast intro: lock_enter_sleepers lock_unlock_sleepers)+

interpretation lockwait: wait_discipline "\<lambda>s. lock_inv s \<and> sleepers_wait s" lock_step lwq turn_come
proof
  fix s s' t
  assume inv: "lock_inv s \<and> sleepers_wait s" and st: "lock_step s s'"
  show "lock_inv s' \<and> sleepers_wait s'"
    using inv st lock_step_inv lock_step_sleepers by blast
  assume w: "t \<in> lwq s'" and c: "turn_come t s'"
  have sl: "\<exists>k p. ph s (Some t) = Wait k p" if "t \<in> lwq s"
    using inv that by (auto simp: sleepers_wait_def)
  from st show "t \<in> lwq s \<and> turn_come t s"
  proof (cases rule: lock_step.cases)
    case (k_enter me cs)
    then have q: "lwq s' = lwq s" by (simp add: lock_enter_def Let_def)
    then have "me \<noteq> Some t" using w sl k_enter by auto
    moreover have "u32 (depth (lk s) + 1) = depth (lk s) + 1" using k_enter by (intro u32_id)
    ultimately show ?thesis using k_enter w c q
      by (auto simp: turn_come_def lock_enter_def my_turn_def Let_def split: lphase.splits if_splits)
  next
    case (k_sleep u tk p)
    have k: "turn_come t s" using c k_sleep by (simp add: turn_come_def lock_wait_def cong: lphase.case_cong)
    moreover have "t \<in> lwq s \<or> t = u \<and> \<not> my_turn (lk s) tk"
      using w k_sleep wait_iter_sleeps by (simp add: lock_wait_def)
    ultimately show ?thesis using k_sleep by (auto simp: turn_come_def)
  next
    case (k_ended u)
    then show ?thesis using w c by (simp add: turn_come_def cong: lphase.case_cong)
  next
    case (k_acquire me tk p)
    then show ?thesis
      using c by (auto simp: turn_come_def lock_acquire_def my_turn_def split: lphase.splits)
  next
    case (k_unlock me)
    then show ?thesis
      using w c by (auto simp: turn_come_def lock_unlock_def my_turn_def Let_def
          split: lphase.splits if_splits)
  next
    case (k_pass me cs)
    show ?thesis
    proof (cases "s' = s")
      case False
      then have "lwq s' = {}"
        using k_pass by (auto simp: lock_pass_def lock_unlock_def lock_enter_def Let_def wake_up_def sub32_def
            split: if_splits)
      with w show ?thesis by simp
    qed (use w c in simp)
  qed
qed

lemma lock_reach_steps: "lock_reach s \<Longrightarrow> lock_step\<^sup>*\<^sup>* lock_boot s"
  by (induction rule: lock_reach.induct) (auto intro: rtranclp.rtrancl_into_rtrancl)

lemma lock_sleepers_not_served: "lock_reach s \<Longrightarrow> t \<in> lwq s \<Longrightarrow> \<not> turn_come t s"
  using lockwait.sleeps_only_on_false [OF lock_reach_steps] lock_inv_boot
  by (simp add: lock_boot_def sleepers_wait_def)


section \<open>Properties\<close>

text \<open>C10. Mutual exclusion: whatever the interleaving of the threads, as long as the lock is nested less
  than \<open>2 ^ 32 - 1\<close> deep and fewer than \<open>2 ^ 64\<close> tickets are drawn, at most one of them is
  between a successful \<open>lock\<close> and its last \<open>unlock\<close>, and the lock's owner field names it.\<close>

theorem lock_mutual_exclusion:
  assumes "lock_reach s" "ph s m = Hold"
  shows "owner (lk s) = m \<and> 0 < depth (lk s) \<and> (\<forall>m'. ph s m' = Hold \<longrightarrow> m' = m)"
  using lock_invD(1) [OF lock_reach_inv [OF assms(1)]] assms(2) by auto

text \<open>Thread 1 has the lock, taken twice, and thread 2 waits for it.\<close>

definition lock_demo :: lsys where
  "lock_demo = snd (lock_enter (Some 2) True False (snd (lock_enter (Some 1) True False
     (lock_acquire (Some 1) False (snd (lock_enter (Some 1) True False lock_boot))))))"

lemmas lock_eval = lock_demo_def lock_enter_def lock_acquire_def lock_boot_def add_holds_def
  u64_def u32_def my_turn_def Let_def

lemma lock_demo_reach: "lock_reach lock_demo"
proof -
  let ?a = "snd (lock_enter (Some 1) True False lock_boot)"
  let ?b = "lock_acquire (Some 1) False ?a"
  let ?c = "snd (lock_enter (Some 1) True False ?b)"
  have "lock_reach ?a"
    by (rule l_step [OF l_boot], rule k_enter) (simp_all add: lock_boot_def)
  then have "lock_reach ?b"
    by (rule l_step, intro k_acquire [of _ _ 0]) (simp_all add: lock_eval)
  then have "lock_reach ?c"
    by (rule l_step, intro k_enter) (simp_all add: lock_eval)
  then have "lock_reach (snd (lock_enter (Some 2) True False ?c))"
    by (rule l_step, intro k_enter) (simp_all add: lock_eval)
  then show ?thesis by (simp add: lock_demo_def)
qed

theorem lock_mutual_exclusion_witness:
  "ph lock_demo (Some 1) = Hold \<and> owner (lk lock_demo) = Some 1 \<and> ph lock_demo (Some 2) \<noteq> Hold"
proof -
  have h: "ph lock_demo (Some 1) = Hold" by (simp add: lock_eval)
  note l = lock_mutual_exclusion [OF lock_demo_reach h]
  have "owner (lk lock_demo) = Some 1" "ph lock_demo (Some 2) = Hold \<longrightarrow> Some 2 = (Some 1 :: tid option)"
    using l by blast+
  with h show ?thesis by simp
qed

text \<open>C23. The lock is fair: it is handed out in exactly the order it was asked for. The list of
  those who got it is a prefix of the list of those who asked (within the same bounds on nesting and tickets).\<close>

theorem lock_first_come_first_served:
  "lock_reach s \<Longrightarrow> served s = take (length (served s)) (asked s)"
  using lock_invD(2,4,5) [OF lock_reach_inv] by (metis length_take min.absorb2)

theorem lock_first_come_first_served_witness:
  "served lock_demo = [Some 1] \<and> served lock_demo = take 1 (asked lock_demo)"
proof -
  have "served lock_demo = [Some 1]" by (simp add: lock_eval)
  with lock_first_come_first_served [OF lock_demo_reach] show ?thesis by simp
qed

text \<open>The lock never gets stuck: in every reachable state where nobody has it and tickets are out, the
  one with the ticket being served exists, is not asleep on the lock's queue, and its step out of the
  waiting loop is possible and gives it the lock. And in every reachable state, free or held, a thread's
  \<open>holds\<close> count is 0 exactly when it neither has the lock nor has a ticket for it: threads with a count
  of 0 are the only ones that are ended where they are.\<close>

theorem lock_progress:
  assumes "lock_reach s"
  shows "(depth (lk s) = 0 \<and> serving (lk s) \<noteq> next_ticket (lk s) \<longrightarrow>
      (\<exists>m p. ph s m = Wait (serving (lk s)) p \<and> (\<forall>t. m = Some t \<longrightarrow> t \<notin> lwq s) \<and>
        lock_step s (lock_acquire m p s) \<and> ph (lock_acquire m p s) m = Hold)) \<and>
    (\<forall>t. holds s t = 0 \<longleftrightarrow> ph s (Some t) = Out)"
proof -
  note i = lock_invD [OF lock_reach_inv [OF assms(1)]]
  have "\<exists>m p. ph s m = Wait (serving (lk s)) p \<and> (\<forall>t. m = Some t \<longrightarrow> t \<notin> lwq s) \<and>
        lock_step s (lock_acquire m p s) \<and> ph (lock_acquire m p s) m = Hold"
    if f: "depth (lk s) = 0" "serving (lk s) \<noteq> next_ticket (lk s)"
  proof -
    have mt: "my_turn (lk s) (serving (lk s))" using f(1) by (simp add: my_turn_def)
    obtain p where p: "ph s (asked s ! serving (lk s)) = Wait (serving (lk s)) p"
      using i(2) i(7) [of "serving (lk s)"] f by (auto simp: frontier_def)
    have "t \<notin> lwq s" if "asked s ! serving (lk s) = Some t" for t
      using lock_sleepers_not_served [OF assms(1), of t] p mt that by (auto simp: turn_come_def)
    with p mt k_acquire [OF p _ mt] show ?thesis
      by (intro exI [of _ "asked s ! serving (lk s)"] exI [of _ p]) (auto simp: lock_acquire_def)
  qed
  moreover have "holds s t = 0 \<longleftrightarrow> ph s (Some t) = Out" for t
    using i(8) [of t] i(1) [of "Some t"] by (auto split: lphase.splits if_splits)
  ultimately show ?thesis by blast
qed

text \<open>A free lock with a ticket out, and the held lock of \<open>lock_demo\<close>.\<close>

theorem lock_progress_witness:
  "(\<exists>m p. ph (snd (lock_enter (Some 1) True False lock_boot)) m = Wait 0 p) \<and>
   holds lock_demo 1 \<noteq> 0 \<and> holds lock_demo 2 \<noteq> 0 \<and> holds lock_demo 3 = 0"
proof -
  let ?a = "snd (lock_enter (Some 1) True False lock_boot)"
  have "lock_reach ?a"
    by (rule l_step [OF l_boot], rule k_enter) (simp_all add: lock_boot_def)
  from lock_progress [OF this] have "\<exists>m p. ph ?a m = Wait 0 p" by (auto simp: lock_eval)
  moreover have "ph lock_demo (Some 1) = Hold" "\<exists>k. ph lock_demo (Some 2) = Wait k False" "ph lock_demo (Some 3) = Out"
    by (simp_all add: lock_eval)
  then have "holds lock_demo 1 \<noteq> 0" "holds lock_demo 2 \<noteq> 0" "holds lock_demo 3 = 0"
    using lock_progress [OF lock_demo_reach] by auto
  ultimately show ?thesis by blast
qed

text \<open>\<open>pass\<close> gives everybody who waits their turn first: the caller draws a fresh ticket
  behind all that are out, the lock is free for the oldest of them, and the order of the others
  is kept.\<close>

theorem lock_pass_goes_last:
  assumes "lock_reach s" "ph s (Some t) = Hold" "depth (lk s) = 1"
    and "next_ticket (lk s) \<noteq> serving (lk s) + 1" "next_ticket (lk s) + 1 < 2 ^ 64"
  shows "ph (lock_pass (Some t) True s) (Some t) = Wait (next_ticket (lk s)) True \<and>
    depth (lk (lock_pass (Some t) True s)) = 0 \<and>
    serving (lk (lock_pass (Some t) True s)) = serving (lk s) + 1 \<and>
    (\<exists>m p. m \<noteq> Some t \<and> ph (lock_pass (Some t) True s) m = Wait (serving (lk s) + 1) p) \<and>
    (\<forall>m. m \<noteq> Some t \<longrightarrow> ph (lock_pass (Some t) True s) m = ph s m)"
proof -
  note i = lock_invD [OF lock_reach_inv [OF assms(1)]]
  have o: "owner (lk s) = Some t" using i(1) assms(2) by simp
  have f: "frontier (lk s) = Suc (serving (lk s))" using assms(3) by (simp add: frontier_def)
  have "u64 (Suc (serving (lk s))) = Suc (serving (lk s))"
    "u64 (Suc (next_ticket (lk s))) = Suc (next_ticket (lk s))"
    using i(2,3) f assms(5) by (auto intro!: u64_id)
  moreover obtain p where "ph s (asked s ! Suc (serving (lk s))) = Wait (Suc (serving (lk s))) p"
    using i(2) i(7) [of "Suc (serving (lk s))"] f assms(4) by auto
  moreover from this assms(2) have "asked s ! Suc (serving (lk s)) \<noteq> Some t" by auto
  ultimately show ?thesis
    using o assms(3,4)
    by (auto simp: lock_pass_def lock_unlock_def lock_enter_def Let_def add_holds_def sub32_def)
qed

theorem lock_pass_goes_last_witness:
  "\<exists>m p. m \<noteq> Some 1 \<and>
     ph (lock_pass (Some 1) True (lock_unlock (Some 1) lock_demo)) m = Wait 1 p"
proof -
  let ?s = "lock_unlock (Some 1) lock_demo"
  have r: "lock_reach ?s"
    by (rule l_step [OF lock_demo_reach], rule k_unlock) (simp add: lock_eval)
  have "ph ?s (Some 1) = Hold" "depth (lk ?s) = 1" "next_ticket (lk ?s) \<noteq> serving (lk ?s) + 1"
    "next_ticket (lk ?s) + 1 < 2 ^ 64" "serving (lk ?s) = 0"
    by (simp_all add: lock_eval lock_unlock_def sub32_def)
  with lock_pass_goes_last [OF r] show ?thesis by auto
qed

end
