(* ===== verification/Fifo.thy ===== *)
theory Fifo
  imports Prelude "HOL-Library.Sublist"
begin

text \<open>
  The interface of a bounded first-in first-out queue, as the readers and writers of a ring
  buffer of the kernel rely on it: a list of waiting items, a capacity, a \<open>push\<close> that appends or, on
  a full queue, drops what comes, and a \<open>pop\<close> that takes the oldest item. What its clients get is
  proved once here, from those laws: over any sequence of operations nothing is lost, doubled or
  reordered. The keyboard queues (Tty) are an interpretation of it.
\<close>

datatype 'a fifo_op = Push 'a | Pop

text \<open>A run of operations: what \<open>push\<close> accepted, what \<open>pop\<close> returned, and the queue after it.\<close>

fun fifo_run :: "('q \<Rightarrow> bool) \<Rightarrow> ('a \<Rightarrow> 'q \<Rightarrow> 'q) \<Rightarrow> ('q \<Rightarrow> 'a option \<times> 'q) \<Rightarrow>
    'a fifo_op list \<Rightarrow> 'q \<Rightarrow> 'a list \<times> 'a list \<times> 'q" where
  "fifo_run full push pop [] q = ([], [], q)"
| "fifo_run full push pop (Push x # os) q =
     (case fifo_run full push pop os (push x q) of (i, out, q') \<Rightarrow>
        (if full q then i else x # i, out, q'))"
| "fifo_run full push pop (Pop # os) q =
     (case pop q of
        (None, q1) \<Rightarrow> fifo_run full push pop os q1
      | (Some x, q1) \<Rightarrow> (case fifo_run full push pop os q1 of (i, out, q') \<Rightarrow> (i, x # out, q')))"

definition pushed :: "'a fifo_op list \<Rightarrow> 'a list" where
  "pushed os = concat (map (\<lambda>op. case op of Push x \<Rightarrow> [x] | Pop \<Rightarrow> []) os)"

lemma pushed_simps [simp]:
  "pushed [] = []" "pushed (Push x # os) = x # pushed os" "pushed (Pop # os) = pushed os"
  by (simp_all add: pushed_def)

locale bounded_fifo =
  fixes invar :: "'q \<Rightarrow> bool"
    and items :: "'q \<Rightarrow> 'a list"
    and capacity :: nat
    and full :: "'q \<Rightarrow> bool"
    and push :: "'a \<Rightarrow> 'q \<Rightarrow> 'q"
    and pop :: "'q \<Rightarrow> 'a option \<times> 'q"
  assumes full_iff: "invar q \<Longrightarrow> full q \<longleftrightarrow> length (items q) = capacity"
    and items_bound: "invar q \<Longrightarrow> length (items q) \<le> capacity"
    and push_items: "invar q \<Longrightarrow> items (push x q) = (if full q then items q else items q @ [x])"
    and push_invar: "invar q \<Longrightarrow> invar (push x q)"
    and pop_none: "invar q \<Longrightarrow> items q = [] \<Longrightarrow> pop q = (None, q)"
    and pop_some: "invar q \<Longrightarrow> items q \<noteq> [] \<Longrightarrow>
      fst (pop q) = Some (hd (items q)) \<and> items (snd (pop q)) = tl (items q)"
    and pop_invar: "invar q \<Longrightarrow> invar (snd (pop q))"
begin

text \<open>What waited at the start and what was accepted since is what came out and what waits now.\<close>

lemma run_order:
  assumes "invar q" "fifo_run full push pop os q = (i, out, q')"
  shows "items q @ i = out @ items q' \<and> invar q'"
  using assms
proof (induction os arbitrary: q i out q')
  case (Cons op os)
  show ?case
  proof (cases op)
    case (Push x)
    obtain i1 out1 q1 where r: "fifo_run full push pop os (push x q) = (i1, out1, q1)"
      by (cases "fifo_run full push pop os (push x q)") auto
    have "items (push x q) @ i1 = out1 @ items q1 \<and> invar q1"
      using Cons.IH [OF push_invar [OF Cons.prems(1)] r] .
    with Cons.prems Push r show ?thesis
      by (auto simp: push_items split: if_splits)
  next
    case Pop
    show ?thesis
    proof (cases "items q = []")
      case True
      with Cons.prems Pop pop_none have "fifo_run full push pop os q = (i, out, q')"
        by simp
      with Cons.IH Cons.prems(1) show ?thesis by simp
    next
      case False
      obtain q1 where p: "pop q = (Some (hd (items q)), q1)" "items q1 = tl (items q)"
        using pop_some [OF Cons.prems(1) False] by (cases "pop q") auto
      obtain i1 out1 q2 where r: "fifo_run full push pop os q1 = (i1, out1, q2)"
        by (cases "fifo_run full push pop os q1") auto
      have "items q1 @ i1 = out1 @ items q2 \<and> invar q2"
        using Cons.IH [OF _ r] pop_invar [OF Cons.prems(1)] p(1) by simp
      with Cons.prems(2) Pop p r False show ?thesis
        by (cases "items q") auto
    qed
  qed
qed simp

lemma run_bounded:
  assumes "invar q" "fifo_run full push pop os q = (i, out, q')"
  shows "length (items q') \<le> capacity"
  using run_order [OF assms] items_bound by blast

text \<open>What is accepted is offered, in its order; all of it when there is room for all of it.\<close>

lemma run_accepts:
  assumes "invar q" "fifo_run full push pop os q = (i, out, q')"
  shows "subseq i (pushed os)"
  using assms
proof (induction os arbitrary: q i out q')
  case (Cons op os)
  show ?case
  proof (cases op)
    case (Push x)
    with Cons.prems Cons.IH [OF push_invar [OF Cons.prems(1)]] show ?thesis
      by (auto split: prod.splits if_splits)
  next
    case Pop
    with Cons.prems Cons.IH pop_invar [OF Cons.prems(1)] show ?thesis
      by (fastforce split: prod.splits option.splits)
  qed
qed simp

lemma run_accepts_all:
  assumes "invar q" "fifo_run full push pop os q = (i, out, q')"
    and "length (items q) + length (pushed os) \<le> capacity"
  shows "i = pushed os"
  using assms
proof (induction os arbitrary: q i out q')
  case (Cons op os)
  show ?case
  proof (cases op)
    case (Push x)
    then have nf: "\<not> full q" using Cons.prems by (simp add: full_iff)
    obtain i1 out1 q1 where r: "fifo_run full push pop os (push x q) = (i1, out1, q1)"
      by (cases "fifo_run full push pop os (push x q)") auto
    have "i1 = pushed os"
      using Cons.IH [OF push_invar [OF Cons.prems(1)] r] Cons.prems Push nf
      by (simp add: push_items)
    with Cons.prems(2) Push nf r show ?thesis by simp
  next
    case Pop
    obtain r q1 where p: "pop q = (r, q1)" by (cases "pop q")
    have b: "invar q1" "length (items q1) \<le> length (items q)"
      using pop_invar [OF Cons.prems(1)] pop_none [OF Cons.prems(1)] pop_some [OF Cons.prems(1)] p
      by (cases "items q = []"; simp)+
    have "fst (fifo_run full push pop os q1) = i"
      using Cons.prems(2) Pop p by (auto split: prod.splits option.splits)
    then obtain o2 q2 where "fifo_run full push pop os q1 = (i, o2, q2)"
      by (cases "fifo_run full push pop os q1") auto
    from Cons.IH [OF b(1) this] b(2) Cons.prems(3) Pop show ?thesis by simp
  qed
qed simp

end

end
