(* ===== verification/Tty.thy ===== *)
theory Tty
  imports Fifo Waitqueue
begin

text \<open>
  The key queues of the screens (src/src/kernel/drivers/tty.cpp): one ring of 128 slots per screen,
  filled from the keyboard interrupt and read by the owner of the screen's input, and the queue of
  readers asleep in \<open>wait_key\<close>. One slot of a ring always stays empty, so it holds 127 events. A
  key event is an opaque value here. \<open>write\<close>, which only hands bytes to the screen and the serial
  port, is left out.

  What a reader's \<open>stop\<close> function answers is state outside this file: the component \<open>stop_now\<close>,
  changed by \<open>set_stop\<close>, whose caller then wakes the readers as tty.h asks of it.

  The lemmas show that each ring is a bounded first-in first-out queue, that a screen's queue is
  touched only by operations on that screen, and that no reader sleeps on while a key waits for it.
\<close>

definition RING_SIZE :: nat where
  "RING_SIZE = 128"

definition TERM_ALL_SCREENS :: nat where
  "TERM_ALL_SCREENS = 9 + 16"

record 'e KeyRing =
  evs :: "'e list"
  head :: nat
  tail :: nat

text \<open>\<open>key_wait t\<close> is the \<open>KeyWait\<close> argument of thread \<open>t\<close>: its screen, and whether it gave a
  \<open>stop\<close> function.\<close>

record 'e tty =
  rings :: "'e KeyRing list"
  input_wq :: wait_queue
  key_wait :: "nat \<Rightarrow> nat \<times> bool"
  stop_now :: "nat \<Rightarrow> bool"

definition ring_empty :: "'e KeyRing \<Rightarrow> bool" where
  "ring_empty r \<longleftrightarrow> head r = tail r"

definition key_or_stop :: "nat \<Rightarrow> 'e tty \<Rightarrow> bool" where
  "key_or_stop t s = (case key_wait s t of (screen, has_stop) \<Rightarrow>
     \<not> ring_empty (rings s ! screen) \<or> (has_stop \<and> stop_now s screen))"

text \<open>The two ring updates inside \<open>on_key\<close> and \<open>pop_key\<close>.\<close>

definition ring_push :: "'e \<Rightarrow> 'e KeyRing \<Rightarrow> 'e KeyRing" where
  "ring_push e r =
     (let nxt = (head r + 1) mod RING_SIZE in
      if nxt = tail r then r else r\<lparr>evs := (evs r)[head r := e], head := nxt\<rparr>)"

definition ring_pop :: "'e KeyRing \<Rightarrow> 'e option \<times> 'e KeyRing" where
  "ring_pop r =
     (if head r = tail r then (None, r)
      else (Some (evs r ! tail r), r\<lparr>tail := (tail r + 1) mod RING_SIZE\<rparr>))"

definition on_key :: "'e \<Rightarrow> nat \<Rightarrow> 'e tty \<Rightarrow> 'e tty" where
  "on_key e screen s =
     (if screen \<ge> TERM_ALL_SCREENS then s
      else let r = rings s ! screen in
        if (head r + 1) mod RING_SIZE = tail r then s
        else s\<lparr>rings := (rings s)[screen := ring_push e r], input_wq := wake_up (input_wq s)\<rparr>)"

definition pop_key :: "nat \<Rightarrow> 'e tty \<Rightarrow> 'e option \<times> 'e tty" where
  "pop_key screen s =
     (if screen \<ge> TERM_ALL_SCREENS then (None, s)
      else case ring_pop (rings s ! screen) of
        (r, q) \<Rightarrow> (r, s\<lparr>rings := (rings s)[screen := q]\<rparr>))"

definition peek_key :: "nat \<Rightarrow> 'e tty \<Rightarrow> 'e option" where
  "peek_key screen s =
     (if screen \<ge> TERM_ALL_SCREENS then None
      else let r = rings s ! screen in
        if head r = tail r then None else Some (evs r ! tail r))"

definition wake_key_waiters :: "'e tty \<Rightarrow> 'e tty" where
  "wake_key_waiters s = s\<lparr>input_wq := wake_up (input_wq s)\<rparr>"

text \<open>\<open>wait_key\<close> by thread \<open>t\<close>, up to its first sleep or its return: \<open>Some True\<close> when it returns
  true, \<open>Some False\<close> for a screen out of range, \<open>None\<close> when it went to sleep.\<close>

definition wait_key_iter :: "nat \<Rightarrow> 'e tty \<Rightarrow> bool option \<times> 'e tty" where
  "wait_key_iter t s = (case wait_iter t (key_or_stop t s) (input_wq s) of
     (go, q) \<Rightarrow> (if go then Some True else None, s\<lparr>input_wq := q\<rparr>))"

definition wait_key :: "nat \<Rightarrow> nat \<Rightarrow> bool \<Rightarrow> 'e tty \<Rightarrow> bool option \<times> 'e tty" where
  "wait_key t screen has_stop s =
     (if screen \<ge> TERM_ALL_SCREENS then (Some False, s)
      else wait_key_iter t (s\<lparr>key_wait := (key_wait s)(t := (screen, has_stop))\<rparr>))"

definition set_stop :: "(nat \<Rightarrow> bool) \<Rightarrow> 'e tty \<Rightarrow> 'e tty" where
  "set_stop f s = wake_key_waiters (s\<lparr>stop_now := f\<rparr>)"

text \<open>The interrupt, the readers and the rest of the system in any order. A thread that sleeps
  cannot call \<open>wait_key\<close>; it leaves the queue when it is woken, or when its process is to be
  ended (\<open>y_end\<close>), and looks again (\<open>y_again\<close>).\<close>

inductive tty_step :: "'e tty \<Rightarrow> 'e tty \<Rightarrow> bool" where
  y_key: "tty_step s (on_key e screen s)"
| y_pop: "tty_step s (snd (pop_key screen s))"
| y_wait: "t \<notin> input_wq s \<Longrightarrow> tty_step s (snd (wait_key t screen has_stop s))"
| y_again: "t \<notin> input_wq s \<Longrightarrow> tty_step s (snd (wait_key_iter t s))"
| y_end: "tty_step s (s\<lparr>input_wq := input_wq s - {t}\<rparr>)"
| y_stop: "tty_step s (set_stop f s)"

section \<open>A ring is a bounded queue\<close>

definition ring_ok :: "'e KeyRing \<Rightarrow> bool" where
  "ring_ok r \<longleftrightarrow> length (evs r) = RING_SIZE \<and> head r < RING_SIZE \<and> tail r < RING_SIZE"

definition ring_count :: "'e KeyRing \<Rightarrow> nat" where
  "ring_count r = (head r + RING_SIZE - tail r) mod RING_SIZE"

definition ring_items :: "'e KeyRing \<Rightarrow> 'e list" where
  "ring_items r = map (\<lambda>i. evs r ! ((tail r + i) mod RING_SIZE)) [0..<ring_count r]"

definition ring_full :: "'e KeyRing \<Rightarrow> bool" where
  "ring_full r \<longleftrightarrow> (head r + 1) mod RING_SIZE = tail r"

lemma ring_wrap: "i < 2 * RING_SIZE \<Longrightarrow> i mod RING_SIZE = (if i < RING_SIZE then i else i - RING_SIZE)"
  by (simp add: mod_if)

lemma ring_succ: "i < RING_SIZE \<Longrightarrow> (i + 1) mod RING_SIZE = (if i + 1 = RING_SIZE then 0 else i + 1)"
  by (auto simp: mod_if)

lemma ring_count_cases:
  assumes "ring_ok r"
  shows "ring_count r = (if tail r \<le> head r then head r - tail r else head r + RING_SIZE - tail r)"
proof (cases "tail r \<le> head r")
  case True
  then have "head r + RING_SIZE - tail r = (head r - tail r) + RING_SIZE" by simp
  then have "ring_count r = (head r - tail r) mod RING_SIZE"
    by (simp only: ring_count_def mod_add_self2)
  with True assms show ?thesis by (simp add: ring_ok_def less_imp_diff_less)
qed (use assms in \<open>auto simp: ring_count_def ring_ok_def\<close>)

lemma ring_push_items:
  assumes "ring_ok r"
  shows "ring_items (ring_push x r) = (if ring_full r then ring_items r else ring_items r @ [x])"
proof (cases "ring_full r")
  case True
  then show ?thesis by (simp add: ring_push_def ring_full_def)
next
  case False
  let ?r = "ring_push x r"
  have ok: "ring_ok ?r"
    using assms by (auto simp: ring_ok_def ring_push_def Let_def RING_SIZE_def)
  have e: "evs ?r = (evs r)[head r := x]" "tail ?r = tail r"
    "head ?r = (head r + 1) mod RING_SIZE"
    using False by (auto simp: ring_push_def ring_full_def Let_def)
  have h: "(head r + 1) mod RING_SIZE = (if head r = 127 then 0 else head r + 1)"
    using assms by (auto simp: ring_ok_def RING_SIZE_def)
  have c: "ring_count ?r = Suc (ring_count r)"
    unfolding ring_count_cases [OF ok] ring_count_cases [OF assms] e h
    using assms False by (auto simp: ring_ok_def ring_full_def h RING_SIZE_def split: if_splits)
  have b: "tail r < RING_SIZE" "head r < RING_SIZE" "ring_count r < RING_SIZE"
    using assms by (auto simp: ring_ok_def ring_count_def RING_SIZE_def)
  have new: "(tail r + ring_count r) mod RING_SIZE = head r"
    using b ring_count_cases [OF assms] by (simp add: ring_wrap split: if_splits)
  have old: "(tail r + i) mod RING_SIZE \<noteq> head r" if "i < ring_count r" for i
    using that b ring_count_cases [OF assms] by (auto simp: ring_wrap split: if_splits)
  show ?thesis
    using False assms old [THEN not_sym] new by (auto simp: ring_items_def c e ring_ok_def)
qed

lemma ring_pop_items:
  assumes "ring_ok r" "ring_items r \<noteq> []"
  shows "fst (ring_pop r) = Some (hd (ring_items r))" "ring_items (snd (ring_pop r)) = tl (ring_items r)"
proof -
  have ne: "head r \<noteq> tail r" and pos: "0 < ring_count r"
    using assms by (auto simp: ring_items_def ring_count_cases)
  let ?r = "snd (ring_pop r)"
  have ok: "ring_ok ?r"
    using assms(1) by (auto simp: ring_ok_def ring_pop_def RING_SIZE_def)
  have e: "evs ?r = evs r" "head ?r = head r" "tail ?r = (tail r + 1) mod RING_SIZE"
    using ne by (auto simp: ring_pop_def)
  have c: "ring_count r = Suc (ring_count ?r)"
  proof -
    have b: "tail r < RING_SIZE" "head r < RING_SIZE" using assms(1) by (auto simp: ring_ok_def)
    then show ?thesis
      unfolding ring_count_cases [OF ok] ring_count_cases [OF assms(1)] e ring_succ [OF b(1)]
      using ne by auto
  qed
  have u: "[0..<Suc n] = 0 # map Suc [0..<n]" for n
    by (simp add: map_Suc_upt upt_conv_Cons del: upt_Suc)
  have m: "(tail r + Suc i) mod RING_SIZE = ((tail r + 1) mod RING_SIZE + i) mod RING_SIZE" for i
    by (simp add: mod_add_left_eq)
  show "fst (ring_pop r) = Some (hd (ring_items r))"
    using ne assms(1) by (simp add: ring_items_def c u ring_pop_def ring_ok_def del: upt_Suc)
  show "ring_items ?r = tl (ring_items r)"
    unfolding ring_items_def c u by (simp only: e list.map list.sel list.map_comp comp_def m)
qed

interpretation keyq: bounded_fifo ring_ok ring_items "RING_SIZE - 1" ring_full ring_push ring_pop
proof
  fix r :: "'a KeyRing" and x :: 'a
  assume ok: "ring_ok r"
  show "ring_full r \<longleftrightarrow> length (ring_items r) = RING_SIZE - 1"
  proof -
    have b: "tail r < RING_SIZE" "head r < RING_SIZE" using ok by (auto simp: ring_ok_def)
    then show ?thesis
      unfolding ring_full_def ring_items_def length_map length_upt ring_count_cases [OF ok]
        ring_succ [OF b(2)] by auto
  qed
  show "length (ring_items r) \<le> RING_SIZE - 1"
    using ok by (auto simp: ring_items_def ring_count_cases ring_ok_def RING_SIZE_def)
  show "ring_items (ring_push x r) = (if ring_full r then ring_items r else ring_items r @ [x])"
    using ok by (rule ring_push_items)
  show "ring_ok (ring_push x r)" "ring_ok (snd (ring_pop r))"
    using ok by (auto simp: ring_ok_def ring_push_def ring_pop_def Let_def RING_SIZE_def)
  show "ring_pop r = (None, r)" if "ring_items r = []"
    using that ok by (auto simp: ring_items_def ring_count_cases ring_pop_def ring_ok_def
        split: if_splits)
  show "fst (ring_pop r) = Some (hd (ring_items r)) \<and> ring_items (snd (ring_pop r)) = tl (ring_items r)"
    if "ring_items r \<noteq> []"
    using ring_pop_items [OF ok that] by simp
qed

section \<open>All screens\<close>

definition tty_ok :: "'e tty \<Rightarrow> bool" where
  "tty_ok s \<longleftrightarrow> length (rings s) = TERM_ALL_SCREENS \<and> (\<forall>r \<in> set (rings s). ring_ok r)"

datatype 'e tty_op = Key 'e nat | Get nat

text \<open>Keys typed and read on all screens in some order: the keys read, each with its screen.\<close>

fun tty_exec :: "'e tty_op list \<Rightarrow> 'e tty \<Rightarrow> (nat \<times> 'e) list \<times> 'e tty" where
  "tty_exec [] s = ([], s)"
| "tty_exec (Key e k # os) s = tty_exec os (on_key e k s)"
| "tty_exec (Get k # os) s = (case pop_key k s of
     (None, s1) \<Rightarrow> tty_exec os s1
   | (Some e, s1) \<Rightarrow> (case tty_exec os s1 of (out, s') \<Rightarrow> ((k, e) # out, s')))"

fun screen_ops :: "nat \<Rightarrow> 'e tty_op list \<Rightarrow> 'e fifo_op list" where
  "screen_ops k [] = []"
| "screen_ops k (Key e j # os) = (if j = k then Push e # screen_ops k os else screen_ops k os)"
| "screen_ops k (Get j # os) = (if j = k then Pop # screen_ops k os else screen_ops k os)"

definition keys_read :: "nat \<Rightarrow> (nat \<times> 'e) list \<Rightarrow> 'e list" where
  "keys_read k out = map snd (filter (\<lambda>p. fst p = k) out)"

lemma on_key_ring:
  assumes "tty_ok s" "k < TERM_ALL_SCREENS"
  shows "rings (on_key e j s) ! k = (if j = k then ring_push e (rings s ! k) else rings s ! k)"
  using assms by (auto simp: on_key_def tty_ok_def ring_push_def Let_def)

lemma pop_key_ring:
  assumes "tty_ok s" "k < TERM_ALL_SCREENS"
  shows "rings (snd (pop_key j s)) ! k =
      (if j = k then snd (ring_pop (rings s ! k)) else rings s ! k)"
    and "fst (pop_key k s) = fst (ring_pop (rings s ! k))"
  using assms by (auto simp: pop_key_def tty_ok_def split: prod.splits)

lemma tty_ok_step: 
  assumes "tty_ok s"
  shows "tty_ok (on_key e j s)" "tty_ok (snd (pop_key j s))"
proof -
  have r: "ring_ok (rings s ! j)" if "j < TERM_ALL_SCREENS"
    using that assms by (auto simp: tty_ok_def)
  show "tty_ok (on_key e j s)"
    using assms keyq.push_invar [OF r]
    by (auto simp: tty_ok_def on_key_def Let_def dest!: set_update_subset_insert [THEN subsetD])
  show "tty_ok (snd (pop_key j s))"
    using assms keyq.pop_invar [OF r]
    by (auto simp: tty_ok_def pop_key_def split: prod.splits
        dest!: set_update_subset_insert [THEN subsetD])
qed

lemma tty_exec_screen:
  assumes "tty_ok s" "k < TERM_ALL_SCREENS" "tty_exec os s = (out, s')"
  shows "\<exists>acc. fifo_run ring_full ring_push ring_pop (screen_ops k os) (rings s ! k)
    = (acc, keys_read k out, rings s' ! k)"
  using assms
proof (induction os arbitrary: s out)
  case Nil
  then show ?case by (simp add: keys_read_def)
next
  case (Cons op os)
  show ?case
  proof (cases op)
    case (Key e j)
    with Cons.IH [OF tty_ok_step(1) [OF Cons.prems(1)] Cons.prems(2)] Cons.prems show ?thesis
      by (fastforce simp: on_key_ring)
  next
    case (Get j)
    obtain r s1 where p: "pop_key j s = (r, s1)" by (cases "pop_key j s")
    obtain o1 s2 where x: "tty_exec os s1 = (o1, s2)" by (cases "tty_exec os s1")
    have s: "s2 = s'" "out = (case r of None \<Rightarrow> o1 | Some e \<Rightarrow> (j, e) # o1)"
      using Cons.prems(3) Get p x by (auto split: option.splits)
    have ok: "tty_ok s1" using tty_ok_step(2) [OF Cons.prems(1), of j] p by simp
    obtain acc where a: "fifo_run ring_full ring_push ring_pop (screen_ops k os) (rings s1 ! k)
        = (acc, keys_read k o1, rings s' ! k)"
      using Cons.IH [OF ok Cons.prems(2) x [unfolded s(1)]] by blast
    have q: "rings s1 ! k = (if j = k then snd (ring_pop (rings s ! k)) else rings s ! k)"
      using pop_key_ring(1) [OF Cons.prems(1,2), of j] p by simp
    show ?thesis
    proof (cases "j = k")
      case True
      then have "ring_pop (rings s ! k) = (r, rings s1 ! k)"
        using q pop_key_ring(2) [OF Cons.prems(1,2)] p by (simp add: prod_eq_iff)
      with a True Get s(2) show ?thesis by (cases r) (auto simp: keys_read_def)
    next
      case False
      with a q Get s(2) show ?thesis by (cases r) (auto simp: keys_read_def)
    qed
  qed
qed

text \<open>Reading a key never makes an empty queue look filled, and leaves the rest as it was.\<close>

lemma pop_key_empty: "ring_empty (rings s ! j) \<Longrightarrow> ring_empty (rings (snd (pop_key k s)) ! j)"
proof (cases "j = k \<and> k < length (rings s)")
  case True
  then show "ring_empty (rings s ! j) \<Longrightarrow> ?thesis"
    by (simp add: pop_key_def ring_pop_def ring_empty_def)
next
  case False
  then show "ring_empty (rings s ! j) \<Longrightarrow> ?thesis"
    by (cases "j = k") (simp_all add: pop_key_def list_update_beyond split: prod.split)
qed

lemma pop_key_rest [simp]: "input_wq (snd (pop_key k s)) = input_wq s"
  "key_wait (snd (pop_key k s)) = key_wait s" "stop_now (snd (pop_key k s)) = stop_now s"
  by (simp_all add: pop_key_def split: prod.split)

lemma key_or_stop_wq [simp]: "key_or_stop t (s\<lparr>input_wq := q\<rparr>) = key_or_stop t s"
  by (simp add: key_or_stop_def)

interpretation keywait: wait_discipline "\<lambda>_. True" tty_step input_wq key_or_stop
proof (unfold_locales, rule TrueI)
  fix s s' :: "'a tty" and t
  assume "tty_step s s'" "t \<in> input_wq s'" "key_or_stop t s'"
  then show "t \<in> input_wq s \<and> key_or_stop t s"
  proof (induction rule: tty_step.induct)
    case (y_key s e screen)
    have "on_key e screen s = s \<or> input_wq (on_key e screen s) = {}"
      by (simp add: on_key_def Let_def wake_up_def)
    with y_key show ?case by auto
  next
    case (y_pop s screen)
    then show ?case using pop_key_empty [of s _ screen] by (auto simp: key_or_stop_def)
  next
    case (y_wait u s screen has_stop)
    show ?case
    proof (cases "screen \<ge> TERM_ALL_SCREENS")
      case True
      with y_wait show ?thesis by (simp add: wait_key_def)
    next
      case False
      let ?s = "s\<lparr>key_wait := (key_wait s)(u := (screen, has_stop))\<rparr>"
      have w: "snd (wait_key u screen has_stop s)
          = ?s\<lparr>input_wq := snd (wait_iter u (key_or_stop u ?s) (input_wq s))\<rparr>"
        using False by (simp add: wait_key_def wait_key_iter_def split: prod.split)
      have k: "key_or_stop t ?s" and q: "t \<in> snd (wait_iter u (key_or_stop u ?s) (input_wq s))"
        using y_wait.prems unfolding w by simp_all
      from wait_iter_sleeps [OF q] k have "t \<in> input_wq s" by auto
      with y_wait.hyps k show ?thesis by (auto simp: key_or_stop_def split: if_splits)
    qed
  next
    case (y_again u s)
    have w: "snd (wait_key_iter u s)
        = s\<lparr>input_wq := snd (wait_iter u (key_or_stop u s) (input_wq s))\<rparr>"
      by (simp add: wait_key_iter_def split: prod.split)
    from y_again.prems show ?case unfolding w using wait_iter_sleeps by fastforce
  next
    case (y_end s u)
    then show ?case by (simp add: key_or_stop_def)
  next
    case (y_stop s f)
    then show ?case by (simp add: set_stop_def wake_key_waiters_def)
  qed
qed

section \<open>Properties\<close>

text \<open>C24. Whatever is typed and read on whichever screens, the keys read from a screen are those
  that waited there and those typed there since, each once and in order: nothing of another screen
  comes between. Keys are dropped only for want of room, and a screen never holds more than 127.\<close>

theorem key_queues_fifo:
  assumes "tty_ok s" "k < TERM_ALL_SCREENS" "tty_exec os s = (out, s')"
  shows "\<exists>acc. ring_items (rings s ! k) @ acc = keys_read k out @ ring_items (rings s' ! k)
    \<and> subseq acc (pushed (screen_ops k os))
    \<and> (length (ring_items (rings s ! k)) + length (pushed (screen_ops k os)) \<le> 127
         \<longrightarrow> acc = pushed (screen_ops k os))
    \<and> length (ring_items (rings s' ! k)) \<le> 127"
proof -
  obtain acc where r: "fifo_run ring_full ring_push ring_pop (screen_ops k os) (rings s ! k)
      = (acc, keys_read k out, rings s' ! k)"
    using tty_exec_screen [OF assms] by blast
  have ok: "ring_ok (rings s ! k)" using assms(1,2) by (auto simp: tty_ok_def)
  from keyq.run_order [OF ok r] keyq.run_bounded [OF ok r] keyq.run_accepts [OF ok r]
    keyq.run_accepts_all [OF ok r]
  show ?thesis by (auto simp: RING_SIZE_def)
qed

text \<open>C25. A reader never sleeps past a key: from any state in which nobody sleeps, whatever the
  keyboard and the readers do, no thread is asleep in \<open>wait_key\<close> while its screen has a key or
  its stop condition holds.\<close>

theorem key_reader_not_left_asleep:
  assumes "input_wq s = {}" "tty_step\<^sup>*\<^sup>* s s'" "t \<in> input_wq s'"
  shows "\<not> key_or_stop t s'"
  using keywait.sleeps_only_on_false [OF assms(2) _ _ assms(3)] assms(1) by simp

definition tty0 :: "nat tty" where
  "tty0 = \<lparr>rings = replicate TERM_ALL_SCREENS \<lparr>evs = replicate RING_SIZE 0, head = 0, tail = 0\<rparr>,
     input_wq = {}, key_wait = (\<lambda>_. (0, False)), stop_now = (\<lambda>_. False)\<rparr>"

lemma tty0_ok: "tty_ok tty0"
  by (simp add: tty_ok_def tty0_def ring_ok_def RING_SIZE_def)

theorem key_queues_fifo_witness:
  "\<exists>out s'. tty_exec [Key 7 2, Key 8 3, Key 9 2, Get 2] tty0 = (out, s') \<and>
     [7, 9] = keys_read 2 out @ ring_items (rings s' ! 2)"
proof -
  obtain out s' where x: "tty_exec [Key 7 2, Key 8 3, Key 9 2, Get 2] tty0 = (out, s')"
    by (cases "tty_exec [Key 7 2, Key 8 3, Key 9 2, Get 2] tty0")
  have e: "ring_items (rings tty0 ! 2) = []"
    by (simp add: tty0_def ring_items_def ring_count_def TERM_ALL_SCREENS_def)
  have "2 < TERM_ALL_SCREENS" by (simp add: TERM_ALL_SCREENS_def)
  from key_queues_fifo [OF tty0_ok this x] e x show ?thesis by (auto simp: pushed_def)
qed

theorem key_reader_not_left_asleep_witness:
  "5 \<in> input_wq (snd (wait_key 5 2 False tty0)) \<and> \<not> key_or_stop 5 (snd (wait_key 5 2 False tty0))"
proof -
  have a: "input_wq tty0 = {}" by (simp add: tty0_def)
  have "tty_step\<^sup>*\<^sup>* tty0 (snd (wait_key 5 2 False tty0))"
    by (intro r_into_rtranclp y_wait) (simp add: a)
  moreover have b: "5 \<in> input_wq (snd (wait_key 5 2 False tty0))"
    by (simp add: wait_key_def wait_key_iter_def wait_iter_def key_or_stop_def ring_empty_def
        tty0_def TERM_ALL_SCREENS_def)
  ultimately show ?thesis using key_reader_not_left_asleep [OF a] by blast
qed

end
