(* ===== verification/Pipe.thy ===== *)
theory Pipe
  imports Waitqueue
begin

text \<open>
  Pipes (src/src/kernel/fs/pipe.cpp): a ring of \<open>PIPE_SIZE\<close> bytes shared by a read end and a write
  end, whose users sleep on one queue. A call runs without interruption from its start, or from the
  end of a sleep, to its next sleep or its return: that is one step of the machine, which
  interleaves the calls of any number of threads with end requests and the release of the ends.
  \<open>pipe_getattr\<close>, a constant, is left out.

  The lemmas show that the bytes read are the bytes written, in order and once each, that a write
  ends (each round copies at least a byte), that readers and writers neither oversleep nor block
  each other, and that the buffer is freed once, after both ends.
\<close>

definition PIPE_SIZE :: nat where
  "PIPE_SIZE = 16 * 1024"

datatype pipe_end = READ_END | WRITE_END

record pipe_buf =
  data :: "byte list"
  head :: nat
  count :: nat
  reader_gone :: bool
  writer_gone :: bool
  wq :: wait_queue

definition readable :: "pipe_buf \<Rightarrow> bool" where
  "readable p \<longleftrightarrow> count p \<noteq> 0 \<or> writer_gone p"

definition writable :: "pipe_buf \<Rightarrow> bool" where
  "writable p \<longleftrightarrow> count p < PIPE_SIZE \<or> reader_gone p"

definition pipe_wake :: "pipe_buf \<Rightarrow> pipe_buf" where
  "pipe_wake p = p\<lparr>wq := wake_up (wq p)\<rparr>"

text \<open>The copy out of the ring in \<open>pipe_read\<close>, and the one into it in \<open>pipe_write\<close>.\<close>

definition copy_out :: "nat \<Rightarrow> pipe_buf \<Rightarrow> byte list \<times> pipe_buf" where
  "copy_out len p =
     (let n = (if len < count p then len else count p) in
      (map (\<lambda>i. data p ! ((head p + i) mod PIPE_SIZE)) [0..<n],
       p\<lparr>head := (head p + n) mod PIPE_SIZE, count := count p - n\<rparr>))"

definition copy_in :: "byte list \<Rightarrow> nat \<Rightarrow> pipe_buf \<Rightarrow> nat \<times> pipe_buf" where
  "copy_in inb dn p =
     (let room = PIPE_SIZE - count p;
          n = (if length inb - dn < room then length inb - dn else room) in
      (n, p\<lparr>data := fold (\<lambda>i d. d[(head p + count p + i) mod PIPE_SIZE := inb ! (dn + i)]) [0..<n] (data p),
            count := count p + n\<rparr>))"

text \<open>\<open>pipe_read\<close> by thread \<open>t\<close> from its wait on: \<open>None\<close> when it goes to sleep.\<close>

definition pipe_read_go :: "nat \<Rightarrow> nat \<Rightarrow> pipe_buf \<Rightarrow> byte list option \<times> pipe_buf" where
  "pipe_read_go t len p =
     (case wait_iter t (readable p) (wq p) of
        (False, q) \<Rightarrow> (None, p\<lparr>wq := q\<rparr>)
      | (True, q) \<Rightarrow> (case copy_out len (p\<lparr>wq := q\<rparr>) of (out, p') \<Rightarrow> (Some out, pipe_wake p')))"

definition pipe_read :: "nat \<Rightarrow> pipe_end \<Rightarrow> nat \<Rightarrow> pipe_buf \<Rightarrow> byte list option res \<times> pipe_buf" where
  "pipe_read t e len p =
     (if e \<noteq> READ_END then (Inl EBADF, p)
      else case pipe_read_go t len p of (r, p') \<Rightarrow> (Inr r, p'))"

text \<open>Where a write is: asleep or returned (with an error or not), after so many bytes.\<close>

datatype write_pos = WSleep nat | WRet "errno option" nat

function pipe_write_go :: "nat \<Rightarrow> byte list \<Rightarrow> nat \<Rightarrow> pipe_buf \<Rightarrow> write_pos \<times> pipe_buf" where
  "pipe_write_go t inb dn p =
     (if \<not> dn < length inb then (WRet None dn, p)
      else case wait_iter t (writable p) (wq p) of
        (False, q) \<Rightarrow> (WSleep dn, p\<lparr>wq := q\<rparr>)
      | (True, q) \<Rightarrow>
          if reader_gone p then (WRet (Some EPIPE) dn, p\<lparr>wq := q\<rparr>)
          else case copy_in inb dn (p\<lparr>wq := q\<rparr>) of
            (n, p') \<Rightarrow> pipe_write_go t inb (dn + n) (pipe_wake p'))"
  by pat_completeness auto
termination
  by (relation "measure (\<lambda>(t, inb, dn, p). length inb - dn)")
    (auto simp: copy_in_def wait_iter_def writable_def Let_def split: if_splits)

declare pipe_write_go.simps [simp del]

definition pipe_write :: "nat \<Rightarrow> pipe_end \<Rightarrow> byte list \<Rightarrow> pipe_buf \<Rightarrow> write_pos \<times> pipe_buf" where
  "pipe_write t e inb p =
     (if e \<noteq> WRITE_END then (WRet (Some EBADF) 0, p) else pipe_write_go t inb 0 p)"

text \<open>\<open>None\<close>: the buffer is freed.\<close>

definition pipe_release :: "pipe_end \<Rightarrow> pipe_buf \<Rightarrow> pipe_buf option" where
  "pipe_release e p =
     (if (if e = READ_END then writer_gone p else reader_gone p) then None
      else Some (pipe_wake (if e = READ_END then p\<lparr>reader_gone := True\<rparr>
                            else p\<lparr>writer_gone := True\<rparr>)))"

text \<open>\<open>create\<close>, given which of its three allocations succeed: the result, and the allocated
  blocks that are not freed again.\<close>

datatype pipe_block = BufBlock | RdBlock | WrBlock

definition new_pipe :: pipe_buf where
  "new_pipe = \<lparr>data = replicate PIPE_SIZE 0, head = 0, count = 0, reader_gone = False,
     writer_gone = False, wq = {}\<rparr>"

definition pipe_create :: "bool \<Rightarrow> bool \<Rightarrow> bool \<Rightarrow> pipe_buf res \<times> pipe_block set" where
  "pipe_create ok_buf ok_rd ok_wr =
     (if \<not> ok_buf then (Inl ENOMEM, {})
      else let live = {BufBlock} \<union> (if ok_rd then {RdBlock} else {});
               wr = (if ok_rd then ok_wr else False) in
        if \<not> wr then (Inl ENOMEM, (if ok_rd then live - {RdBlock} else live) - {BufBlock})
        else (Inr new_pipe, live \<union> {WrBlock}))"

section \<open>The machine\<close>

datatype pipe_call = Idle | Reading nat | Writing "byte list" nat

text \<open>\<open>sent\<close> and \<open>got\<close> are what was ever copied into the ring and out of it.\<close>

record pipe_sys =
  buf :: "pipe_buf option"
  rd_open :: bool
  wr_open :: bool
  call :: "nat \<Rightarrow> pipe_call"
  sent :: "byte list"
  got :: "byte list"

definition after_read :: "nat \<Rightarrow> nat \<Rightarrow> byte list option \<times> pipe_buf \<Rightarrow> pipe_sys \<Rightarrow> pipe_sys" where
  "after_read t len r s = (case r of
     (None, p) \<Rightarrow> s\<lparr>buf := Some p, call := (call s)(t := Reading len)\<rparr>
   | (Some out, p) \<Rightarrow> s\<lparr>buf := Some p, call := (call s)(t := Idle), got := got s @ out\<rparr>)"

definition after_write :: "nat \<Rightarrow> byte list \<Rightarrow> nat \<Rightarrow> write_pos \<times> pipe_buf \<Rightarrow> pipe_sys \<Rightarrow> pipe_sys" where
  "after_write t inb dn r s = (case r of
     (WSleep k, p) \<Rightarrow> s\<lparr>buf := Some p, call := (call s)(t := Writing inb k),
        sent := sent s @ take (k - dn) (drop dn inb)\<rparr>
   | (WRet e k, p) \<Rightarrow> s\<lparr>buf := Some p, call := (call s)(t := Idle),
        sent := sent s @ take (k - dn) (drop dn inb)\<rparr>)"

text \<open>An end is released with its last reference: nobody is in a call on it then.\<close>

inductive pipe_step :: "pipe_sys \<Rightarrow> pipe_sys \<Rightarrow> bool" where
  p_read: "buf s = Some p \<Longrightarrow> rd_open s \<Longrightarrow> call s t = Idle \<Longrightarrow>
     pipe_read t READ_END len p = (Inr r, p') \<Longrightarrow> pipe_step s (after_read t len (r, p') s)"
| p_read_on: "buf s = Some p \<Longrightarrow> call s t = Reading len \<Longrightarrow> t \<notin> wq p \<Longrightarrow>
     pipe_step s (after_read t len (pipe_read_go t len p) s)"
| p_write: "buf s = Some p \<Longrightarrow> wr_open s \<Longrightarrow> call s t = Idle \<Longrightarrow>
     pipe_step s (after_write t inb 0 (pipe_write t WRITE_END inb p) s)"
| p_write_on: "buf s = Some p \<Longrightarrow> call s t = Writing inb dn \<Longrightarrow> t \<notin> wq p \<Longrightarrow>
     pipe_step s (after_write t inb dn (pipe_write_go t inb dn p) s)"
| p_end: "buf s = Some p \<Longrightarrow>
     pipe_step s (s\<lparr>buf := Some (p\<lparr>wq := wq p - {t}\<rparr>), call := (call s)(t := Idle)\<rparr>)"
| p_close_rd: "buf s = Some p \<Longrightarrow> rd_open s \<Longrightarrow> (\<And>t len. call s t \<noteq> Reading len) \<Longrightarrow>
     pipe_step s (s\<lparr>buf := pipe_release READ_END p, rd_open := False\<rparr>)"
| p_close_wr: "buf s = Some p \<Longrightarrow> wr_open s \<Longrightarrow> (\<And>t inb dn. call s t \<noteq> Writing inb dn) \<Longrightarrow>
     pipe_step s (s\<lparr>buf := pipe_release WRITE_END p, wr_open := False\<rparr>)"

definition pipe_start :: pipe_sys where
  "pipe_start = \<lparr>buf = Some new_pipe, rd_open = True, wr_open = True, call = (\<lambda>_. Idle),
     sent = [], got = []\<rparr>"

section \<open>The ring\<close>

definition contents :: "pipe_buf \<Rightarrow> byte list" where
  "contents p = map (\<lambda>i. data p ! ((head p + i) mod PIPE_SIZE)) [0..<count p]"

definition pipe_ok :: "pipe_buf \<Rightarrow> bool" where
  "pipe_ok p \<longleftrightarrow> length (data p) = PIPE_SIZE \<and> head p < PIPE_SIZE \<and> count p \<le> PIPE_SIZE"

lemma PIPE_SIZE_pos [simp]: "0 < PIPE_SIZE"
  by (simp add: PIPE_SIZE_def)

lemma length_contents [simp]: "length (contents p) = count p"
  by (simp add: contents_def)

lemma contents_wq [simp]: "contents (p\<lparr>wq := q\<rparr>) = contents p" "pipe_ok (p\<lparr>wq := q\<rparr>) = pipe_ok p"
  by (simp_all add: contents_def pipe_ok_def)

lemma pipe_wake_simps [simp]:
  "contents (pipe_wake p) = contents p" "pipe_ok (pipe_wake p) = pipe_ok p" "wq (pipe_wake p) = {}"
  "count (pipe_wake p) = count p" "reader_gone (pipe_wake p) = reader_gone p"
  "writer_gone (pipe_wake p) = writer_gone p"
  by (simp_all add: pipe_wake_def wake_up_def)

lemma copy_out_spec:
  assumes "pipe_ok p" "copy_out len p = (out, p')"
  shows "contents p = out @ contents p'" "length out = min len (count p)" "pipe_ok p'"
    "reader_gone p' = reader_gone p" "writer_gone p' = writer_gone p" "wq p' = wq p"
proof -
  define n where "n = min len (count p)"
  have n: "n \<le> count p" by (simp add: n_def)
  have e: "out = map (\<lambda>i. data p ! ((head p + i) mod PIPE_SIZE)) [0..<n]"
    "p' = p\<lparr>head := (head p + n) mod PIPE_SIZE, count := count p - n\<rparr>"
    using assms(2) by (auto simp: copy_out_def n_def Let_def min_def split: if_splits)
  have "contents p' = map (\<lambda>i. data p ! ((head p + (n + i)) mod PIPE_SIZE)) [0..<count p - n]"
    by (simp add: contents_def e(2) mod_add_left_eq add.assoc)
  then show "contents p = out @ contents p'"
    using n by (auto simp: contents_def e(1) intro!: nth_equalityI simp: nth_append)
  show "length out = min len (count p)" by (simp add: e(1) n_def)
  show "pipe_ok p'" using assms(1) by (auto simp: pipe_ok_def e(2))
qed (use assms(2) in \<open>auto simp: copy_out_def Let_def\<close>)

text \<open>One byte stored behind the waiting ones, and \<open>n\<close> of them.\<close>

lemma store_one:
  assumes "pipe_ok p" "count p < PIPE_SIZE"
  shows "contents (p\<lparr>data := (data p)[(head p + count p) mod PIPE_SIZE := b], count := Suc (count p)\<rparr>)
    = contents p @ [b]"
proof -
  have "(head p + i) mod PIPE_SIZE \<noteq> (head p + count p) mod PIPE_SIZE" if "i < count p" for i
    using ring_index_inj [of "head p" i PIPE_SIZE "count p"] that assms(2) by auto
  from this [THEN not_sym] assms(1) show ?thesis
    by (simp add: contents_def pipe_ok_def)
qed

lemma store_many:
  assumes "pipe_ok p" "count p + n \<le> PIPE_SIZE"
  shows "contents (p\<lparr>data := fold (\<lambda>i d. d[(head p + count p + i) mod PIPE_SIZE := f i]) [0..<n] (data p),
      count := count p + n\<rparr>) = contents p @ map f [0..<n]
    \<and> length (fold (\<lambda>i d. d[(head p + count p + i) mod PIPE_SIZE := f i]) [0..<n] (data p)) = PIPE_SIZE"
  using assms(2)
proof (induction n)
  case 0
  with assms(1) show ?case by (simp add: contents_def pipe_ok_def)
next
  case (Suc n)
  define d where "d = fold (\<lambda>i d. d[(head p + count p + i) mod PIPE_SIZE := f i]) [0..<n] (data p)"
  define p1 where "p1 = p\<lparr>data := d, count := count p + n\<rparr>"
  have ih: "contents p1 = contents p @ map f [0..<n]" "length d = PIPE_SIZE"
    using Suc by (simp_all add: d_def p1_def)
  have "pipe_ok p1" "count p1 < PIPE_SIZE"
    using assms(1) Suc.prems ih(2) by (auto simp: p1_def pipe_ok_def)
  from store_one [OF this, of "f n"] ih
  have "contents (p\<lparr>data := d[(head p + count p + n) mod PIPE_SIZE := f n], count := count p + Suc n\<rparr>)
      = contents p @ map f [0..<n] @ [f n]"
    by (simp add: p1_def add.assoc)
  with ih(2) show ?case
    unfolding upt_Suc_append [OF le0] fold_append fold_simps comp_def d_def [symmetric] by simp
qed

lemma copy_in_spec:
  assumes "pipe_ok p" "copy_in inb dn p = (n, p')"
  shows "contents p' = contents p @ take n (drop dn inb)"
    "n = min (length inb - dn) (PIPE_SIZE - count p)" "pipe_ok p'"
    "reader_gone p' = reader_gone p" "writer_gone p' = writer_gone p" "wq p' = wq p"
    "count p' = count p + n"
proof -
  let ?d = "fold (\<lambda>i d. d[(head p + count p + i) mod PIPE_SIZE := inb ! (dn + i)]) [0..<n] (data p)"
  show n: "n = min (length inb - dn) (PIPE_SIZE - count p)"
    using assms(2) by (auto simp: copy_in_def Let_def min_def split: if_splits)
  have e: "p' = p\<lparr>data := ?d, count := count p + n\<rparr>"
    using assms(2) by (auto simp: copy_in_def Let_def)
  have le: "count p + n \<le> PIPE_SIZE" using n assms(1) by (auto simp: pipe_ok_def)
  note s = store_many [OF assms(1) le, of "\<lambda>i. inb ! (dn + i)"]
  have "map (\<lambda>i. inb ! (dn + i)) [0..<n] = take n (drop dn inb)"
    using n by (intro nth_equalityI) auto
  with s show "contents p' = contents p @ take n (drop dn inb)" by (simp add: e)
  show "pipe_ok p'" using s assms(1) le by (simp add: e pipe_ok_def)
qed (use assms(2) in \<open>auto simp: copy_in_def Let_def\<close>)

section \<open>Reads and writes\<close>

lemma pipe_read_go_spec:
  assumes "pipe_ok p" "pipe_read_go t len p = (r, p')"
  shows "case r of
      None \<Rightarrow> \<not> readable p \<and> p' = p\<lparr>wq := insert t (wq p)\<rparr>
    | Some out \<Rightarrow> readable p \<and> contents p = out @ contents p' \<and> length out = min len (count p) \<and>
        pipe_ok p' \<and> reader_gone p' = reader_gone p \<and> writer_gone p' = writer_gone p \<and> wq p' = {}"
proof (cases "readable p")
  case True
  obtain out p1 where c: "copy_out len (p\<lparr>wq := wq p - {t}\<rparr>) = (out, p1)"
    by (cases "copy_out len (p\<lparr>wq := wq p - {t}\<rparr>)")
  have r: "r = Some out" "p' = pipe_wake p1"
    using assms(2) True c by (auto simp: pipe_read_go_def wait_iter_def)
  from copy_out_spec [OF _ c] assms(1) True show ?thesis by (simp add: r)
next
  case False
  with assms(2) show ?thesis by (auto simp: pipe_read_go_def wait_iter_def)
qed

fun pos :: "write_pos \<Rightarrow> nat" where
  "pos (WSleep k) = k"
| "pos (WRet e k) = k"

text \<open>What a write did by its next sleep or its return: what it copied in, and, when it copied
  anything, that it woke the queue.\<close>

definition wrote :: "nat \<Rightarrow> byte list \<Rightarrow> nat \<Rightarrow> pipe_buf \<Rightarrow> write_pos \<Rightarrow> pipe_buf \<Rightarrow> bool" where
  "wrote t inb dn p w p' \<longleftrightarrow>
     dn \<le> pos w \<and> pos w \<le> length inb \<and> contents p' = contents p @ take (pos w - dn) (drop dn inb) \<and>
     pipe_ok p' \<and> reader_gone p' = reader_gone p \<and> writer_gone p' = writer_gone p \<and>
     (pos w = dn \<longrightarrow> wq p' \<subseteq> insert t (wq p)) \<and> (dn < pos w \<longrightarrow> wq p' \<subseteq> {t}) \<and>
     (case w of WSleep k \<Rightarrow> \<not> writable p' \<and> t \<in> wq p'
      | WRet None k \<Rightarrow> k = length inb \<and> (t \<notin> wq p \<longrightarrow> t \<notin> wq p')
      | WRet (Some e) k \<Rightarrow> e = EPIPE \<and> reader_gone p \<and> k < length inb \<and> t \<notin> wq p')"

lemma wrote_then:
  assumes "pipe_ok p" "copy_in inb dn (p\<lparr>wq := q\<rparr>) = (n, p1)" "0 < n" "dn < length inb"
    and "wrote t inb (dn + n) (pipe_wake p1) w p'"
  shows "wrote t inb dn p w p'"
proof -
  have "pipe_ok (p\<lparr>wq := q\<rparr>)" using assms(1) by simp
  note c = copy_in_spec [OF this assms(2)]
  have le: "dn + n \<le> pos w" using assms(5) by (simp add: wrote_def)
  then have k: "pos w - dn = n + (pos w - (dn + n))" by simp
  have "contents p' = contents p @ take (pos w - dn) (drop dn inb)"
    using assms(5) c(1) unfolding k take_add by (simp add: wrote_def add.commute)
  with assms(3,5) le c(4,5) show ?thesis
    unfolding wrote_def by (auto split: write_pos.splits option.splits)
qed

lemma pipe_write_go_wrote:
  assumes "pipe_ok p" "dn \<le> length inb" "pipe_write_go t inb dn p = (w, p')"
  shows "wrote t inb dn p w p'"
  using assms
proof (induction t inb dn p arbitrary: w p' rule: pipe_write_go.induct)
  case (1 t inb dn p)
  show ?case
  proof (cases "dn < length inb \<and> writable p \<and> \<not> reader_gone p")
    case False
    with "1.prems" show ?thesis
      by (subst (asm) pipe_write_go.simps)
        (auto simp: wrote_def wait_iter_def writable_def split: if_splits)
  next
    case True
    obtain n p1 where c: "copy_in inb dn (p\<lparr>wq := wq p - {t}\<rparr>) = (n, p1)"
      by (cases "copy_in inb dn (p\<lparr>wq := wq p - {t}\<rparr>)")
    have w: "wait_iter t (writable p) (wq p) = (True, wq p - {t})"
      using True by (simp add: wait_iter_def)
    have "pipe_ok (p\<lparr>wq := wq p - {t}\<rparr>)" using "1.prems"(1) by simp
    note cs = copy_in_spec [OF this c]
    have n: "0 < n" "dn + n \<le> length inb"
      using True cs(2) by (auto simp: writable_def)
    have "pipe_write_go t inb (dn + n) (pipe_wake p1) = (w, p')"
      using "1.prems"(3) True w c by (subst (asm) pipe_write_go.simps) simp
    then have "wrote t inb (dn + n) (pipe_wake p1) w p'"
      using "1.IH" [of True "wq p - {t}" n p1] True w c cs(3) n(2) by simp
    from wrote_then [OF "1.prems"(1) c n(1) _ this] True show ?thesis by simp
  qed
qed

section \<open>Every reachable state\<close>

definition pipe_inv :: "pipe_sys \<Rightarrow> bool" where
  "pipe_inv s \<longleftrightarrow> (case buf s of
       None \<Rightarrow> \<not> rd_open s \<and> \<not> wr_open s \<and> (\<exists>rest. sent s = got s @ rest)
     | Some p \<Rightarrow> pipe_ok p \<and> sent s = got s @ contents p \<and> reader_gone p = (\<not> rd_open s) \<and>
         writer_gone p = (\<not> wr_open s) \<and> (rd_open s \<or> wr_open s)) \<and>
     (\<forall>t len. call s t = Reading len \<longrightarrow> rd_open s) \<and>
     (\<forall>t inb dn. call s t = Writing inb dn \<longrightarrow> wr_open s \<and> dn \<le> length inb)"

definition pipe_waiters :: "pipe_sys \<Rightarrow> wait_queue" where
  "pipe_waiters s = (case buf s of None \<Rightarrow> {} | Some p \<Rightarrow> wq p)"

text \<open>Whether the call of a thread could go on.\<close>

definition call_ready :: "nat \<Rightarrow> pipe_sys \<Rightarrow> bool" where
  "call_ready t s = (case buf s of None \<Rightarrow> False | Some p \<Rightarrow>
     (case call s t of Idle \<Rightarrow> False | Reading len \<Rightarrow> readable p | Writing inb dn \<Rightarrow> writable p))"

lemma pipe_invD:
  assumes "pipe_inv s" "buf s = Some p"
  shows "pipe_ok p" "sent s = got s @ contents p" "reader_gone p = (\<not> rd_open s)"
    "writer_gone p = (\<not> wr_open s)" "rd_open s \<or> wr_open s"
  using assms by (simp_all add: pipe_inv_def)

lemma after_read_inv:
  assumes "pipe_inv s" "buf s = Some p" "rd_open s"
  shows "pipe_inv (after_read t len (pipe_read_go t len p) s)"
proof -
  obtain r p' where g: "pipe_read_go t len p = (r, p')" by (cases "pipe_read_go t len p")
  note i = pipe_invD [OF assms(1,2)]
  from pipe_read_go_spec [OF i(1) g] i assms g show ?thesis
    by (cases r) (auto simp: after_read_def pipe_inv_def)
qed

lemma after_write_inv:
  assumes "pipe_inv s" "buf s = Some p" "wr_open s" "dn \<le> length inb"
  shows "pipe_inv (after_write t inb dn (pipe_write_go t inb dn p) s)"
proof -
  obtain w p' where g: "pipe_write_go t inb dn p = (w, p')" by (cases "pipe_write_go t inb dn p")
  note i = pipe_invD [OF assms(1,2)]
  from pipe_write_go_wrote [OF i(1) assms(4) g] i assms g show ?thesis
    by (cases w) (auto simp: after_write_def pipe_inv_def wrote_def)
qed

lemma pipe_read_end [simp]: "pipe_read t READ_END len p = (case pipe_read_go t len p of (r, p') \<Rightarrow> (Inr r, p'))"
  and pipe_write_end [simp]: "pipe_write t WRITE_END inb p = pipe_write_go t inb 0 p"
  by (simp_all add: pipe_read_def pipe_write_def)

text \<open>The four steps that run a call, as the two functions they run.\<close>

lemma pipe_step_cases:
  assumes "pipe_step s s'" "pipe_inv s"
  obtains (read) p t len where "buf s = Some p" "rd_open s"
      "s' = after_read t len (pipe_read_go t len p) s"
  | (wr) p t inb dn where "buf s = Some p" "wr_open s" "dn \<le> length inb"
      "call s t = Writing inb dn \<or> call s t = Idle"
      "s' = after_write t inb dn (pipe_write_go t inb dn p) s"
  | (ended) p t where "buf s = Some p"
      "s' = s\<lparr>buf := Some (p\<lparr>wq := wq p - {t}\<rparr>), call := (call s)(t := Idle)\<rparr>"
  | (close_rd) p where "buf s = Some p" "rd_open s" "\<And>t len. call s t \<noteq> Reading len"
      "s' = s\<lparr>buf := pipe_release READ_END p, rd_open := False\<rparr>"
  | (close_wr) p where "buf s = Some p" "wr_open s" "\<And>t inb dn. call s t \<noteq> Writing inb dn"
      "s' = s\<lparr>buf := pipe_release WRITE_END p, wr_open := False\<rparr>"
  using assms(1)
proof (cases rule: pipe_step.cases)
  case (p_read p t len r p')
  then have "pipe_read_go t len p = (r, p')" by (simp split: prod.splits)
  with p_read show ?thesis using read [of p t len] by simp
next
  case p_read_on
  then show ?thesis using read assms(2) by (auto simp: pipe_inv_def)
next
  case (p_write p t inb)
  then show ?thesis using wr [of p 0 inb t] by simp
next
  case (p_write_on p t inb dn)
  then show ?thesis using wr [of p dn inb t] assms(2) by (auto simp: pipe_inv_def)
next
  case p_end
  then show ?thesis using ended by blast
next
  case p_close_rd
  then show ?thesis using close_rd by blast
next
  case p_close_wr
  then show ?thesis using close_wr by blast
qed

lemma pipe_step_inv: 
  assumes "pipe_inv s" "pipe_step s s'"
  shows "pipe_inv s'"
  using assms(2,1)
proof (cases rule: pipe_step_cases)
  case (read p t len)
  then show ?thesis using after_read_inv assms(1) by blast
next
  case (wr p t inb dn)
  then show ?thesis using after_write_inv assms(1) by blast
next
  case (ended p t)
  then show ?thesis using assms(1) by (auto simp: pipe_inv_def)
next
  case (close_rd p)
  then show ?thesis using assms(1) pipe_invD [OF assms(1) close_rd(1)]
    by (auto simp: pipe_inv_def pipe_release_def pipe_ok_def contents_def pipe_wake_def)
next
  case (close_wr p)
  then show ?thesis using assms(1) pipe_invD [OF assms(1) close_wr(1)]
    by (auto simp: pipe_inv_def pipe_release_def pipe_ok_def contents_def pipe_wake_def)
qed

interpretation pipewait: wait_discipline pipe_inv pipe_step pipe_waiters call_ready
proof
  fix s s' t
  assume inv: "pipe_inv s" and st: "pipe_step s s'"
  show "pipe_inv s'" using inv st by (rule pipe_step_inv)
  assume w: "t \<in> pipe_waiters s'" and c: "call_ready t s'"
  from st inv show "t \<in> pipe_waiters s \<and> call_ready t s"
  proof (cases rule: pipe_step_cases)
    case (read p u len)
    obtain r p' where g: "pipe_read_go u len p = (r, p')" by (cases "pipe_read_go u len p")
    from pipe_read_go_spec [OF pipe_invD(1) [OF inv read(1)] g] w c read g show ?thesis
      by (cases r; cases "u = t")
        (auto simp: after_read_def pipe_waiters_def call_ready_def readable_def writable_def
          split: pipe_call.splits)
  next
    case (wr p u inb dn)
    obtain x p' where g: "pipe_write_go u inb dn p = (x, p')" by (cases "pipe_write_go u inb dn p")
    have x: "wrote u inb dn p x p'"
      using pipe_write_go_wrote [OF pipe_invD(1) [OF inv wr(1)] wr(3) g] .
    then have cnt: "count p' = count p" if "pos x = dn"
      using that length_contents [of p'] by (simp add: wrote_def)
    have b: "buf s' = Some p'" "call s' = (call s)(u := (case x of WSleep k \<Rightarrow> Writing inb k | _ \<Rightarrow> Idle))"
      using wr(5) g by (auto simp: after_write_def split: write_pos.splits)
    have tu: "t \<noteq> u"
      using w c b x by (auto simp: call_ready_def wrote_def split: write_pos.splits)
    then have eq: "pos x = dn" "t \<in> wq p"
      using w b(1) x by (auto simp: pipe_waiters_def wrote_def le_less)
    with c b tu cnt x wr(1) show ?thesis
      by (auto simp: call_ready_def pipe_waiters_def readable_def writable_def wrote_def
          split: pipe_call.splits)
  next
    case (ended p u)
    with w c show ?thesis
      by (cases "u = t") (auto simp: pipe_waiters_def call_ready_def readable_def writable_def
          split: pipe_call.splits)
  next
    case (close_rd p)
    with w show ?thesis by (auto simp: pipe_waiters_def pipe_release_def split: if_splits)
  next
    case (close_wr p)
    with w show ?thesis by (auto simp: pipe_waiters_def pipe_release_def split: if_splits)
  qed
qed

lemma pipe_start_inv: "pipe_inv pipe_start"
  by (simp add: pipe_inv_def pipe_start_def new_pipe_def pipe_ok_def contents_def)

lemma pipe_start_reach_inv: "pipe_step\<^sup>*\<^sup>* pipe_start s \<Longrightarrow> pipe_inv s"
  using pipewait.reach_inv pipe_start_inv by blast

lemma pipe_sleepers_not_ready:
  "pipe_step\<^sup>*\<^sup>* pipe_start s \<Longrightarrow> t \<in> pipe_waiters s \<Longrightarrow> \<not> call_ready t s"
  using pipewait.sleeps_only_on_false [OF _ pipe_start_inv]
  by (simp add: pipe_start_def pipe_waiters_def new_pipe_def)

lemma pipe_read_takes:
  assumes "pipe_ok p" "pipe_read_go t len p = (Some out, p')"
  shows "out = take len (contents p)" "contents p' = drop len (contents p)" "length out = min len (count p)" "readable p"
proof -
  have c: "contents p = out @ contents p'" "length out = min len (count p)" "readable p"
    using pipe_read_go_spec [OF assms] by auto
  have "contents p' = []" if "length out = count p"
    using that arg_cong [OF c(1), of length] by (simp flip: length_0_conv)
  then show "out = take len (contents p)" "contents p' = drop len (contents p)"
    using c(2) by (auto simp: c(1) min_def split: if_splits)
  show "length out = min len (count p)" "readable p" by (rule c)+
qed

lemma pipe_read_drains:
  assumes "pipe_ok p" "writer_gone p"
  shows "\<exists>p'. pipe_read t READ_END len p = (Inr (Some (take len (contents p))), p') \<and> contents p' = drop len (contents p)"
proof -
  obtain r p' where g: "pipe_read_go t len p = (r, p')" by (cases "pipe_read_go t len p")
  show ?thesis
  proof (cases r)
    case None
    with pipe_read_go_spec [OF assms(1) g] assms(2) show ?thesis by (simp add: readable_def)
  next
    case (Some out)
    with pipe_read_takes [OF assms(1), of t len out p'] g show ?thesis by (simp add: pipe_read_def)
  qed
qed

lemma pipe_write_broken:
  assumes "reader_gone p" "inb \<noteq> []"
  shows "\<exists>p'. pipe_write t WRITE_END inb p = (WRet (Some EPIPE) 0, p') \<and> contents p' = contents p"
  using assms unfolding pipe_write_def
  by (subst pipe_write_go.simps) (simp add: wait_iter_def writable_def contents_def)

section \<open>Properties\<close>

text \<open>C6. A pipe loses, doubles and reorders nothing: whatever the calls of any number of readers
  and writers, the bytes copied in are the bytes handed out followed by the bytes that wait in
  the ring, which never holds more than its size.\<close>

theorem pipe_bytes_in_order:
  assumes "pipe_step\<^sup>*\<^sup>* pipe_start s" "buf s = Some p"
  shows "sent s = got s @ contents p \<and> count p \<le> PIPE_SIZE"
  using pipe_invD [OF pipe_start_reach_inv [OF assms(1)] assms(2)] by (simp add: pipe_ok_def)

text \<open>C22. No reader or writer oversleeps and they cannot block each other: a thread asleep in a
  read sees an empty pipe whose write end is open, one asleep in a write sees a full pipe whose
  read end is open, and so never is one asleep in a read while another is asleep in a write.\<close>

theorem pipe_sleepers_justified:
  assumes "pipe_step\<^sup>*\<^sup>* pipe_start s" "buf s = Some p" "t \<in> wq p" "u \<in> wq p"
  shows "(call s t = Reading len \<longrightarrow> count p = 0 \<and> wr_open s) \<and>
    (call s u = Writing inb dn \<longrightarrow> count p = PIPE_SIZE \<and> rd_open s) \<and>
    \<not> (call s t = Reading len \<and> call s u = Writing inb dn)"
proof -
  note i = pipe_invD [OF pipe_start_reach_inv [OF assms(1)] assms(2)]
  have n: "\<not> call_ready t s" "\<not> call_ready u s"
    using pipe_sleepers_not_ready [OF assms(1)] assms(2-4) by (simp_all add: pipe_waiters_def)
  have r: "call s t = Reading len \<Longrightarrow> count p = 0 \<and> wr_open s"
    using n(1) assms(2) i(4) by (auto simp: call_ready_def readable_def)
  have w: "call s u = Writing inb dn \<Longrightarrow> count p = PIPE_SIZE \<and> rd_open s"
    using n(2) assms(2) i(1,3) by (auto simp: call_ready_def writable_def pipe_ok_def)
  have "PIPE_SIZE \<noteq> 0" by (simp add: PIPE_SIZE_def)
  with r w show ?thesis by metis
qed

text \<open>C39. Closing: the shared buffer is freed with the second end and not with the first. As long as it
  exists its flags say which end is gone, so that once the write end is closed a read never sleeps, it
  gives the bytes still in the pipe and then the end of the stream, and once the read end is closed
  every write of at least one byte is \<open>-EPIPE\<close> with nothing written.\<close>

theorem pipe_close_seen:
  assumes "pipe_step\<^sup>*\<^sup>* pipe_start s"
  shows "(buf s = None \<longleftrightarrow> \<not> rd_open s \<and> \<not> wr_open s) \<and>
    (\<forall>p t. buf s = Some p \<longrightarrow>
       reader_gone p = (\<not> rd_open s) \<and> writer_gone p = (\<not> wr_open s) \<and>
       (\<not> wr_open s \<longrightarrow> (\<forall>len. \<exists>p'. pipe_read t READ_END len p = (Inr (Some (take len (contents p))), p') \<and>
          contents p' = drop len (contents p))) \<and>
       (\<not> rd_open s \<longrightarrow> (\<forall>inb. inb \<noteq> [] \<longrightarrow> (\<exists>p'. pipe_write t WRITE_END inb p = (WRet (Some EPIPE) 0, p') \<and>
          contents p' = contents p))))"
proof (intro conjI allI impI)
  note inv = pipe_start_reach_inv [OF assms]
  show "buf s = None \<longleftrightarrow> \<not> rd_open s \<and> \<not> wr_open s" using inv by (auto simp: pipe_inv_def split: option.splits)
  fix p t assume p: "buf s = Some p"
  note i = pipe_invD [OF inv p]
  show "reader_gone p = (\<not> rd_open s)" "writer_gone p = (\<not> wr_open s)" by (rule i)+
  show "\<exists>p'. pipe_read t READ_END len p = (Inr (Some (take len (contents p))), p') \<and> contents p' = drop len (contents p)"
    if "\<not> wr_open s" for len
    using that i by (intro pipe_read_drains) simp_all
  show "\<exists>p'. pipe_write t WRITE_END inb p = (WRet (Some EPIPE) 0, p') \<and> contents p' = contents p"
    if "\<not> rd_open s" "inb \<noteq> []" for inb
    using that i by (intro pipe_write_broken) simp_all
qed

text \<open>C40. What a write returns: success says that every byte went into the pipe, \<open>-EPIPE\<close> that
  the read end is gone, and in every case the count it reports is what went in; it sleeps only
  on a full pipe. The loop always ends.\<close>

theorem pipe_write_result:
  assumes "pipe_ok p" "pipe_write t WRITE_END inb p = (w, p')"
  shows "contents p' = contents p @ take (pos w) inb \<and> pos w \<le> length inb \<and>
    (case w of WSleep k \<Rightarrow> count p' = PIPE_SIZE \<and> \<not> reader_gone p'
     | WRet None k \<Rightarrow> k = length inb
     | WRet (Some e) k \<Rightarrow> e = EPIPE \<and> reader_gone p \<and> k < length inb)"
  using pipe_write_go_wrote [OF assms(1), of 0 inb t w p'] assms(2)
  by (auto simp: wrote_def writable_def pipe_ok_def split: write_pos.splits option.splits)

text \<open>What a read returns: the oldest bytes, as many as asked for or as there are; nothing,
  the end of the stream, only when asked for nothing or when the pipe is empty and the write end
  is gone. It sleeps only on an empty pipe with a writer.\<close>

theorem pipe_read_result:
  assumes "pipe_ok p" "pipe_read t READ_END len p = (Inr r, p')"
  shows "case r of
      None \<Rightarrow> count p = 0 \<and> \<not> writer_gone p \<and> contents p' = contents p
    | Some out \<Rightarrow> out = take len (contents p) \<and> contents p' = drop len (contents p) \<and>
        (out = [] \<longrightarrow> len = 0 \<or> count p = 0 \<and> writer_gone p)"
proof -
  have g: "pipe_read_go t len p = (r, p')" using assms(2) by (simp split: prod.splits)
  show ?thesis
  proof (cases r)
    case None
    with pipe_read_go_spec [OF assms(1) g] show ?thesis by (simp add: readable_def)
  next
    case (Some out)
    note t = pipe_read_takes [OF assms(1) g [unfolded Some]]
    have "out = [] \<Longrightarrow> len = 0 \<or> count p = 0 \<and> writer_gone p" using t(3,4) by (auto simp: readable_def min_def split: if_splits)
    with t(1,2) Some show ?thesis by simp
  qed
qed

text \<open>\<open>create\<close> gives a pipe with both ends or, when any allocation fails, \<open>-ENOMEM\<close> and no
  memory kept.\<close>

theorem pipe_create_result:
  "pipe_create ok_buf ok_rd ok_wr =
     (if ok_buf \<and> ok_rd \<and> ok_wr then (Inr new_pipe, {BufBlock, RdBlock, WrBlock})
      else (Inl ENOMEM, {}))"
  by (auto simp: pipe_create_def Let_def)

text \<open>A reader waits on the new pipe.\<close>

definition pipe_demo :: pipe_sys where
  "pipe_demo = after_read 5 10 (pipe_read_go 5 10 new_pipe) pipe_start"

lemma pipe_demo_go: "pipe_read_go 5 10 new_pipe = (None, new_pipe\<lparr>wq := {5}\<rparr>)"
  by (simp add: pipe_read_go_def wait_iter_def readable_def new_pipe_def)

lemma pipe_demo_reach: "pipe_step\<^sup>*\<^sup>* pipe_start pipe_demo"
  unfolding pipe_demo_def pipe_demo_go
  by (intro r_into_rtranclp p_read [where p = new_pipe])
    (simp_all add: pipe_demo_go, simp_all add: pipe_start_def)

lemma pipe_demo_eval: "buf pipe_demo = Some (new_pipe\<lparr>wq := {5}\<rparr>)" "call pipe_demo 5 = Reading 10"
  "sent pipe_demo = []" "got pipe_demo = []"
  unfolding pipe_demo_def pipe_demo_go by (simp_all add: after_read_def pipe_start_def)

lemma new_pipe_ok: "pipe_ok new_pipe"
  by (simp add: pipe_ok_def new_pipe_def)

text \<open>Three bytes go in, two of them come out.\<close>

lemma pipe_demo_write:
  "\<exists>p. pipe_write 3 WRITE_END [1, 2, 3] new_pipe = (WRet None 3, p) \<and> pipe_ok p \<and> contents p = [1, 2, 3]"
proof -
  obtain w p where w: "pipe_write_go 3 [1, 2, 3] 0 new_pipe = (w, p)" by (cases "pipe_write_go 3 [1, 2, 3] 0 new_pipe")
  have c: "contents new_pipe = []" by (simp add: contents_def new_pipe_def)
  note wr = pipe_write_go_wrote [OF new_pipe_ok _ w, simplified, unfolded wrote_def c]
  have "length (contents p) \<le> 3" using wr by simp
  then have "writable p" by (simp add: writable_def contents_def PIPE_SIZE_def)
  moreover have "\<not> reader_gone new_pipe" by (simp add: new_pipe_def)
  ultimately have "w = WRet None 3" using wr by (auto split: write_pos.splits option.splits)
  then show ?thesis using wr w by (simp add: pipe_write_def)
qed

theorem pipe_bytes_in_order_witness:
  "\<exists>s p. pipe_step\<^sup>*\<^sup>* pipe_start s \<and> buf s = Some p \<and> sent s = [1, 2, 3] \<and> got s = [1, 2] \<and> contents p = [3]"
proof -
  obtain p where p: "pipe_write 3 WRITE_END [1, 2, 3] new_pipe = (WRet None 3, p)" "pipe_ok p" "contents p = [1, 2, 3]"
    using pipe_demo_write by blast
  define s1 where "s1 = after_write 3 [1, 2, 3] 0 (WRet None 3, p) pipe_start"
  have st1: "pipe_step pipe_start s1"
    using p_write [of pipe_start new_pipe 3 "[1, 2, 3]", unfolded p(1)] by (simp add: s1_def pipe_start_def)
  have s1: "buf s1 = Some p" "rd_open s1" "call s1 5 = Idle" "sent s1 = [1, 2, 3]" "got s1 = []"
    by (simp_all add: s1_def after_write_def pipe_start_def)
  obtain r p' where g: "pipe_read_go 5 2 p = (r, p')" by (cases "pipe_read_go 5 2 p")
  have "count p \<noteq> 0" using arg_cong [OF p(3), of length] by (simp add: contents_def)
  then obtain out where out: "r = Some out" using pipe_read_go_spec [OF p(2) g] by (cases r) (simp_all add: readable_def)
  define s2 where "s2 = after_read 5 2 (r, p') s1"
  have "pipe_step s1 s2"
    unfolding s2_def by (rule p_read [OF s1(1,2,3)]) (simp add: pipe_read_def g)
  with st1 have st: "pipe_step\<^sup>*\<^sup>* pipe_start s2" by (meson converse_rtranclp_into_rtranclp rtranclp.rtrancl_refl)
  have "out = [1, 2]" using pipe_read_takes(1) [OF p(2) g [unfolded out]] p(3) by simp
  then have s2: "buf s2 = Some p'" "sent s2 = [1, 2, 3]" "got s2 = [1, 2]" using s1 out by (simp_all add: s2_def after_read_def)
  then show ?thesis using pipe_bytes_in_order [OF st s2(1)] st by auto
qed

theorem pipe_sleepers_justified_witness:
  "call pipe_demo 5 = Reading 10 \<and> wr_open pipe_demo \<and> count (new_pipe\<lparr>wq := {5}\<rparr>) = 0"
  using pipe_sleepers_justified [OF pipe_demo_reach pipe_demo_eval(1), of 5 5 10] pipe_demo_eval(2)
  by simp

theorem pipe_close_seen_witness:
  "\<exists>s p p'. pipe_step pipe_start s \<and> \<not> wr_open s \<and> buf s = Some p \<and> pipe_read 5 READ_END 10 p = (Inr (Some []), p')"
proof -
  define s where "s = pipe_start\<lparr>buf := pipe_release WRITE_END new_pipe, wr_open := False\<rparr>"
  have st: "pipe_step pipe_start s"
    unfolding s_def by (rule p_close_wr) (simp_all add: pipe_start_def)
  obtain p where p: "buf s = Some p" "contents p = []"
    by (simp add: s_def pipe_release_def new_pipe_def contents_def pipe_wake_def)
  moreover have "\<not> wr_open s" by (simp add: s_def)
  ultimately show ?thesis using st pipe_close_seen [OF r_into_rtranclp [of pipe_step, OF st]] by fastforce
qed

theorem pipe_write_result_witness:
  "\<exists>w p'. pipe_write 3 WRITE_END [1, 2] new_pipe = (w, p') \<and> contents p' = take (pos w) [1, 2]"
proof -
  obtain w p' where w: "pipe_write 3 WRITE_END [1, 2] new_pipe = (w, p')"
    by (cases "pipe_write 3 WRITE_END [1, 2] new_pipe")
  have "contents new_pipe = []" by (simp add: contents_def new_pipe_def)
  with pipe_write_result [OF new_pipe_ok w] w show ?thesis by auto
qed

theorem pipe_read_result_witness:
  "pipe_read 5 READ_END 10 new_pipe = (Inr None, new_pipe\<lparr>wq := {5}\<rparr>) \<and> count new_pipe = 0"
proof -
  have r: "pipe_read 5 READ_END 10 new_pipe = (Inr None, new_pipe\<lparr>wq := {5}\<rparr>)"
    by (simp add: pipe_demo_go)
  from pipe_read_result [OF new_pipe_ok r] r show ?thesis by simp
qed

end
