(* ===== verification/Alloc.thy ===== *)
theory Alloc
  imports Prelude
begin

text \<open>
  The interface of an allocator of ranges of numbered units (frames, bytes of memory), as its
  clients rely on it: what is handed out was not in use, stays theirs until they free it, and
  nothing an operation does takes a unit away from somebody else. From those laws: however
  allocations of sizes the allocator can serve and frees are mixed, the ranges that are out never overlap.
  The frame allocator
  (Pmm) and the kernel heap (Heap) are interpretations of it.
\<close>

datatype alloc_op = Alloc nat | Free nat

text \<open>The units of a range.\<close>

definition units :: "nat \<times> nat \<Rightarrow> nat set" where
  "units r = {fst r..<fst r + snd r}"

text \<open>A run of a client: it allocates, and frees ranges it holds (by position in its list).\<close>

fun client_run :: "(nat \<Rightarrow> 's \<Rightarrow> nat option \<times> 's) \<Rightarrow> (nat \<Rightarrow> nat \<Rightarrow> 's \<Rightarrow> 's) \<Rightarrow>
    alloc_op list \<Rightarrow> (nat \<times> nat) list \<times> 's \<Rightarrow> (nat \<times> nat) list \<times> 's" where
  "client_run al fr [] (held, s) = (held, s)"
| "client_run al fr (Alloc n # os) (held, s) =
     (if n = 0 then client_run al fr os (held, s)
      else case al n s of
        (None, s') \<Rightarrow> client_run al fr os (held, s')
      | (Some b, s') \<Rightarrow> client_run al fr os ((b, n) # held, s'))"
| "client_run al fr (Free k # os) (held, s) =
     (if k < length held
      then client_run al fr os (take k held @ drop (Suc k) held,
             fr (fst (held ! k)) (snd (held ! k)) s)
      else client_run al fr os (held, s))"

definition disjoint_ranges :: "(nat \<times> nat) list \<Rightarrow> bool" where
  "disjoint_ranges rs \<longleftrightarrow> sorted_wrt (\<lambda>q r. units q \<inter> units r = {}) rs"

lemma disjoint_ranges_Cons:
  "disjoint_ranges (r # rs) \<longleftrightarrow> (\<forall>q \<in> set rs. units r \<inter> units q = {}) \<and> disjoint_ranges rs"
  by (simp add: disjoint_ranges_def)

lemma disjoint_ranges_remove:
  assumes "disjoint_ranges rs" "k < length rs"
  shows "disjoint_ranges (take k rs @ drop (Suc k) rs)"
    and "q \<in> set (take k rs @ drop (Suc k) rs) \<Longrightarrow> q \<in> set rs \<and> units (rs ! k) \<inter> units q = {}"
proof -
  have "disjoint_ranges (take k rs @ rs ! k # drop (Suc k) rs)"
    using assms by (simp flip: id_take_nth_drop)
  then have d: "sorted_wrt (\<lambda>q r. units q \<inter> units r = {}) (take k rs)"
    "sorted_wrt (\<lambda>q r. units q \<inter> units r = {}) (drop (Suc k) rs)"
    "\<forall>q \<in> set (take k rs). units q \<inter> units (rs ! k) = {}"
    "\<forall>q \<in> set (drop (Suc k) rs). units (rs ! k) \<inter> units q = {}"
    "\<forall>q \<in> set (take k rs). \<forall>r \<in> set (drop (Suc k) rs). units q \<inter> units r = {}"
    by (simp_all add: disjoint_ranges_def sorted_wrt_append)
  then show "disjoint_ranges (take k rs @ drop (Suc k) rs)"
    by (simp add: disjoint_ranges_def sorted_wrt_append)
  assume "q \<in> set (take k rs @ drop (Suc k) rs)"
  with d(3,4) show "q \<in> set rs \<and> units (rs ! k) \<inter> units q = {}"
    by (auto dest: in_set_takeD in_set_dropD)
qed

locale range_allocator =
  fixes fits :: "nat \<Rightarrow> bool"
    and inv :: "'s \<Rightarrow> bool"
    and busy :: "'s \<Rightarrow> nat set"
    and live :: "'s \<Rightarrow> nat \<Rightarrow> nat \<Rightarrow> bool"
    and al :: "nat \<Rightarrow> 's \<Rightarrow> nat option \<times> 's"
    and fr :: "nat \<Rightarrow> nat \<Rightarrow> 's \<Rightarrow> 's"
  assumes live_busy: "inv s \<Longrightarrow> live s b n \<Longrightarrow> units (b, n) \<subseteq> busy s"
    and alloc_inv: "inv s \<Longrightarrow> 0 < n \<Longrightarrow> fits n \<Longrightarrow> inv (snd (al n s))"
    and alloc_fresh: "inv s \<Longrightarrow> 0 < n \<Longrightarrow> fits n \<Longrightarrow> al n s = (Some b, s') \<Longrightarrow>
      live s' b n \<and> units (b, n) \<inter> busy s = {}"
    and alloc_keeps: "inv s \<Longrightarrow> 0 < n \<Longrightarrow> fits n \<Longrightarrow> live s c m \<Longrightarrow> live (snd (al n s)) c m"
    and free_inv: "inv s \<Longrightarrow> 0 < n \<Longrightarrow> live s b n \<Longrightarrow> inv (fr b n s)"
    and free_keeps: "inv s \<Longrightarrow> 0 < n \<Longrightarrow> 0 < m \<Longrightarrow> live s b n \<Longrightarrow> live s c m \<Longrightarrow>
      units (b, n) \<inter> units (c, m) = {} \<Longrightarrow> live (fr b n s) c m"
begin

lemma client_run_disjoint:
  assumes "inv s" "disjoint_ranges held" "\<forall>(b, n) \<in> set held. 0 < n \<and> live s b n"
    and "client_run al fr os (held, s) = (held', s')" "\<forall>n. Alloc n \<in> set os \<longrightarrow> fits n"
  shows "inv s' \<and> disjoint_ranges held' \<and> (\<forall>(b, n) \<in> set held'. 0 < n \<and> live s' b n)"
  using assms
proof (induction os arbitrary: held s)
  case (Cons op os)
  show ?case
  proof (cases op)
    case (Alloc n)
    then have fits: "fits n" using Cons.prems(5) by simp
    show ?thesis
    proof (cases "n = 0")
      case True
      with Cons.IH [OF Cons.prems(1-3)] Cons.prems(4,5) Alloc show ?thesis by simp
    next
      case False
      obtain r s1 where a: "al n s = (r, s1)" by (cases "al n s")
      have n: "0 < n" using False by simp
      have i: "inv s1" using alloc_inv [OF Cons.prems(1) n fits] a by simp
      have k: "\<forall>(b, n) \<in> set held. 0 < n \<and> live s1 b n"
        using alloc_keeps [OF Cons.prems(1) n fits] Cons.prems(3) a by auto
      show ?thesis
      proof (cases r)
        case None
        with Cons.IH [OF i Cons.prems(2) k] Cons.prems(4,5) Alloc False a show ?thesis by simp
      next
        case (Some b)
        have f: "live s1 b n" "units (b, n) \<inter> busy s = {}"
          using alloc_fresh [OF Cons.prems(1) n fits] a Some by blast+
        have "units (b, n) \<inter> units q = {}" if q: "q \<in> set held" for q
        proof -
          have "live s (fst q) (snd q)" using bspec [OF Cons.prems(3) q] by (simp add: case_prod_beta)
          from live_busy [OF Cons.prems(1) this] f(2) show ?thesis by auto
        qed
        then have "disjoint_ranges ((b, n) # held)"
          using Cons.prems(2) by (simp add: disjoint_ranges_Cons)
        from Cons.IH [OF i this] k f(1) n Cons.prems(4,5) Alloc a Some show ?thesis by simp
      qed
    qed
  next
    case (Free k)
    show ?thesis
    proof (cases "k < length held")
      case True
      let ?b = "fst (held ! k)" and ?n = "snd (held ! k)"
      have l: "0 < ?n" "live s ?b ?n"
        using bspec [OF Cons.prems(3) nth_mem [OF True]] by (simp_all add: case_prod_beta)
      note d = disjoint_ranges_remove [OF Cons.prems(2) True]
      have "\<forall>(c, m) \<in> set (take k held @ drop (Suc k) held). 0 < m \<and> live (fr ?b ?n s) c m"
      proof clarify
        fix c m assume q: "(c, m) \<in> set (take k held @ drop (Suc k) held)"
        have "0 < m" "live s c m" using d(2) [OF q] Cons.prems(3) by auto
        moreover have "units (?b, ?n) \<inter> units (c, m) = {}" using d(2) [OF q] by simp
        ultimately show "0 < m \<and> live (fr ?b ?n s) c m"
          using free_keeps [OF Cons.prems(1) l(1) _ l(2)] by blast
      qed
      from Cons.IH [OF free_inv [OF Cons.prems(1) l] d(1) this] Cons.prems(4,5) Free True
      show ?thesis by simp
    next
      case False
      with Cons.IH [OF Cons.prems(1-3)] Cons.prems(4,5) Free show ?thesis by simp
    qed
  qed
qed simp

end

end
