(* ===== verification/Pmm.thy ===== *)
theory Pmm
  imports Alloc
begin

text \<open>
  The physical frame allocator (src/src/kernel/mm/pmm.cpp): a bitmap with one bit per 4 KiB frame,
  built from the boot loader's memory map, searched from a rolling cursor. The static variables of
  the file are the record \<open>pmm\<close>; the bitmap is its bytes. The messages on the serial port are left
  out, and the memory map is the list of its entries.

  The lemmas show which frames are free after \<open>init\<close>, that no frame is handed out twice and none
  that \<open>init\<close> reserved, when an allocation fails, and that the counters of \<open>get_stats\<close> are exact.
\<close>

definition FRAME_SIZE :: nat where
  "FRAME_SIZE = 0x1000"

definition PMM_HEAP_START :: nat where
  "PMM_HEAP_START = 0x2000000"

definition PMM_HEAP_SIZE :: nat where
  "PMM_HEAP_SIZE = 9 * 1024 * 1024"

definition PMM_LOW_RESERVE_END :: nat where
  "PMM_LOW_RESERVE_END = 0x800000"

definition PMM_BITMAP_ADDR :: nat where
  "PMM_BITMAP_ADDR = 0x3000000"

definition PMM_BITMAP_SIZE :: nat where
  "PMM_BITMAP_SIZE = 0x400000"

definition KERNEL_PHYS_BASE :: nat where
  "KERNEL_PHYS_BASE = 0x200000"

record pmm =
  bitmap :: "byte list"
  bitmap_frames :: nat
  total_frames :: nat
  used_frames :: nat
  max_phys :: nat
  cursor :: nat
  initialized :: bool

definition bit_get :: "nat \<Rightarrow> pmm \<Rightarrow> bool" where
  "bit_get idx p \<longleftrightarrow> drop_bit (idx mod 8) (bitmap p ! (idx div 8)) AND 1 = 1"

definition bit_set :: "nat \<Rightarrow> pmm \<Rightarrow> pmm" where
  "bit_set idx p = p\<lparr>bitmap := (bitmap p)[idx div 8 :=
     bitmap p ! (idx div 8) OR push_bit (idx mod 8) 1]\<rparr>"

definition bit_clear :: "nat \<Rightarrow> pmm \<Rightarrow> pmm" where
  "bit_clear idx p = p\<lparr>bitmap := (bitmap p)[idx div 8 :=
     bitmap p ! (idx div 8) AND NOT (push_bit (idx mod 8) 1)]\<rparr>"

definition mark_used :: "nat \<Rightarrow> pmm \<Rightarrow> pmm" where
  "mark_used idx p =
     (if idx < bitmap_frames p \<and> \<not> bit_get idx p
      then let p' = bit_set idx p in
        if initialized p then p'\<lparr>used_frames := u64 (used_frames p + 1)\<rparr> else p'
      else p)"

definition mark_free :: "nat \<Rightarrow> pmm \<Rightarrow> pmm" where
  "mark_free idx p =
     (if idx < bitmap_frames p \<and> bit_get idx p
      then let p' = bit_clear idx p in
        if initialized p then p'\<lparr>used_frames := sub64 (used_frames p) 1\<rparr> else p'
      else p)"

definition reserve :: "nat \<Rightarrow> nat \<Rightarrow> pmm \<Rightarrow> pmm" where
  "reserve start stop p =
     fold mark_used [start div FRAME_SIZE..<u64 (stop + FRAME_SIZE - 1) div FRAME_SIZE] p"

section \<open>Allocation\<close>

definition limit :: "pmm \<Rightarrow> nat" where
  "limit p = max_phys p div FRAME_SIZE"

text \<open>The two passes of \<open>alloc_frame\<close>.\<close>

definition alloc_frame :: "pmm \<Rightarrow> nat \<times> pmm" where
  "alloc_frame p =
     (if \<not> initialized p then (0, p)
      else case first_idx (\<lambda>i. \<not> bit_get i p) (cursor p) (limit p) of
        Some i \<Rightarrow> (i * FRAME_SIZE, (mark_used i p)\<lparr>cursor := i + 1\<rparr>)
      | None \<Rightarrow>
          (case first_idx (\<lambda>i. \<not> bit_get i p) 0 (cursor p) of
             Some i \<Rightarrow> (i * FRAME_SIZE, (mark_used i p)\<lparr>cursor := i + 1\<rparr>)
           | None \<Rightarrow> (0, p)))"

text \<open>One pass of \<open>alloc_frames\<close>: the last frame of the first run of \<open>n\<close>.\<close>

function find_run :: "(nat \<Rightarrow> bool) \<Rightarrow> nat \<Rightarrow> nat \<Rightarrow> nat \<Rightarrow> nat \<Rightarrow> nat option" where
  "find_run used n stop i run =
     (if i < stop then
        if used i then find_run used n stop (i + 1) 0
        else if run + 1 = n then Some i
        else find_run used n stop (i + 1) (run + 1)
      else None)"
  by pat_completeness auto
termination
  by (relation "measure (\<lambda>(used, n, stop, i, run). stop - i)") auto

declare find_run.simps [simp del]

definition take_run :: "nat \<Rightarrow> nat \<Rightarrow> pmm \<Rightarrow> nat \<times> pmm" where
  "take_run n i p =
     (let first = i + 1 - n in
      (first * FRAME_SIZE, (fold mark_used [first..<i + 1] p)\<lparr>cursor := i + 1\<rparr>))"

definition alloc_frames :: "nat \<Rightarrow> pmm \<Rightarrow> nat \<times> pmm" where
  "alloc_frames n p =
     (if \<not> initialized p \<or> n = 0 then (0, p)
      else if n = 1 then alloc_frame p
      else case find_run (\<lambda>i. bit_get i p) n (limit p) (cursor p) 0 of
        Some i \<Rightarrow> take_run n i p
      | None \<Rightarrow>
          (case find_run (\<lambda>i. bit_get i p) n (cursor p) 0 0 of
             Some i \<Rightarrow> take_run n i p
           | None \<Rightarrow> (0, p)))"

definition free_frame :: "nat \<Rightarrow> pmm \<Rightarrow> pmm" where
  "free_frame phys p =
     (if \<not> initialized p \<or> phys \<ge> max_phys p then p
      else let idx = phys div FRAME_SIZE; p' = mark_free idx p in
        if idx < cursor p' then p'\<lparr>cursor := idx\<rparr> else p')"

fun free_frames_from :: "nat \<Rightarrow> nat \<Rightarrow> nat \<Rightarrow> pmm \<Rightarrow> pmm" where
  "free_frames_from phys i 0 p = p"
| "free_frames_from phys i (Suc k) p =
     (let addr = u64 (phys + u64 (i * FRAME_SIZE)) in
      if addr \<ge> max_phys p then p else free_frames_from phys (i + 1) k (free_frame addr p))"

definition free_frames :: "nat \<Rightarrow> nat \<Rightarrow> pmm \<Rightarrow> pmm" where
  "free_frames phys n p = free_frames_from phys 0 n p"

definition is_free :: "nat \<Rightarrow> pmm \<Rightarrow> bool" where
  "is_free phys p \<longleftrightarrow>
     initialized p \<and> phys < max_phys p \<and> \<not> bit_get (phys div FRAME_SIZE) p"

record Stats =
  st_total :: nat
  st_free :: nat
  st_used :: nat
  st_max_phys :: nat

definition get_stats :: "pmm \<Rightarrow> Stats" where
  "get_stats p = \<lparr>st_total = total_frames p,
     st_free = (if total_frames p > used_frames p then total_frames p - used_frames p else 0),
     st_used = used_frames p, st_max_phys = max_phys p\<rparr>"

section \<open>Initialisation\<close>

record MEMORY_MAP_ENTRY =
  Start :: nat
  End :: nat
  Type :: nat

record BOOT_HEADER =
  MemoryMap :: "MEMORY_MAP_ENTRY list"
  StartDataAddress :: nat
  StartDataSize :: nat
  FrameBufferAddress :: nat
  FrameBufferSize :: nat

text \<open>The body of the first loop over the memory map.\<close>

definition map_entry :: "MEMORY_MAP_ENTRY \<Rightarrow> pmm \<Rightarrow> pmm" where
  "map_entry e p =
     (let p1 = (if End e > max_phys p then p\<lparr>max_phys := End e\<rparr> else p) in
      if Type e \<noteq> 0 then p1
      else fold mark_free [Start e div FRAME_SIZE..<End e div FRAME_SIZE] p1)"

text \<open>What an entry adds to the total.\<close>

definition entry_frames :: "nat \<Rightarrow> MEMORY_MAP_ENTRY \<Rightarrow> nat" where
  "entry_frames mx e =
     (if Type e \<noteq> 0 \<or> Start e \<ge> mx then 0
      else sub64 ((if End e < mx then End e else mx) div FRAME_SIZE) (Start e div FRAME_SIZE))"

definition boot_regions :: "BOOT_HEADER \<Rightarrow> nat \<Rightarrow> nat \<Rightarrow> (nat \<times> nat) list" where
  "boot_regions bh bytes kernel_end =
     [(0, PMM_LOW_RESERVE_END),
      (PMM_BITMAP_ADDR, PMM_BITMAP_ADDR + bytes),
      (PMM_HEAP_START, PMM_HEAP_START + PMM_HEAP_SIZE),
      (StartDataAddress bh, u64 (StartDataAddress bh + StartDataSize bh)),
      (FrameBufferAddress bh, u64 (FrameBufferAddress bh + FrameBufferSize bh)),
      (KERNEL_PHYS_BASE, kernel_end)]"

definition pmm_init :: "nat \<Rightarrow> BOOT_HEADER \<Rightarrow> nat \<Rightarrow> pmm \<Rightarrow> pmm" where
  "pmm_init direct_map_limit bh kernel_end p0 =
     (let frames0 = direct_map_limit div FRAME_SIZE;
          frames = (if frames0 > PMM_BITMAP_SIZE * 8 then PMM_BITMAP_SIZE * 8 else frames0);
          bytes = frames div 8;
          p1 = p0\<lparr>bitmap := replicate bytes 0xFF, bitmap_frames := frames, used_frames := frames,
                  total_frames := 0, max_phys := 0\<rparr>;
          p2 = fold map_entry (MemoryMap bh) p1;
          p3 = (if max_phys p2 > frames * FRAME_SIZE then p2\<lparr>max_phys := frames * FRAME_SIZE\<rparr> else p2);
          p4 = fold (\<lambda>(a, b). reserve a b) (boot_regions bh bytes kernel_end) p3;
          total = fold (\<lambda>e n. u64 (n + entry_frames (max_phys p4) e)) (MemoryMap bh) 0;
          free = length (filter (\<lambda>i. \<not> bit_get i p4) [0..<limit p4])
      in p4\<lparr>total_frames := total, used_frames := sub64 total free, cursor := 0, initialized := True\<rparr>)"

section \<open>Bits\<close>

lemma bit_get_iff: "bit_get idx p \<longleftrightarrow> bit (bitmap p ! (idx div 8)) (idx mod 8)"
  by (simp add: bit_get_def bit_iff_and_drop_bit_eq_1)

lemma idx_eq: "i div 8 = j div 8 \<Longrightarrow> i mod 8 = j mod 8 \<longleftrightarrow> i = (j :: nat)"
  by (metis div_mult_mod_eq)

lemma bit_get_set:
  assumes "i div 8 < length (bitmap p)"
  shows "bit_get j (bit_set i p) \<longleftrightarrow> j = i \<or> bit_get j p"
proof (cases "i div 8 = j div 8")
  case True
  with assms have "bit_get j (bit_set i p) \<longleftrightarrow> i mod 8 = j mod 8 \<or> bit_get j p"
    by (auto simp: bit_get_iff bit_set_def bit_or_iff bit_exp_iff)
  with idx_eq [OF True] show ?thesis by auto
qed (auto simp: bit_get_iff bit_set_def)

lemma bit_get_clear:
  assumes "i div 8 < length (bitmap p)"
  shows "bit_get j (bit_clear i p) \<longleftrightarrow> j \<noteq> i \<and> bit_get j p"
proof (cases "i div 8 = j div 8")
  case True
  with assms have "bit_get j (bit_clear i p) \<longleftrightarrow> i mod 8 \<noteq> j mod 8 \<and> bit_get j p"
    by (auto simp: bit_get_iff bit_clear_def bit_and_iff bit_not_iff bit_exp_iff)
  with idx_eq [OF True] show ?thesis by auto
qed (auto simp: bit_get_iff bit_clear_def)

lemma bit_get_upd [simp]:
  "bit_get i (p\<lparr>bitmap_frames := a\<rparr>) = bit_get i p" "bit_get i (p\<lparr>total_frames := a\<rparr>) = bit_get i p"
  "bit_get i (p\<lparr>used_frames := a\<rparr>) = bit_get i p" "bit_get i (p\<lparr>max_phys := a\<rparr>) = bit_get i p"
  "bit_get i (p\<lparr>cursor := a\<rparr>) = bit_get i p" "bit_get i (p\<lparr>initialized := b\<rparr>) = bit_get i p"
  by (simp_all add: bit_get_def)

text \<open>The bitmap has a bit for every frame it tracks.\<close>

definition sized :: "pmm \<Rightarrow> bool" where
  "sized p \<longleftrightarrow> length (bitmap p) * 8 = bitmap_frames p"

lemma sized_idx: "sized p \<Longrightarrow> i < bitmap_frames p \<Longrightarrow> i div 8 < length (bitmap p)"
  by (auto simp: sized_def)

lemma mark_used_rest [simp]:
  "bitmap_frames (mark_used i p) = bitmap_frames p" "total_frames (mark_used i p) = total_frames p"
  "max_phys (mark_used i p) = max_phys p" "cursor (mark_used i p) = cursor p"
  "initialized (mark_used i p) = initialized p" "sized (mark_used i p) = sized p"
  "limit (mark_used i p) = limit p"
  by (simp_all add: mark_used_def bit_set_def Let_def sized_def limit_def)

lemma mark_free_rest [simp]:
  "bitmap_frames (mark_free i p) = bitmap_frames p" "total_frames (mark_free i p) = total_frames p"
  "max_phys (mark_free i p) = max_phys p" "cursor (mark_free i p) = cursor p"
  "initialized (mark_free i p) = initialized p" "sized (mark_free i p) = sized p"
  "limit (mark_free i p) = limit p"
  by (simp_all add: mark_free_def bit_clear_def Let_def sized_def limit_def)

lemma bit_get_mark_used:
  "sized p \<Longrightarrow> bit_get j (mark_used i p) \<longleftrightarrow> bit_get j p \<or> j = i \<and> i < bitmap_frames p"
  by (auto simp: mark_used_def bit_get_set sized_idx Let_def)

lemma bit_get_mark_free:
  "sized p \<Longrightarrow> bit_get j (mark_free i p) \<longleftrightarrow> bit_get j p \<and> \<not> (j = i \<and> i < bitmap_frames p)"
  by (auto simp: mark_free_def bit_get_clear sized_idx Let_def)

lemma fold_mark_used_rest [simp]:
  "bitmap_frames (fold mark_used is p) = bitmap_frames p"
  "total_frames (fold mark_used is p) = total_frames p"
  "max_phys (fold mark_used is p) = max_phys p" "cursor (fold mark_used is p) = cursor p"
  "initialized (fold mark_used is p) = initialized p" "sized (fold mark_used is p) = sized p"
  "limit (fold mark_used is p) = limit p"
  by (induction "is" arbitrary: p) simp_all

lemma bit_get_fold_mark_used:
  "sized p \<Longrightarrow> bit_get j (fold mark_used is p) \<longleftrightarrow> bit_get j p \<or> j \<in> set is \<and> j < bitmap_frames p"
  by (induction "is" arbitrary: p) (auto simp: bit_get_mark_used)

lemma fold_mark_free_rest [simp]:
  "bitmap_frames (fold mark_free is p) = bitmap_frames p"
  "max_phys (fold mark_free is p) = max_phys p"
  "initialized (fold mark_free is p) = initialized p" "sized (fold mark_free is p) = sized p"
  by (induction "is" arbitrary: p) simp_all

lemma bit_get_fold_mark_free:
  "sized p \<Longrightarrow> bit_get j (fold mark_free is p) \<longleftrightarrow> bit_get j p \<and> \<not> (j \<in> set is \<and> j < bitmap_frames p)"
  by (induction "is" arbitrary: p) (auto simp: bit_get_mark_free)

section \<open>The invariant\<close>

definition free_set :: "pmm \<Rightarrow> nat set" where
  "free_set p = {i. i < limit p \<and> \<not> bit_get i p}"

text \<open>An initialised allocator over the frames \<open>R\<close> of real memory: frame 0 is never free (its
  address means failure), what is free is memory below the managed end, and the counters are
  exact.\<close>

definition pmm_ok :: "nat set \<Rightarrow> pmm \<Rightarrow> bool" where
  "pmm_ok R p \<longleftrightarrow> initialized p \<and> sized p \<and> max_phys p \<le> bitmap_frames p * FRAME_SIZE \<and>
     bitmap_frames p * FRAME_SIZE < 2 ^ 64 \<and> cursor p \<le> limit p \<and> bit_get 0 p \<and>
     (\<forall>i < bitmap_frames p. limit p \<le> i \<longrightarrow> bit_get i p) \<and>
     finite R \<and> free_set p \<subseteq> R \<and> card R \<le> total_frames p \<and>
     used_frames p + card (free_set p) = total_frames p \<and> total_frames p < 2 ^ 64"

lemma pmm_okD:
  assumes "pmm_ok R p"
  shows "initialized p" "sized p" "max_phys p \<le> bitmap_frames p * FRAME_SIZE"
    "bitmap_frames p * FRAME_SIZE < 2 ^ 64" "cursor p \<le> limit p" "bit_get 0 p"
    "i < bitmap_frames p \<Longrightarrow> limit p \<le> i \<Longrightarrow> bit_get i p"
    "finite R" "free_set p \<subseteq> R" "card R \<le> total_frames p"
    "used_frames p + card (free_set p) = total_frames p" "total_frames p < 2 ^ 64"
  using assms unfolding pmm_ok_def by blast+

lemma pmm_okI:
  assumes "initialized p" "sized p" "max_phys p \<le> bitmap_frames p * FRAME_SIZE"
    "bitmap_frames p * FRAME_SIZE < 2 ^ 64" "cursor p \<le> limit p" "bit_get 0 p"
    "\<And>i. i < bitmap_frames p \<Longrightarrow> limit p \<le> i \<Longrightarrow> bit_get i p"
    "finite R" "free_set p \<subseteq> R" "card R \<le> total_frames p"
    "used_frames p + card (free_set p) = total_frames p" "total_frames p < 2 ^ 64"
  shows "pmm_ok R p"
  using assms unfolding pmm_ok_def by blast

lemma FRAME_SIZE_pos [simp]: "0 < FRAME_SIZE" "FRAME_SIZE \<noteq> 0"
  by (simp_all add: FRAME_SIZE_def)

lemma finite_free_set [simp]: "finite (free_set p)"
  by (simp add: free_set_def)

lemma limit_le: "pmm_ok R p \<Longrightarrow> limit p \<le> bitmap_frames p"
  using div_le_mono [of "max_phys p" "bitmap_frames p * FRAME_SIZE" FRAME_SIZE]
  by (simp add: pmm_ok_def limit_def)

lemma free_set_cursor [simp]: "free_set (p\<lparr>cursor := c\<rparr>) = free_set p" "limit (p\<lparr>cursor := c\<rparr>) = limit p"
  "sized (p\<lparr>cursor := c\<rparr>) = sized p"
  by (simp_all add: free_set_def limit_def sized_def)

lemma pmm_ok_cursor: "pmm_ok R p \<Longrightarrow> c \<le> limit p \<Longrightarrow> pmm_ok R (p\<lparr>cursor := c\<rparr>)"
  by (simp add: pmm_ok_def)

lemma free_set_mark_used: "sized p \<Longrightarrow> limit p \<le> bitmap_frames p \<Longrightarrow>
    free_set (mark_used i p) = free_set p - {i}"
  by (auto simp: free_set_def bit_get_mark_used)

lemma mark_used_ok:
  assumes "pmm_ok R p"
  shows "pmm_ok R (mark_used i p)"
proof (cases "i < bitmap_frames p \<and> \<not> bit_get i p")
  case True
  note d = pmm_okD [OF assms]
  have f: "i \<in> free_set p"
    using True d(7) [of i] by (auto simp: free_set_def not_le [symmetric])
  have fs: "free_set (mark_used i p) = free_set p - {i}"
    using free_set_mark_used [OF d(2) limit_le [OF assms]] .
  have u: "used_frames p + 1 + card (free_set p - {i}) = total_frames p"
    using card_Suc_Diff1 [OF finite_free_set f] d(11) by simp
  have "used_frames p + 1 < 2 ^ 64" using u d(12) by linarith
  then have "used_frames (mark_used i p) = used_frames p + 1"
    using True d(1) by (simp add: mark_used_def Let_def u64_id)
  then show ?thesis
    using d u by (intro pmm_okI) (auto simp: fs bit_get_mark_used)
qed (use assms in \<open>auto simp: mark_used_def\<close>)

lemma fold_mark_used_ok: "pmm_ok R p \<Longrightarrow> pmm_ok R (fold mark_used is p)"
  by (induction "is" arbitrary: p) (simp_all add: mark_used_ok)

lemma mark_free_ok:
  assumes "pmm_ok R p" "bit_get i p" "0 < i" "i < limit p" "i \<in> R"
  shows "pmm_ok R (mark_free i p)" "free_set (mark_free i p) = insert i (free_set p)"
proof -
  have s: "sized p" and il: "i < bitmap_frames p"
    using assms limit_le [OF assms(1)] by (auto simp: pmm_ok_def)
  show f: "free_set (mark_free i p) = insert i (free_set p)"
    using s il assms(4) by (auto simp: free_set_def bit_get_mark_free)
  have "i \<notin> free_set p" using assms(2) by (simp add: free_set_def)
  then have c: "card (insert i (free_set p)) = Suc (card (free_set p))" by simp
  note d = pmm_okD [OF assms(1)]
  have sub: "insert i (free_set p) \<subseteq> R" using assms(5) d(9) by simp
  from card_mono [OF d(8) this] c have "Suc (card (free_set p)) \<le> card R" by simp
  then have u: "1 \<le> used_frames p" "used_frames p < 2 ^ 64"
    using d(10-12) by linarith+
  then have "used_frames (mark_free i p) = used_frames p - 1"
    using assms(2) d(1) il by (simp add: mark_free_def Let_def sub64_id)
  with u show "pmm_ok R (mark_free i p)"
    using d sub c assms(3,4) by (intro pmm_okI) (auto simp: f bit_get_mark_free)
qed

section \<open>Allocations and frees\<close>

lemma find_run_Some:
  assumes "find_run used n stop i run = Some k" "run < n" "run \<le> i"
    and "\<And>j. i - run \<le> j \<Longrightarrow> j < i \<Longrightarrow> \<not> used j"
  shows "k < stop \<and> i - run \<le> k + 1 - n \<and> n \<le> k + 1 \<and> (\<forall>j. k + 1 - n \<le> j \<and> j \<le> k \<longrightarrow> \<not> used j)"
  using assms
proof (induction used n stop i run rule: find_run.induct)
  case (1 used n stop i run)
  consider "i < stop" "used i" | "i < stop" "\<not> used i" "run + 1 = n" | "i < stop" "\<not> used i" "run + 1 \<noteq> n"
    using "1.prems"(1) by (subst (asm) find_run.simps) (auto split: if_splits)
  then show ?case
  proof cases
    case 1
    with "1.prems"(1) have "find_run used n stop (i + 1) 0 = Some k" by (subst (asm) find_run.simps) simp
    from "1.IH"(1) [OF 1 this] "1.prems"(2) show ?thesis by auto
  next
    case 2
    with "1.prems"(1) have "k = i" by (subst (asm) find_run.simps) simp
    with 2 "1.prems"(2-4) show ?thesis by (metis (no_types, lifting) Suc_eq_plus1 diff_Suc_Suc
          diff_le_self le_neq_implies_less less_eq_Suc_le order_refl Suc_le_mono)
  next
    case 3
    with "1.prems"(1) have f: "find_run used n stop (i + 1) (run + 1) = Some k"
      by (subst (asm) find_run.simps) simp
    have "\<not> used j" if "i + 1 - (run + 1) \<le> j" "j < i + 1" for j
    proof (cases "j = i")
      case False
      with that show ?thesis using "1.prems"(4) [of j] by simp
    qed (use 3 in simp)
    from "1.IH"(2) [OF 3 f _ _ this] 3(3) "1.prems"(2,3) show ?thesis by simp
  qed
qed

lemma find_run_None:
  assumes "find_run used n stop i run = None" "run < n" "run \<le> i"
    and "i - run \<le> a" "a + n \<le> stop"
  shows "\<exists>j. a \<le> j \<and> j < a + n \<and> used j"
  using assms
proof (induction used n stop i run rule: find_run.induct)
  case (1 used n stop i run)
  show ?case
  proof (cases "i < stop")
    case False
    then show ?thesis using "1.prems" by auto
  next
    case True
    show ?thesis
    proof (cases "used i")
      case used: True
      with True "1.prems"(1) have "find_run used n stop (i + 1) 0 = None"
        by (subst (asm) find_run.simps) simp
      from "1.IH"(1) [OF True used this] used "1.prems" show ?thesis
        by (cases "a \<le> i") (auto intro: exI [of _ i])
    next
      case False
      have "(if run + 1 = n then Some i else find_run used n stop (i + 1) (run + 1)) = None"
        using True False "1.prems"(1) by (subst (asm) find_run.simps) simp
      then have "run + 1 \<noteq> n" "find_run used n stop (i + 1) (run + 1) = None"
        by (auto split: if_splits)
      with "1.IH"(2) [OF True False] "1.prems" show ?thesis by simp
    qed
  qed
qed

lemma free_set_fold_mark_used: "pmm_ok R p \<Longrightarrow> free_set (fold mark_used is p) = free_set p - set is"
  using limit_le [of R p] by (auto simp: free_set_def bit_get_fold_mark_used pmm_okD(2))

text \<open>What an allocation that took the frames \<open>b, \<dots>, b + n - 1\<close> did.\<close>

definition took :: "nat set \<Rightarrow> nat \<Rightarrow> nat \<Rightarrow> pmm \<Rightarrow> pmm \<Rightarrow> bool" where
  "took R b n p p' \<longleftrightarrow> pmm_ok R p' \<and> limit p' = limit p \<and> 0 < b \<and> b + n \<le> limit p \<and>
     {b..<b + n} \<subseteq> free_set p \<and> free_set p' = free_set p - {b..<b + n}"

lemma take_range:
  assumes "pmm_ok R p" "{b..<b + n} \<subseteq> free_set p" "0 < n"
  shows "took R b n p ((fold mark_used [b..<b + n] p)\<lparr>cursor := b + n\<rparr>)"
proof -
  have "b + n - 1 \<in> free_set p" "b \<in> free_set p" using assms(2,3) by auto
  then have l: "b + n \<le> limit p" "0 < b"
    using assms(3) pmm_okD(6) [OF assms(1)] by (auto simp: free_set_def intro: ccontr)
  then show ?thesis
    using assms(2) pmm_ok_cursor [OF fold_mark_used_ok [OF assms(1)], of "b + n" "[b..<b + n]"]
      free_set_fold_mark_used [OF assms(1), of "[b..<b + n]"]
    by (simp add: took_def)
qed

lemma alloc_one:
  assumes "pmm_ok R p" "i < limit p" "\<not> bit_get i p"
  shows "took R i 1 p ((mark_used i p)\<lparr>cursor := i + 1\<rparr>)"
  using take_range [OF assms(1), of i 1] assms(2,3) by (simp add: free_set_def)

lemma take_run_took:
  assumes "pmm_ok R p" "find_run (\<lambda>i. bit_get i p) n stop start 0 = Some i" "0 < n" "stop \<le> limit p"
  shows "took R (i + 1 - n) n p (snd (take_run n i p)) \<and> fst (take_run n i p) = (i + 1 - n) * FRAME_SIZE \<and>
    start \<le> i + 1 - n \<and> i + 1 - n + n \<le> stop"
proof -
  have r: "i < stop" "start \<le> i + 1 - n" "n \<le> i + 1" "\<And>j. i + 1 - n \<le> j \<Longrightarrow> j \<le> i \<Longrightarrow> \<not> bit_get j p"
    using find_run_Some [OF assms(2,3)] by auto
  define b where "b = i + 1 - n"
  have b: "i + 1 = b + n" using r(3) by (simp add: b_def)
  have le: "b + n \<le> stop" "start \<le> b" using r(1,2) b by (simp_all add: b_def)
  have "{b..<b + n} \<subseteq> free_set p"
    using r assms(4) b unfolding b_def [symmetric] by (auto simp: free_set_def)
  from take_range [OF assms(1) this assms(3)] show ?thesis
    using le unfolding take_run_def Let_def b_def [symmetric] b by simp
qed

lemma alloc_frame_took:
  assumes "pmm_ok R p" "alloc_frame p = (a, p')"
  shows "(\<exists>b. a = b * FRAME_SIZE \<and> took R b 1 p p') \<or> a = 0 \<and> p' = p \<and> free_set p = {}"
proof -
  have c: "cursor p \<le> limit p" "initialized p" using pmm_okD [OF assms(1)] by auto
  show ?thesis
  proof (cases "first_idx (\<lambda>i. \<not> bit_get i p) (cursor p) (limit p)")
    case (Some i)
    with assms(2) c alloc_one [OF assms(1) first_idx_SomeD(2,3) [OF Some]] show ?thesis
      by (auto simp: alloc_frame_def)
  next
    case None
    show ?thesis
    proof (cases "first_idx (\<lambda>i. \<not> bit_get i p) 0 (cursor p)")
      case (Some i)
      have "i < limit p" using first_idx_SomeD(2) [OF Some] c by simp
      from alloc_one [OF assms(1) this first_idx_SomeD(3) [OF Some]] None Some assms(2) c
      show ?thesis by (auto simp: alloc_frame_def)
    next
      case none: None
      have "bit_get i p" if "i < limit p" for i
        using that None none by (cases "i < cursor p") (auto simp: first_idx_None)
      then have "free_set p = {}" by (auto simp: free_set_def)
      with none None assms(2) c show ?thesis by (simp add: alloc_frame_def)
    qed
  qed
qed

text \<open>The runs \<open>alloc_frames\<close> looks at: those on one side of the cursor.\<close>

definition run_beside_cursor :: "nat \<Rightarrow> nat \<Rightarrow> pmm \<Rightarrow> bool" where
  "run_beside_cursor b n p \<longleftrightarrow> {b..<b + n} \<subseteq> free_set p \<and> (cursor p \<le> b \<or> b + n \<le> cursor p)"

lemma alloc_frames_took:
  assumes "pmm_ok R p" "alloc_frames n p = (a, p')" "0 < n"
  shows "(\<exists>b. a = b * FRAME_SIZE \<and> took R b n p p' \<and> run_beside_cursor b n p) \<or>
    a = 0 \<and> p' = p \<and> (\<forall>b. \<not> run_beside_cursor b n p)"
proof (cases "n = 1")
  case True
  with alloc_frame_took [OF assms(1), of a p'] assms(2) pmm_okD(1) [OF assms(1)] show ?thesis
    by (auto simp: alloc_frames_def run_beside_cursor_def took_def)
next
  case False
  have c: "cursor p \<le> limit p" "initialized p" using pmm_okD [OF assms(1)] by auto
  let ?u = "\<lambda>i. bit_get i p"
  show ?thesis
  proof (cases "find_run ?u n (limit p) (cursor p) 0")
    case (Some i)
    from take_run_took [OF assms(1) Some assms(3)] Some assms(2,3) False c show ?thesis
      by (auto simp: alloc_frames_def run_beside_cursor_def took_def)
  next
    case none: None
    show ?thesis
    proof (cases "find_run ?u n (cursor p) 0 0")
      case (Some i)
      from take_run_took [OF assms(1) Some assms(3) c(1)] none Some assms(2,3) False c show ?thesis
        by (auto simp: alloc_frames_def run_beside_cursor_def took_def)
    next
      case None
      have "\<not> run_beside_cursor b n p" for b
      proof
        assume r: "run_beside_cursor b n p"
        then have fr: "{b..<b + n} \<subseteq> free_set p" by (simp add: run_beside_cursor_def)
        moreover have "b + n - 1 \<in> {b..<b + n}" using assms(3) by simp
        ultimately have "b + n - 1 \<in> free_set p" by blast
        then have "b + n \<le> limit p" by (auto simp: free_set_def)
        with r find_run_None [OF none assms(3), of b] find_run_None [OF None assms(3), of b]
        obtain j where "b \<le> j" "j < b + n" "bit_get j p"
          by (auto simp: run_beside_cursor_def)
        with fr show False by (auto simp: free_set_def subset_iff)
      qed
      with none None assms(2,3) False c show ?thesis by (simp add: alloc_frames_def)
    qed
  qed
qed

text \<open>Frames of memory that are out.\<close>

definition frame_live :: "nat set \<Rightarrow> pmm \<Rightarrow> nat \<Rightarrow> nat \<Rightarrow> bool" where
  "frame_live R p b n \<longleftrightarrow> (\<forall>i \<in> {b..<b + n}. 0 < i \<and> i < limit p \<and> bit_get i p \<and> i \<in> R)"

lemma frame_addr:
  assumes "pmm_ok R p" "i < limit p"
  shows "i * FRAME_SIZE < max_phys p" "i * FRAME_SIZE < 2 ^ 64"
proof -
  have "(i + 1) * FRAME_SIZE \<le> limit p * FRAME_SIZE" using assms(2) by (intro mult_le_mono1) simp
  also have "\<dots> \<le> max_phys p" by (simp add: limit_def)
  finally show "i * FRAME_SIZE < max_phys p" by (simp add: FRAME_SIZE_def)
  then show "i * FRAME_SIZE < 2 ^ 64" using pmm_okD(3,4) [OF assms(1)] by linarith
qed

lemma free_frame_live:
  assumes "pmm_ok R p" "frame_live R p i 1"
  shows "pmm_ok R (free_frame (i * FRAME_SIZE) p)" "limit (free_frame (i * FRAME_SIZE) p) = limit p"
    "free_set (free_frame (i * FRAME_SIZE) p) = insert i (free_set p)"
    "bit_get j (free_frame (i * FRAME_SIZE) p) \<longleftrightarrow> j \<noteq> i \<and> bit_get j p"
proof -
  have l: "0 < i" "i < limit p" "bit_get i p" "i \<in> R" using assms(2) by (auto simp: frame_live_def)
  have e: "free_frame (i * FRAME_SIZE) p =
      (if i < cursor p then (mark_free i p)\<lparr>cursor := i\<rparr> else mark_free i p)"
    using frame_addr [OF assms(1) l(2)] pmm_okD(1) [OF assms(1)] by (simp add: free_frame_def Let_def)
  note m = mark_free_ok [OF assms(1) l(3,1,2,4)]
  show "pmm_ok R (free_frame (i * FRAME_SIZE) p)"
    using m(1) pmm_ok_cursor [OF m(1), of i] l(2) by (simp add: e)
  show "limit (free_frame (i * FRAME_SIZE) p) = limit p" by (simp add: e)
  show "free_set (free_frame (i * FRAME_SIZE) p) = insert i (free_set p)" using m(2) by (simp add: e)
  show "bit_get j (free_frame (i * FRAME_SIZE) p) \<longleftrightarrow> j \<noteq> i \<and> bit_get j p"
    using bit_get_mark_free [OF pmm_okD(2) [OF assms(1)], of j i] l(2) limit_le [OF assms(1)]
    by (auto simp: e)
qed

lemma free_frames_from_live:
  assumes "pmm_ok R p" "frame_live R p (b + i) k"
  shows "pmm_ok R (free_frames_from (b * FRAME_SIZE) i k p) \<and>
    limit (free_frames_from (b * FRAME_SIZE) i k p) = limit p \<and>
    free_set (free_frames_from (b * FRAME_SIZE) i k p) = free_set p \<union> {b + i..<b + i + k} \<and>
    (\<forall>j. bit_get j (free_frames_from (b * FRAME_SIZE) i k p) \<longleftrightarrow> bit_get j p \<and> j \<notin> {b + i..<b + i + k})"
  using assms
proof (induction k arbitrary: i p)
  case (Suc k)
  let ?q = "free_frame ((b + i) * FRAME_SIZE) p"
  have "b + i \<in> {b + i..<b + i + Suc k}" by simp
  then have l: "frame_live R p (b + i) 1"
    using bspec [OF Suc.prems(2) [unfolded frame_live_def]] by (auto simp: frame_live_def)
  note f = free_frame_live [OF Suc.prems(1) l]
  have bi: "b + i < limit p" using l by (simp add: frame_live_def)
  note a = frame_addr [OF Suc.prems(1) bi]
  have "u64 (i * FRAME_SIZE) = i * FRAME_SIZE" using a(2) by (intro u64_id) (simp add: add_mult_distrib)
  then have addr: "u64 (b * FRAME_SIZE + u64 (i * FRAME_SIZE)) = (b + i) * FRAME_SIZE"
    using a(2) by (simp add: add_mult_distrib u64_id)
  have step: "free_frames_from (b * FRAME_SIZE) i (Suc k) p = free_frames_from (b * FRAME_SIZE) (i + 1) k ?q"
    using a(1) by (simp add: addr Let_def)
  have "frame_live R ?q (b + (i + 1)) k"
    using Suc.prems(2) f(2,4) by (auto simp: frame_live_def)
  from Suc.IH [OF f(1) this] f(2-4) show ?case
    unfolding step by (auto simp: le_less)
qed simp

definition al_frames :: "nat \<Rightarrow> pmm \<Rightarrow> nat option \<times> pmm" where
  "al_frames n p = (case alloc_frames n p of (a, p') \<Rightarrow>
     (if a = 0 then None else Some (a div FRAME_SIZE), p'))"

definition fr_frames :: "nat \<Rightarrow> nat \<Rightarrow> pmm \<Rightarrow> pmm" where
  "fr_frames b n p = free_frames (b * FRAME_SIZE) n p"

lemma al_frames_cases:
  assumes "pmm_ok R p" "0 < n"
  obtains (took) b p' where "al_frames n p = (Some b, p')" "took R b n p p'"
  | (none) "al_frames n p = (None, p)"
proof -
  obtain a p' where a: "alloc_frames n p = (a, p')" by (cases "alloc_frames n p")
  from alloc_frames_took [OF assms(1) a assms(2)] show ?thesis
  proof
    assume "\<exists>b. a = b * FRAME_SIZE \<and> took R b n p p' \<and> run_beside_cursor b n p"
    then obtain b where "a = b * FRAME_SIZE" "took R b n p p'" by blast
    moreover from this have "a \<noteq> 0" by (simp add: took_def FRAME_SIZE_def)
    ultimately show ?thesis using took [of b p'] a by (simp add: al_frames_def FRAME_SIZE_def)
  next
    assume "a = 0 \<and> p' = p \<and> (\<forall>b. \<not> run_beside_cursor b n p)"
    with none a show ?thesis by (simp add: al_frames_def)
  qed
qed

lemma frame_live_iff:
  "pmm_ok R p \<Longrightarrow> frame_live R p b n \<longleftrightarrow> (\<forall>i \<in> {b..<b + n}. 0 < i \<and> i < limit p \<and> i \<notin> free_set p \<and> i \<in> R)"
  by (auto simp: frame_live_def free_set_def)

interpretation frames: range_allocator "\<lambda>_. True" "pmm_ok R" "\<lambda>p. - free_set p" "frame_live R" al_frames fr_frames
  for R
proof
  fix p :: pmm and b n c m
  assume ok: "pmm_ok R p"
  show "units (b, n) \<subseteq> - free_set p" if "frame_live R p b n"
    using that by (auto simp: frame_live_iff [OF ok] units_def)
  show "pmm_ok R (snd (al_frames n p))" if "0 < n"
    using al_frames_cases [OF ok that] ok by (metis snd_conv took_def)
  show "frame_live R p' b n \<and> units (b, n) \<inter> - free_set p = {}"
    if "0 < n" "al_frames n p = (Some b, p')" for p'
  proof -
    have "took R b n p p'" using al_frames_cases [OF ok that(1)] that(2) by (metis Pair_inject option.inject option.distinct(1))
    then show ?thesis
      using pmm_okD(9) [OF ok] frame_live_iff [of R p' b n] by (auto simp: took_def units_def)
  qed
  show "frame_live R (snd (al_frames n p)) c m" if "0 < n" "frame_live R p c m"
  proof (cases rule: al_frames_cases [OF ok that(1)])
    case (1 b p')
    then show ?thesis
      using that(2) frame_live_iff [OF ok] frame_live_iff [of R p' c m] by (auto simp: took_def)
  qed (use that in simp)
  show "pmm_ok R (fr_frames b n p)" if "frame_live R p b n"
    using free_frames_from_live [OF ok, of b 0 n] that by (simp add: fr_frames_def free_frames_def)
  show "frame_live R (fr_frames b n p) c m"
    if "frame_live R p b n" "frame_live R p c m" "units (b, n) \<inter> units (c, m) = {}"
    using free_frames_from_live [OF ok, of b 0 n] that
    by (auto simp: fr_frames_def free_frames_def frame_live_def units_def)
qed

section \<open>After initialisation\<close>

definition entry_range :: "MEMORY_MAP_ENTRY \<Rightarrow> nat set" where
  "entry_range e = (if Type e = 0 then {Start e div FRAME_SIZE..<End e div FRAME_SIZE} else {})"

definition map_range :: "MEMORY_MAP_ENTRY list \<Rightarrow> nat set" where
  "map_range es = (\<Union>e \<in> set es. entry_range e)"

definition region_frames :: "nat \<times> nat \<Rightarrow> nat set" where
  "region_frames r = {fst r div FRAME_SIZE..<u64 (snd r + FRAME_SIZE - 1) div FRAME_SIZE}"

text \<open>The boot data is sane: the direct map is a positive multiple of 2 MiB, the entries of the
  memory map are ranges, and their frames can be counted in 64 bits.\<close>

definition boot_ok :: "nat \<Rightarrow> BOOT_HEADER \<Rightarrow> bool" where
  "boot_ok dml bh \<longleftrightarrow> 0 < dml \<and> dml mod 0x200000 = 0 \<and>
     (\<forall>e \<in> set (MemoryMap bh). Start e \<le> End e \<and> End e < 2 ^ 64) \<and>
     sum_list (map (\<lambda>e. End e div FRAME_SIZE - Start e div FRAME_SIZE) (MemoryMap bh)) < 2 ^ 64"

lemma sized_upd [simp]: "sized (p\<lparr>max_phys := a\<rparr>) = sized p" "sized (p\<lparr>total_frames := a\<rparr>) = sized p"
  "sized (p\<lparr>used_frames := a\<rparr>) = sized p" "sized (p\<lparr>initialized := b\<rparr>) = sized p"
  by (simp_all add: sized_def)

lemma map_entry_rest [simp]:
  "bitmap_frames (map_entry e p) = bitmap_frames p" "initialized (map_entry e p) = initialized p"
  "sized (map_entry e p) = sized p" "max_phys (map_entry e p) = max (max_phys p) (End e)"
  by (simp_all add: map_entry_def Let_def max_def)

lemma bit_get_map_entry:
  "sized p \<Longrightarrow> bit_get j (map_entry e p) \<longleftrightarrow> bit_get j p \<and> \<not> (j \<in> entry_range e \<and> j < bitmap_frames p)"
  by (auto simp: map_entry_def Let_def entry_range_def bit_get_fold_mark_free)

lemma fold_map_entry:
  assumes "sized p"
  shows "bitmap_frames (fold map_entry es p) = bitmap_frames p \<and> sized (fold map_entry es p) \<and>
    max_phys p \<le> max_phys (fold map_entry es p) \<and>
    max_phys (fold map_entry es p) = fold (\<lambda>e m. max m (End e)) es (max_phys p) \<and>
    (\<forall>e \<in> set es. End e \<le> max_phys (fold map_entry es p)) \<and>
    (\<forall>j. bit_get j (fold map_entry es p) \<longleftrightarrow> bit_get j p \<and> \<not> (j \<in> map_range es \<and> j < bitmap_frames p))"
  using assms
proof (induction es arbitrary: p)
  case (Cons e es)
  have "sized (map_entry e p)" using Cons.prems by simp
  from Cons.IH [OF this] Cons.prems show ?case
    by (auto simp: bit_get_map_entry map_range_def)
qed (simp add: map_range_def)

lemma fold_reserve:
  assumes "sized p"
  shows "bitmap_frames (fold (\<lambda>(a, b). reserve a b) rs p) = bitmap_frames p \<and>
    sized (fold (\<lambda>(a, b). reserve a b) rs p) \<and> max_phys (fold (\<lambda>(a, b). reserve a b) rs p) = max_phys p \<and>
    (\<forall>j. bit_get j (fold (\<lambda>(a, b). reserve a b) rs p) \<longleftrightarrow>
       bit_get j p \<or> j < bitmap_frames p \<and> (\<exists>r \<in> set rs. j \<in> region_frames r))"
  using assms
proof (induction rs arbitrary: p)
  case (Cons r rs)
  obtain a b where r: "r = (a, b)" by (cases r)
  have s: "sized (reserve a b p)" using Cons.prems by (simp add: reserve_def)
  have "bit_get j (reserve a b p) \<longleftrightarrow> bit_get j p \<or> j < bitmap_frames p \<and> j \<in> region_frames r" for j
    using Cons.prems by (auto simp: reserve_def bit_get_fold_mark_used region_frames_def r)
  with Cons.IH [OF s] r show ?case
    by (auto simp: reserve_def)
qed simp

lemma entry_frames_card:
  assumes "Start e \<le> End e" "End e < 2 ^ 64"
  shows "entry_frames mx e = card (entry_range e \<inter> {..<mx div FRAME_SIZE})"
    "entry_frames mx e \<le> End e div FRAME_SIZE - Start e div FRAME_SIZE"
proof -
  let ?m = "min (End e) mx"
  have m: "?m div FRAME_SIZE = min (End e div FRAME_SIZE) (mx div FRAME_SIZE)"
    by (rule div_min)
  show c: "entry_frames mx e = card (entry_range e \<inter> {..<mx div FRAME_SIZE})"
  proof (cases "Type e = 0 \<and> Start e < mx")
    case True
    have "Start e div FRAME_SIZE \<le> ?m div FRAME_SIZE" using True assms by (intro div_le_mono) simp
    moreover have "?m div FRAME_SIZE < 2 ^ 64"
      using assms(2) div_le_dividend [of ?m FRAME_SIZE] by linarith
    moreover have "(if End e < mx then End e else mx) = ?m" by simp
    ultimately have "entry_frames mx e = ?m div FRAME_SIZE - Start e div FRAME_SIZE"
      using True by (simp add: entry_frames_def sub64_id)
    moreover have "entry_range e \<inter> {..<mx div FRAME_SIZE} = {Start e div FRAME_SIZE..<?m div FRAME_SIZE}"
      using True unfolding m by (auto simp: entry_range_def)
    ultimately show ?thesis by simp
  next
    case False
    have "mx div FRAME_SIZE \<le> Start e div FRAME_SIZE" if "\<not> Start e < mx"
      using that by (intro div_le_mono) simp
    with False have "entry_range e \<inter> {..<mx div FRAME_SIZE} = {}" by (auto simp: entry_range_def)
    with False show ?thesis by (auto simp: entry_frames_def)
  qed
  have "card (entry_range e \<inter> {..<mx div FRAME_SIZE}) \<le> card {Start e div FRAME_SIZE..<End e div FRAME_SIZE}"
    by (intro card_mono) (auto simp: entry_range_def split: if_splits)
  with c show "entry_frames mx e \<le> End e div FRAME_SIZE - Start e div FRAME_SIZE" by simp
qed

lemma total_frames_fold:
  assumes "\<forall>e \<in> set es. Start e \<le> End e \<and> End e < 2 ^ 64"
    and "n + sum_list (map (\<lambda>e. End e div FRAME_SIZE - Start e div FRAME_SIZE) es) < 2 ^ 64"
  shows "fold (\<lambda>e n. u64 (n + entry_frames mx e)) es n = n + sum_list (map (entry_frames mx) es) \<and>
    n + sum_list (map (entry_frames mx) es) < 2 ^ 64"
  using assms
proof (induction es arbitrary: n)
  case (Cons e es)
  have b: "entry_frames mx e \<le> End e div FRAME_SIZE - Start e div FRAME_SIZE"
    using entry_frames_card(2) Cons.prems(1) by simp
  then have "n + entry_frames mx e + sum_list (map (\<lambda>e. End e div FRAME_SIZE - Start e div FRAME_SIZE) es) < 2 ^ 64"
    using Cons.prems(2) by simp
  moreover from this have "u64 (n + entry_frames mx e) = n + entry_frames mx e"
    by (intro u64_id) linarith
  ultimately show ?case using Cons.IH [of "n + entry_frames mx e"] Cons.prems(1) by (simp add: add.assoc)
qed simp

lemma card_map_range:
  assumes "\<forall>e \<in> set es. Start e \<le> End e \<and> End e < 2 ^ 64"
  shows "card (map_range es \<inter> {..<mx div FRAME_SIZE}) \<le> sum_list (map (entry_frames mx) es)"
  using assms
proof (induction es)
  case (Cons e es)
  let ?L = "{..<mx div FRAME_SIZE}"
  have "map_range (e # es) \<inter> ?L = (entry_range e \<inter> ?L) \<union> (map_range es \<inter> ?L)"
    by (auto simp: map_range_def)
  then have "card (map_range (e # es) \<inter> ?L) \<le> card (entry_range e \<inter> ?L) + card (map_range es \<inter> ?L)"
    by (metis card_Un_le)
  with Cons entry_frames_card(1) [of e mx] show ?case by simp
qed (simp add: map_range_def)

text \<open>The frames \<open>init\<close> takes away whatever the memory map says.\<close>

definition reserved_frames :: "nat \<Rightarrow> BOOT_HEADER \<Rightarrow> nat \<Rightarrow> nat set" where
  "reserved_frames frames bh kernel_end =
     (\<Union>r \<in> set (boot_regions bh (frames div 8) kernel_end). region_frames r)"

lemma low_frames_reserved:
  assumes "j < 2048"
  shows "j \<in> reserved_frames frames bh kernel_end"
proof -
  have "j \<in> region_frames (0, PMM_LOW_RESERVE_END)"
    using assms by (simp add: region_frames_def PMM_LOW_RESERVE_END_def FRAME_SIZE_def u64_def)
  then show ?thesis by (simp add: reserved_frames_def boot_regions_def)
qed

lemma pmm_init_spec:
  fixes kernel_end :: nat and p0 :: pmm
  assumes "boot_ok dml bh"
  defines "p \<equiv> pmm_init dml bh kernel_end p0"
  shows "pmm_ok (map_range (MemoryMap bh) \<inter> {..<limit p}) p \<and>
    free_set p = map_range (MemoryMap bh) \<inter> {..<limit p} - reserved_frames (bitmap_frames p) bh kernel_end \<and>
    bitmap_frames p = min (dml div FRAME_SIZE) (PMM_BITMAP_SIZE * 8) \<and>
    limit p = min (fold (\<lambda>e m. max m (End e)) (MemoryMap bh) 0 div FRAME_SIZE) (bitmap_frames p)"
proof -
  define frames where "frames = min (dml div FRAME_SIZE) (PMM_BITMAP_SIZE * 8)"
  define es where "es = MemoryMap bh"
  define p1 where "p1 = p0\<lparr>bitmap := replicate (frames div 8) 0xFF, bitmap_frames := frames,
    used_frames := frames, total_frames := 0, max_phys := 0\<rparr>"
  define p2 where "p2 = fold map_entry es p1"
  define p3 where "p3 = (if max_phys p2 > frames * FRAME_SIZE then p2\<lparr>max_phys := frames * FRAME_SIZE\<rparr> else p2)"
  define p4 where "p4 = fold (\<lambda>(a, b). reserve a b) (boot_regions bh (frames div 8) kernel_end) p3"
  define total where "total = fold (\<lambda>e n. u64 (n + entry_frames (max_phys p4) e)) es 0"
  define free where "free = length (filter (\<lambda>i. \<not> bit_get i p4) [0..<limit p4])"
  have p: "p = p4\<lparr>total_frames := total, used_frames := sub64 total free, cursor := 0, initialized := True\<rparr>"
    unfolding p_def pmm_init_def Let_def total_def free_def p4_def p3_def p2_def p1_def es_def frames_def
    by (simp add: min_def)
  obtain k where k: "dml = 0x200000 * k" using assms(1) by (auto simp: boot_ok_def)
  then have "dml div FRAME_SIZE = 8 * (64 * k)" by (simp add: FRAME_SIZE_def)
  then have fr: "frames mod 8 = 0" "0 < frames" "frames \<le> 33554432"
    using assms(1) k by (auto simp: frames_def boot_ok_def PMM_BITMAP_SIZE_def min_def)
  have es: "\<forall>e \<in> set es. Start e \<le> End e \<and> End e < 2 ^ 64"
    "0 + sum_list (map (\<lambda>e. End e div FRAME_SIZE - Start e div FRAME_SIZE) es) < 2 ^ 64"
    using assms(1) by (auto simp: boot_ok_def es_def)
  have s1: "sized p1" using fr(1) by (auto simp: p1_def sized_def)
  have b1: "bit_get j p1" if "j < frames" for j
  proof -
    have "j div 8 < frames div 8" using that fr(1) by (metis div_less_iff_less_mult mod_0_imp_dvd
          dvd_div_mult_self zero_less_numeral)
    moreover have "bit (0xFF :: byte) (j mod 8)"
    proof -
      have "j mod 8 \<in> {0, 1, 2, 3, 4, 5, 6, 7}" by (simp, presburger)
      then show ?thesis by auto
    qed
    ultimately show ?thesis by (simp add: bit_get_iff p1_def)
  qed
  note m = fold_map_entry [OF s1, of es, folded p2_def]
  have f1: "bitmap_frames p1 = frames" by (simp add: p1_def)
  have s3: "sized p3" "bitmap_frames p3 = frames" "max_phys p3 = min (max_phys p2) (frames * FRAME_SIZE)"
    "bit_get j p3 = bit_get j p2" for j
    using m f1 by (auto simp: p3_def min_def)
  note r = fold_reserve [OF s3(1), of "boot_regions bh (frames div 8) kernel_end", folded p4_def]
  have lim: "limit p4 = min (max_phys p2 div FRAME_SIZE) frames"
    using r s3(3) by (simp add: limit_def div_min)
  have bits: "bit_get j p4 \<longleftrightarrow> j \<notin> map_range es \<or> j \<in> reserved_frames frames bh kernel_end" if "j < frames" for j
    using that r s3 m b1 f1 by (auto simp: reserved_frames_def)
  have in_lim: "j < max_phys p2 div FRAME_SIZE" if j: "j \<in> map_range es" for j
  proof -
    obtain e where e: "e \<in> set es" "j < End e div FRAME_SIZE"
      using j by (auto simp: map_range_def entry_range_def split: if_splits)
    have "End e div FRAME_SIZE \<le> max_phys p2 div FRAME_SIZE" using m e(1) by (intro div_le_mono) blast
    with e(2) show ?thesis by simp
  qed
  have fs: "free_set p = map_range es \<inter> {..<limit p} - reserved_frames frames bh kernel_end"
    "limit p = limit p4"
    using bits lim by (auto simp: p free_set_def limit_def)
  have tot: "total = sum_list (map (entry_frames (max_phys p4)) es)" "total < 2 ^ 64"
    using total_frames_fold [OF es, of "max_phys p4"] by (simp_all add: total_def)
  have cr: "card (map_range es \<inter> {..<limit p}) \<le> total"
    using card_map_range [OF es(1), of "max_phys p4"] by (simp add: tot p limit_def)
  have "free = card (free_set p)"
    by (simp add: free_def fs(2) free_set_def p length_filter_conv_card conj_commute cong: conj_cong)
      (simp add: limit_def)
  moreover have "card (free_set p) \<le> total"
    using cr card_mono [of "map_range es \<inter> {..<limit p}" "free_set p"] fs(1) by force
  ultimately have used: "used_frames p + card (free_set p) = total"
    using tot(2) by (simp add: p sub64_id)
  have "pmm_ok (map_range es \<inter> {..<limit p}) p"
  proof (rule pmm_okI)
    show "bit_get i p" if "i < bitmap_frames p" "limit p \<le> i" for i
      using that bits [of i] in_lim [of i] r s3 lim fs(2) by (auto simp: p)
    show "bit_get 0 p" using bits [OF fr(2)] low_frames_reserved by (simp add: p)
    show "bitmap_frames p * FRAME_SIZE < 2 ^ 64" using r s3 fr(3) by (simp add: p FRAME_SIZE_def)
    show "max_phys p \<le> bitmap_frames p * FRAME_SIZE" using r s3 by (simp add: p)
    show "card (map_range es \<inter> {..<limit p}) \<le> total_frames p" using cr by (simp add: p)
    show "used_frames p + card (free_set p) = total_frames p" using used by (simp add: p)
  qed (use r fs tot in \<open>auto simp: p\<close>)
  moreover have b: "bitmap_frames p = frames" using r s3 by (simp add: p)
  moreover have "limit p = min (fold (\<lambda>e m. max m (End e)) es 0 div FRAME_SIZE) frames"
    using m lim fs(2) by (simp add: p1_def)
  ultimately show ?thesis using fs(1) by (simp add: es_def frames_def)
qed

lemma pmm_ok_shrink: "pmm_ok R p \<Longrightarrow> pmm_ok (free_set p) p"
  unfolding pmm_ok_def by simp

lemma is_free_frame:
  assumes "pmm_ok R p" "i < limit p"
  shows "is_free (i * FRAME_SIZE) p \<longleftrightarrow> i \<in> free_set p"
  using frame_addr(1) [OF assms] pmm_okD(1) [OF assms(1)] assms(2)
  by (simp add: is_free_def free_set_def)

lemma init_run:
  assumes "boot_ok dml bh" "client_run al_frames fr_frames os ([], pmm_init dml bh kernel_end p0) = (held, p)"
  defines "q \<equiv> pmm_init dml bh kernel_end p0"
  shows "pmm_ok (free_set q) p \<and> disjoint_ranges held \<and> (\<forall>(b, n) \<in> set held. 0 < n \<and> frame_live (free_set q) p b n)"
proof -
  have ok: "pmm_ok (free_set q) q"
    unfolding q_def
    using pmm_ok_shrink [OF conjunct1 [OF pmm_init_spec [OF assms(1), of kernel_end p0]]] .
  have "disjoint_ranges []" by (simp add: disjoint_ranges_def)
  from frames.client_run_disjoint [OF ok this _ assms(2) [folded q_def]] show ?thesis by simp
qed

section \<open>Properties\<close>

text \<open>C8. No frame is handed out twice, and none that is not free memory: after \<open>init\<close>, however
  allocations of any sizes and frees of what was allocated are mixed, the runs of frames that
  are out do not overlap, and all of them are frames of free entries of the memory map outside
  the regions \<open>init\<close> reserves (the low memory, the kernel, the bitmap, the heap, the boot data
  and the frame buffer).\<close>

theorem frames_never_shared:
  assumes "boot_ok dml bh"
    and "client_run al_frames fr_frames os ([], pmm_init dml bh kernel_end p0) = (held, p)"
  shows "disjoint_ranges held \<and> (\<forall>(b, n) \<in> set held. units (b, n) \<subseteq> map_range (MemoryMap bh)
      - reserved_frames (bitmap_frames (pmm_init dml bh kernel_end p0)) bh kernel_end)"
proof -
  let ?q = "pmm_init dml bh kernel_end p0"
  have "free_set ?q \<subseteq> map_range (MemoryMap bh) - reserved_frames (bitmap_frames ?q) bh kernel_end"
    using pmm_init_spec [OF assms(1), of kernel_end p0] by auto
  moreover have "units (b, n) \<subseteq> free_set ?q" if "(b, n) \<in> set held" for b n
    using init_run [OF assms] that by (fastforce simp: frame_live_def units_def)
  ultimately show ?thesis using init_run [OF assms] by blast
qed

text \<open>C38. When \<open>alloc_frames\<close> succeeds and when it fails: it returns the address of a run of \<open>n\<close>
  free frames that lies wholly at or above the cursor or wholly below it and marks exactly those used; it
  returns 0, changing nothing, exactly when no such run lies on one side of the cursor, which for a
  single frame is when none is free at all.\<close>

theorem alloc_frames_result:
  assumes "pmm_ok R p" "0 < n" "alloc_frames n p = (a, p')"
  shows "(a = 0 \<longleftrightarrow> (\<forall>b. \<not> run_beside_cursor b n p)) \<and>
    (if a = 0 then p' = p \<and> (n = 1 \<longrightarrow> free_set p = {})
     else \<exists>b. a = b * FRAME_SIZE \<and> run_beside_cursor b n p \<and> free_set p' = free_set p - {b..<b + n})"
proof -
  have "free_set p = {}" if "n = 1" "\<forall>b. \<not> run_beside_cursor b n p"
  proof (rule ccontr)
    assume "free_set p \<noteq> {}"
    then obtain b where "b \<in> free_set p" by blast
    then have "run_beside_cursor b 1 p" by (auto simp: run_beside_cursor_def)
    with that show False by blast
  qed
  moreover have "b * FRAME_SIZE \<noteq> 0" if "took R b n p p'" for b
    using that by (simp add: took_def FRAME_SIZE_def)
  ultimately show ?thesis
    using alloc_frames_took [OF assms(1,3,2)] by (auto simp: took_def)
qed

text \<open>Freeing what was allocated gives back exactly those frames.\<close>

theorem alloc_free_frames_roundtrip:
  assumes "pmm_ok R p" "0 < n" "alloc_frames n p = (a, p')" "a \<noteq> 0"
  shows "pmm_ok R (free_frames a n p') \<and> free_set (free_frames a n p') = free_set p"
proof -
  obtain b where b: "a = b * FRAME_SIZE" "took R b n p p'"
    using alloc_frames_took [OF assms(1,3,2)] assms(4) by auto
  then have "frame_live R p' (b + 0) n"
    using pmm_okD(9) [OF assms(1)] frame_live_iff [of R p' b n] by (auto simp: took_def)
  from free_frames_from_live [OF _ this] b show ?thesis
    by (auto simp: free_frames_def took_def)
qed

text \<open>What \<open>get_stats\<close> says is exact: after \<open>init\<close> and any such use, the free count is the
  number of frames \<open>is_free\<close> holds for, and used and free make the total.\<close>

theorem frame_stats_exact:
  assumes "boot_ok dml bh"
    and "client_run al_frames fr_frames os ([], pmm_init dml bh kernel_end p0) = (held, p)"
  shows "st_free (get_stats p) = card {i. i < limit p \<and> is_free (i * FRAME_SIZE) p} \<and>
    st_used (get_stats p) + st_free (get_stats p) = st_total (get_stats p)"
proof -
  let ?R = "free_set (pmm_init dml bh kernel_end p0)"
  have ok: "pmm_ok ?R p" using init_run [OF assms] by blast
  have "i < limit p \<and> is_free (i * FRAME_SIZE) p \<longleftrightarrow> i \<in> free_set p" for i
    using is_free_frame [OF ok, of i] by (cases "i < limit p") (simp_all add: free_set_def)
  then have s: "{i. i < limit p \<and> is_free (i * FRAME_SIZE) p} = free_set p" by simp
  have "(if u < v then v - u else 0) = c \<and> u + (if u < v then v - u else 0) = v" if "u + c = v" for u v c :: nat
    using that by auto
  from this [OF pmm_okD(11) [OF ok]] pmm_okD(11) [OF ok] show ?thesis
    unfolding s by (simp only: get_stats_def Stats.simps simp_thms)
qed

text \<open>Which frames are free after \<open>init\<close>: those of the free entries of the memory map, below
  the managed end, outside the reserved regions; the first 8 MiB never are.\<close>

theorem pmm_init_frames:
  assumes "boot_ok dml bh" "p = pmm_init dml bh kernel_end p0" "i < limit p"
  shows "is_free (i * FRAME_SIZE) p \<longleftrightarrow>
      i \<in> map_range (MemoryMap bh) - reserved_frames (bitmap_frames p) bh kernel_end \<and> 2048 \<le> i"
proof -
  note s = pmm_init_spec [OF assms(1), of kernel_end p0, folded assms(2)]
  note f = is_free_frame [OF conjunct1 [OF s] assms(3)]
  from low_frames_reserved [of i] have "i \<notin> reserved_frames (bitmap_frames p) bh kernel_end \<Longrightarrow> 2048 \<le> i"
    by (meson not_le)
  with f s assms(3) show ?thesis by auto
qed

text \<open>An 8-frame machine whose frames 1, 3 and 4 are free, with the cursor at 0.\<close>

definition pmm_small :: pmm where
  "pmm_small = \<lparr>bitmap = [0xE5], bitmap_frames = 8, total_frames = 8, used_frames = 5,
     max_phys = 8 * 4096, cursor = 0, initialized = True\<rparr>"

lemma pmm_small_bits: "bit_get i pmm_small \<longleftrightarrow> i \<in> {0, 2, 5, 6, 7}" if "i < 8"
proof -
  have "i \<in> {0, 1, 2, 3, 4, 5, 6, 7}" using that by auto
  then show ?thesis by (auto simp: bit_get_def pmm_small_def)
qed

lemma pmm_small_free: "free_set pmm_small = {1, 3, 4}"
proof -
  have "limit pmm_small = 8" by (simp add: limit_def pmm_small_def FRAME_SIZE_def)
  then have "free_set pmm_small = {i. i < 8 \<and> i \<notin> {0, 2, 5, 6, 7}}"
    using pmm_small_bits by (auto simp: free_set_def)
  also have "\<dots> = {1, 3, 4}" by auto
  finally show ?thesis .
qed

lemma pmm_small_ok: "pmm_ok {1, 2, 3, 4} pmm_small"
proof (rule pmm_okI)
  show "bit_get 0 pmm_small" by (simp add: pmm_small_bits)
  show "bit_get i pmm_small" if "i < bitmap_frames pmm_small" "limit pmm_small \<le> i" for i
    using that by (simp add: limit_def pmm_small_def FRAME_SIZE_def)
  show "free_set pmm_small \<subseteq> {1, 2, 3, 4}" by (simp add: pmm_small_free)
  show "used_frames pmm_small + card (free_set pmm_small) = total_frames pmm_small"
    by (simp add: pmm_small_free) (simp add: pmm_small_def)
qed (simp_all add: pmm_small_def sized_def limit_def FRAME_SIZE_def)

definition boot_small :: BOOT_HEADER where
  "boot_small = \<lparr>MemoryMap = [\<lparr>Start = 0, End = 0x1000000, Type = 0\<rparr>], StartDataAddress = 0,
     StartDataSize = 0, FrameBufferAddress = 0, FrameBufferSize = 0\<rparr>"

lemma boot_small_ok: "boot_ok 0x2000000 boot_small"
  by (simp add: boot_ok_def boot_small_def FRAME_SIZE_def)

theorem frames_never_shared_witness:
  "\<exists>held p. client_run al_frames fr_frames [Alloc 3, Alloc 2, Free 0] ([], pmm_init 0x2000000 boot_small 0 pmm_small)
     = (held, p) \<and> disjoint_ranges held"
proof -
  obtain held p where r: "client_run al_frames fr_frames [Alloc 3, Alloc 2, Free 0]
      ([], pmm_init 0x2000000 boot_small 0 pmm_small) = (held, p)"
    by (metis surj_pair)
  from frames_never_shared [OF boot_small_ok r] r show ?thesis by blast
qed

lemma pmm_small_alloc: "alloc_frame pmm_small = (4096, (mark_used 1 pmm_small)\<lparr>cursor := 2\<rparr>)"
proof -
  have "first_idx (\<lambda>i. \<not> bit_get i pmm_small) 0 8 = Some 1"
    by (auto simp: first_idx_Some pmm_small_bits)
  moreover have "cursor pmm_small = 0" "limit pmm_small = 8" "initialized pmm_small"
    by (simp_all add: pmm_small_def limit_def FRAME_SIZE_def)
  ultimately show ?thesis by (simp add: alloc_frame_def FRAME_SIZE_def)
qed

lemma pmm_small_alloc1: "alloc_frames 1 pmm_small = (4096, (mark_used 1 pmm_small)\<lparr>cursor := 2\<rparr>)"
  using pmm_small_alloc by (simp add: alloc_frames_def pmm_small_def)

theorem alloc_frames_result_witness:
  "\<exists>b. 4096 = b * FRAME_SIZE \<and> run_beside_cursor b 1 pmm_small"
  using alloc_frames_result [OF pmm_small_ok _ pmm_small_alloc1] by auto

theorem alloc_free_frames_roundtrip_witness:
  "free_set (free_frames 4096 1 ((mark_used 1 pmm_small)\<lparr>cursor := 2\<rparr>)) = {1, 3, 4}"
  using alloc_free_frames_roundtrip [OF pmm_small_ok _ pmm_small_alloc1] pmm_small_free by simp

theorem frame_stats_exact_witness:
  "st_used (get_stats (pmm_init 0x2000000 boot_small 0 pmm_small))
     + st_free (get_stats (pmm_init 0x2000000 boot_small 0 pmm_small))
     = st_total (get_stats (pmm_init 0x2000000 boot_small 0 pmm_small))"
  using frame_stats_exact [OF boot_small_ok, of "[]" 0 pmm_small] by simp

theorem pmm_init_frames_witness:
  "is_free (3000 * FRAME_SIZE) (pmm_init 0x2000000 boot_small 0 pmm_small)"
proof -
  let ?p = "pmm_init 0x2000000 boot_small 0 pmm_small"
  note s = pmm_init_spec [OF boot_small_ok, of 0 pmm_small]
  have b: "bitmap_frames ?p = 8192" using s by (simp add: FRAME_SIZE_def PMM_BITMAP_SIZE_def)
  have l: "3000 < limit ?p" using s b by (simp add: boot_small_def FRAME_SIZE_def)
  have "3000 \<in> map_range (MemoryMap boot_small)"
    by (simp add: map_range_def entry_range_def boot_small_def FRAME_SIZE_def)
  moreover have "3000 \<notin> reserved_frames (bitmap_frames ?p) boot_small 0"
    unfolding b by (simp add: reserved_frames_def boot_regions_def region_frames_def boot_small_def
        FRAME_SIZE_def PMM_LOW_RESERVE_END_def PMM_BITMAP_ADDR_def PMM_HEAP_START_def
        PMM_HEAP_SIZE_def KERNEL_PHYS_BASE_def u64_def)
  ultimately show ?thesis using pmm_init_frames [OF boot_small_ok refl l] by simp
qed

lemma pmm_small_two: "alloc_frames 2 pmm_small = take_run 2 4 pmm_small"
proof -
  have "find_run (\<lambda>i. bit_get i pmm_small) 2 8 0 0 = Some 4"
    by (simp add: find_run.simps pmm_small_bits)
  moreover have "cursor pmm_small = 0" "limit pmm_small = 8" "initialized pmm_small"
    by (simp_all add: pmm_small_def limit_def FRAME_SIZE_def)
  ultimately show ?thesis by (simp add: alloc_frames_def)
qed

lemma pmm_small_freed:
  defines "p \<equiv> free_frame (2 * FRAME_SIZE) (snd (alloc_frames 2 pmm_small))"
  shows "cursor p = 2" "limit p = 8" "initialized p" "pmm_ok {1, 2, 3, 4} p"
    "j < 8 \<Longrightarrow> bit_get j p \<longleftrightarrow> j \<notin> {1, 2}"
proof -
  define q where "q = snd (alloc_frames 2 pmm_small)"
  have q: "q = (fold mark_used [3, 4] pmm_small)\<lparr>cursor := 5\<rparr>"
    by (simp add: q_def pmm_small_two take_run_def upt_rec)
  have l: "limit pmm_small = 8" "bitmap_frames pmm_small = 8" "max_phys pmm_small = 32768" "initialized pmm_small"
    by (simp_all add: pmm_small_def limit_def FRAME_SIZE_def)
  have ok: "pmm_ok {1, 2, 3, 4} q"
    unfolding q using pmm_ok_cursor [OF fold_mark_used_ok [OF pmm_small_ok], of 5 "[3, 4]"] l by simp
  have bits: "bit_get j q \<longleftrightarrow> bit_get j pmm_small \<or> j \<in> {3, 4}" for j
    using bit_get_fold_mark_used [OF pmm_okD(2) [OF pmm_small_ok], of j "[3, 4]"] l by (auto simp: q)
  have "limit q = 8" by (simp add: q l)
  then have live: "frame_live {1, 2, 3, 4} q 2 1" by (simp add: frame_live_def bits pmm_small_bits)
  note f = free_frame_live [OF ok live]
  have p: "p = free_frame (2 * FRAME_SIZE) q" by (simp add: p_def q_def)
  have "2 * FRAME_SIZE < max_phys q" "initialized q" by (simp_all add: q l FRAME_SIZE_def)
  then show "cursor p = 2" unfolding p by (simp add: free_frame_def Let_def) (simp add: q)
  show "limit p = 8" using f(2) \<open>limit q = 8\<close> by (simp add: p)
  show ok': "pmm_ok {1, 2, 3, 4} p" using f(1) by (simp add: p)
  then show "initialized p" by (rule pmm_okD)
  show "bit_get j p \<longleftrightarrow> j \<notin> {1, 2}" if "j < 8"
  proof -
    have "j \<in> {0, 1, 2, 3, 4, 5, 6, 7}" using that by auto
    then show ?thesis
      unfolding p f(4) bits pmm_small_bits [OF that] by auto
  qed
qed

text \<open>\<open>alloc_frames\<close> looks on each side of the cursor on its own and so misses a run that
  crosses it: starting with frames 1, 3 and 4 free, two frames are allocated and frame 2 is
  freed, which puts the cursor there; frames 1 and 2 are then free and adjacent, and a request
  for two frames fails.\<close>

lemma alloc_frames_misses_run:
  "is_free (1 * FRAME_SIZE) (free_frame (2 * FRAME_SIZE) (snd (alloc_frames 2 pmm_small))) \<and>
   is_free (2 * FRAME_SIZE) (free_frame (2 * FRAME_SIZE) (snd (alloc_frames 2 pmm_small))) \<and>
   fst (alloc_frames 2 (free_frame (2 * FRAME_SIZE) (snd (alloc_frames 2 pmm_small)))) = 0"
proof -
  define p where "p = free_frame (2 * FRAME_SIZE) (snd (alloc_frames 2 pmm_small))"
  note s = pmm_small_freed [folded p_def]
  have "find_run (\<lambda>i. bit_get i p) 2 8 2 0 = None" "find_run (\<lambda>i. bit_get i p) 2 2 0 0 = None"
    by (simp_all add: find_run.simps s(5))
  then have "fst (alloc_frames 2 p) = 0" by (simp add: alloc_frames_def s(1-3))
  moreover have "is_free (1 * FRAME_SIZE) p" "is_free (2 * FRAME_SIZE) p"
    using is_free_frame [OF s(4), of 1] is_free_frame [OF s(4), of 2] s(2) by (simp_all add: free_set_def s(5))
  ultimately show ?thesis unfolding p_def by blast
qed

end
