(* ===== verification/Heap.thy ===== *)
theory Heap
  imports Pmm
begin

text \<open>
  The kernel heap (src/src/kernel/mm/heap.cpp) on the frame allocator: a first-fit list of blocks
  sorted by address, grown by chunks of frames. A block header with its address is the record
  \<open>block\<close>; the chain of \<open>next\<close> pointers from \<open>heap_start\<close> is a list. \<open>kfree\<close> of a pointer that is
  no block of the list is undefined in the source and \<open>None\<close> here.

  The lemmas show that the list stays sorted, without overlaps and fully coalesced, that what
  \<open>kmalloc\<close> returns never overlaps what is out, is aligned and long enough, that its loop ends,
  and when it fails.
\<close>

definition HEADER_SIZE :: nat where
  "HEADER_SIZE = 24"

definition MIN_BLOCK_DATA :: nat where
  "MIN_BLOCK_DATA = 16"

definition GROW_FRAMES :: nat where
  "GROW_FRAMES = 256"

definition DIRECT_MAP_BASE :: nat where
  "DIRECT_MAP_BASE = 0xFFFF888000000000"

definition phys_to_virt :: "nat \<Rightarrow> nat" where
  "phys_to_virt phys = u64 (phys + DIRECT_MAP_BASE)"

record block =
  addr :: nat
  bsize :: nat
  free :: bool

text \<open>\<open>(size + 7) & ~7\<close> on \<open>size_t\<close>.\<close>

definition align8 :: "nat \<Rightarrow> nat" where
  "align8 sz = u64 (sz + 7) - u64 (sz + 7) mod 8"

definition block_end :: "block \<Rightarrow> nat" where
  "block_end b = addr b + HEADER_SIZE + bsize b"

text \<open>\<open>try_merge_with_next\<close> on the first block of a part of the list.\<close>

fun try_merge_with_next :: "block list \<Rightarrow> block list" where
  "try_merge_with_next (b # n # r) =
     (if \<not> free b \<or> \<not> free n then b # n # r
      else if block_end b \<noteq> addr n then b # n # r
      else b\<lparr>bsize := u64 (bsize b + HEADER_SIZE + bsize n)\<rparr> # r)"
| "try_merge_with_next bs = bs"

text \<open>The walk of \<open>heap_insert_chunk\<close> from a block with a smaller address.\<close>

fun insert_after :: "block \<Rightarrow> block list \<Rightarrow> block list" where
  "insert_after c [] = [c]"
| "insert_after c (prev # rest) =
     (if rest \<noteq> [] \<and> addr (hd rest) < addr c then prev # insert_after c rest
      else try_merge_with_next (prev # try_merge_with_next (c # rest)))"

definition heap_insert_chunk :: "nat \<Rightarrow> nat \<Rightarrow> block list \<Rightarrow> block list" where
  "heap_insert_chunk chunk sz bs =
     (let c = \<lparr>addr = chunk, bsize = sub64 sz HEADER_SIZE, free = True\<rparr> in
      if bs = [] \<or> chunk < addr (hd bs) then try_merge_with_next (c # bs)
      else insert_after c bs)"

definition heap_init :: "nat \<Rightarrow> nat \<Rightarrow> block list" where
  "heap_init start sz = [\<lparr>addr = start, bsize = sub64 sz HEADER_SIZE, free = True\<rparr>]"

text \<open>The heap and the frames it grows from.\<close>

record heap_sys =
  blocks :: "block list"
  frames :: pmm

definition grow :: "heap_sys \<Rightarrow> bool \<times> heap_sys" where
  "grow h = (case alloc_frames GROW_FRAMES (frames h) of (phys, p) \<Rightarrow>
     if phys = 0 then (False, h\<lparr>frames := p\<rparr>)
     else (True, h\<lparr>frames := p,
       blocks := heap_insert_chunk (phys_to_virt phys) (GROW_FRAMES * FRAME_SIZE) (blocks h)\<rparr>))"

fun heap_find_fit :: "nat \<Rightarrow> block list \<Rightarrow> nat option \<times> block list" where
  "heap_find_fit sz [] = (None, [])"
| "heap_find_fit sz (b # r) =
     (if free b \<and> bsize b \<ge> sz then
        (Some (addr b + HEADER_SIZE),
         if bsize b \<ge> u64 (sz + HEADER_SIZE + MIN_BLOCK_DATA)
         then b\<lparr>bsize := sz, free := False\<rparr>
              # \<lparr>addr = addr b + HEADER_SIZE + sz, bsize = sub64 (bsize b) (sz + HEADER_SIZE), free = True\<rparr>
              # r
         else b\<lparr>free := False\<rparr> # r)
      else case heap_find_fit sz r of (p, r') \<Rightarrow> (p, b # r'))"

text \<open>The loop of \<open>kmalloc\<close>: grow until it fits or there is nothing to grow from.\<close>

partial_function (option) kmalloc_grow :: "nat \<Rightarrow> heap_sys \<Rightarrow> (nat option \<times> heap_sys) option" where
  "kmalloc_grow sz h =
     (case grow h of (ok, h1) \<Rightarrow>
        if \<not> ok then Some (None, h1)
        else case heap_find_fit sz (blocks h1) of (r, bs) \<Rightarrow>
          (case r of
             Some p \<Rightarrow> Some (Some p, h1\<lparr>blocks := bs\<rparr>)
           | None \<Rightarrow> kmalloc_grow sz (h1\<lparr>blocks := bs\<rparr>)))"

definition kmalloc :: "nat \<Rightarrow> heap_sys \<Rightarrow> (nat option \<times> heap_sys) option" where
  "kmalloc sz h =
     (if sz = 0 then Some (None, h)
      else let sz = align8 sz in
        case heap_find_fit sz (blocks h) of
          (Some p, bs) \<Rightarrow> Some (Some p, h\<lparr>blocks := bs\<rparr>)
        | (None, bs) \<Rightarrow> kmalloc_grow sz (h\<lparr>blocks := bs\<rparr>))"

text \<open>\<open>kfree\<close> of the block at address \<open>a\<close>: free it, merge it with its successor, then its
  predecessor with it.\<close>

fun free_block :: "nat \<Rightarrow> block list \<Rightarrow> block list option" where
  "free_block a [] = None"
| "free_block a (b # r) =
     (if addr b = a then Some (try_merge_with_next (b\<lparr>free := True\<rparr> # r))
      else if r \<noteq> [] \<and> addr (hd r) = a
      then Some (try_merge_with_next (b # try_merge_with_next ((hd r)\<lparr>free := True\<rparr> # tl r)))
      else case free_block a r of None \<Rightarrow> None | Some r' \<Rightarrow> Some (b # r'))"

definition kfree :: "nat \<Rightarrow> heap_sys \<Rightarrow> heap_sys option" where
  "kfree ptr h =
     (if ptr = 0 then Some h
      else case free_block (ptr - HEADER_SIZE) (blocks h) of
        None \<Rightarrow> None
      | Some bs \<Rightarrow> Some (h\<lparr>blocks := bs\<rparr>))"

record HeapStats =
  total_size :: nat
  used_size :: nat
  free_size :: nat
  block_count :: nat
  free_block_count :: nat
  used_block_count :: nat
  largest_free_block :: nat

fun stats_step :: "block \<Rightarrow> HeapStats \<Rightarrow> HeapStats" where
  "stats_step b s =
     (let s1 = s\<lparr>block_count := block_count s + 1, total_size := u64 (total_size s + bsize b)\<rparr> in
      if free b
      then s1\<lparr>free_block_count := free_block_count s + 1, free_size := u64 (free_size s + bsize b),
              largest_free_block := (if bsize b > largest_free_block s then bsize b else largest_free_block s)\<rparr>
      else s1\<lparr>used_block_count := used_block_count s + 1, used_size := u64 (used_size s + bsize b)\<rparr>)"

definition get_stats :: "block list \<Rightarrow> HeapStats" where
  "get_stats bs = fold stats_step bs \<lparr>total_size = 0, used_size = 0, free_size = 0, block_count = 0,
     free_block_count = 0, used_block_count = 0, largest_free_block = 0\<rparr>"

section \<open>The block list\<close>

text \<open>Sorted by address without overlaps, addresses and sizes multiples of 8, all of it inside
  the address space.\<close>

definition heap_ok :: "block list \<Rightarrow> bool" where
  "heap_ok bs \<longleftrightarrow> sorted_wrt (\<lambda>b c. block_end b \<le> addr c) bs \<and>
     (\<forall>b \<in> set bs. 8 dvd addr b \<and> 8 dvd bsize b \<and> block_end b < 2 ^ 64)"

text \<open>No two free neighbours touch.\<close>

definition coalesced :: "block list \<Rightarrow> bool" where
  "coalesced bs \<longleftrightarrow> successively (\<lambda>b c. \<not> (free b \<and> free c \<and> block_end b = addr c)) bs"

definition in_use :: "block list \<Rightarrow> block list" where
  "in_use bs = filter (\<lambda>b. \<not> free b) bs"

definition bytes :: "block list \<Rightarrow> nat set" where
  "bytes bs = (\<Union>b \<in> set bs. {addr b..<block_end b})"

lemma heap_ok_Cons: "heap_ok (b # bs) \<longleftrightarrow> heap_ok bs \<and> (\<forall>c \<in> set bs. block_end b \<le> addr c) \<and>
    8 dvd addr b \<and> 8 dvd bsize b \<and> block_end b < 2 ^ 64"
  by (auto simp: heap_ok_def)

lemma heap_ok_Nil [simp]: "heap_ok []"
  by (simp add: heap_ok_def)

lemma bytes_simps [simp]: "bytes [] = {}" "bytes (b # bs) = {addr b..<block_end b} \<union> bytes bs"
  by (auto simp: bytes_def)

lemma in_use_simps [simp]: "in_use [] = []" "in_use (b # bs) = (if free b then in_use bs else b # in_use bs)"
  by (simp_all add: in_use_def)

lemma block_end_ge: "addr b + 24 \<le> block_end b"
  by (simp add: block_end_def HEADER_SIZE_def)

text \<open>Merging keeps the order, the bytes and the blocks in use.\<close>

lemma merge_cases:
  obtains (same) "try_merge_with_next bs = bs"
      "\<And>b n r. bs = b # n # r \<Longrightarrow> \<not> (free b \<and> free n \<and> block_end b = addr n)"
  | (merged) b n r where "bs = b # n # r" "free b" "free n" "block_end b = addr n"
      "try_merge_with_next bs = b\<lparr>bsize := u64 (bsize b + HEADER_SIZE + bsize n)\<rparr> # r"
proof (cases "\<exists>b n r. bs = b # n # r \<and> free b \<and> free n \<and> block_end b = addr n")
  case True
  then show ?thesis using merged by auto
next
  case False
  moreover from this have "try_merge_with_next bs = bs"
    by (cases bs rule: try_merge_with_next.cases) auto
  ultimately show ?thesis using same by blast
qed

lemma merge_size:
  assumes "block_end b = addr n" "block_end n < 2 ^ 64"
  shows "u64 (bsize b + HEADER_SIZE + bsize n) = bsize b + HEADER_SIZE + bsize n"
  using assms by (intro u64_id) (simp add: block_end_def)

lemma merge_spec:
  assumes "heap_ok bs"
  shows "heap_ok (try_merge_with_next bs) \<and> bytes (try_merge_with_next bs) = bytes bs \<and>
    in_use (try_merge_with_next bs) = in_use bs"
proof (cases bs rule: merge_cases)
  case same
  with assms show ?thesis by simp
next
  case (merged b n r)
  have n: "block_end n < 2 ^ 64" using assms merged(1) by (simp add: heap_ok_Cons)
  let ?b = "b\<lparr>bsize := bsize b + HEADER_SIZE + bsize n\<rparr>"
  have e: "block_end ?b = block_end n" using merged(4) by (simp add: block_end_def)
  have m: "try_merge_with_next bs = ?b # r" using merged(5) merge_size [OF merged(4) n] by simp
  have "8 dvd bsize ?b"
    using assms merged(1) by (simp add: heap_ok_Cons HEADER_SIZE_def)
  then have "heap_ok (?b # r)"
    using assms merged(1) n e by (simp add: heap_ok_Cons)
  moreover have "{addr b..<block_end b} \<union> {addr n..<block_end n} = {addr b..<block_end n}"
    using merged(4) block_end_ge [of b] block_end_ge [of n] by auto
  ultimately show ?thesis
    using merged(1-3) e unfolding m by (auto simp: Un_assoc [symmetric])
qed

lemma merge_coalesced: "coalesced bs \<Longrightarrow> coalesced (try_merge_with_next (b # bs))" if "heap_ok (b # bs)"
proof -
  assume c: "coalesced bs"
  show "coalesced (try_merge_with_next (b # bs))"
  proof (cases "b # bs" rule: merge_cases)
    case same
    with c show ?thesis by (cases bs) (auto simp: coalesced_def)
  next
    case (merged b' n r)
    have n: "block_end n < 2 ^ 64" using that merged(1) by (simp add: heap_ok_Cons)
    have "block_end (b'\<lparr>bsize := bsize b' + HEADER_SIZE + bsize n\<rparr>) = block_end n"
      using merged(4) by (simp add: block_end_def)
    with c merged merge_size [OF merged(4) n] show ?thesis
      by (cases r) (auto simp: coalesced_def)
  qed
qed

lemma merge_hd: "try_merge_with_next (b # bs) \<noteq> [] \<and> addr (hd (try_merge_with_next (b # bs))) = addr b \<and>
    free (hd (try_merge_with_next (b # bs))) = free b"
  by (cases bs) auto

text \<open>The order in terms of the bytes alone.\<close>

lemma addr_in_bytes: "c \<in> set bs \<Longrightarrow> addr c \<in> bytes bs"
  using block_end_ge [of c] by (auto simp: bytes_def)

lemma above_iff: "(\<forall>c \<in> set bs. x \<le> addr c) \<longleftrightarrow> bytes bs \<subseteq> {x..}"
proof
  assume "bytes bs \<subseteq> {x..}"
  then show "\<forall>c \<in> set bs. x \<le> addr c"
    using addr_in_bytes by auto
qed (fastforce simp: bytes_def)

lemma heap_ok_bytes: "heap_ok (b # bs) \<longleftrightarrow> heap_ok bs \<and> bytes bs \<subseteq> {block_end b..} \<and>
    8 dvd addr b \<and> 8 dvd bsize b \<and> block_end b < 2 ^ 64"
  by (simp add: heap_ok_Cons above_iff)

text \<open>A list with the same bytes and the same blocks in use.\<close>

definition chunk_ok :: "block \<Rightarrow> bool" where
  "chunk_ok c \<longleftrightarrow> free c \<and> 8 dvd addr c \<and> 8 dvd bsize c \<and> block_end c < 2 ^ 64"

lemma insert_here:
  assumes "heap_ok (p # rest)" "coalesced (p # rest)" "chunk_ok c" "block_end p \<le> addr c"
    and "bytes rest \<subseteq> {block_end c..}"
  shows "heap_ok (try_merge_with_next (p # try_merge_with_next (c # rest))) \<and>
    coalesced (try_merge_with_next (p # try_merge_with_next (c # rest))) \<and>
    bytes (try_merge_with_next (p # try_merge_with_next (c # rest))) = bytes (c # p # rest) \<and>
    in_use (try_merge_with_next (p # try_merge_with_next (c # rest))) = in_use (p # rest)"
proof -
  have c: "heap_ok (c # rest)" using assms by (simp add: heap_ok_bytes chunk_ok_def)
  note m = merge_spec [OF c]
  have "bytes (c # rest) \<subseteq> {block_end p..}"
    using assms(1,4,5) block_end_ge [of c] by (auto simp: heap_ok_bytes subset_iff)
  then have p: "heap_ok (p # try_merge_with_next (c # rest))"
    using m assms(1) by (simp add: heap_ok_bytes)
  have "coalesced rest" using assms(2) by (cases rest) (auto simp: coalesced_def)
  from merge_coalesced [OF c this] have "coalesced (try_merge_with_next (c # rest))" .
  from merge_coalesced [OF p this] merge_spec [OF p] m assms(3) show ?thesis
    by (auto simp: chunk_ok_def)
qed

lemma coalesced_Cons: "coalesced (b # bs) \<longleftrightarrow> coalesced bs \<and>
    (bs = [] \<or> \<not> (free b \<and> free (hd bs) \<and> block_end b = addr (hd bs)))"
  by (cases bs) (auto simp: coalesced_def)

lemma insert_after_hd: "insert_after c (p # rest) \<noteq> [] \<and> addr (hd (insert_after c (p # rest))) = addr p \<and>
    free (hd (insert_after c (p # rest))) = free p"
  using merge_hd by simp

lemma insert_after_spec:
  assumes "heap_ok (p # rest)" "coalesced (p # rest)" "chunk_ok c" "block_end p \<le> addr c"
    and "\<forall>b \<in> set rest. block_end b \<le> addr c \<or> block_end c \<le> addr b"
  shows "heap_ok (insert_after c (p # rest)) \<and> coalesced (insert_after c (p # rest)) \<and>
    bytes (insert_after c (p # rest)) = bytes (c # p # rest) \<and>
    in_use (insert_after c (p # rest)) = in_use (p # rest)"
  using assms
proof (induction rest arbitrary: p)
  case Nil
  then show ?case using insert_here [of p "[]" c] by simp
next
  case (Cons n rest)
  show ?case
  proof (cases "addr n < addr c")
    case True
    have n: "heap_ok (n # rest)" "coalesced (n # rest)"
      using Cons.prems(1,2) by (simp_all add: heap_ok_bytes coalesced_Cons)
    have "block_end n \<le> addr c" using Cons.prems(5) True block_end_ge [of c] by auto
    note ih = Cons.IH [OF n Cons.prems(3) this]
    have ih: "heap_ok (insert_after c (n # rest))" "coalesced (insert_after c (n # rest))"
      "bytes (insert_after c (n # rest)) = bytes (c # n # rest)"
      "in_use (insert_after c (n # rest)) = in_use (n # rest)"
      using ih Cons.prems(5) by auto
    have "bytes (c # n # rest) \<subseteq> {block_end p..}"
      using Cons.prems(1,4) by (auto simp: heap_ok_bytes)
    then have "heap_ok (p # insert_after c (n # rest))"
      using ih Cons.prems(1) by (simp only: heap_ok_bytes)
    moreover have "coalesced (p # insert_after c (n # rest))"
      using ih(2) Cons.prems(2) insert_after_hd [of c n rest] by (simp only: coalesced_Cons list.sel) auto
    moreover have "insert_after c (p # n # rest) = p # insert_after c (n # rest)"
      using True by simp
    ultimately show ?thesis using ih(3,4) by (auto simp del: insert_after.simps)
  next
    case False
    have "block_end c \<le> addr n" using False Cons.prems(5) block_end_ge [of n] by auto
    then have "bytes (n # rest) \<subseteq> {block_end c..}"
      using Cons.prems(1) block_end_ge [of n] by (auto simp: heap_ok_bytes subset_iff)
    from insert_here [OF Cons.prems(1-4) this] False show ?thesis by simp
  qed
qed

lemma heap_insert_chunk_spec:
  assumes "heap_ok bs" "coalesced bs" "HEADER_SIZE \<le> sz" "8 dvd chunk" "8 dvd sz" "chunk + sz < 2 ^ 64"
    and "bytes bs \<inter> {chunk..<chunk + sz} = {}"
  shows "heap_ok (heap_insert_chunk chunk sz bs) \<and> coalesced (heap_insert_chunk chunk sz bs) \<and>
    bytes (heap_insert_chunk chunk sz bs) = {chunk..<chunk + sz} \<union> bytes bs \<and>
    in_use (heap_insert_chunk chunk sz bs) = in_use bs"
proof -
  define c where "c = \<lparr>addr = chunk, bsize = sub64 sz HEADER_SIZE, free = True\<rparr>"
  have "sub64 sz HEADER_SIZE = sz - HEADER_SIZE" using assms(3,6) by (intro sub64_id) auto
  then have e: "block_end c = chunk + sz" "bsize c = sz - HEADER_SIZE" "addr c = chunk"
    using assms(3) by (simp_all add: c_def block_end_def)
  have "8 dvd sz - HEADER_SIZE" using assms(5) by (simp add: HEADER_SIZE_def dvd_diff_nat)
  then have ok: "chunk_ok c" using assms(4,6) e by (simp add: chunk_ok_def c_def)
  have pos: "chunk < chunk + sz" using assms(3) by (simp add: HEADER_SIZE_def)
  have sep: "block_end b \<le> addr c \<or> block_end c \<le> addr b" if "b \<in> set bs" for b
  proof -
    have "{addr b..<block_end b} \<inter> {chunk..<chunk + sz} = {}"
      using assms(7) that unfolding bytes_def by blast
    moreover have "addr b < block_end b" using block_end_ge [of b] by simp
    ultimately show ?thesis using disjoint_intervals pos e by simp
  qed
  show ?thesis
  proof (cases "bs = [] \<or> chunk < addr (hd bs)")
    case True
    have "bytes bs \<subseteq> {block_end c..}"
    proof (cases bs)
      case (Cons n r)
      have "block_end c \<le> addr n" using sep [of n] True Cons e block_end_ge [of n] by auto
      with assms(1) Cons block_end_ge [of n] show ?thesis by (auto simp: heap_ok_bytes subset_iff)
    qed simp
    then have h: "heap_ok (c # bs)" using assms(1) ok by (simp add: heap_ok_bytes chunk_ok_def)
    have "heap_insert_chunk chunk sz bs = try_merge_with_next (c # bs)"
      using True by (simp add: heap_insert_chunk_def c_def)
    with merge_spec [OF h] merge_coalesced [OF h assms(2)] ok e show ?thesis
      by (simp add: chunk_ok_def)
  next
    case False
    then obtain p r where b: "bs = p # r" by (cases bs) auto
    have "block_end p \<le> addr c" using sep [of p] False b e pos by auto
    moreover have "heap_insert_chunk chunk sz bs = insert_after c bs"
      using False unfolding heap_insert_chunk_def c_def Let_def by simp
    ultimately show ?thesis
      using insert_after_spec [of p r c] assms(1,2) ok sep b e by auto
  qed
qed

section \<open>Allocating and freeing a block\<close>

lemma in_use_bytes: "bytes (in_use bs) \<subseteq> bytes bs"
  by (auto simp: bytes_def in_use_def)

text \<open>A block was carved out: the order and the bytes are as before, and it is the one more block
  in use.\<close>

definition carved :: "nat \<Rightarrow> nat \<Rightarrow> block list \<Rightarrow> block list \<Rightarrow> bool" where
  "carved p sz bs bs' \<longleftrightarrow> heap_ok bs' \<and> coalesced bs' \<and> bytes bs' = bytes bs \<and>
     (\<exists>b. addr b + HEADER_SIZE = p \<and> sz \<le> bsize b \<and> \<not> free b \<and>
        set (in_use bs') = insert b (set (in_use bs)) \<and>
        {addr b..<block_end b} \<inter> bytes (in_use bs) = {})"

lemma carve_split:
  assumes "heap_ok (b # r)" "coalesced (b # r)" "free b" "8 dvd sz" "sz + 40 \<le> bsize b"
  shows "carved (addr b + HEADER_SIZE) sz (b # r) (b\<lparr>bsize := sz, free := False\<rparr>
    # \<lparr>addr = addr b + HEADER_SIZE + sz, bsize = bsize b - (sz + HEADER_SIZE), free = True\<rparr> # r)"
    (is "carved _ _ _ (?u # ?f # r)")
proof -
  have e: "block_end ?u = addr ?f" "block_end ?f = block_end b" "addr ?u = addr b" "addr ?f < block_end ?f"
    "addr ?u < block_end ?u"
    using assms(5) by (simp_all add: block_end_def HEADER_SIZE_def)
  have "8 dvd addr ?f" "8 dvd bsize ?f"
    using assms(1,4,5) by (simp_all add: heap_ok_bytes HEADER_SIZE_def dvd_diff_nat)
  then have "heap_ok (?f # r)" using assms(1) e(2) by (simp add: heap_ok_bytes)
  moreover have "bytes (?f # r) \<subseteq> {block_end ?u..}"
    using assms(1) e by (auto simp: heap_ok_bytes subset_iff)
  ultimately have h: "heap_ok (?u # ?f # r)"
    using assms(1,4) e by (simp add: heap_ok_bytes)
  have "coalesced (?u # ?f # r)" using assms(2,3) e(2) by (auto simp: coalesced_Cons)
  moreover have "bytes (?u # ?f # r) = bytes (b # r)" using e by (auto simp: ivl_disj_un)
  moreover have "{addr ?u..<block_end ?u} \<inter> bytes (in_use r) = {}"
    using in_use_bytes [of r] assms(1) e by (auto simp: heap_ok_bytes subset_iff)
  ultimately show ?thesis
    using h assms(3) unfolding carved_def by (auto intro!: exI [of _ ?u])
qed

lemma carve_whole:
  assumes "heap_ok (b # r)" "coalesced (b # r)" "free b" "sz \<le> bsize b"
  shows "carved (addr b + HEADER_SIZE) sz (b # r) (b\<lparr>free := False\<rparr> # r)"
proof -
  let ?u = "b\<lparr>free := False\<rparr>"
  have e: "block_end ?u = block_end b" by (simp add: block_end_def)
  have "{addr ?u..<block_end ?u} \<inter> bytes (in_use r) = {}"
    using in_use_bytes [of r] assms(1) e by (auto simp: heap_ok_bytes subset_iff)
  with assms e show ?thesis
    unfolding carved_def by (auto simp: heap_ok_bytes coalesced_Cons intro!: exI [of _ ?u])
qed

lemma carved_Cons:
  assumes "heap_ok (b # r)" "coalesced (b # r)" "carved p sz r r'" "r' \<noteq> []" "addr (hd r') = addr (hd r)"
    and "free (hd r') \<Longrightarrow> free (hd r)" "r \<noteq> []"
  shows "carved p sz (b # r) (b # r')"
proof -
  obtain u where u: "addr u + HEADER_SIZE = p" "sz \<le> bsize u" "\<not> free u"
      "set (in_use r') = insert u (set (in_use r))" "{addr u..<block_end u} \<inter> bytes (in_use r) = {}"
    and r': "heap_ok r'" "coalesced r'" "bytes r' = bytes r"
    using assms(3) by (auto simp: carved_def)
  have "u \<in> set r'" using u(4) by (auto simp: in_use_def)
  then have "{addr u..<block_end u} \<subseteq> bytes r'" by (auto simp: bytes_def)
  then have "{addr u..<block_end u} \<inter> {addr b..<block_end b} = {}"
    using assms(1) r'(3) by (auto simp: heap_ok_bytes subset_iff)
  with u(5) have "{addr u..<block_end u} \<inter> bytes (in_use (b # r)) = {}" by auto
  moreover have "heap_ok (b # r')" using assms(1) r' by (simp add: heap_ok_bytes)
  moreover have "coalesced (b # r')" using assms(2,4-7) r'(2) by (auto simp: coalesced_Cons)
  moreover have "set (in_use (b # r')) = insert u (set (in_use (b # r)))" using u(4) by auto
  ultimately show ?thesis using u(1-3) r'(3) unfolding carved_def by (metis bytes_simps(2))
qed

lemma find_fit_hd: "heap_find_fit sz bs = (r, bs') \<Longrightarrow> bs \<noteq> [] \<Longrightarrow>
    bs' \<noteq> [] \<and> addr (hd bs') = addr (hd bs) \<and> (free (hd bs') \<longrightarrow> free (hd bs))"
  by (cases bs) (auto split: if_splits prod.splits)

lemma find_fit_spec:
  assumes "heap_ok bs" "coalesced bs" "8 dvd sz" "\<forall>b \<in> set bs. bsize b < 2 ^ 63"
    and "heap_find_fit sz bs = (r, bs')"
  shows "case r of
      None \<Rightarrow> bs' = bs \<and> (\<forall>b \<in> set bs. free b \<longrightarrow> bsize b < sz)
    | Some p \<Rightarrow> carved p sz bs bs'"
  using assms
proof (induction bs arbitrary: r bs')
  case (Cons b bs)
  show ?case
  proof (cases "free b \<and> sz \<le> bsize b")
    case True
    then have sz: "sz < 2 ^ 63" using Cons.prems(4) by auto
    have w: "u64 (sz + HEADER_SIZE + MIN_BLOCK_DATA) = sz + 40"
      using sz by (simp add: u64_def HEADER_SIZE_def MIN_BLOCK_DATA_def)
    have "sub64 (bsize b) (sz + HEADER_SIZE) = bsize b - (sz + HEADER_SIZE)" if "sz + 40 \<le> bsize b"
      using that Cons.prems(4) by (intro sub64_id) (auto simp: HEADER_SIZE_def)
    with True w Cons.prems(5) carve_split [OF Cons.prems(1,2) _ Cons.prems(3)]
      carve_whole [OF Cons.prems(1,2)] show ?thesis
      by (auto split: if_splits)
  next
    case False
    obtain q qs where f: "heap_find_fit sz bs = (q, qs)" by (cases "heap_find_fit sz bs")
    have r: "r = q" "bs' = b # qs" using Cons.prems(5) False f by auto
    have "heap_ok bs" "coalesced bs" "\<forall>b \<in> set bs. bsize b < 2 ^ 63"
      using Cons.prems by (simp_all add: heap_ok_bytes coalesced_Cons)
    note ih = Cons.IH [OF this(1,2) Cons.prems(3) this(3) f]
    show ?thesis
    proof (cases q)
      case None
      with ih False r show ?thesis by auto
    next
      case (Some p)
      then have "bs \<noteq> []" using f by auto
      with ih Some r carved_Cons [OF Cons.prems(1,2)] find_fit_hd [OF f] show ?thesis by auto
    qed
  qed
qed auto

text \<open>A block was released: the order and the bytes are as before, and it is the one less in
  use.\<close>

definition released :: "block \<Rightarrow> block list \<Rightarrow> block list \<Rightarrow> bool" where
  "released u bs bs' \<longleftrightarrow> heap_ok bs' \<and> coalesced bs' \<and> bytes bs' = bytes bs \<and>
     set (in_use bs') = set (in_use bs) - {u}"

lemma freed_ok:
  assumes "heap_ok (u # r)" "coalesced (u # r)" "\<not> free u"
  shows "heap_ok (try_merge_with_next (u\<lparr>free := True\<rparr> # r))"
    "coalesced (try_merge_with_next (u\<lparr>free := True\<rparr> # r))"
    "bytes (try_merge_with_next (u\<lparr>free := True\<rparr> # r)) = bytes (u # r)"
    "set (in_use (try_merge_with_next (u\<lparr>free := True\<rparr> # r))) = set (in_use (u # r)) - {u}"
proof -
  let ?f = "u\<lparr>free := True\<rparr>"
  have e: "block_end ?f = block_end u" by (simp add: block_end_def)
  have h: "heap_ok (?f # r)" using assms(1) e by (simp add: heap_ok_bytes)
  have "u \<notin> set r" using assms(1) block_end_ge [of u] by (auto simp: heap_ok_Cons)
  then have "u \<notin> set (in_use r)" by (simp add: in_use_def)
  with merge_spec [OF h] merge_coalesced [OF h] assms e show
    "heap_ok (try_merge_with_next (?f # r))" "coalesced (try_merge_with_next (?f # r))"
    "bytes (try_merge_with_next (?f # r)) = bytes (u # r)"
    "set (in_use (try_merge_with_next (?f # r))) = set (in_use (u # r)) - {u}"
    by (auto simp: coalesced_Cons)
qed

lemma released_Cons:
  assumes "heap_ok (b # r)" "released u r r'" "u \<in> set r"
  shows "heap_ok (b # r')" "bytes (b # r') = bytes (b # r)"
    "set (in_use (b # r')) = set (in_use (b # r)) - {u}"
proof -
  have "b \<noteq> u" using assms(1,3) block_end_ge [of b] by (auto simp: heap_ok_Cons)
  with assms show "heap_ok (b # r')" "bytes (b # r') = bytes (b # r)"
    "set (in_use (b # r')) = set (in_use (b # r)) - {u}"
    by (auto simp: released_def heap_ok_bytes)
qed

lemma free_block_hd: "free_block a bs = Some bs' \<Longrightarrow> bs' \<noteq> [] \<and> addr (hd bs') = addr (hd bs) \<and>
    (addr (hd bs) \<noteq> a \<longrightarrow> free (hd bs') = free (hd bs))"
proof (cases bs)
  case (Cons b r)
  assume "free_block a bs = Some bs'"
  with Cons show ?thesis
    using merge_hd [of "b\<lparr>free := True\<rparr>" r] merge_hd [of b] by (auto split: if_splits option.splits)
qed simp

lemma free_block_spec:
  assumes "heap_ok bs" "coalesced bs" "u \<in> set bs" "\<not> free u"
  shows "\<exists>bs'. free_block (addr u) bs = Some bs' \<and> released u bs bs'"
  using assms
proof (induction bs)
  case (Cons b r)
  show ?case
  proof (cases "b = u")
    case True
    with freed_ok [of u r] Cons.prems show ?thesis by (simp add: released_def)
  next
    case False
    then have u: "u \<in> set r" "r \<noteq> []" using Cons.prems(3) by auto
    have r: "heap_ok r" "coalesced r" using Cons.prems by (simp_all add: heap_ok_bytes coalesced_Cons)
    have na: "addr b \<noteq> addr u" using Cons.prems(1) u(1) block_end_ge [of b] by (auto simp: heap_ok_Cons)
    show ?thesis
    proof (cases "hd r = u")
      case True
      let ?m = "try_merge_with_next (u\<lparr>free := True\<rparr> # tl r)"
      have c: "r = u # tl r" using True u(2) by (cases r) auto
      have m: "released u r ?m"
        using freed_ok [of u "tl r"] r Cons.prems(4) c unfolding released_def by metis
      note rc = released_Cons [OF Cons.prems(1) m u(1)]
      have "coalesced ?m" using m by (simp add: released_def)
      from merge_coalesced [OF rc(1) this] merge_spec [OF rc(1)] rc na True u(2) show ?thesis
        by (auto simp: released_def)
    next
      case hd: False
      have "addr (hd r) \<noteq> addr u"
      proof
        assume e: "addr (hd r) = addr u"
        have "u \<in> set (tl r)" using u hd by (cases r) auto
        with r(1) u(2) e block_end_ge [of "hd r"] show False by (cases r) (auto simp: heap_ok_Cons)
      qed
      moreover obtain r' where f: "free_block (addr u) r = Some r'" "released u r r'"
        using Cons.IH [OF r u(1) Cons.prems(4)] by blast
      moreover have "coalesced (b # r')"
        using f Cons.prems(2) free_block_hd [OF f(1)] u(2) \<open>addr (hd r) \<noteq> addr u\<close>
        by (auto simp: coalesced_Cons released_def)
      ultimately show ?thesis
        using na released_Cons [OF Cons.prems(1) f(2) u(1)] by (auto simp: released_def)
    qed
  qed
qed simp

section \<open>The heap and its frames\<close>

definition frame_of :: "nat \<Rightarrow> nat" where
  "frame_of x = (x - DIRECT_MAP_BASE) div FRAME_SIZE"

text \<open>The memory of the blocks is reached through the direct map and none of its frames is free.\<close>

definition hs_ok :: "nat set \<Rightarrow> heap_sys \<Rightarrow> bool" where
  "hs_ok R h \<longleftrightarrow> pmm_ok R (frames h) \<and> limit (frames h) \<le> 2 ^ 25 \<and> heap_ok (blocks h) \<and>
     coalesced (blocks h) \<and>
     (\<forall>x \<in> bytes (blocks h). DIRECT_MAP_BASE \<le> x \<and> frame_of x \<notin> free_set (frames h))"

lemma hs_okD:
  assumes "hs_ok R h"
  shows "pmm_ok R (frames h)" "limit (frames h) \<le> 2 ^ 25" "heap_ok (blocks h)" "coalesced (blocks h)"
    "x \<in> bytes (blocks h) \<Longrightarrow> DIRECT_MAP_BASE \<le> x \<and> frame_of x \<notin> free_set (frames h)"
  using assms by (simp_all add: hs_ok_def)

lemma hs_ok_small:
  assumes "hs_ok R h" "b \<in> set (blocks h)"
  shows "bsize b < 2 ^ 63"
proof -
  have "DIRECT_MAP_BASE \<le> addr b" using hs_okD(5) [OF assms(1)] addr_in_bytes [OF assms(2)] by blast
  moreover have "block_end b < 2 ^ 64" using hs_okD(3) [OF assms(1)] assms(2) by (simp add: heap_ok_def)
  ultimately show ?thesis by (simp add: block_end_def DIRECT_MAP_BASE_def)
qed

lemma hs_ok_blocks:
  "hs_ok R h \<Longrightarrow> heap_ok bs \<Longrightarrow> coalesced bs \<Longrightarrow> bytes bs = bytes (blocks h) \<Longrightarrow> hs_ok R (h\<lparr>blocks := bs\<rparr>)"
  by (simp add: hs_ok_def)

lemma frame_of_chunk:
  assumes "x \<in> {b * FRAME_SIZE + DIRECT_MAP_BASE..<(b + n) * FRAME_SIZE + DIRECT_MAP_BASE}"
  shows "frame_of x \<in> {b..<b + n}"
proof -
  have "b * FRAME_SIZE \<le> x - DIRECT_MAP_BASE" "x - DIRECT_MAP_BASE < (b + n) * FRAME_SIZE"
    using assms by auto
  then show ?thesis
    unfolding frame_of_def using div_le_mono [of "b * FRAME_SIZE" "x - DIRECT_MAP_BASE" FRAME_SIZE]
    by (simp add: less_mult_imp_div_less)
qed

lemma grow_spec:
  assumes "hs_ok R h" "grow h = (ok, h')"
  shows "hs_ok R h' \<and> in_use (blocks h') = in_use (blocks h) \<and>
    (if ok then card (free_set (frames h')) < card (free_set (frames h))
     else h' = h \<and> (\<forall>b. \<not> run_beside_cursor b GROW_FRAMES (frames h)))"
proof -
  note h = hs_okD [OF assms(1)]
  obtain a p where a: "alloc_frames GROW_FRAMES (frames h) = (a, p)"
    by (cases "alloc_frames GROW_FRAMES (frames h)")
  have g: "0 < GROW_FRAMES" by (simp add: GROW_FRAMES_def)
  from alloc_frames_took [OF h(1) a g] show ?thesis
  proof
    assume "\<exists>b. a = b * FRAME_SIZE \<and> took R b GROW_FRAMES (frames h) p \<and> run_beside_cursor b GROW_FRAMES (frames h)"
    then obtain b where b: "a = b * FRAME_SIZE" "took R b GROW_FRAMES (frames h) p" by blast
    let ?c = "b * FRAME_SIZE + DIRECT_MAP_BASE" and ?s = "GROW_FRAMES * FRAME_SIZE"
    have lim: "b + GROW_FRAMES \<le> 2 ^ 25" "0 < b" using b(2) h(2) by (auto simp: took_def)
    then have top: "?c + ?s < 2 ^ 64"
      by (simp add: FRAME_SIZE_def DIRECT_MAP_BASE_def GROW_FRAMES_def)
    then have v: "phys_to_virt a = ?c" by (simp add: phys_to_virt_def b(1) u64_id)
    have fr: "frame_of x \<in> {b..<b + GROW_FRAMES}" "DIRECT_MAP_BASE \<le> x" if "x \<in> {?c..<?c + ?s}" for x
      using frame_of_chunk [of x b GROW_FRAMES] that by (auto simp: add_mult_distrib)
    have fs: "free_set p = free_set (frames h) - {b..<b + GROW_FRAMES}"
      "{b..<b + GROW_FRAMES} \<subseteq> free_set (frames h)" using b(2) by (auto simp: took_def)
    have dis: "bytes (blocks h) \<inter> {?c..<?c + ?s} = {}"
      using fr fs(2) h(5) by blast
    have al: "8 dvd ?c" "8 dvd ?s" "HEADER_SIZE \<le> ?s"
      by (simp_all add: FRAME_SIZE_def DIRECT_MAP_BASE_def GROW_FRAMES_def HEADER_SIZE_def)
    note i = heap_insert_chunk_spec [OF h(3,4) al(3,1,2) top dis]
    have "a \<noteq> 0" using b(1) lim by simp
    then have g: "ok" "h' = h\<lparr>frames := p, blocks := heap_insert_chunk ?c ?s (blocks h)\<rparr>"
      using assms(2) a v by (auto simp: grow_def)
    have "hs_ok R h'"
      using i b(2) h(2,5) fr fs unfolding hs_ok_def g(2) by (auto simp: took_def)
    moreover have "b \<in> free_set (frames h)" "b \<notin> free_set p" using fs \<open>0 < GROW_FRAMES\<close> by auto
    then have "free_set p \<subset> free_set (frames h)" using fs(1) by blast
    then have "card (free_set p) < card (free_set (frames h))" by (intro psubset_card_mono) simp_all
    ultimately show ?thesis using i g by simp
  next
    assume "a = 0 \<and> p = frames h \<and> (\<forall>b. \<not> run_beside_cursor b GROW_FRAMES (frames h))"
    with assms a show ?thesis by (simp add: grow_def)
  qed
qed

text \<open>What an allocation that returned \<open>p\<close> did to the blocks in use.\<close>

definition allocated :: "nat \<Rightarrow> nat \<Rightarrow> block list \<Rightarrow> block list \<Rightarrow> bool" where
  "allocated p sz bs bs' \<longleftrightarrow>
     (\<exists>b. addr b + HEADER_SIZE = p \<and> sz \<le> bsize b \<and> \<not> free b \<and> 8 dvd p \<and>
        set (in_use bs') = insert b (set (in_use bs)) \<and> {addr b..<block_end b} \<inter> bytes (in_use bs) = {})"

lemma carved_allocated:
  assumes "carved p sz bs bs'" "in_use bs = in_use bs0"
  shows "allocated p sz bs0 bs'"
proof -
  obtain b where b: "addr b + HEADER_SIZE = p" "sz \<le> bsize b" "\<not> free b" "heap_ok bs'"
      "set (in_use bs') = insert b (set (in_use bs))" "{addr b..<block_end b} \<inter> bytes (in_use bs) = {}"
    using assms(1) by (auto simp: carved_def)
  have "b \<in> set bs'" using b(5) by (auto simp: in_use_def)
  then have "8 dvd p" using b(1,4) by (auto simp: heap_ok_def HEADER_SIZE_def)
  with b assms(2) show ?thesis by (auto simp: allocated_def)
qed

definition exhausted :: "nat \<Rightarrow> heap_sys \<Rightarrow> bool" where
  "exhausted sz h \<longleftrightarrow> (\<forall>b \<in> set (blocks h). free b \<longrightarrow> bsize b < sz) \<and>
     (\<forall>b. \<not> run_beside_cursor b GROW_FRAMES (frames h))"

definition malloc_done :: "nat set \<Rightarrow> nat \<Rightarrow> heap_sys \<Rightarrow> nat option \<Rightarrow> heap_sys \<Rightarrow> bool" where
  "malloc_done R sz h r h' \<longleftrightarrow> hs_ok R h' \<and>
     (case r of
        None \<Rightarrow> in_use (blocks h') = in_use (blocks h) \<and> exhausted sz h'
      | Some p \<Rightarrow> allocated p sz (blocks h) (blocks h'))"

lemma find_fit_done:
  assumes "hs_ok R h" "8 dvd sz" "heap_find_fit sz (blocks h) = (Some p, bs)"
    and "in_use (blocks h) = in_use (blocks h0)"
  shows "malloc_done R sz h0 (Some p) (h\<lparr>blocks := bs\<rparr>)"
proof -
  note h = hs_okD [OF assms(1)]
  have c: "carved p sz (blocks h) bs"
    using find_fit_spec [OF h(3,4) assms(2) _ assms(3)] hs_ok_small [OF assms(1)] by simp
  then have "hs_ok R (h\<lparr>blocks := bs\<rparr>)"
    using hs_ok_blocks [OF assms(1)] by (auto simp: carved_def)
  with carved_allocated [OF c assms(4)] show ?thesis by (simp add: malloc_done_def)
qed

lemma find_fit_none:
  assumes "hs_ok R h" "8 dvd sz" "heap_find_fit sz (blocks h) = (None, bs)"
  shows "bs = blocks h" "\<forall>b \<in> set (blocks h). free b \<longrightarrow> bsize b < sz"
  using find_fit_spec [OF hs_okD(3,4) [OF assms(1)] assms(2) _ assms(3)] hs_ok_small [OF assms(1)]
  by simp_all

lemma kmalloc_grow_done:
  assumes "hs_ok R h" "8 dvd sz" "\<forall>b \<in> set (blocks h). free b \<longrightarrow> bsize b < sz"
    and "in_use (blocks h) = in_use (blocks h0)"
  shows "\<exists>r h'. kmalloc_grow sz h = Some (r, h') \<and> malloc_done R sz h0 r h'"
  using assms
proof (induction "card (free_set (frames h))" arbitrary: h rule: less_induct)
  case less
  obtain ok h1 where g: "grow h = (ok, h1)" by (cases "grow h")
  note s = grow_spec [OF less.prems(1) g]
  show ?case
  proof (cases ok)
    case False
    with g s less.prems show ?thesis
      by (subst kmalloc_grow.simps) (simp add: malloc_done_def exhausted_def)
  next
    case True
    obtain r bs where f: "heap_find_fit sz (blocks h1) = (r, bs)" by (cases "heap_find_fit sz (blocks h1)")
    have h1: "hs_ok R h1" "in_use (blocks h1) = in_use (blocks h0)"
      "card (free_set (frames h1)) < card (free_set (frames h))"
      using s True less.prems(4) by auto
    show ?thesis
    proof (cases r)
      case (Some p)
      with f find_fit_done [OF h1(1) less.prems(2) _ h1(2)] g True show ?thesis
        by (subst kmalloc_grow.simps) simp
    next
      case None
      note n = find_fit_none [OF h1(1) less.prems(2) f [unfolded None]]
      have "h1\<lparr>blocks := bs\<rparr> = h1" using n(1) by simp
      with less.hyps [OF h1(3,1) less.prems(2) n(2) h1(2)] g True f None show ?thesis
        by (subst kmalloc_grow.simps) simp
    qed
  qed
qed

lemma kmalloc_done:
  assumes "hs_ok R h" "0 < n"
  shows "\<exists>r h'. kmalloc n h = Some (r, h') \<and> malloc_done R (align8 n) h r h'"
proof -
  have a: "8 dvd align8 n" by (simp add: align8_def)
  obtain r bs where f: "heap_find_fit (align8 n) (blocks h) = (r, bs)"
    by (cases "heap_find_fit (align8 n) (blocks h)")
  show ?thesis
  proof (cases r)
    case (Some p)
    with f find_fit_done [OF assms(1) a] assms(2) show ?thesis by (simp add: kmalloc_def)
  next
    case None
    note n = find_fit_none [OF assms(1) a f [unfolded None]]
    have "h\<lparr>blocks := bs\<rparr> = h" using n(1) by simp
    with kmalloc_grow_done [OF assms(1) a n(2) refl] f None assms(2) show ?thesis
      by (simp add: kmalloc_def)
  qed
qed

section \<open>The heap as an allocator\<close>

lemma align8_ge:
  assumes "n \<le> 2 ^ 64 - 8"
  shows "n \<le> align8 n"
proof -
  have "u64 (n + 7) = n + 7" using assms by (intro u64_id) simp
  moreover have "(n + 7) mod 8 \<le> 7" using mod_less_divisor [of 8 "n + 7"] by linarith
  ultimately show ?thesis by (simp add: align8_def)
qed

definition heap_live :: "heap_sys \<Rightarrow> nat \<Rightarrow> nat \<Rightarrow> bool" where
  "heap_live h p n \<longleftrightarrow> (\<exists>b \<in> set (in_use (blocks h)). addr b + HEADER_SIZE = p \<and> n \<le> bsize b)"

definition heap_busy :: "heap_sys \<Rightarrow> nat set" where
  "heap_busy h = bytes (in_use (blocks h))"

text \<open>The client's view: \<open>kmalloc\<close> and \<open>kfree\<close> as they are. \<open>align8\<close> does not wrap for the sizes up to
  \<open>malloc_limit\<close>.\<close>

definition malloc_limit :: nat where "malloc_limit = 2 ^ 64 - 8"

definition al_heap :: "nat \<Rightarrow> heap_sys \<Rightarrow> nat option \<times> heap_sys" where
  "al_heap n h = (case kmalloc n h of Some r \<Rightarrow> r | None \<Rightarrow> (None, h))"

definition fr_heap :: "nat \<Rightarrow> nat \<Rightarrow> heap_sys \<Rightarrow> heap_sys" where
  "fr_heap p n h = (case kfree p h of Some h' \<Rightarrow> h' | None \<Rightarrow> h)"

lemma al_heap_done:
  assumes "hs_ok R h" "0 < n"
  shows "malloc_done R (align8 n) h (fst (al_heap n h)) (snd (al_heap n h))"
  using kmalloc_done [OF assms] by (auto simp: al_heap_def)

lemma payload_bytes: "b \<in> set (in_use bs) \<Longrightarrow> n \<le> bsize b \<Longrightarrow>
    units (addr b + HEADER_SIZE, n) \<subseteq> {addr b..<block_end b} \<and> {addr b..<block_end b} \<subseteq> bytes (in_use bs)"
  by (auto simp: units_def block_end_def bytes_def)

lemma kfree_live:
  assumes "hs_ok R h" "b \<in> set (in_use (blocks h))"
  shows "\<exists>bs. kfree (addr b + HEADER_SIZE) h = Some (h\<lparr>blocks := bs\<rparr>) \<and> released b (blocks h) bs"
proof -
  have "b \<in> set (blocks h)" "\<not> free b" using assms(2) by (auto simp: in_use_def)
  from free_block_spec [OF hs_okD(3,4) [OF assms(1)] this] show ?thesis
    by (auto simp: kfree_def HEADER_SIZE_def)
qed

interpretation kheap: range_allocator "\<lambda>n. n \<le> malloc_limit" "hs_ok R" heap_busy heap_live al_heap fr_heap
  for R
proof
  fix h :: heap_sys and b n c m
  assume ok: "hs_ok R h"
  show "units (b, n) \<subseteq> heap_busy h" if "heap_live h b n"
    using that payload_bytes by (fastforce simp: heap_live_def heap_busy_def)
  show "hs_ok R (snd (al_heap n h))" if "0 < n"
    using al_heap_done [OF ok that] by (simp add: malloc_done_def)
  show "heap_live h' b n \<and> units (b, n) \<inter> heap_busy h = {}"
    if n: "0 < n" "n \<le> malloc_limit" and a: "al_heap n h = (Some b, h')" for h'
  proof -
    obtain u where u: "addr u + HEADER_SIZE = b" "n \<le> bsize u"
        "set (in_use (blocks h')) = insert u (set (in_use (blocks h)))"
        "{addr u..<block_end u} \<inter> bytes (in_use (blocks h)) = {}"
      using al_heap_done [OF ok n(1)] align8_ge [OF n(2) [unfolded malloc_limit_def]] a by (auto simp: malloc_done_def allocated_def)
    have "u \<in> set (in_use (blocks h'))" using u(3) by simp
    with payload_bytes [OF this u(2)] u show ?thesis by (auto simp: heap_live_def heap_busy_def)
  qed
  show "heap_live (snd (al_heap n h)) c m" if "0 < n" "heap_live h c m"
    using al_heap_done [OF ok that(1)] that(2) by (auto simp: malloc_done_def allocated_def heap_live_def split: option.splits)
  show "hs_ok R (fr_heap b n h)" if l: "heap_live h b n"
  proof -
    obtain u where "u \<in> set (in_use (blocks h))" "addr u + HEADER_SIZE = b"
      using l by (auto simp: heap_live_def)
    with kfree_live [OF ok] obtain bs where "kfree b h = Some (h\<lparr>blocks := bs\<rparr>)" "released u (blocks h) bs"
      by blast
    with hs_ok_blocks [OF ok] show ?thesis by (auto simp: fr_heap_def released_def)
  qed
  show "heap_live (fr_heap b n h) c m"
    if pos: "0 < n" "0 < m" and l: "heap_live h b n" "heap_live h c m"
      and d: "units (b, n) \<inter> units (c, m) = {}"
  proof -
    obtain u where u: "u \<in> set (in_use (blocks h))" "addr u + HEADER_SIZE = b"
      using l(1) by (auto simp: heap_live_def)
    obtain v where v: "v \<in> set (in_use (blocks h))" "addr v + HEADER_SIZE = c" "m \<le> bsize v"
      using l(2) by (auto simp: heap_live_def)
    obtain bs where k: "kfree b h = Some (h\<lparr>blocks := bs\<rparr>)" "released u (blocks h) bs"
      using kfree_live [OF ok u(1)] u(2) by blast
    have "b \<noteq> c" using pos d by (auto simp: units_def)
    then have "v \<noteq> u" using u(2) v(2) by auto
    with k v show ?thesis by (auto simp: fr_heap_def released_def heap_live_def)
  qed
qed

text \<open>The heap the kernel starts with (\<open>memory::init\<close>), on the frames \<open>pmm::init\<close> left.\<close>

definition heap_boot :: "nat \<Rightarrow> BOOT_HEADER \<Rightarrow> nat \<Rightarrow> pmm \<Rightarrow> heap_sys" where
  "heap_boot dml bh kernel_end p0 =
     \<lparr>blocks = heap_init (phys_to_virt PMM_HEAP_START) PMM_HEAP_SIZE,
      frames = pmm_init dml bh kernel_end p0\<rparr>"

lemma heap_boot_ok:
  assumes "boot_ok dml bh"
  shows "hs_ok (free_set (pmm_init dml bh kernel_end p0)) (heap_boot dml bh kernel_end p0)"
proof -
  let ?p = "pmm_init dml bh kernel_end p0"
  let ?b = "\<lparr>addr = DIRECT_MAP_BASE + 0x2000000, bsize = 9437184 - 24, free = True\<rparr>"
  note s = pmm_init_spec [OF assms, of kernel_end p0]
  have b: "blocks (heap_boot dml bh kernel_end p0) = [?b]"
    by (simp add: heap_boot_def heap_init_def phys_to_virt_def u64_def sub64_def PMM_HEAP_START_def
        PMM_HEAP_SIZE_def HEADER_SIZE_def DIRECT_MAP_BASE_def)
  have e: "block_end ?b = DIRECT_MAP_BASE + (8192 + 2304) * FRAME_SIZE" "addr ?b = 8192 * FRAME_SIZE + DIRECT_MAP_BASE"
    by (simp_all add: block_end_def HEADER_SIZE_def FRAME_SIZE_def)
  have "frame_of x \<in> reserved_frames (bitmap_frames ?p) bh kernel_end" if "x \<in> bytes [?b]" for x
  proof -
    have "frame_of x \<in> {8192..<8192 + 2304}"
      using that e by (intro frame_of_chunk) (simp add: add.commute)
    then have "frame_of x \<in> region_frames (PMM_HEAP_START, PMM_HEAP_START + PMM_HEAP_SIZE)"
      by (simp add: region_frames_def PMM_HEAP_START_def PMM_HEAP_SIZE_def FRAME_SIZE_def u64_def)
    then show ?thesis by (auto simp: reserved_frames_def boot_regions_def)
  qed
  then have nf: "frame_of x \<notin> free_set ?p" if "x \<in> bytes [?b]" for x
    using that s by blast
  have "limit ?p \<le> bitmap_frames ?p" "bitmap_frames ?p \<le> PMM_BITMAP_SIZE * 8"
    using s by linarith+
  then have "limit ?p \<le> 2 ^ 25" by (simp add: PMM_BITMAP_SIZE_def)
  moreover have "heap_ok [?b]" "coalesced [?b]"
    by (simp_all add: heap_ok_def coalesced_def block_end_def DIRECT_MAP_BASE_def HEADER_SIZE_def)
  moreover have "DIRECT_MAP_BASE \<le> x" if "x \<in> bytes [?b]" for x using that by simp
  moreover have "frames (heap_boot dml bh kernel_end p0) = ?p" by (simp add: heap_boot_def)
  moreover have "pmm_ok (free_set ?p) ?p" using s pmm_ok_shrink by blast
  ultimately show ?thesis unfolding hs_ok_def b using nf by simp
qed

lemma heap_boot_blocks:
  "blocks (heap_boot dml bh kernel_end p0) =
     [\<lparr>addr = DIRECT_MAP_BASE + 0x2000000, bsize = 9437160, free = True\<rparr>]"
  by (simp add: heap_boot_def heap_init_def phys_to_virt_def u64_def sub64_def PMM_HEAP_START_def
      PMM_HEAP_SIZE_def HEADER_SIZE_def DIRECT_MAP_BASE_def)

text \<open>The sums of \<open>get_stats\<close>: nothing is counted twice or left out.\<close>

lemma stats_fold:
  assumes "total_size s + sum_list (map bsize bs) < 2 ^ 64" "total_size s = used_size s + free_size s"
    and "block_count s = used_block_count s + free_block_count s"
  shows "total_size (fold stats_step bs s) = used_size (fold stats_step bs s) + free_size (fold stats_step bs s) \<and>
    block_count (fold stats_step bs s) = used_block_count (fold stats_step bs s) + free_block_count (fold stats_step bs s) \<and>
    used_size (fold stats_step bs s) = used_size s + sum_list (map bsize (in_use bs)) \<and>
    used_block_count (fold stats_step bs s) = used_block_count s + length (in_use bs)"
  using assms
proof (induction bs arbitrary: s)
  case (Cons b bs)
  have u: "u64 (total_size s + bsize b) = total_size s + bsize b"
    "u64 (used_size s + bsize b) = used_size s + bsize b" "u64 (free_size s + bsize b) = free_size s + bsize b"
    using Cons.prems(1,2) by (auto intro!: u64_id)
  let ?s = "stats_step b s"
  have e: "total_size ?s = total_size s + bsize b" "total_size ?s = used_size ?s + free_size ?s"
    "block_count ?s = used_block_count ?s + free_block_count ?s"
    "used_size ?s = used_size s + (if free b then 0 else bsize b)"
    "used_block_count ?s = used_block_count s + (if free b then 0 else 1)"
    using Cons.prems(2,3) u by (simp_all add: Let_def)
  have "total_size ?s + sum_list (map bsize bs) < 2 ^ 64" using Cons.prems(1) e(1) by simp
  from Cons.IH [OF this e(2,3)] e(4,5) show ?case by (simp del: stats_step.simps)
qed simp

section \<open>Properties\<close>

text \<open>C3. Memory the heap hands out never overlaps: on the frames and the first chunk the kernel
  boots with, however \<open>kmalloc\<close> of sizes up to \<open>malloc_limit\<close> (\<open>2 ^ 64 - 8\<close>, above which the size wraps) and
  \<open>kfree\<close> are mixed, growing the heap included, the ranges that are out are disjoint, and each is still
  wholly inside a block in use.\<close>

theorem heap_never_shared:
  assumes "boot_ok dml bh"
    and "client_run al_heap fr_heap os ([], heap_boot dml bh kernel_end p0) = (held, h)"
    and "\<forall>n. Alloc n \<in> set os \<longrightarrow> n \<le> malloc_limit"
  shows "disjoint_ranges held \<and> (\<forall>(p, n) \<in> set held. heap_live h p n)"
proof -
  have "disjoint_ranges []" by (simp add: disjoint_ranges_def)
  from kheap.client_run_disjoint [OF heap_boot_ok [OF assms(1)] this _ assms(2,3)] show ?thesis by auto
qed

text \<open>C19. \<open>kmalloc\<close> of any size but 0 always returns and keeps the list sorted, disjoint and coalesced.
  It either gives an 8-byte aligned block that overlaps no block in use and holds at least the size
  rounded up to 8 in 64 bits, or a null pointer, and then no free block is large enough and no chunk of
  frames can be had. The rounded size is at least the wanted one for all but the last seven sizes.\<close>

theorem kmalloc_result:
  assumes "hs_ok R h" "0 < n"
  shows "\<exists>r h'. kmalloc n h = Some (r, h') \<and> hs_ok R h' \<and>
    (case r of
       None \<Rightarrow> in_use (blocks h') = in_use (blocks h) \<and> exhausted (align8 n) h'
     | Some p \<Rightarrow> 8 dvd p \<and> heap_live h' p (align8 n) \<and> units (p, align8 n) \<inter> heap_busy h = {} \<and>
         (n \<le> malloc_limit \<longrightarrow> n \<le> align8 n))"
proof -
  obtain r h' where k: "kmalloc n h = Some (r, h')" "malloc_done R (align8 n) h r h'"
    using kmalloc_done [OF assms(1,2)] by blast
  show ?thesis
  proof (cases r)
    case None
    with k show ?thesis by (auto simp: malloc_done_def)
  next
    case (Some p)
    then obtain u where u: "addr u + HEADER_SIZE = p" "align8 n \<le> bsize u" "8 dvd p"
        "set (in_use (blocks h')) = insert u (set (in_use (blocks h)))"
        "{addr u..<block_end u} \<inter> bytes (in_use (blocks h)) = {}"
      using k(2) by (auto simp: malloc_done_def allocated_def)
    have "u \<in> set (in_use (blocks h'))" using u(4) by simp
    with payload_bytes [OF this u(2)] u align8_ge [of n] k Some show ?thesis
      by (auto simp: malloc_done_def heap_live_def heap_busy_def malloc_limit_def)
  qed
qed

text \<open>C20. \<open>kfree\<close> of what \<open>kmalloc\<close> gave takes exactly that block out of use and keeps the list
  sorted, disjoint and coalesced: free neighbours that touch are always one block.\<close>

theorem kfree_result:
  assumes "hs_ok R h" "b \<in> set (in_use (blocks h))"
  shows "\<exists>h'. kfree (addr b + HEADER_SIZE) h = Some h' \<and> hs_ok R h' \<and>
    set (in_use (blocks h')) = set (in_use (blocks h)) - {b} \<and> bytes (blocks h') = bytes (blocks h)"
proof -
  obtain bs where k: "kfree (addr b + HEADER_SIZE) h = Some (h\<lparr>blocks := bs\<rparr>)" "released b (blocks h) bs"
    using kfree_live [OF assms] by blast
  then have "hs_ok R (h\<lparr>blocks := bs\<rparr>)" using hs_ok_blocks [OF assms(1)] by (simp add: released_def)
  with k show ?thesis by (auto simp: released_def)
qed

text \<open>For the last seven sizes of the address space \<open>align8\<close> wraps to 0: \<open>kmalloc\<close> succeeds with a
  block of no bytes.\<close>

lemma kmalloc_huge_wraps:
  assumes "2 ^ 64 - 8 < n" "n < 2 ^ 64"
  shows "\<exists>p h'. kmalloc n (heap_boot dml bh kernel_end p0) = Some (Some p, h') \<and>
    bsize (hd (blocks h')) = 0 \<and> p = addr (hd (blocks h')) + HEADER_SIZE"
proof -
  have "n + 7 - 2 ^ 64 < 2 ^ 64" "2 ^ 64 \<le> n + 7" using assms by auto
  then have "u64 (n + 7) = n + 7 - 2 ^ 64" unfolding u64_def by (simp add: mod_if)
  moreover have "n + 7 - 2 ^ 64 < 8" using assms by simp
  ultimately have "align8 n = 0" by (simp add: align8_def)
  moreover have "n \<noteq> 0" using assms by simp
  ultimately show ?thesis
    by (simp add: kmalloc_def heap_boot_blocks u64_def HEADER_SIZE_def MIN_BLOCK_DATA_def)
qed

definition heap_demo :: heap_sys where
  "heap_demo = heap_boot 0x2000000 boot_small 0 pmm_small"

lemma heap_demo_ok: "hs_ok (free_set (pmm_init 0x2000000 boot_small 0 pmm_small)) heap_demo"
  unfolding heap_demo_def by (rule heap_boot_ok [OF boot_small_ok])

theorem heap_never_shared_witness:
  "\<exists>held h. client_run al_heap fr_heap [Alloc 100, Alloc 200, Free 0] ([], heap_demo) = (held, h) \<and>
     disjoint_ranges held"
proof -
  obtain held h where r: "client_run al_heap fr_heap [Alloc 100, Alloc 200, Free 0]
      ([], heap_boot 0x2000000 boot_small 0 pmm_small) = (held, h)"
    by (metis surj_pair)
  have "\<forall>n. Alloc n \<in> set [Alloc 100, Alloc 200, Free 0] \<longrightarrow> n \<le> malloc_limit" by (simp add: malloc_limit_def)
  from heap_never_shared [OF boot_small_ok r this] r show ?thesis unfolding heap_demo_def by blast
qed

theorem kmalloc_result_witness:
  "\<exists>r h'. kmalloc 100 heap_demo = Some (r, h') \<and> (\<forall>p. r = Some p \<longrightarrow> 8 dvd p \<and> heap_live h' p (align8 100) \<and> 100 \<le> align8 100)"
  using kmalloc_result [OF heap_demo_ok, of 100] by (auto simp: malloc_limit_def split: option.splits)

text \<open>The heap after one allocation of 100 bytes.\<close>

definition heap_demo1 :: heap_sys where
  "heap_demo1 = snd (the (kmalloc 100 heap_demo))"

lemma heap_demo1_blocks: "hd (blocks heap_demo1) \<in> set (in_use (blocks heap_demo1)) \<and>
    hs_ok (free_set (pmm_init 0x2000000 boot_small 0 pmm_small)) heap_demo1"
proof -
  obtain r h' where k: "kmalloc 100 heap_demo = Some (r, h')"
    "malloc_done (free_set (pmm_init 0x2000000 boot_small 0 pmm_small)) (align8 100) heap_demo r h'"
    using kmalloc_done [OF heap_demo_ok, of 100] by auto
  have "kmalloc 100 heap_demo = Some (Some (DIRECT_MAP_BASE + 33554432 + 24), heap_demo\<lparr>blocks :=
      [\<lparr>addr = DIRECT_MAP_BASE + 33554432, bsize = 104, free = False\<rparr>,
       \<lparr>addr = DIRECT_MAP_BASE + 33554432 + 24 + 104, bsize = 9437032, free = True\<rparr>]\<rparr>)"
    by (simp add: heap_demo_def kmalloc_def heap_boot_blocks align8_def u64_def sub64_def
        HEADER_SIZE_def MIN_BLOCK_DATA_def)
  with k show ?thesis by (auto simp: heap_demo1_def malloc_done_def)
qed

theorem kfree_result_witness:
  "\<exists>h'. kfree (addr (hd (blocks heap_demo1)) + HEADER_SIZE) heap_demo1 = Some h' \<and>
     set (in_use (blocks h')) = set (in_use (blocks heap_demo1)) - {hd (blocks heap_demo1)}"
  using kfree_result [of _ heap_demo1] heap_demo1_blocks by blast

end
