(* ===== verification/Cstring.thy ===== *)
theory Cstring
  imports Prelude
begin

text \<open>
  The string and memory functions of the C library (src/src/sdk/libc/string.c, memory.c) and of the
  kernel (src/src/kernel/stdlib/string.cpp, src/src/kernel/mm/memory.cpp).

  A pointer to a text that is only read is the list of characters from there on; past its end the
  terminating zero is read (\<open>cur []\<close>), and the code never looks further. A buffer that is written
  is a list of bytes or characters with indices. A \<open>char*\<close> result into a text is the offset.

  The lemmas show what each search returns in terms of the list operations, that \<open>strcmp\<close> is the
  lexicographic order, that \<open>memmove\<close> copies overlapping ranges, and that the kernel's loops and
  the library's agree.
\<close>

definition NUL :: char where
  "NUL = CHR 0x00"

text \<open>The value of an \<open>unsigned char\<close>.\<close>

definition ord :: "char \<Rightarrow> int" where
  "ord c = of_char c"

fun cur :: "string \<Rightarrow> char" where
  "cur [] = NUL"
| "cur (c # s) = c"

definition c_text :: "string \<Rightarrow> bool" where
  "c_text s \<longleftrightarrow> NUL \<notin> set s"

section \<open>Reading texts\<close>

fun strlen :: "string \<Rightarrow> nat" where
  "strlen [] = 0"
| "strlen (c # s) = (if c = NUL then 0 else 1 + strlen s)"

fun strcmp :: "string \<Rightarrow> string \<Rightarrow> int" where
  "strcmp [] b = ord NUL - ord (cur b)"
| "strcmp (x # a) b = (if x \<noteq> NUL \<and> x = cur b then strcmp a (tl b) else ord x - ord (cur b))"

fun strncmp :: "string \<Rightarrow> string \<Rightarrow> nat \<Rightarrow> int" where
  "strncmp a b 0 = 0"
| "strncmp a b (Suc n) =
     (if cur a \<noteq> cur b \<or> cur a = NUL then ord (cur a) - ord (cur b) else strncmp (tl a) (tl b) n)"

fun strchr :: "string \<Rightarrow> char \<Rightarrow> nat option" where
  "strchr [] ch = (if NUL = ch then Some 0 else None)"
| "strchr (c # s) ch =
     (if c = ch then Some 0 else if c = NUL then None else map_option Suc (strchr s ch))"

text \<open>The loop of \<open>strrchr\<close>, at offset \<open>i\<close> with the last match so far.\<close>

fun strrchr_from :: "nat \<Rightarrow> nat option \<Rightarrow> string \<Rightarrow> char \<Rightarrow> nat option" where
  "strrchr_from i lst [] ch = (if NUL = ch then Some i else lst)"
| "strrchr_from i lst (c # s) ch =
     (let lst' = (if c = ch then Some i else lst) in
      if c = NUL then lst' else strrchr_from (i + 1) lst' s ch)"

definition strrchr :: "string \<Rightarrow> char \<Rightarrow> nat option" where
  "strrchr s ch = strrchr_from 0 None s ch"

text \<open>The loop of \<open>strstr\<close>: it looks at the end of the text only for an empty part.\<close>

fun strstr_from :: "nat \<Rightarrow> string \<Rightarrow> string \<Rightarrow> nat \<Rightarrow> nat option" where
  "strstr_from i [] part len = (if len = 0 then Some i else None)"
| "strstr_from i (c # s) part len =
     (if c = NUL \<and> len \<noteq> 0 then None
      else if strncmp (c # s) part len = 0 then Some i
      else strstr_from (i + 1) s part len)"

definition strstr :: "string \<Rightarrow> string \<Rightarrow> nat option" where
  "strstr text part = strstr_from 0 text part (strlen part)"

section \<open>Writing buffers\<close>

fun strcpy_at :: "nat \<Rightarrow> string \<Rightarrow> string \<Rightarrow> string" where
  "strcpy_at d buf [] = buf[d := NUL]"
| "strcpy_at d buf (c # s) = (if c = NUL then buf[d := NUL] else strcpy_at (d + 1) (buf[d := c]) s)"

definition strcpy :: "string \<Rightarrow> string \<Rightarrow> string" where
  "strcpy buf src = strcpy_at 0 buf src"

definition strcat :: "string \<Rightarrow> string \<Rightarrow> string" where
  "strcat buf src = strcpy_at (strlen buf) buf src"

text \<open>The kernel's \<open>strncpy\<close>: copy, then zeros up to \<open>n\<close>.\<close>

fun strncpy_from :: "nat \<Rightarrow> nat \<Rightarrow> string \<Rightarrow> string \<Rightarrow> string" where
  "strncpy_from i 0 buf src = buf"
| "strncpy_from i (Suc k) buf src =
     (if cur src \<noteq> NUL then strncpy_from (i + 1) k (buf[i := cur src]) (tl src)
      else fold (\<lambda>j b. b[j := NUL]) [i..<i + Suc k] buf)"

definition strncpy :: "string \<Rightarrow> string \<Rightarrow> nat \<Rightarrow> string" where
  "strncpy buf src n = strncpy_from 0 n buf src"

section \<open>Memory\<close>

fun memcpy :: "nat \<Rightarrow> nat \<Rightarrow> nat \<Rightarrow> byte list \<Rightarrow> byte list" where
  "memcpy d s 0 m = m"
| "memcpy d s (Suc n) m = memcpy (d + 1) (s + 1) n (m[d := m ! s])"

fun memmove_back :: "nat \<Rightarrow> nat \<Rightarrow> nat \<Rightarrow> byte list \<Rightarrow> byte list" where
  "memmove_back d s 0 m = m"
| "memmove_back d s (Suc n) m = memmove_back d s n (m[d + n := m ! (s + n)])"

definition memmove :: "nat \<Rightarrow> nat \<Rightarrow> nat \<Rightarrow> byte list \<Rightarrow> byte list" where
  "memmove d s n m = (if d \<le> s \<or> d \<ge> s + n then memcpy d s n m else memmove_back d s n m)"

fun memset :: "nat \<Rightarrow> byte \<Rightarrow> nat \<Rightarrow> byte list \<Rightarrow> byte list" where
  "memset d v 0 m = m"
| "memset d v (Suc n) m = memset (d + 1) v n (m[d := v])"

fun memcmp :: "byte list \<Rightarrow> byte list \<Rightarrow> nat \<Rightarrow> int" where
  "memcmp a b 0 = 0"
| "memcmp a b (Suc n) =
     (if hd a \<noteq> hd b then int (unat (hd a)) - int (unat (hd b)) else memcmp (tl a) (tl b) n)"

text \<open>The kernel's loops, which count upwards.\<close>

definition k_memcpy :: "nat \<Rightarrow> nat \<Rightarrow> nat \<Rightarrow> byte list \<Rightarrow> byte list" where
  "k_memcpy d s n m = fold (\<lambda>i m. m[d + i := m ! (s + i)]) [0..<n] m"

definition k_memset :: "nat \<Rightarrow> byte \<Rightarrow> nat \<Rightarrow> byte list \<Rightarrow> byte list" where
  "k_memset d v n m = fold (\<lambda>i m. m[d + i := v]) [0..<n] m"

definition k_memcmp :: "byte list \<Rightarrow> byte list \<Rightarrow> nat \<Rightarrow> int" where
  "k_memcmp a b n = (case first_idx (\<lambda>i. a ! i \<noteq> b ! i) 0 n of
     None \<Rightarrow> 0 | Some i \<Rightarrow> int (unat (a ! i)) - int (unat (b ! i)))"

fun k_strcmp :: "string \<Rightarrow> string \<Rightarrow> int" where
  "k_strcmp [] s2 = ord NUL - ord (cur s2)"
| "k_strcmp (x # s1) s2 = (if x \<noteq> NUL \<and> x = cur s2 then k_strcmp s1 (tl s2) else ord x - ord (cur s2))"

text \<open>The kernel's \<open>strncmp\<close> indexes both texts.\<close>

definition chr_at :: "string \<Rightarrow> nat \<Rightarrow> char" where
  "chr_at s i = (if i < length s then s ! i else NUL)"

definition k_strncmp :: "string \<Rightarrow> string \<Rightarrow> nat \<Rightarrow> int" where
  "k_strncmp s1 s2 n =
     (case first_idx (\<lambda>i. chr_at s1 i \<noteq> chr_at s2 i \<or> chr_at s1 i = NUL \<or> chr_at s2 i = NUL) 0 n of
        None \<Rightarrow> 0 | Some i \<Rightarrow> ord (chr_at s1 i) - ord (chr_at s2 i))"

section \<open>Texts\<close>

lemma ord_inj [simp]: "ord a = ord b \<longleftrightarrow> a = b"
  by (simp add: ord_def)

lemma ord_NUL [simp]: "ord NUL = 0"
  by (simp add: ord_def NUL_def)

lemma ord_pos: "c \<noteq> NUL \<Longrightarrow> 0 < ord c"
proof -
  assume "c \<noteq> NUL"
  then have "ord c \<noteq> 0" using ord_inj [of c NUL] by simp
  moreover have "0 \<le> ord c" by (simp add: ord_def of_char_def)
  ultimately show ?thesis by simp
qed

lemma c_text_Cons [simp]: "c_text (c # s) \<longleftrightarrow> c \<noteq> NUL \<and> c_text s" "c_text []"
  by (auto simp: c_text_def)

lemma strlen_length: "c_text s \<Longrightarrow> strlen s = length s"
  by (induction s) auto

lemma strcmp_lex:
  assumes "c_text a" "c_text b"
  shows "(strcmp a b = 0 \<longleftrightarrow> a = b) \<and> (strcmp a b < 0 \<longleftrightarrow> (a, b) \<in> lexord {(x, y). ord x < ord y})"
  using assms
proof (induction a arbitrary: b)
  case Nil
  then show ?case using ord_pos by (cases b) (auto, force+)
next
  case (Cons x a)
  show ?case
  proof (cases b)
    case Nil
    with Cons.prems(1) ord_pos [of x] show ?thesis by auto
  next
    case (Cons y b')
    with Cons.IH [of b'] Cons.prems show ?thesis by auto
  qed
qed

lemma strncmp_take:
  assumes "c_text a" "c_text b" "n \<le> length b"
  shows "strncmp a b n = 0 \<longleftrightarrow> take n a = take n b"
  using assms
proof (induction n arbitrary: a b)
  case (Suc n)
  then obtain y b' where b: "b = y # b'" by (cases b) auto
  show ?case
  proof (cases a)
    case Nil
    with Suc.prems b ord_pos [of y] show ?thesis by auto
  next
    case (Cons x a')
    with Suc.IH [of a' b'] Suc.prems b show ?thesis by auto
  qed
qed simp

lemma strstr_from_spec:
  assumes "c_text s" "c_text part" "strstr_from k s part (length part) = r"
  shows "case r of
      None \<Rightarrow> \<forall>j \<le> length s. take (length part) (drop j s) \<noteq> part
    | Some i \<Rightarrow> k \<le> i \<and> i \<le> k + length s \<and> take (length part) (drop (i - k) s) = part \<and>
        (\<forall>j < i - k. take (length part) (drop j s) \<noteq> part)"
  using assms
proof (induction s arbitrary: k r)
  case Nil
  then show ?case by (auto split: if_splits)
next
  case (Cons c s)
  show ?case
  proof (cases "strncmp (c # s) part (length part) = 0")
    case True
    then have "take (length part) (c # s) = part"
      using strncmp_take [OF Cons.prems(1,2), of "length part"] by simp
    with True Cons.prems show ?thesis by auto
  next
    case False
    then have no: "take (length part) (c # s) \<noteq> part"
      using strncmp_take [OF Cons.prems(1,2), of "length part"] by simp
    have r: "strstr_from (k + 1) s part (length part) = r" using Cons.prems False by simp
    have s: "c_text s" using Cons.prems(1) by simp
    have shift: "drop j (c # s) = drop (j - 1) s" if "0 < j" for j using that by (cases j) auto
    from Cons.IH [OF s Cons.prems(2) r] show ?thesis
    proof (cases r)
      case None
      have "take (length part) (drop j (c # s)) \<noteq> part" if "j \<le> length (c # s)" for j
        using Cons.IH [OF s Cons.prems(2) r] None no that by (cases j) auto
      with None show ?thesis by simp
    next
      case (Some i)
      with Cons.IH [OF s Cons.prems(2) r]
      have i: "k + 1 \<le> i" "i \<le> k + 1 + length s" "take (length part) (drop (i - (k + 1)) s) = part"
        "\<forall>j < i - (k + 1). take (length part) (drop j s) \<noteq> part" by auto
      have "take (length part) (drop j (c # s)) \<noteq> part" if "j < i - k" for j
        using no i(1,4) that by (cases j) auto
      moreover have "drop (i - k) (c # s) = drop (i - (k + 1)) s" using i(1) shift [of "i - k"] by simp
      ultimately show ?thesis using Some i by simp
    qed
  qed
qed

lemma strchr_spec:
  "c_text s \<Longrightarrow> ch \<noteq> NUL \<Longrightarrow> strchr s ch = Some i \<longleftrightarrow> i < length s \<and> s ! i = ch \<and> ch \<notin> set (take i s)"
proof (induction s arbitrary: i)
  case (Cons c s)
  then show ?case by (cases i) auto
qed simp

lemma strrchr_from_spec:
  assumes "c_text s" "ch \<noteq> NUL"
  shows "strrchr_from k lst s ch = Some i \<longleftrightarrow>
    (k \<le> i \<and> i < k + length s \<and> s ! (i - k) = ch \<and> ch \<notin> set (drop (i - k + 1) s)) \<or> (ch \<notin> set s \<and> lst = Some i)"
  using assms
proof (induction s arbitrary: k lst)
  case (Cons c s)
  then have ih: "strrchr_from (Suc k) l s ch = Some i \<longleftrightarrow>
    (Suc k \<le> i \<and> i < Suc k + length s \<and> s ! (i - Suc k) = ch \<and> ch \<notin> set (drop (Suc (i - Suc k)) s)) \<or>
    (ch \<notin> set s \<and> l = Some i)" for l by simp
  have eq: "strrchr_from k lst (c # s) ch = strrchr_from (Suc k) (if c = ch then Some k else lst) s ch"
    using Cons.prems by simp
  show ?case
  proof (cases "Suc k \<le> i")
    case True
    then have "i - k = Suc (i - Suc k)" by simp
    with True show ?thesis unfolding eq ih by (auto simp: in_set_conv_nth)
  next
    case False
    then show ?thesis unfolding eq ih by (cases "k = i") auto
  qed
qed auto

section \<open>Memory\<close>

lemma memcpy_spec:
  assumes "d + n \<le> length m" "s + n \<le> length m" "d \<le> s \<or> s + n \<le> d"
  shows "memcpy d s n m = take d m @ take n (drop s m) @ drop (d + n) m"
  using assms
proof (induction n arbitrary: d s m)
  case (Suc n)
  let ?m = "m[d := m ! s]"
  have "memcpy (d + 1) (s + 1) n ?m = take (d + 1) ?m @ take n (drop (s + 1) ?m) @ drop (d + 1 + n) ?m"
    using Suc.prems by (intro Suc.IH) auto
  moreover have "take (d + 1) ?m = take d m @ [m ! s]" using Suc.prems(1) by (simp add: take_Suc_conv_app_nth)
  moreover have "take n (drop (s + 1) ?m) = take n (drop (s + 1) m)"
    using Suc.prems(3) by (auto simp: drop_update_swap take_update_swap list_update_beyond)
  moreover have "take (Suc n) (drop s m) = m ! s # take n (drop (s + 1) m)"
    using Suc.prems(2) by (simp add: Cons_nth_drop_Suc [symmetric])
  ultimately show ?case by simp
qed simp

lemma memmove_back_spec:
  assumes "d + n \<le> length m" "s + n \<le> length m" "s < d"
  shows "memmove_back d s n m = take d m @ take n (drop s m) @ drop (d + n) m"
  using assms
proof (induction n arbitrary: m)
  case (Suc n)
  let ?m = "m[d + n := m ! (s + n)]"
  have "memmove_back d s n ?m = take d ?m @ take n (drop s ?m) @ drop (d + n) ?m"
    using Suc.prems by (intro Suc.IH) auto
  moreover have "take n (drop s ?m) = take n (drop s m)"
    using Suc.prems(3) by (auto simp: drop_update_swap take_update_swap list_update_beyond)
  moreover have "drop (d + n) ?m = m ! (s + n) # drop (d + Suc n) m"
    using Suc.prems(1) by (simp add: drop_update_swap Cons_nth_drop_Suc [symmetric])
  moreover have "take (Suc n) (drop s m) = take n (drop s m) @ [m ! (s + n)]"
    using Suc.prems(2) by (simp add: take_Suc_conv_app_nth)
  ultimately show ?case by simp
qed simp

lemma k_memcpy_memcpy: "k_memcpy d s n m = memcpy d s n m"
proof (induction n arbitrary: d s m)
  case (Suc n)
  have "[0..<Suc n] = 0 # map Suc [0..<n]" by (simp add: map_Suc_upt upt_conv_Cons del: upt_Suc)
  then have "k_memcpy d s (Suc n) m = k_memcpy (d + 1) (s + 1) n (m[d := m ! s])"
    by (simp add: k_memcpy_def fold_map comp_def del: upt_Suc)
  with Suc.IH show ?case by simp
qed (simp add: k_memcpy_def)

lemma k_memset_memset: "k_memset d v n m = memset d v n m"
proof (induction n arbitrary: d m)
  case (Suc n)
  have "[0..<Suc n] = 0 # map Suc [0..<n]" by (simp add: map_Suc_upt upt_conv_Cons del: upt_Suc)
  then have "k_memset d v (Suc n) m = k_memset (d + 1) v n (m[d := v])"
    by (simp add: k_memset_def fold_map comp_def del: upt_Suc)
  with Suc.IH show ?case by simp
qed (simp add: k_memset_def)

lemma first_idx_Suc: "first_idx P 0 (Suc n) = (if P 0 then Some 0 else map_option Suc (first_idx (\<lambda>i. P (Suc i)) 0 n))"
proof -
  have u: "[0..<Suc n] = 0 # map Suc [0..<n]" by (simp add: map_Suc_upt upt_conv_Cons del: upt_Suc)
  have "List.find P (map Suc xs) = map_option Suc (List.find (\<lambda>i. P (Suc i)) xs)" for xs
    by (induction xs) auto
  then show ?thesis unfolding first_idx_def u by simp
qed

lemma k_memcmp_memcmp: "n \<le> length a \<Longrightarrow> n \<le> length b \<Longrightarrow> k_memcmp a b n = memcmp a b n"
proof (induction n arbitrary: a b)
  case (Suc n)
  then obtain x a' y b' where ab: "a = x # a'" "b = y # b'" by (cases a; cases b) auto
  have "k_memcmp a b (Suc n) = (if x \<noteq> y then int (unat x) - int (unat y) else k_memcmp a' b' n)"
    by (auto simp: k_memcmp_def first_idx_Suc ab split: option.splits)
  with Suc.IH [of a' b'] Suc.prems ab show ?case by simp
qed (simp add: k_memcmp_def first_idx_def)

lemma k_strcmp_strcmp: "k_strcmp a b = strcmp a b"
  by (induction a arbitrary: b) auto

lemma chr_at_0 [simp]: "chr_at s 0 = cur s" "chr_at s (Suc i) = chr_at (tl s) i"
  by (cases s; simp add: chr_at_def)+

lemma k_strncmp_strncmp: "k_strncmp a b n = strncmp a b n"
proof (induction n arbitrary: a b)
  case (Suc n)
  have "k_strncmp a b (Suc n) = (if cur a \<noteq> cur b \<or> cur a = NUL \<or> cur b = NUL
      then ord (cur a) - ord (cur b) else k_strncmp (tl a) (tl b) n)"
    by (auto simp: k_strncmp_def first_idx_Suc split: option.splits)
  with Suc.IH show ?case by auto
qed (simp add: k_strncmp_def first_idx_def)

section \<open>Copying texts\<close>

lemma strcpy_at_spec:
  assumes "c_text s" "d + length s < length buf"
  shows "strcpy_at d buf s = take d buf @ s @ [NUL] @ drop (d + length s + 1) buf"
  using assms
proof (induction s arbitrary: d buf)
  case Nil
  then show ?case by (simp add: upd_conv_take_nth_drop)
next
  case (Cons c s)
  have "strcpy_at d buf (c # s) = strcpy_at (d + 1) (buf[d := c]) s" using Cons.prems by simp
  also have "\<dots> = take (d + 1) (buf[d := c]) @ s @ [NUL] @ drop (d + 1 + length s + 1) (buf[d := c])"
    using Cons.prems by (intro Cons.IH) auto
  also have "take (d + 1) (buf[d := c]) = take d buf @ [c]" using Cons.prems(2) by (simp add: take_Suc_conv_app_nth)
  finally show ?case by simp
qed

lemma fill_NUL: "i + k \<le> length buf \<Longrightarrow>
    fold (\<lambda>j b. b[j := NUL]) [i..<i + k] buf = take i buf @ replicate k NUL @ drop (i + k) buf"
proof (induction k)
  case (Suc k)
  let ?b = "take i buf @ replicate k NUL @ drop (i + k) buf"
  have "drop (i + k) buf = buf ! (i + k) # drop (i + Suc k) buf"
    using Suc.prems by (simp add: Cons_nth_drop_Suc [symmetric])
  then have "?b[i + k := NUL] = take i buf @ replicate k NUL @ NUL # drop (i + Suc k) buf"
    using Suc.prems by (simp add: list_update_append)
  with Suc show ?case by (simp add: replicate_append_same flip: replicate_Suc)
qed simp

lemma strncpy_from_spec:
  assumes "c_text s" "i + k \<le> length buf"
  shows "strncpy_from i k buf s = take i buf @ take k s @ replicate (k - length s) NUL @ drop (i + k) buf"
  using assms
proof (induction k arbitrary: i buf s)
  case (Suc k)
  show ?case
  proof (cases s)
    case Nil
    with fill_NUL [of i "Suc k" buf] Suc.prems show ?thesis by simp
  next
    case (Cons c s')
    have "take (i + 1) (buf[i := c]) = take i buf @ [c]"
      using Suc.prems(2) by (simp add: take_Suc_conv_app_nth)
    with Cons Suc.IH [of s' "i + 1" "buf[i := c]"] Suc.prems show ?thesis by simp
  qed
qed simp

section \<open>Properties\<close>

text \<open>C31. \<open>memmove\<close> moves the bytes as they were before the call, whether the ranges overlap or
  not, and changes nothing outside the destination.\<close>

theorem memmove_copies:
  assumes "d + n \<le> length m" "s + n \<le> length m"
  shows "memmove d s n m = take d m @ take n (drop s m) @ drop (d + n) m"
  using memcpy_spec [OF assms] memmove_back_spec [OF assms] by (auto simp: memmove_def)

theorem memmove_copies_witness:
  "memmove 1 0 3 [1, 2, 3, 4] = [1, 1, 2, 3]"
  using memmove_copies [of 1 3 "[1, 2, 3, 4]" 0] by simp

text \<open>C32. \<open>strstr\<close> finds the first place where the part stands in the text, and none only if it
  stands nowhere; an empty part stands at the start.\<close>

theorem strstr_finds_first:
  assumes "c_text text" "c_text part"
  shows "strstr text part = Some i \<longleftrightarrow>
    i \<le> length text \<and> take (length part) (drop i text) = part \<and>
    (\<forall>j < i. take (length part) (drop j text) \<noteq> part)"
proof -
  obtain r where r: "strstr text part = r" by simp
  then have f: "strstr_from 0 text part (length part) = r"
    using strlen_length [OF assms(2)] by (simp add: strstr_def)
  note s = strstr_from_spec [OF assms f]
  show ?thesis
  proof (cases r)
    case None
    with s r show ?thesis by auto
  next
    case (Some k)
    with s have k: "k \<le> length text" "take (length part) (drop k text) = part"
      "\<forall>j < k. take (length part) (drop j text) \<noteq> part" by auto
    then have "i = k" if "take (length part) (drop i text) = part"
      "\<forall>j < i. take (length part) (drop j text) \<noteq> part"
      using that by (metis linorder_neqE_nat)
    with k r Some show ?thesis by auto
  qed
qed

theorem strstr_finds_first_witness: "strstr ''abcabd'' ''abd'' = Some 3"
proof -
  have "c_text ''abcabd''" "c_text ''abd''" by (simp_all add: NUL_def)
  moreover have "\<forall>j < 3. take (length ''abd'') (drop j ''abcabd'') \<noteq> ''abd''"
    by (simp add: numeral_3_eq_3 less_Suc_eq all_conj_distrib)
  ultimately show ?thesis using strstr_finds_first [of "''abcabd''" "''abd''" 3] by simp
qed

text \<open>\<open>strcmp\<close> orders texts as dictionaries do, by the values of the bytes as unsigned
  numbers: 0 exactly for equal texts, negative exactly when the first comes before the second.\<close>

theorem strcmp_order:
  assumes "c_text a" "c_text b"
  shows "(strcmp a b = 0 \<longleftrightarrow> a = b) \<and> (strcmp a b < 0 \<longleftrightarrow> (a, b) \<in> lexord {(x, y). ord x < ord y})"
  using strcmp_lex [OF assms] .

theorem strcmp_order_witness: "strcmp ''ab'' ''ab'' = 0"
  using strcmp_order [of "''ab''" "''ab''"] by (simp add: NUL_def)

text \<open>The kernel's own versions of the memory and string functions compute what the C
  library's do, although their loops differ.\<close>

theorem kernel_libc_agree:
  "k_memcpy d s n m = memcpy d s n m \<and> k_memset d v n m = memset d v n m \<and>
   k_strcmp a b = strcmp a b \<and> k_strncmp a b n = strncmp a b n \<and>
   k_memcmp (x @ y) (x' @ y') (min (length x) (length x')) = memcmp (x @ y) (x' @ y') (min (length x) (length x'))"
  using k_memcpy_memcpy k_memset_memset k_strcmp_strcmp k_strncmp_strncmp k_memcmp_memcmp
  by simp

end
