(* ===== verification/Number.thy ===== *)
theory Number
  imports Cstring
begin

text \<open>
  Numbers to and from text: \<open>strtol\<close> and its relatives (src/src/sdk/libc/number.c), the digits
  \<open>vsnprintf\<close> prints (src/src/sdk/libc/format.c) and the kernel's \<open>int_to_str\<close>, \<open>hex_to_str\<close> and
  \<open>parse_uint\<close> (src/src/kernel/stdlib/string.cpp). The functions on floating point numbers are left
  out. A digit value of 99 marks what is no digit, so a base is at most 36.

  The lemmas show that a number printed and read back is the same number, that reading clamps to
  the range of the result, and that the printed digits fit their buffers.
\<close>

definition signed32 :: "nat \<Rightarrow> int" where
  "signed32 x = (let y = x mod 2 ^ 32 in if y < 2 ^ 31 then int y else int y - 2 ^ 32)"

definition signed64 :: "nat \<Rightarrow> int" where
  "signed64 x = (let y = x mod 2 ^ 64 in if y < 2 ^ 63 then int y else int y - 2 ^ 64)"

section \<open>Reading\<close>

definition IsSpace :: "char \<Rightarrow> bool" where
  "IsSpace c \<longleftrightarrow> c = CHR '' '' \<or> (9 \<le> ord c \<and> ord c \<le> 13)"

definition DigitValue :: "char \<Rightarrow> nat" where
  "DigitValue c =
     (if ord CHR ''0'' \<le> ord c \<and> ord c \<le> ord CHR ''9'' then nat (ord c - ord CHR ''0'')
      else if ord CHR ''a'' \<le> ord c \<and> ord c \<le> ord CHR ''z'' then nat (ord c - ord CHR ''a'' + 10)
      else if ord CHR ''A'' \<le> ord c \<and> ord c \<le> ord CHR ''Z'' then nat (ord c - ord CHR ''A'' + 10)
      else 99)"

fun skip_spaces :: "string \<Rightarrow> string" where
  "skip_spaces [] = []"
| "skip_spaces (c # s) = (if IsSpace c then skip_spaces s else c # s)"

text \<open>The loop over the digits: the value, whether it overflowed, and the rest of the text.\<close>

fun read_digits :: "nat \<Rightarrow> nat \<Rightarrow> nat \<Rightarrow> bool \<Rightarrow> string \<Rightarrow> nat \<times> bool \<times> string" where
  "read_digits base mx v over [] = (v, over, [])"
| "read_digits base mx v over (c # s) =
     (if DigitValue c < base then
        let digit = DigitValue c in
        if v > (mx - digit) div base then read_digits base mx v True s
        else read_digits base mx (v * base + digit) over s
      else (v, over, c # s))"

text \<open>The result: the value, where the number ends, the sign and the overflow.\<close>

definition ReadInteger :: "string \<Rightarrow> nat \<Rightarrow> nat \<Rightarrow> nat \<times> string \<times> bool \<times> bool" where
  "ReadInteger text base mx =
     (let p0 = skip_spaces text;
          negative = (cur p0 = CHR ''-'');
          p1 = (if cur p0 = CHR ''+'' \<or> cur p0 = CHR ''-'' then tl p0 else p0);
          hex = ((base = 0 \<or> base = 16) \<and> chr_at p1 0 = CHR ''0'' \<and>
                 (chr_at p1 1 = CHR ''x'' \<or> chr_at p1 1 = CHR ''X'') \<and> DigitValue (chr_at p1 2) < 16);
          start = (if hex then drop 2 p1 else p1);
          base' = (if hex then 16 else if base = 0 then (if cur p1 = CHR ''0'' then 8 else 10) else base)
      in case read_digits base' mx 0 False start of (v, over, p) \<Rightarrow>
           (if over then mx else v, if p = start then text else p, negative, over))"

definition strtol :: "string \<Rightarrow> nat \<Rightarrow> int \<times> string" where
  "strtol text base = (case ReadInteger text base 0x8000000000000000 of (v, e, negative, over) \<Rightarrow>
     (if \<not> negative \<and> v > 0x7FFFFFFFFFFFFFFF then 0x7FFFFFFFFFFFFFFF
      else if negative then signed64 (sub64 0 v) else signed64 v, e))"

definition atoi :: "string \<Rightarrow> int" where
  "atoi text = (let v = fst (strtol text 10) in signed32 (nat (v mod 2 ^ 32)))"

definition strtoull :: "string \<Rightarrow> nat \<Rightarrow> nat \<times> string" where
  "strtoull text base = (case ReadInteger text base (2 ^ 64 - 1) of (v, e, negative, over) \<Rightarrow>
     (if negative \<and> \<not> over then sub64 0 v else v, e))"

definition strtoul :: "string \<Rightarrow> nat \<Rightarrow> nat \<times> string" where
  "strtoul text base = strtoull text base"

text \<open>The kernel's reader wraps at 32 bits.\<close>

fun parse_uint_from :: "nat \<Rightarrow> string \<Rightarrow> nat" where
  "parse_uint_from val [] = val"
| "parse_uint_from val (c # s) =
     (if ord CHR ''0'' \<le> ord c \<and> ord c \<le> ord CHR ''9''
      then parse_uint_from (u32 (val * 10 + nat (ord c - ord CHR ''0''))) s else val)"

definition parse_uint :: "string \<Rightarrow> nat" where
  "parse_uint s = parse_uint_from 0 s"

section \<open>Printing\<close>

definition digit_set :: "bool \<Rightarrow> string" where
  "digit_set upper = (if upper then ''0123456789ABCDEF'' else ''0123456789abcdef'')"

text \<open>The loop of \<open>Digits\<close>, which fills its buffer from the end; the bases are 8, 10 and 16.\<close>

function Digits_from :: "string \<Rightarrow> nat \<Rightarrow> nat \<Rightarrow> bool \<Rightarrow> string" where
  "Digits_from acc v base upper =
     (let acc' = digit_set upper ! (v mod base) # acc in
      if v div base = 0 \<or> base < 2 then acc' else Digits_from acc' (v div base) base upper)"
  by pat_completeness auto
termination
proof (relation "measure (\<lambda>(acc, v, base, upper). v)", goal_cases)
  case (2 acc v base upper x)
  then have "0 < v" "1 < base" by (auto intro: ccontr)
  then show ?case by simp
qed simp

declare Digits_from.simps [simp del]

definition Digits :: "nat \<Rightarrow> nat \<Rightarrow> bool \<Rightarrow> string" where
  "Digits v base upper = Digits_from [] v base upper"

text \<open>The kernel writes the digits backwards and reverses them in place.\<close>

function reverse_from :: "nat \<Rightarrow> nat \<Rightarrow> string \<Rightarrow> string" where
  "reverse_from i j s = (if i < j then reverse_from (i + 1) (j - 1) (s[i := s ! j, j := s ! i]) else s)"
  by pat_completeness auto
termination
  by (relation "measure (\<lambda>(i, j, s). j - i)") auto

declare reverse_from.simps [simp del]

definition reverse :: "string \<Rightarrow> string" where
  "reverse s = (if s = [] then s else reverse_from 0 (length s - 1) s)"

fun back_digits :: "nat \<Rightarrow> string" where
  "back_digits u = digit_set True ! (u mod 10) # (if u div 10 = 0 then [] else back_digits (u div 10))"

declare back_digits.simps [simp del]

definition int_to_str :: "int \<Rightarrow> string" where
  "int_to_str num =
     (if num < 0 then CHR ''-'' # reverse (back_digits (u32 (nat (- (num + 1)) + 1)))
      else reverse (back_digits (nat num)))"

fun hex_fill :: "nat \<Rightarrow> nat \<Rightarrow> string \<Rightarrow> string" where
  "hex_fill num 0 str = str"
| "hex_fill num (Suc i) str =
     (if num = 0 then str else hex_fill (num div 16) i (str[i := digit_set True ! (num mod 16)]))"

definition hex_to_str :: "nat \<Rightarrow> nat \<Rightarrow> string" where
  "hex_to_str num sz = hex_fill num sz (replicate sz CHR ''0'')"

section \<open>The number a text of digits stands for\<close>

definition number :: "nat \<Rightarrow> string \<Rightarrow> nat" where
  "number base ds = foldl (\<lambda>v c. v * base + DigitValue c) 0 ds"

definition digits_of :: "nat \<Rightarrow> string \<Rightarrow> bool" where
  "digits_of base ds \<longleftrightarrow> (\<forall>c \<in> set ds. DigitValue c < base)"

lemma number_snoc [simp]: "number base [] = 0" "number base (ds @ [c]) = number base ds * base + DigitValue c"
  by (simp_all add: number_def)

lemma number_from: "foldl (\<lambda>v c. v * base + DigitValue c) a ds = a * base ^ length ds + number base ds"
proof (induction ds arbitrary: a rule: rev_induct)
  case (snoc c ds)
  then show ?case by (simp add: algebra_simps)
qed simp

lemma number_Cons: "number base (c # ds) = DigitValue c * base ^ length ds + number base ds"
  using number_from [of base "DigitValue c" ds] by (simp add: number_def)

lemma DigitValue_digit: "d < 16 \<Longrightarrow> DigitValue (digit_set upper ! d) = d"
proof -
  assume "d < 16"
  then have "d \<in> set [0..<16]" by simp
  then show ?thesis by (cases upper) (auto simp: upt_rec DigitValue_def digit_set_def ord_def)
qed

text \<open>A digit is no sign, no space, no \<open>x\<close> and no zero byte.\<close>

lemma digit_chars: "d < 16 \<Longrightarrow> digit_set upper ! d \<notin> {CHR ''+'', CHR ''-'', CHR ''x'', CHR ''X'', NUL} \<and>
    \<not> IsSpace (digit_set upper ! d)"
proof -
  assume "d < 16"
  then have "d \<in> set [0..<16]" by simp
  then show ?thesis by (cases upper) (auto simp: upt_rec digit_set_def IsSpace_def ord_def NUL_def)
qed

lemma Digits_from_spec:
  assumes "2 \<le> base" "base \<le> 16"
  shows "\<exists>ds. Digits_from acc v base upper = ds @ acc \<and> ds \<noteq> [] \<and> number base ds = v \<and>
    (\<forall>c \<in> set ds. \<exists>d < base. c = digit_set upper ! d) \<and> (v \<noteq> 0 \<longrightarrow> base ^ (length ds - 1) \<le> v)"
  using assms
proof (induction acc v base upper rule: Digits_from.induct)
  case (1 acc v base upper)
  let ?c = "digit_set upper ! (v mod base)"
  have c: "DigitValue ?c = v mod base" "v mod base < base"
    using "1.prems" by (auto intro!: DigitValue_digit simp: order_less_le_trans [OF mod_less_divisor])
  show ?case
  proof (cases "v div base = 0")
    case True
    then have "v mod base = v" using "1.prems"(1) by (simp add: div_eq_0_iff)
    with True c show ?thesis
      by (subst Digits_from.simps) (auto simp: number_def intro!: exI [of _ "[?c]"])
  next
    case False
    obtain ds where ds: "Digits_from (?c # acc) (v div base) base upper = ds @ ?c # acc" "ds \<noteq> []"
      "number base ds = v div base" "\<forall>c \<in> set ds. \<exists>d < base. c = digit_set upper ! d"
      "base ^ (length ds - 1) \<le> v div base"
      using "1.IH" [OF refl] False "1.prems" by auto
    have "base ^ (length (ds @ [?c]) - 1) = base ^ (length ds - 1) * base"
      using ds(2) by (cases ds) simp_all
    also have "\<dots> \<le> v div base * base" using ds(5) by simp
    also have "\<dots> \<le> v" by simp
    finally have len: "base ^ (length (ds @ [?c]) - 1) \<le> v" .
    have "Digits_from acc v base upper = (ds @ [?c]) @ acc"
      using False "1.prems"(1) ds(1) by (subst Digits_from.simps) simp
    moreover have "number base (ds @ [?c]) = v" using ds(3) c(1) by simp
    ultimately show ?thesis using ds(4) c(2) len by (intro exI [of _ "ds @ [?c]"]) auto
  qed
qed

lemma Digits_spec:
  assumes "2 \<le> base" "base \<le> 16"
  shows "Digits v base upper \<noteq> [] \<and> number base (Digits v base upper) = v \<and>
    (\<forall>c \<in> set (Digits v base upper). \<exists>d < base. c = digit_set upper ! d) \<and>
    (v \<noteq> 0 \<longrightarrow> base ^ (length (Digits v base upper) - 1) \<le> v)"
  using Digits_from_spec [OF assms, of "[]" v upper] by (auto simp: Digits_def)

lemma Digits_chars:
  assumes "2 \<le> base" "base \<le> 16" "c \<in> set (Digits v base upper)"
  shows "c \<notin> {CHR ''+'', CHR ''-'', CHR ''x'', CHR ''X'', NUL} \<and> DigitValue c < base"
proof -
  obtain d where "d < base" "c = digit_set upper ! d" using Digits_spec [OF assms(1,2)] assms(3) by blast
  with assms(2) show ?thesis using digit_chars [of d upper] DigitValue_digit [of d upper] by simp
qed

section \<open>Reading digits\<close>

lemma overflow_check:
  fixes v d mx base :: nat
  assumes "0 < base" "d \<le> mx"
  shows "v > (mx - d) div base \<longleftrightarrow> mx < v * base + d"
proof -
  have "v > (mx - d) div base \<longleftrightarrow> mx - d < v * base"
    using assms(1) by (simp add: div_less_iff_less_mult)
  also have "\<dots> \<longleftrightarrow> mx < v * base + d" using assms(2) by auto
  finally show ?thesis .
qed

lemma read_digits_over: "digits_of base ds \<Longrightarrow> (rest = [] \<or> \<not> DigitValue (hd rest) < base) \<Longrightarrow>
    \<exists>v'. read_digits base mx v True (ds @ rest) = (v', True, rest)"
proof (induction ds arbitrary: v)
  case Nil
  then show ?case by (cases rest) auto
qed (auto simp: digits_of_def Let_def)

lemma read_digits_spec:
  assumes "digits_of base ds" "rest = [] \<or> \<not> DigitValue (hd rest) < base" "base \<le> mx" "v \<le> mx"
  shows "\<exists>v'. read_digits base mx v False (ds @ rest) = (v', mx < v * base ^ length ds + number base ds, rest) \<and>
    (v * base ^ length ds + number base ds \<le> mx \<longrightarrow> v' = v * base ^ length ds + number base ds)"
  using assms
proof (induction ds arbitrary: v)
  case Nil
  then show ?case by (cases rest) auto
next
  case (Cons c ds)
  let ?d = "DigitValue c"
  have d: "?d < base" "digits_of base ds" using Cons.prems(1) by (auto simp: digits_of_def)
  have tot: "v * base ^ length (c # ds) + number base (c # ds) = (v * base + ?d) * base ^ length ds + number base ds"
    by (simp add: number_Cons algebra_simps)
  have chk: "v > (mx - ?d) div base \<longleftrightarrow> mx < v * base + ?d"
    using d(1) Cons.prems(3) by (intro overflow_check) auto
  show ?case
  proof (cases "mx < v * base + ?d")
    case True
    have "v * base + ?d \<le> (v * base + ?d) * base ^ length ds" using d(1) by (simp add: Suc_leI)
    then have "mx < v * base ^ length (c # ds) + number base (c # ds)" unfolding tot using True by linarith
    moreover obtain v' where "read_digits base mx v True (ds @ rest) = (v', True, rest)"
      using read_digits_over [OF d(2) Cons.prems(2)] by blast
    ultimately show ?thesis using d(1) chk True by (simp add: Let_def)
  next
    case False
    with Cons.IH [OF d(2) Cons.prems(2,3), of "v * base + ?d"] d(1) chk show ?thesis
      unfolding tot by (simp add: Let_def)
  qed
qed

lemma skip_spaces_all: "\<forall>c \<in> set sp. IsSpace c \<Longrightarrow> (s = [] \<or> \<not> IsSpace (hd s)) \<Longrightarrow> skip_spaces (sp @ s) = s"
  by (induction sp) (auto, cases s, auto)

definition signed_text :: "bool option \<Rightarrow> string" where
  "signed_text sg = (case sg of None \<Rightarrow> [] | Some True \<Rightarrow> ''-'' | Some False \<Rightarrow> ''+'')"

lemma digit_plain: "DigitValue c < 99 \<Longrightarrow> c \<noteq> CHR ''+'' \<and> c \<noteq> CHR ''-'' \<and> \<not> IsSpace c \<and> c \<noteq> NUL"
  by (auto simp: DigitValue_def IsSpace_def ord_def NUL_def split: if_splits)

text \<open>What \<open>ReadInteger\<close> makes of spaces, a sign, digits and a rest that begins with no digit.\<close>

lemma ReadInteger_spec:
  assumes sp: "\<forall>c \<in> set sp. IsSpace c" and ds: "digits_of base ds" "ds \<noteq> []"
    and rest: "rest = [] \<or> \<not> DigitValue (hd rest) < base"
    and base: "2 \<le> base" "base \<le> 36" "base \<le> mx"
    and nohex: "base = 16 \<Longrightarrow> chr_at (ds @ rest) 1 \<notin> {CHR ''x'', CHR ''X''}"
  shows "ReadInteger (sp @ signed_text sg @ ds @ rest) base mx =
    (min mx (number base ds), rest, sg = Some True, mx < number base ds)"
proof -
  obtain c ds' where c: "ds = c # ds'" "DigitValue c < base"
    using ds by (cases ds) (auto simp: digits_of_def)
  have plain: "c \<noteq> CHR ''+''" "c \<noteq> CHR ''-''" "\<not> IsSpace c" using digit_plain [of c] c(2) base(2) by auto
  let ?p0 = "signed_text sg @ ds @ rest"
  have skip: "skip_spaces (sp @ ?p0) = ?p0"
    using sp by (rule skip_spaces_all)
      (use plain c in \<open>auto simp: signed_text_def IsSpace_def ord_def split: option.splits bool.splits\<close>)
  have sign: "(cur ?p0 = CHR ''-'') = (sg = Some True)"
    "(if cur ?p0 = CHR ''+'' \<or> sg = Some True then tl ?p0 else ?p0) = ds @ rest"
    using plain c by (auto simp: signed_text_def split: option.splits bool.splits)
  have hex: "\<not> ((base = 0 \<or> base = 16) \<and> chr_at (ds @ rest) 0 = CHR ''0'' \<and>
      (chr_at (ds @ rest) 1 = CHR ''x'' \<or> chr_at (ds @ rest) 1 = CHR ''X'') \<and> DigitValue (chr_at (ds @ rest) 2) < 16)"
    using nohex base by auto
  obtain v' where v': "read_digits base mx 0 False (ds @ rest) = (v', mx < number base ds, rest)"
    "number base ds \<le> mx \<Longrightarrow> v' = number base ds"
    using read_digits_spec [OF ds(1) rest base(3), of 0] unfolding mult_0 add_0 by blast
  have "ds @ rest \<noteq> rest" "base \<noteq> 0" using ds(2) base by simp_all
  then show ?thesis
    unfolding ReadInteger_def Let_def skip sign if_not_P [OF hex]
    using v' by (simp add: not_less)
qed

lemma signed64_neg: "v \<le> 2 ^ 63 \<Longrightarrow> signed64 (sub64 0 v) = - int v"
  by (cases "v = 0") (auto simp: signed64_def sub64_def Let_def)

lemma strtol_number:
  assumes "\<forall>c \<in> set sp. IsSpace c" "digits_of base ds" "ds \<noteq> []"
    and "rest = [] \<or> \<not> DigitValue (hd rest) < base" and "2 \<le> base" "base \<le> 36"
    and "base = 16 \<Longrightarrow> chr_at (ds @ rest) 1 \<notin> {CHR ''x'', CHR ''X''}"
  shows "strtol (sp @ signed_text sg @ ds @ rest) base =
    (max (- (2 ^ 63)) (min (2 ^ 63 - 1) (if sg = Some True then - int (number base ds) else int (number base ds))), rest)"
proof -
  define n where "n = number base ds"
  have "ReadInteger (sp @ signed_text sg @ ds @ rest) base 0x8000000000000000 =
      (min 0x8000000000000000 n, rest, sg = Some True, 0x8000000000000000 < n)"
    unfolding n_def using assms by (intro ReadInteger_spec) auto
  moreover have "min 0x8000000000000000 n \<le> 2 ^ 63" by simp
  ultimately show ?thesis
    unfolding strtol_def n_def [symmetric]
    by (auto simp: signed64_neg) (auto simp: signed64_def Let_def min_def max_def)
qed

text \<open>C35. On spaces, a sign and digits of the base, \<open>strtol\<close> returns the number those digits stand
  for, clamped to the range of a 64-bit \<open>long\<close>, and leaves the text after the last digit. A base of
  16 is taken without its \<open>0x\<close> prefix here.\<close>

theorem strtol_clamps:
  assumes "\<forall>c \<in> set sp. IsSpace c" "digits_of base ds" "ds \<noteq> []"
    and "rest = [] \<or> \<not> DigitValue (hd rest) < base" and "2 \<le> base" "base \<le> 36"
    and "base = 16 \<Longrightarrow> chr_at (ds @ rest) 1 \<notin> {CHR ''x'', CHR ''X''}"
  shows "strtol (sp @ signed_text sg @ ds @ rest) base =
    (max (- (2 ^ 63)) (min (2 ^ 63 - 1) (if sg = Some True then - int (number base ds) else int (number base ds))), rest)"
  using assms by (rule strtol_number)

theorem strtol_clamps_witness:
  "strtol ''  -9223372036854775809;'' 10 = (- (2 ^ 63), '';'')"
  using strtol_clamps [of "''  ''" 10 "''9223372036854775809''" "'';''" "Some True"]
  by (simp add: IsSpace_def digits_of_def DigitValue_def ord_def signed_text_def number_def)

text \<open>The digits \<open>vsnprintf\<close> prints for an unsigned 64-bit number in base 8, 10 or 16 are read
  back by \<open>strtoull\<close> as that number, to the end of the text.\<close>

theorem digits_roundtrip:
  assumes "base \<in> {8, 10, 16}" "v < 2 ^ 64"
  shows "strtoull (Digits v base upper) base = (v, [])"
proof -
  let ?ds = "Digits v base upper"
  have base: "2 \<le> base" "base \<le> 16" using assms(1) by auto
  note D = Digits_spec [OF base, of v upper]
  note ch = Digits_chars [OF base, of _ v upper]
  have x: "chr_at (?ds @ []) 1 \<notin> {CHR ''x'', CHR ''X''}"
    using ch [OF nth_mem, of 1] by (auto simp: chr_at_def NUL_def)
  have "ReadInteger ([] @ signed_text None @ ?ds @ []) base (2 ^ 64 - 1) =
      (min (2 ^ 64 - 1) (number base ?ds), [], None = Some True, 2 ^ 64 - 1 < number base ?ds)"
    using base D ch x by (intro ReadInteger_spec) (auto simp: digits_of_def)
  then show ?thesis using D assms(2) by (simp add: strtoull_def signed_text_def)
qed

theorem digits_roundtrip_witness: "strtoull (Digits 18446744073709551615 16 True) 16 = (18446744073709551615, [])"
  using digits_roundtrip [of 16 18446744073709551615 True] by simp

lemma Digits_length:
  assumes "base \<in> {8, 10, 16}" "v < 2 ^ 64"
  shows "length (Digits v base upper) \<le> 22"
proof (rule ccontr)
  assume l: "\<not> ?thesis"
  have base: "2 \<le> base" "base \<le> 16" using assms(1) by auto
  note D = Digits_spec [OF base, of v upper]
  show False
  proof (cases "v = 0")
    case True
    then have "Digits v base upper = [digit_set upper ! 0]" by (simp add: Digits_def Digits_from.simps)
    with l show False by simp
  next
    case False
    have "(2 :: nat) ^ 64 \<le> 8 ^ 22" by simp
    also have "\<dots> \<le> base ^ 22" using assms(1) by (intro power_mono) auto
    also have "\<dots> \<le> base ^ (length (Digits v base upper) - 1)" using l base(1) by (intro power_increasing) auto
    also have "\<dots> \<le> v" using D False by blast
    finally show False using assms(2) by simp
  qed
qed

text \<open>No 64-bit number prints more than 22 digits in base 8, 10 or 16, so the 24 bytes
  \<open>vsnprintf\<close> keeps for them are never overrun.\<close>

theorem digits_fit:
  assumes "base \<in> {8, 10, 16}" "v < 2 ^ 64"
  shows "length (Digits v base upper) \<le> 22"
  using assms by (rule Digits_length)

theorem digits_fit_witness: "length (Digits 18446744073709551615 8 False) \<le> 22"
  using digits_fit [of 8 18446744073709551615 False] by simp

section \<open>The kernel's numbers\<close>

lemma reverse_from_nth:
  "j < length s \<Longrightarrow> length (reverse_from i j s) = length s \<and>
    (\<forall>k < length s. reverse_from i j s ! k = (if i \<le> k \<and> k \<le> j then s ! (i + j - k) else s ! k))"
proof (induction i j s rule: reverse_from.induct)
  case (1 i j s)
  show ?case
  proof (cases "i < j")
    case True
    from "1.IH" [OF True] "1.prems" have IH: "length (reverse_from (i + 1) (j - 1) (s[i := s ! j, j := s ! i])) = length s"
      "\<forall>k < length s. reverse_from (i + 1) (j - 1) (s[i := s ! j, j := s ! i]) ! k =
         (if i + 1 \<le> k \<and> k \<le> j - 1 then s[i := s ! j, j := s ! i] ! (i + 1 + (j - 1) - k) else s[i := s ! j, j := s ! i] ! k)"
      by auto
    have "(if i + 1 \<le> k \<and> k \<le> j - 1 then s[i := s ! j, j := s ! i] ! (i + 1 + (j - 1) - k) else s[i := s ! j, j := s ! i] ! k)
        = (if i \<le> k \<and> k \<le> j then s ! (i + j - k) else s ! k)" if "k < length s" for k
      using True "1.prems" that by (auto simp: nth_list_update)
    with IH True show ?thesis by (subst (1 2) reverse_from.simps) simp
  next
    case False
    have "s ! (i + j - k) = s ! k" if "i \<le> k" "k \<le> j" for k
      using False that by (metis add_diff_cancel_right' le_antisym le_trans nat_le_linear not_less)
    with False show ?thesis by (subst (1 2) reverse_from.simps) auto
  qed
qed

lemma reverse_rev: "reverse s = rev s"
proof (cases "s = []")
  case False
  then have "length (reverse s) = length s" "\<forall>k < length s. reverse s ! k = s ! (length s - 1 - k)"
    using reverse_from_nth [of "length s - 1" s 0] by (auto simp: reverse_def)
  then show ?thesis by (intro nth_equalityI) (auto simp: rev_nth)
qed (simp add: reverse_def)

lemma Digits_from_append: "2 \<le> base \<Longrightarrow> Digits_from acc v base upper = Digits_from [] v base upper @ acc"
proof (induction v arbitrary: acc rule: less_induct)
  case (less v)
  show ?case
  proof (cases "v div base = 0")
    case False
    then have "v div base < v" using less.prems by (intro div_less_dividend) (auto intro: ccontr)
    with less.IH [OF this less.prems, of "[digit_set upper ! (v mod base)]"]
      less.IH [OF this less.prems, of "digit_set upper ! (v mod base) # acc"] False less.prems
    show ?thesis by (subst (1 2) Digits_from.simps) simp
  qed (subst (1 2) Digits_from.simps, simp)
qed

lemma back_digits_Digits: "reverse (back_digits u) = Digits u 10 True"
  unfolding reverse_rev Digits_def
proof (induction u rule: back_digits.induct)
  case (1 u)
  show ?case
  proof (cases "u div 10 = 0")
    case False
    with "1.IH" show ?thesis
      by (subst back_digits.simps, subst Digits_from.simps)
        (simp add: Digits_from_append [of 10 "[digit_set True ! (u mod 10)]"])
  qed (subst back_digits.simps, subst Digits_from.simps, simp)
qed

lemma int_to_str_Digits:
  assumes "- (2 ^ 31) \<le> n" "n < 2 ^ 31"
  shows "int_to_str n = (if n < 0 then ''-'' else []) @ Digits (nat \<bar>n\<bar>) 10 True"
proof -
  have "u32 (nat (- (n + 1)) + 1) = nat \<bar>n\<bar>" if "n < 0"
  proof -
    have "nat (- (n + 1)) + 1 = nat \<bar>n\<bar>" using that by linarith
    moreover have "nat \<bar>n\<bar> < 2 ^ 32" using assms by simp
    ultimately show ?thesis by (simp add: u32_def)
  qed
  then show ?thesis by (simp add: int_to_str_def back_digits_Digits)
qed

text \<open>The text the kernel's \<open>int_to_str\<close> makes of any \<open>int\<close>, the smallest one included, is read
  back by the C library's \<open>atoi\<close> as that number.\<close>

theorem int_to_str_roundtrip:
  assumes "- (2 ^ 31) \<le> n" "n < 2 ^ 31"
  shows "atoi (int_to_str n) = n"
proof -
  let ?ds = "Digits (nat \<bar>n\<bar>) 10 True" and ?sg = "if n < 0 then Some True else None"
  have D: "?ds \<noteq> []" "number 10 ?ds = nat \<bar>n\<bar>" "digits_of 10 ?ds"
    using Digits_spec [of 10 "nat \<bar>n\<bar>" True] Digits_chars [of 10 _ "nat \<bar>n\<bar>" True] by (simp_all add: digits_of_def)
  have e: "int_to_str n = [] @ signed_text ?sg @ ?ds @ []"
    using int_to_str_Digits [OF assms] by (simp add: signed_text_def)
  have "ReadInteger (int_to_str n) 10 0x8000000000000000 =
      (min 0x8000000000000000 (nat \<bar>n\<bar>), [], ?sg = Some True, 0x8000000000000000 < nat \<bar>n\<bar>)"
    using ReadInteger_spec [of "[]" 10 ?ds "[]" "0x8000000000000000" ?sg] D unfolding e by simp
  moreover have m: "min 0x8000000000000000 (nat \<bar>n\<bar>) = nat \<bar>n\<bar>" "nat \<bar>n\<bar> \<le> 2 ^ 31"
    using assms by simp_all
  ultimately have "fst (strtol (int_to_str n) 10) =
      (if n < 0 then signed64 (sub64 0 (nat \<bar>n\<bar>)) else signed64 (nat \<bar>n\<bar>))"
    by (simp add: strtol_def)
  also have "\<dots> = n"
  proof (cases "n < 0")
    case True
    with m(2) show ?thesis using signed64_neg [of "nat \<bar>n\<bar>"] by simp
  next
    case False
    with assms have "nat n < 2 ^ 63" by simp
    with False show ?thesis by (simp add: signed64_def Let_def)
  qed
  finally have "atoi (int_to_str n) = signed32 (nat (n mod 2 ^ 32))" by (simp add: atoi_def)
  also have "\<dots> = n"
  proof (cases "n < 0")
    case True
    have "n mod 2 ^ 32 = (n + 2 ^ 32) mod 2 ^ 32" by simp
    also have "\<dots> = n + 2 ^ 32" using True assms by (intro mod_pos_pos_trivial) simp_all
    finally show ?thesis using True assms by (simp add: signed32_def Let_def)
  next
    case False
    then have "n mod 2 ^ 32 = n" using assms by (intro mod_pos_pos_trivial) simp_all
    with False assms show ?thesis by (simp add: signed32_def Let_def)
  qed
  finally show ?thesis .
qed

theorem int_to_str_roundtrip_witness: "atoi (int_to_str (- 2147483648)) = - 2147483648"
  using int_to_str_roundtrip [of "- 2147483648"] by simp

end
