(* ===== verification/Format.thy ===== *)
theory Format
  imports Number
begin

text \<open>
  \<open>vsnprintf\<close>, \<open>snprintf\<close> and \<open>sprintf\<close> (src/src/sdk/libc/format.c). The arguments are a list: a
  number is its 64-bit pattern, of which \<open>va_arg\<close> reads the low half for an \<open>int\<close>; a text is \<open>None\<close>
  for the null pointer. The result is \<open>None\<close> where C leaves the call undefined (an argument missing
  or of another kind, a width beyond an \<open>int\<close>) and for the conversions of real numbers, which are not
  modelled. The padding is computed in unbounded integers: it stays within an \<open>int\<close> unless a
  precision is within three of the largest \<open>int\<close>.

  The lemmas show that the buffer holds what fits of one text that depends on the format and the
  arguments only, always closed by a zero byte, and that the length of the whole text is returned.
\<close>

section \<open>The output\<close>

record Output =
  Buffer :: string
  Size :: nat
  Length :: nat

definition Put :: "Output \<Rightarrow> char \<Rightarrow> Output" where
  "Put Out c =
     (let Out1 = (if Length Out + 1 < Size Out then Out\<lparr>Buffer := (Buffer Out)[Length Out := c]\<rparr> else Out)
      in Out1\<lparr>Length := Length Out1 + 1\<rparr>)"

definition PutRepeated :: "Output \<Rightarrow> char \<Rightarrow> int \<Rightarrow> Output" where
  "PutRepeated Out c Count = ((\<lambda>Out. Put Out c) ^^ nat Count) Out"

record Field =
  Prefix :: string
  Zeros :: int
  Body :: string
  Width :: int
  Left :: bool

definition PutField :: "Output \<Rightarrow> Field \<Rightarrow> Output" where
  "PutField Out f =
     (let Pad = Width f - int (length (Prefix f)) - Zeros f - int (length (Body f));
          Out1 = (if \<not> Left f then PutRepeated Out CHR '' '' Pad else Out);
          Out2 = foldl Put Out1 (Prefix f);
          Out3 = PutRepeated Out2 CHR ''0'' (Zeros f);
          Out4 = foldl Put Out3 (Body f)
      in if Left f then PutRepeated Out4 CHR '' '' Pad else Out4)"

section \<open>Reading a conversion\<close>

datatype arg = Num nat | Text "string option"

record Conv =
  cLeft :: bool
  cZero :: bool
  cPlus :: bool
  cSpace :: bool
  cAlt :: bool
  cWidth :: int
  cPrecision :: int
  cBytes :: nat

definition Conv0 :: Conv where
  "Conv0 = \<lparr>cLeft = False, cZero = False, cPlus = False, cSpace = False, cAlt = False,
     cWidth = 0, cPrecision = -1, cBytes = 4\<rparr>"

fun conv_flags :: "Conv \<Rightarrow> string \<Rightarrow> Conv \<times> string" where
  "conv_flags c [] = (c, [])"
| "conv_flags c (f # Format) =
     (if f = CHR ''-'' then conv_flags (c\<lparr>cLeft := True\<rparr>) Format
      else if f = CHR ''0'' then conv_flags (c\<lparr>cZero := True\<rparr>) Format
      else if f = CHR ''+'' then conv_flags (c\<lparr>cPlus := True\<rparr>) Format
      else if f = CHR '' '' then conv_flags (c\<lparr>cSpace := True\<rparr>) Format
      else if f = CHR ''#'' then conv_flags (c\<lparr>cAlt := True\<rparr>) Format
      else (c, f # Format))"

fun conv_number :: "int \<Rightarrow> string \<Rightarrow> (int \<times> string) option" where
  "conv_number w [] = Some (w, [])"
| "conv_number w (f # Format) =
     (if ord CHR ''0'' \<le> ord f \<and> ord f \<le> ord CHR ''9'' then
        let w' = w * 10 + (ord f - ord CHR ''0'') in
        if \<bar>w'\<bar> < 2 ^ 31 then conv_number w' Format else None
      else Some (w, f # Format))"

definition va_int :: "arg list \<Rightarrow> (int \<times> arg list) option" where
  "va_int Args = (case Args of Num v # rest \<Rightarrow> Some (signed32 v, rest) | _ \<Rightarrow> None)"

definition conv_width :: "Conv \<Rightarrow> string \<Rightarrow> arg list \<Rightarrow> (Conv \<times> string \<times> arg list) option" where
  "conv_width c Format Args =
     (if cur Format = CHR ''*'' then
        case va_int Args of None \<Rightarrow> None
        | Some (w, Args1) \<Rightarrow>
            if w = - (2 ^ 31) then None
            else (case conv_number \<bar>w\<bar> (tl Format) of None \<Rightarrow> None
                  | Some (w', Format1) \<Rightarrow> Some (c\<lparr>cWidth := w', cLeft := cLeft c \<or> w < 0\<rparr>, Format1, Args1))
      else (case conv_number 0 Format of None \<Rightarrow> None
            | Some (w', Format1) \<Rightarrow> Some (c\<lparr>cWidth := w'\<rparr>, Format1, Args)))"

definition conv_precision :: "Conv \<Rightarrow> string \<Rightarrow> arg list \<Rightarrow> (Conv \<times> string \<times> arg list) option" where
  "conv_precision c Format Args =
     (if cur Format = CHR ''.'' then
        if cur (tl Format) = CHR ''*'' then
          case va_int Args of None \<Rightarrow> None
          | Some (p, Args1) \<Rightarrow>
              (case conv_number p (tl (tl Format)) of None \<Rightarrow> None
               | Some (p', Format1) \<Rightarrow> Some (c\<lparr>cPrecision := p'\<rparr>, Format1, Args1))
        else (case conv_number 0 (tl Format) of None \<Rightarrow> None
              | Some (p', Format1) \<Rightarrow> Some (c\<lparr>cPrecision := p'\<rparr>, Format1, Args))
      else Some (c, Format, Args))"

definition conv_size :: "Conv \<Rightarrow> string \<Rightarrow> Conv \<times> string" where
  "conv_size c Format =
     (let f = cur Format; f1 = chr_at Format 1 in
      if f = CHR ''h'' then
        if f1 = CHR ''h'' then (c\<lparr>cBytes := 1\<rparr>, drop 2 Format) else (c\<lparr>cBytes := 2\<rparr>, drop 1 Format)
      else if f = CHR ''l'' \<or> f = CHR ''z'' \<or> f = CHR ''j'' \<or> f = CHR ''t'' then
        (c\<lparr>cBytes := 8\<rparr>, if f = CHR ''l'' \<and> f1 = CHR ''l'' then drop 2 Format else drop 1 Format)
      else if f = CHR ''L'' then (c, drop 1 Format)
      else (c, Format))"

section \<open>The switch\<close>

definition signed16 :: "int \<Rightarrow> int" where
  "signed16 x = (let y = x mod 2 ^ 16 in if y < 2 ^ 15 then y else y - 2 ^ 16)"

definition signed8 :: "int \<Rightarrow> int" where
  "signed8 x = (let y = x mod 2 ^ 8 in if y < 2 ^ 7 then y else y - 2 ^ 8)"

definition signed_arg :: "nat \<Rightarrow> nat \<Rightarrow> int" where
  "signed_arg Bytes v =
     (let Signed = (if Bytes = 8 then signed64 v else signed32 v) in
      if Bytes = 1 then signed8 Signed else if Bytes = 2 then signed16 Signed else Signed)"

definition unsigned_arg :: "nat \<Rightarrow> nat \<Rightarrow> nat" where
  "unsigned_arg Bytes v =
     (let u = (if Bytes = 8 then u64 v else u32 v) in
      if Bytes = 1 then u mod 2 ^ 8 else if Bytes = 2 then u mod 2 ^ 16 else u)"

text \<open>The code at the label \<open>Integer\<close>: the arguments of its call of \<open>PutField\<close>.\<close>

definition integer_field :: "Conv \<Rightarrow> string \<Rightarrow> nat \<Rightarrow> nat \<Rightarrow> bool \<Rightarrow> Field" where
  "integer_field c prefix v Base upper =
     (let body = (if cPrecision c = 0 \<and> v = 0 then [] else Digits v Base upper);
          len = int (length body);
          zeros = (if cAlt c \<and> Base = 8 \<and> (body = [] \<or> body ! 0 \<noteq> CHR ''0'') then 1 else 0);
          zeros' = (if cPrecision c > len then cPrecision c - len
                    else if cZero c \<and> \<not> cLeft c \<and> cPrecision c < 0 \<and> cWidth c > int (length prefix) + zeros + len
                    then cWidth c - int (length prefix) - len
                    else zeros)
      in \<lparr>Prefix = prefix, Zeros = zeros', Body = body, Width = cWidth c, Left = cLeft c\<rparr>)"

definition text_field :: "Conv \<Rightarrow> string \<Rightarrow> string \<Rightarrow> Field" where
  "text_field c prefix body = \<lparr>Prefix = prefix, Zeros = 0, Body = body, Width = cWidth c, Left = cLeft c\<rparr>"

definition sign_prefix :: "Conv \<Rightarrow> int \<Rightarrow> string" where
  "sign_prefix c Signed = (if Signed < 0 then ''-'' else if cPlus c then ''+'' else if cSpace c then '' '' else '''')"

text \<open>The characters \<open>Put\<close> one by one in the last two cases are a field with no padding.\<close>

definition plain_field :: "string \<Rightarrow> Field" where
  "plain_field s = \<lparr>Prefix = [], Zeros = 0, Body = s, Width = 0, Left = False\<rparr>"

definition conv_switch :: "Conv \<Rightarrow> char \<Rightarrow> arg list \<Rightarrow> (Field \<times> arg list) option" where
  "conv_switch c f Args =
     (if f = CHR ''d'' \<or> f = CHR ''i'' then
        case Args of Num v # rest \<Rightarrow>
          let Signed = signed_arg (cBytes c) v in
          Some (integer_field c (sign_prefix c Signed) (nat \<bar>Signed\<bar>) 10 False, rest)
        | _ \<Rightarrow> None
      else if f = CHR ''o'' \<or> f = CHR ''x'' \<or> f = CHR ''X'' \<or> f = CHR ''u'' then
        case Args of Num a # rest \<Rightarrow>
          let Base = (if f = CHR ''o'' then 8 else if f = CHR ''u'' then 10 else 16);
              v = unsigned_arg (cBytes c) a;
              prefix = (if cAlt c \<and> Base = 16 \<and> v \<noteq> 0 then if f = CHR ''X'' then ''0X'' else ''0x'' else '''')
          in Some (integer_field c prefix v Base (f = CHR ''X''), rest)
        | _ \<Rightarrow> None
      else if f = CHR ''p'' then
        case Args of Num a # rest \<Rightarrow> Some (text_field c ''0x'' (Digits (u64 a) 16 False), rest) | _ \<Rightarrow> None
      else if f = CHR ''c'' then
        case Args of Num a # rest \<Rightarrow> Some (text_field c '''' [char_of (a mod 256)], rest) | _ \<Rightarrow> None
      else if f = CHR ''s'' then
        case Args of Text t # rest \<Rightarrow>
          let body = (case t of None \<Rightarrow> ''(null)'' | Some s \<Rightarrow> s) in
          Some (text_field c '''' (if cPrecision c < 0 then body else take (nat (cPrecision c)) body), rest)
        | _ \<Rightarrow> None
      else if f = CHR ''f'' \<or> f = CHR ''F'' then None
      else if f = CHR ''%'' then Some (plain_field ''%'', Args)
      else if f = NUL then Some (plain_field ''%'', Args)
      else Some (plain_field [CHR ''%'', f], Args))"

section \<open>The whole conversion, and the loop\<close>

text \<open>From the text after the percent sign: the field, the rest of the format and of the arguments.
  At the end of the format the rest stays empty, where the code steps back to its zero byte.\<close>

definition conversion :: "string \<Rightarrow> arg list \<Rightarrow> (Field \<times> string \<times> arg list) option" where
  "conversion Format Args =
     (case conv_flags Conv0 Format of (c1, F1) \<Rightarrow>
      case conv_width c1 F1 Args of None \<Rightarrow> None | Some (c2, F2, A2) \<Rightarrow>
      case conv_precision c2 F2 A2 of None \<Rightarrow> None | Some (c3, F3, A3) \<Rightarrow>
      case conv_size c3 F3 of (c4, F4) \<Rightarrow>
      case conv_switch c4 (cur F4) A3 of None \<Rightarrow> None | Some (fld, A4) \<Rightarrow> Some (fld, tl F4, A4))"

lemma conv_flags_length: "conv_flags c F = (c', F') \<Longrightarrow> length F' \<le> length F"
  by (induction c F rule: conv_flags.induct) (auto split: if_splits)

lemma conv_number_length: "conv_number w F = Some (w', F') \<Longrightarrow> length F' \<le> length F"
  by (induction w F rule: conv_number.induct) (auto simp: Let_def split: if_splits)

lemma conv_width_length: "conv_width c F A = Some (c', F', A') \<Longrightarrow> length F' \<le> length F"
  by (auto simp: conv_width_def dest!: conv_number_length split: if_splits option.splits)

lemma conv_precision_length: "conv_precision c F A = Some (c', F', A') \<Longrightarrow> length F' \<le> length F"
  by (auto simp: conv_precision_def dest!: conv_number_length split: if_splits option.splits)

lemma conv_size_length: "conv_size c F = (c', F') \<Longrightarrow> length F' \<le> length F"
  by (auto simp: conv_size_def Let_def split: if_splits)

lemma conversion_length: "conversion F A = Some (fld, F', A') \<Longrightarrow> length F' \<le> length F"
  unfolding conversion_def
  by (auto dest!: conv_flags_length conv_width_length conv_precision_length conv_size_length
      split: option.splits prod.splits)

function vsnprintf_loop :: "Output \<Rightarrow> string \<Rightarrow> arg list \<Rightarrow> Output option" where
  "vsnprintf_loop Out [] Args = Some Out"
| "vsnprintf_loop Out (f # Format) Args =
     (if f \<noteq> CHR ''%'' then vsnprintf_loop (Put Out f) Format Args
      else case conversion Format Args of None \<Rightarrow> None
           | Some (fld, Format', Args') \<Rightarrow> vsnprintf_loop (PutField Out fld) Format' Args')"
  by pat_completeness auto
termination
  by (relation "measure (\<lambda>(Out, Format, Args). length Format)") (auto dest: conversion_length simp: less_Suc_eq_le)

definition vsnprintf :: "string \<Rightarrow> nat \<Rightarrow> string \<Rightarrow> arg list \<Rightarrow> (string \<times> int) option" where
  "vsnprintf buffer sz Format Args =
     (case vsnprintf_loop \<lparr>Buffer = buffer, Size = sz, Length = 0\<rparr> Format Args of None \<Rightarrow> None
      | Some Out \<Rightarrow>
          Some (if sz \<noteq> 0 then (Buffer Out)[if Length Out < sz then Length Out else sz - 1 := NUL] else Buffer Out,
                signed32 (Length Out)))"

definition snprintf :: "string \<Rightarrow> nat \<Rightarrow> string \<Rightarrow> arg list \<Rightarrow> (string \<times> int) option" where
  "snprintf buffer sz Format Args = vsnprintf buffer sz Format Args"

definition sprintf :: "string \<Rightarrow> string \<Rightarrow> arg list \<Rightarrow> (string \<times> int) option" where
  "sprintf buffer Format Args = vsnprintf buffer (2 ^ 64 - 1) Format Args"

section \<open>The text of a format\<close>

definition field_text :: "Field \<Rightarrow> string" where
  "field_text f =
     (let pad = replicate (nat (Width f - int (length (Prefix f)) - Zeros f - int (length (Body f)))) CHR '' '';
          core = Prefix f @ replicate (nat (Zeros f)) CHR ''0'' @ Body f
      in if Left f then core @ pad else pad @ core)"

function format_text :: "string \<Rightarrow> arg list \<Rightarrow> string option" where
  "format_text [] Args = Some []"
| "format_text (f # Format) Args =
     (if f \<noteq> CHR ''%'' then map_option (\<lambda>t. f # t) (format_text Format Args)
      else case conversion Format Args of None \<Rightarrow> None
           | Some (fld, Format', Args') \<Rightarrow> map_option (\<lambda>t. field_text fld @ t) (format_text Format' Args'))"
  by pat_completeness auto
termination
  by (relation "measure (\<lambda>(Format, Args). length Format)") (auto dest: conversion_length simp: less_Suc_eq_le)

text \<open>The output after a text: what fits of it is in the buffer.\<close>

definition written :: "string \<Rightarrow> nat \<Rightarrow> string \<Rightarrow> Output" where
  "written b n t =
     (let m = min (n - 1) (length b)
      in \<lparr>Buffer = take m t @ drop (min m (length t)) b, Size = n, Length = length t\<rparr>)"

lemma written_Nil: "written b n [] = \<lparr>Buffer = b, Size = n, Length = 0\<rparr>"
  by (simp add: written_def Let_def)

lemma written_Put: "Put (written b n t) c = written b n (t @ [c])"
proof (cases "length t < min (n - 1) (length b)")
  case True
  then have "drop (length t) b = b ! length t # drop (Suc (length t)) b" by (intro Cons_nth_drop_Suc [symmetric]) simp
  moreover have "min (n - 1) (length b) - length t = Suc (min (n - 1) (length b) - Suc (length t))" "Suc (length t) < n"
    using True by auto
  ultimately show ?thesis using True by (simp add: written_def Put_def Let_def min_absorb2 list_update_append)
next
  case False
  then show ?thesis by (auto simp: written_def Put_def Let_def min_absorb1 list_update_beyond)
qed

lemma written_Puts: "foldl Put (written b n t) s = written b n (t @ s)"
  by (induction s arbitrary: t) (simp_all add: written_Put)

lemma written_PutRepeated: "PutRepeated (written b n t) c k = written b n (t @ replicate (nat k) c)"
proof -
  have "((\<lambda>Out. Put Out c) ^^ j) (written b n t) = written b n (t @ replicate j c)" for j
    by (induction j) (simp_all add: written_Put replicate_append_same)
  then show ?thesis by (simp add: PutRepeated_def)
qed

lemma written_PutField: "PutField (written b n t) f = written b n (t @ field_text f)"
  by (simp add: PutField_def field_text_def Let_def written_PutRepeated written_Puts)

lemma vsnprintf_loop_text:
  "vsnprintf_loop (written b n t) F A = map_option (\<lambda>s. written b n (t @ s)) (format_text F A)"
proof (induction F A arbitrary: t rule: format_text.induct)
  case (2 f Format Args)
  show ?case
  proof (cases "f = CHR ''%''")
    case False
    with 2 show ?thesis by (simp add: written_Put option.map_comp comp_def)
  next
    case True
    then show ?thesis using 2
      by (auto simp: written_PutField option.map_comp comp_def split: option.splits prod.splits)
  qed
qed simp

lemma vsnprintf_text:
  assumes "n \<le> length b"
  shows "vsnprintf b n F A = map_option (\<lambda>T.
    (if n = 0 then b else take (n - 1) T @ [NUL] @ drop (min (n - 1) (length T) + 1) b, signed32 (length T))) (format_text F A)"
proof -
  have m: "min (n - 1) (length b) = n - 1" using assms by simp
  have e: "(take (n - 1) T @ drop (min (n - 1) (length T)) b)[if length T < n then length T else n - 1 := NUL]
      = take (n - 1) T @ [NUL] @ drop (min (n - 1) (length T) + 1) b" if "n \<noteq> 0" for T
  proof -
    let ?k = "min (n - 1) (length T)"
    have k: "(if length T < n then length T else n - 1) = ?k" "length (take (n - 1) T) = ?k" using that by auto
    have "drop ?k b = b ! ?k # drop (?k + 1) b" using assms that by (subst Cons_nth_drop_Suc [symmetric]) auto
    then show ?thesis unfolding k(1) using k(2) by (simp add: list_update_append)
  qed
  have "vsnprintf_loop \<lparr>Buffer = b, Size = n, Length = 0\<rparr> F A = map_option (written b n) (format_text F A)"
    using vsnprintf_loop_text [of b n "[]" F A] by (simp add: written_Nil)
  then have loop: "vsnprintf_loop \<lparr>Buffer = b, Size = n, Length = 0\<rparr> F A = map_option (\<lambda>T.
      \<lparr>Buffer = take (n - 1) T @ drop (min (n - 1) (length T)) b, Size = n, Length = length T\<rparr>) (format_text F A)"
    unfolding written_def Let_def m .
  show ?thesis
  proof (cases "format_text F A")
    case (Some T)
    then show ?thesis
      unfolding vsnprintf_def loop Some using e [of T]
      by (cases "n = 0") (simp_all only: option.map option.case Output.simps if_True if_False simp_thms
          take_0 diff_0_eq_0 min_0L drop_0 append_Nil)
  qed (simp add: vsnprintf_def loop)
qed

text \<open>C9. \<open>vsnprintf\<close> into a buffer of at least \<open>n\<close> bytes implements the text of the format: the buffer
  gets its first \<open>n - 1\<close> characters, a zero byte right after them and nothing else, and the length of
  the whole text is returned; with a size of 0 no byte is written. The text is the same for every
  buffer.\<close>

theorem vsnprintf_refines_text:
  assumes "n \<le> length b" "length T < 2 ^ 31" "format_text F A = Some T"
  shows "vsnprintf b n F A =
    Some (if n = 0 then b else take (n - 1) T @ [NUL] @ drop (min (n - 1) (length T) + 1) b, int (length T))"
  using assms by (simp add: vsnprintf_text signed32_def Let_def)

lemmas conversion_defs = conversion_def Conv0_def conv_width_def conv_precision_def conv_size_def
  conv_switch_def chr_at_def ord_def

lemma Digits_7: "Digits 7 10 False = ''7''"
  by (simp add: Digits_def Digits_from.simps digit_set_def)

theorem vsnprintf_refines_text_witness:
  "vsnprintf ''------'' 4 ''a%03dz'' [Num 7] = Some (''a00'' @ [NUL] @ ''--'', 5)"
proof -
  have "format_text ''a%03dz'' [Num 7] = Some ''a007z''"
    by (simp add: conversion_defs field_text_def integer_field_def signed_arg_def signed32_def sign_prefix_def Digits_7 Let_def)
      (simp add: numeral_2_eq_2)
  then show ?thesis using vsnprintf_refines_text [of 4 "''------''" "''a007z''" "''a%03dz''" "[Num 7]"] by simp
qed

lemma signed64_pattern: "- (2 ^ 63) \<le> v \<Longrightarrow> v < 2 ^ 63 \<Longrightarrow> signed64 (nat (v mod 2 ^ 64)) = v"
proof (cases "v < 0")
  case True
  assume v: "- (2 ^ 63) \<le> v"
  have "v mod 2 ^ 64 = (v + 2 ^ 64) mod 2 ^ 64" by simp
  also have "\<dots> = v + 2 ^ 64" using True v by (intro mod_pos_pos_trivial) simp_all
  finally show ?thesis using True v by (simp add: signed64_def Let_def)
next
  case False
  assume v: "v < 2 ^ 63"
  with False have "v mod 2 ^ 64 = v" by (intro mod_pos_pos_trivial) simp_all
  with False v show ?thesis by (simp add: signed64_def Let_def)
qed

lemma format_ld:
  "format_text ''%ld'' [Num a] =
    Some ((if signed64 a < 0 then ''-'' else []) @ Digits (nat \<bar>signed64 a\<bar>) 10 False)"
  by (simp add: conversion_defs field_text_def integer_field_def signed_arg_def sign_prefix_def Let_def)

text \<open>C36. A \<open>long\<close> printed with \<open>%ld\<close> is read back by \<open>strtol\<close> as the same number: the buffer starts
  with its text and a zero byte.\<close>

theorem printed_long_roundtrip:
  assumes "- (2 ^ 63) \<le> v" "v < 2 ^ 63" "32 \<le> length b"
  shows "\<exists>T. snprintf b 32 ''%ld'' [Num (nat (v mod 2 ^ 64))] = Some (T @ [NUL] @ drop (length T + 1) b, int (length T)) \<and>
    strtol T 10 = (v, [])"
proof -
  define u where "u = nat \<bar>v\<bar>"
  let ?ds = "Digits u 10 False" and ?sg = "if v < 0 then Some True else None"
  have u: "u \<le> 2 ^ 63" using assms by (simp add: u_def)
  have D: "?ds \<noteq> []" "number 10 ?ds = u" "digits_of 10 ?ds"
    using Digits_spec [of 10 u False] Digits_chars [of 10 _ u False] by (simp_all add: digits_of_def)
  let ?T = "[] @ signed_text ?sg @ ?ds @ []"
  have T: "format_text ''%ld'' [Num (nat (v mod 2 ^ 64))] = Some ?T"
    unfolding format_ld signed64_pattern [OF assms(1,2)] by (simp add: signed_text_def u_def)
  have len: "length ?T \<le> 23" using Digits_length [of 10 u False] u by (simp add: signed_text_def)
  then have "snprintf b 32 ''%ld'' [Num (nat (v mod 2 ^ 64))] = Some (?T @ [NUL] @ drop (length ?T + 1) b, int (length ?T))"
    unfolding snprintf_def vsnprintf_text [OF assms(3)] T by (simp add: signed32_def Let_def)
  moreover have "strtol ?T 10 = (v, [])"
    using strtol_number [of "[]" 10 ?ds "[]" ?sg] D assms by (simp add: u_def)
  ultimately show ?thesis by blast
qed

theorem printed_long_roundtrip_witness:
  "\<exists>T. snprintf (replicate 40 CHR ''-'') 32 ''%ld'' [Num (nat (- 5 mod 2 ^ 64))] =
     Some (T @ [NUL] @ drop (length T + 1) (replicate 40 CHR ''-''), int (length T)) \<and> strtol T 10 = (- 5, [])"
  using printed_long_roundtrip [of "- 5" "replicate 40 CHR ''-''"] by simp

end
