(* ===== verification/Blkdev.thy ===== *)
theory Blkdev
  imports Cstring
begin

text \<open>
  The registry of block devices and the requests to them (src/src/kernel/dev/blkdev.cpp, blkdev.h),
  with the data of the sector cache (src/src/kernel/dev/bcache.h), which the registry drops when a
  disk goes.

  A device is its slot in the registry. The driver behind \<open>ops\<close> is the medium, sectors by disk
  and number, and a schedule of what the next requests do: \<open>Failed k\<close> is a request that fails, a
  write after its first \<open>k\<close> sectors reached the medium; past the end of the schedule requests
  succeed. A disk may have a write cache of its own: \<open>medium\<close> is what its reads give, \<open>committed\<close> what a loss
  of power is sure to leave, which is the medium as it was at the disk's last successful flush. A disk
  with no flush operation has no such cache. \<open>forgotten\<close> lists the disks the driver was told to forget, \<open>mallocs\<close> says which of
  the next calls of \<open>kmalloc\<close> fail. A buffer of several sectors is the list of the sectors. Messages
  on the serial port and on the screen are left out, and so is the disks' lock, under which all of
  this runs.

  A device with a transfer limit of 0 would keep \<open>block::read\<close> busy for ever; the driver
  (src/src/kernel/drivers/usb/msc.cpp) registers limits of 16 and more, the model's loop ends at once
  there and the theorems ask for a limit of at least 1.

  The lemmas show that a request touches the sectors of its device only and moves them whole.
\<close>

type_synonym sector = "byte list"

datatype fault = Fine | Failed nat

record blkdev =
  dname :: string
  sector_size :: nat
  sector_count :: nat
  max_sectors_per_io :: nat
  ops :: bool
  ops_flush :: bool
  ops_forget :: bool
  parent :: "nat option"
  lba_offset :: nat
  registered :: bool
  gone :: bool
  users :: nat

definition blank :: blkdev where
  "blank = \<lparr>dname = [], sector_size = 0, sector_count = 0, max_sectors_per_io = 0, ops = False,
     ops_flush = False, ops_forget = False, parent = None, lba_offset = 0, registered = False,
     gone = False, users = 0\<rparr>"

record buf =
  data :: "byte list"
  bdev :: "nat option"
  blba :: nat
  valid :: bool
  dirty :: bool
  refcnt :: nat
  last_use :: nat

record disks =
  devices :: "blkdev list"
  medium :: "nat \<Rightarrow> nat \<Rightarrow> sector"
  committed :: "nat \<Rightarrow> nat \<Rightarrow> sector"
  faults :: "fault list"
  forgotten :: "nat list"
  mallocs :: "bool list"
  buffers :: "buf list"
  clock :: nat
  inited :: bool

definition MAX_BLKDEVS :: nat where "MAX_BLKDEVS = 16"
definition MAX_IO_RETRIES :: nat where "MAX_IO_RETRIES = 3"

abbreviation dev_at :: "disks \<Rightarrow> nat \<Rightarrow> blkdev" where
  "dev_at s d \<equiv> devices s ! d"

definition set_dev :: "disks \<Rightarrow> nat \<Rightarrow> blkdev \<Rightarrow> disks" where
  "set_dev s d x = s\<lparr>devices := (devices s)[d := x]\<rparr>"

definition free_entry :: "disks \<Rightarrow> nat option" where
  "free_entry s = first_idx (\<lambda>i. \<not> registered (dev_at s i)) 0 MAX_BLKDEVS"

section \<open>The driver\<close>

definition next_fault :: "disks \<Rightarrow> fault \<times> disks" where
  "next_fault s = (case faults s of [] \<Rightarrow> (Fine, s) | f # fs \<Rightarrow> (f, s\<lparr>faults := fs\<rparr>))"

definition ops_read :: "disks \<Rightarrow> nat \<Rightarrow> nat \<Rightarrow> nat \<Rightarrow> sector list option \<times> disks" where
  "ops_read s d lba n =
     (case next_fault s of (f, s1) \<Rightarrow>
        (if f = Fine then Some (map (medium s1 d) [lba..<lba + n]) else None, s1))"

definition store :: "nat \<Rightarrow> nat \<Rightarrow> sector list \<Rightarrow> (nat \<Rightarrow> nat \<Rightarrow> sector) \<Rightarrow> nat \<Rightarrow> nat \<Rightarrow> sector" where
  "store d lba src md = (\<lambda>e l. if e = d \<and> lba \<le> l \<and> l < lba + length src then src ! (l - lba) else md e l)"

definition ops_write :: "disks \<Rightarrow> nat \<Rightarrow> nat \<Rightarrow> sector list \<Rightarrow> bool \<times> disks" where
  "ops_write s d lba src =
     (case next_fault s of (f, s1) \<Rightarrow>
        (case f of Fine \<Rightarrow> (True, s1\<lparr>medium := store d lba src (medium s1)\<rparr>)
         | Failed k \<Rightarrow> (False, s1\<lparr>medium := store d lba (take k src) (medium s1)\<rparr>)))"

definition ops_sync :: "disks \<Rightarrow> nat \<Rightarrow> bool \<times> disks" where
  "ops_sync s d =
     (case next_fault s of (f, s1) \<Rightarrow>
        if f = Fine then (True, s1\<lparr>committed := (committed s1)(d := medium s1 d)\<rparr>) else (False, s1))"

section \<open>Requests\<close>

text \<open>The loops up the parents; a chain in a registry of 16 entries ends within 16 steps.\<close>

fun disk_up :: "nat \<Rightarrow> blkdev list \<Rightarrow> nat \<Rightarrow> nat" where
  "disk_up 0 ds d = d"
| "disk_up (Suc k) ds d = (case parent (ds ! d) of None \<Rightarrow> d | Some p \<Rightarrow> disk_up k ds p)"

definition disk_of :: "disks \<Rightarrow> nat \<Rightarrow> nat" where
  "disk_of s d = disk_up MAX_BLKDEVS (devices s) d"

fun resolve_up :: "nat \<Rightarrow> blkdev list \<Rightarrow> nat \<Rightarrow> nat \<Rightarrow> nat \<times> nat" where
  "resolve_up 0 ds d lba = (d, lba)"
| "resolve_up (Suc k) ds d lba =
     (case parent (ds ! d) of None \<Rightarrow> (d, lba)
      | Some p \<Rightarrow> resolve_up k ds p (u64 (lba + lba_offset (ds ! d))))"

definition resolve :: "disks \<Rightarrow> nat \<Rightarrow> nat \<Rightarrow> nat \<times> nat" where
  "resolve s d lba = resolve_up MAX_BLKDEVS (devices s) d lba"

fun read_attempts :: "nat \<Rightarrow> disks \<Rightarrow> nat \<Rightarrow> nat \<Rightarrow> nat \<Rightarrow> sector list option \<times> disks" where
  "read_attempts 0 s real lba n = (None, s)"
| "read_attempts (Suc k) s real lba n =
     (case ops_read s real lba n of (Some x, s1) \<Rightarrow> (Some x, s1)
      | (None, s1) \<Rightarrow> read_attempts k s1 real lba n)"

function read_chunks :: "disks \<Rightarrow> nat \<Rightarrow> nat \<Rightarrow> nat \<Rightarrow> nat \<Rightarrow> sector list \<Rightarrow> sector list res \<times> disks" where
  "read_chunks s real lba don n dst =
     (if don < n \<and> 0 < max_sectors_per_io (dev_at s real) then
        let chunk = min (n - don) (max_sectors_per_io (dev_at s real)) in
        (case read_attempts MAX_IO_RETRIES s real (u64 (lba + don)) chunk of
           (None, s1) \<Rightarrow> (Inl EIO, s1)
         | (Some x, s1) \<Rightarrow> read_chunks s1 real lba (don + chunk) n (dst @ x))
      else (Inr dst, s))"
  by pat_completeness auto
termination
  by (relation "measure (\<lambda>(s, real, lba, don, n, dst). n - don)") auto

declare read_chunks.simps [simp del]

definition block_read :: "disks \<Rightarrow> nat option \<Rightarrow> nat \<Rightarrow> nat \<Rightarrow> sector list res \<times> disks" where
  "block_read s dev lba n =
     (case dev of None \<Rightarrow> (Inl EINVAL, s)
      | Some d \<Rightarrow>
          if \<not> ops (dev_at s d) \<or> n = 0 then (Inl EINVAL, s)
          else if u64 (lba + n) > sector_count (dev_at s d) then (Inl EINVAL, s)
          else case resolve s d lba of (real, lba') \<Rightarrow>
            if gone (dev_at s real) then (Inl EIO, s)
            else read_chunks s real lba' 0 n [])"

fun write_attempts :: "nat \<Rightarrow> disks \<Rightarrow> nat \<Rightarrow> nat \<Rightarrow> sector list \<Rightarrow> bool \<times> disks" where
  "write_attempts 0 s real lba src = (False, s)"
| "write_attempts (Suc k) s real lba src =
     (case ops_write s real lba src of (True, s1) \<Rightarrow> (True, s1)
      | (False, s1) \<Rightarrow> write_attempts k s1 real lba src)"

function write_chunks :: "disks \<Rightarrow> nat \<Rightarrow> nat \<Rightarrow> nat \<Rightarrow> sector list \<Rightarrow> unit res \<times> disks" where
  "write_chunks s real lba don src =
     (if don < length src \<and> 0 < max_sectors_per_io (dev_at s real) then
        let chunk = min (length src - don) (max_sectors_per_io (dev_at s real)) in
        (case write_attempts MAX_IO_RETRIES s real (u64 (lba + don)) (take chunk (drop don src)) of
           (False, s1) \<Rightarrow> (Inl EIO, s1)
         | (True, s1) \<Rightarrow> write_chunks s1 real lba (don + chunk) src)
      else (Inr (), s))"
  by pat_completeness auto
termination
  by (relation "measure (\<lambda>(s, real, lba, don, src). length src - don)") auto

declare write_chunks.simps [simp del]

definition block_write :: "disks \<Rightarrow> nat option \<Rightarrow> nat \<Rightarrow> sector list \<Rightarrow> unit res \<times> disks" where
  "block_write s dev lba src =
     (case dev of None \<Rightarrow> (Inl EINVAL, s)
      | Some d \<Rightarrow>
          if \<not> ops (dev_at s d) \<or> src = [] then (Inl EINVAL, s)
          else if u64 (lba + length src) > sector_count (dev_at s d) then (Inl EINVAL, s)
          else case resolve s d lba of (real, lba') \<Rightarrow>
            if gone (dev_at s real) then (Inl EIO, s)
            else write_chunks s real lba' 0 src)"

fun flush_attempts :: "nat \<Rightarrow> disks \<Rightarrow> nat \<Rightarrow> bool \<times> disks" where
  "flush_attempts 0 s d = (False, s)"
| "flush_attempts (Suc k) s d =
     (case ops_sync s d of (True, s1) \<Rightarrow> (True, s1) | (False, s1) \<Rightarrow> flush_attempts k s1 d)"

definition block_flush :: "disks \<Rightarrow> nat option \<Rightarrow> unit res \<times> disks" where
  "block_flush s dev =
     (case dev of None \<Rightarrow> (Inl EINVAL, s)
      | Some d \<Rightarrow>
          if \<not> ops (dev_at s d) then (Inl EINVAL, s)
          else if \<not> ops_flush (dev_at s d) then (Inr (), s)
          else if gone (dev_at s (disk_of s d)) then (Inl EIO, s)
          else case flush_attempts MAX_IO_RETRIES s (disk_of s d) of (ok, s1) \<Rightarrow> (if ok then Inr () else Inl EIO, s1))"

section \<open>The registry\<close>

definition register_dev :: "disks \<Rightarrow> blkdev option \<Rightarrow> nat option \<times> disks" where
  "register_dev s dev =
     (case dev of None \<Rightarrow> (None, s)
      | Some x \<Rightarrow> (case free_entry s of None \<Rightarrow> (None, s)
                   | Some i \<Rightarrow> (Some i, set_dev s i (x\<lparr>registered := True, gone := False, users := 0\<rparr>))))"

definition alloc_partition :: "disks \<Rightarrow> nat option \<Rightarrow> string \<Rightarrow> nat \<Rightarrow> nat \<Rightarrow> nat option \<times> disks" where
  "alloc_partition s par nm off n =
     (case par of None \<Rightarrow> (None, s)
      | Some p \<Rightarrow>
         (case free_entry s of None \<Rightarrow> (None, s)
          | Some i \<Rightarrow>
              if u64 (off + n) > sector_count (dev_at s p) then (None, s)
              else (Some i, set_dev s i (blank\<lparr>dname := take 15 nm, sector_size := sector_size (dev_at s p),
                     sector_count := n, max_sectors_per_io := max_sectors_per_io (dev_at s p),
                     ops := ops (dev_at s p), ops_flush := ops_flush (dev_at s p),
                     ops_forget := ops_forget (dev_at s p), parent := Some p, lba_offset := off,
                     registered := True\<rparr>))))"

definition block_find :: "disks \<Rightarrow> string \<Rightarrow> nat option" where
  "block_find s nm = first_idx (\<lambda>i. registered (dev_at s i) \<and> strcmp (dname (dev_at s i)) nm = 0) 0 MAX_BLKDEVS"

definition block_count :: "disks \<Rightarrow> nat" where
  "block_count s = length (filter (\<lambda>i. registered (dev_at s i)) [0..<MAX_BLKDEVS])"

definition block_get :: "disks \<Rightarrow> nat \<Rightarrow> nat option" where
  "block_get s index =
     (let live = filter (\<lambda>i. registered (dev_at s i)) [0..<MAX_BLKDEVS] in
      if index < length live then Some (live ! index) else None)"

definition block_gone :: "disks \<Rightarrow> nat \<Rightarrow> bool" where
  "block_gone s d = gone (dev_at s (disk_of s d))"

text \<open>\<open>bcache::discard\<close>.\<close>

definition discard_buf :: "nat \<Rightarrow> buf \<Rightarrow> buf" where
  "discard_buf d b =
     (if \<not> valid b \<or> bdev b \<noteq> Some d then b
      else let b1 = b\<lparr>dirty := False\<rparr> in
           if refcnt b1 = 0 then b1\<lparr>valid := False, bdev := None\<rparr> else b1)"

definition discard :: "disks \<Rightarrow> nat \<Rightarrow> disks" where
  "discard s d = s\<lparr>buffers := map (discard_buf d) (buffers s)\<rparr>"

definition child_of :: "disks \<Rightarrow> nat \<Rightarrow> nat \<Rightarrow> bool" where
  "child_of s disk i \<longleftrightarrow> registered (dev_at s i) \<and> parent (dev_at s i) = Some disk"

definition collect :: "disks \<Rightarrow> nat \<Rightarrow> disks" where
  "collect s disk =
     (if \<not> gone (dev_at s disk) \<or> users (dev_at s disk) \<noteq> 0 then s
      else if \<exists>i \<in> set [0..<MAX_BLKDEVS]. child_of s disk i \<and> users (dev_at s i) \<noteq> 0 then s
      else let s1 = foldl (\<lambda>s i. if child_of s disk i then set_dev (discard s i) i blank else s) s [0..<MAX_BLKDEVS];
               s2 = discard s1 disk;
               s3 = (if ops (dev_at s2 disk) \<and> ops_forget (dev_at s2 disk)
                     then s2\<lparr>forgotten := forgotten s2 @ [disk]\<rparr> else s2)
           in set_dev s3 disk blank)"

definition disk_gone :: "disks \<Rightarrow> nat \<Rightarrow> disks" where
  "disk_gone s disk =
     (let s1 = discard (set_dev s disk ((dev_at s disk)\<lparr>gone := True\<rparr>)) disk;
          s2 = foldl (\<lambda>s i. if child_of s disk i then discard s i else s) s1 [0..<MAX_BLKDEVS]
      in collect s2 disk)"

definition hold :: "disks \<Rightarrow> nat \<Rightarrow> disks" where
  "hold s d = set_dev s d ((dev_at s d)\<lparr>users := u32 (users (dev_at s d) + 1)\<rparr>)"

definition drop_dev :: "disks \<Rightarrow> nat \<Rightarrow> disks" where
  "drop_dev s d =
     (let s1 = (if users (dev_at s d) \<noteq> 0
                then set_dev s d ((dev_at s d)\<lparr>users := users (dev_at s d) - 1\<rparr>) else s)
      in collect s1 (disk_of s1 d))"

section \<open>A sound registry\<close>

text \<open>Partitions are one level deep, inside their disk, with its geometry; every device moves at
  least one sector per request.\<close>

definition dev_ok :: "blkdev list \<Rightarrow> blkdev \<Rightarrow> bool" where
  "dev_ok ds x \<longleftrightarrow> sector_count x < 2 ^ 64 \<and> 0 < max_sectors_per_io x \<and>
     (case parent x of None \<Rightarrow> True
      | Some p \<Rightarrow> p < MAX_BLKDEVS \<and> registered (ds ! p) \<and> parent (ds ! p) = None \<and>
          lba_offset x + sector_count x \<le> sector_count (ds ! p) \<and> sector_size x = sector_size (ds ! p))"

definition devs_ok :: "blkdev list \<Rightarrow> bool" where
  "devs_ok ds \<longleftrightarrow> length ds = MAX_BLKDEVS \<and> (\<forall>i < MAX_BLKDEVS. registered (ds ! i) \<longrightarrow> dev_ok ds (ds ! i))"

definition live_dev :: "disks \<Rightarrow> nat \<Rightarrow> bool" where
  "live_dev s d \<longleftrightarrow> d < MAX_BLKDEVS \<and> registered (dev_at s d)"

definition start_of :: "disks \<Rightarrow> nat \<Rightarrow> nat" where
  "start_of s d = (case parent (dev_at s d) of None \<Rightarrow> 0 | Some p \<Rightarrow> lba_offset (dev_at s d))"

lemma devs_okD: "devs_ok (devices s) \<Longrightarrow> live_dev s d \<Longrightarrow> dev_ok (devices s) (dev_at s d)"
  by (simp add: devs_ok_def live_dev_def)

lemma two_up: "MAX_BLKDEVS = Suc (Suc 14)"
  by (simp add: MAX_BLKDEVS_def)

lemma disk_of_unfold: "disk_of s d = (case parent (dev_at s d) of None \<Rightarrow> d
    | Some p \<Rightarrow> (case parent (dev_at s p) of None \<Rightarrow> p | Some q \<Rightarrow> disk_up 14 (devices s) q))"
  unfolding disk_of_def two_up disk_up.simps ..

lemma resolve_unfold: "resolve s d lba = (case parent (dev_at s d) of None \<Rightarrow> (d, lba)
    | Some p \<Rightarrow> (case parent (dev_at s p) of None \<Rightarrow> (p, u64 (lba + lba_offset (dev_at s d)))
       | Some q \<Rightarrow> resolve_up 14 (devices s) q (u64 (u64 (lba + lba_offset (dev_at s d)) + lba_offset (dev_at s p)))))"
  unfolding resolve_def two_up resolve_up.simps ..

lemma disk_of_eq:
  assumes "devs_ok (devices s)" "live_dev s d"
  shows "disk_of s d = (case parent (dev_at s d) of None \<Rightarrow> d | Some p \<Rightarrow> p)"
  using devs_okD [OF assms] by (auto simp: disk_of_unfold dev_ok_def split: option.splits)

lemma disk_of_live:
  assumes "devs_ok (devices s)" "live_dev s d"
  shows "live_dev s (disk_of s d)" "parent (dev_at s (disk_of s d)) = None"
    "start_of s d + sector_count (dev_at s d) \<le> sector_count (dev_at s (disk_of s d))"
    "0 < max_sectors_per_io (dev_at s (disk_of s d))"
  using devs_okD [OF assms] assms devs_okD [OF assms(1), of "disk_of s d"] disk_of_eq [OF assms]
  by (auto simp: live_dev_def dev_ok_def start_of_def split: option.splits)

lemma resolve_eq:
  assumes "devs_ok (devices s)" "live_dev s d" "lba \<le> sector_count (dev_at s d)"
  shows "resolve s d lba = (disk_of s d, start_of s d + lba)"
proof -
  have "start_of s d + lba < 2 ^ 64"
    using disk_of_live [OF assms(1,2)] devs_okD [OF assms(1)] assms(3) by (fastforce simp: dev_ok_def)
  then show ?thesis
    using devs_okD [OF assms(1,2)] disk_of_eq [OF assms(1,2)]
    by (auto simp: resolve_unfold dev_ok_def start_of_def u64_def add.commute split: option.splits)
qed

section \<open>What a request does\<close>

definition same_but_faults :: "disks \<Rightarrow> disks \<Rightarrow> bool" where
  "same_but_faults s s1 \<longleftrightarrow> (\<exists>f. s1 = s\<lparr>faults := f\<rparr>)"

lemma same_but_faults_refl [simp]: "same_but_faults s s"
  unfolding same_but_faults_def by (rule exI [of _ "faults s"]) simp

lemma same_but_faults_trans: "same_but_faults s s1 \<Longrightarrow> same_but_faults s1 s2 \<Longrightarrow> same_but_faults s s2"
  by (auto simp: same_but_faults_def)

lemma same_but_faultsD:
  assumes "same_but_faults s s1"
  shows "medium s1 = medium s" "devices s1 = devices s" "buffers s1 = buffers s" "clock s1 = clock s" "inited s1 = inited s"
    "mallocs s1 = mallocs s" "forgotten s1 = forgotten s" "committed s1 = committed s"
  using assms by (auto simp: same_but_faults_def)

lemma next_fault_frame: "next_fault s = (f, s1) \<Longrightarrow> same_but_faults s s1"
  by (auto simp: next_fault_def same_but_faults_def intro: exI [of _ "faults s"] split: list.splits)

lemma next_fault_quiet: "faults s = [] \<Longrightarrow> next_fault s = (Fine, s)"
  by (simp add: next_fault_def)

lemma read_attempts_spec:
  "read_attempts k s real lba n = (r, s1) \<Longrightarrow> same_but_faults s s1 \<and>
    (\<forall>x. r = Some x \<longrightarrow> x = map (medium s real) [lba..<lba + n]) \<and>
    (0 < k \<and> faults s = [] \<longrightarrow> r \<noteq> None \<and> faults s1 = [])"
proof (induction k arbitrary: s)
  case (Suc k)
  obtain f s2 where f: "next_fault s = (f, s2)" by force
  note fr = next_fault_frame [OF f]
  show ?case
  proof (cases "f = Fine")
    case True
    then have "r = Some (map (medium s2 real) [lba..<lba + n])" "s1 = s2"
      using Suc.prems f by (auto simp: ops_read_def)
    then show ?thesis using fr f next_fault_quiet [of s] by (auto simp: same_but_faultsD(1) [OF fr])
  next
    case False
    then have "read_attempts k s2 real lba n = (r, s1)" using Suc.prems f by (auto simp: ops_read_def)
    from Suc.IH [OF this] show ?thesis
      using False f next_fault_quiet [of s] same_but_faults_trans [OF fr] by (auto simp: same_but_faultsD(1) [OF fr])
  qed
qed simp

lemma read_chunks_spec:
  assumes "read_chunks s real lba don n dst = (r, s1)" "0 < max_sectors_per_io (dev_at s real)"
    and "lba + n < 2 ^ 64" "don \<le> n"
  shows "same_but_faults s s1 \<and>
    (\<forall>x. r = Inr x \<longrightarrow> x = dst @ map (medium s real) [lba + don..<lba + n]) \<and> (\<forall>e. r = Inl e \<longrightarrow> e = EIO) \<and>
    (faults s = [] \<longrightarrow> (\<exists>x. r = Inr x) \<and> faults s1 = [])"
  using assms
proof (induction s real lba don n dst rule: read_chunks.induct)
  case (1 s real lba don n dst)
  show ?case
  proof (cases "don < n")
    case False
    with "1.prems" show ?thesis by (auto simp: read_chunks.simps)
  next
    case True
    define chunk where "chunk = min (n - don) (max_sectors_per_io (dev_at s real))"
    have w: "u64 (lba + don) = lba + don" using "1.prems" True by (simp add: u64_def)
    obtain q s2 where q: "read_attempts MAX_IO_RETRIES s real (lba + don) chunk = (q, s2)" by force
    note sp = read_attempts_spec [OF q]
    have cs: "read_chunks s real lba don n dst =
        (case q of None \<Rightarrow> (Inl EIO, s2) | Some x \<Rightarrow> read_chunks s2 real lba (don + chunk) n (dst @ x))"
      using True "1.prems"(2) q by (subst read_chunks.simps) (simp add: Let_def chunk_def w split: option.splits)
    show ?thesis
    proof (cases q)
      case None
      with cs sp "1.prems"(1) show ?thesis by (simp add: MAX_IO_RETRIES_def)
    next
      case (Some x)
      note s2 = same_but_faultsD(1,2) [OF sp [THEN conjunct1]]
      have IH: "same_but_faults s2 s1 \<and>
          (\<forall>y. r = Inr y \<longrightarrow> y = (dst @ x) @ map (medium s2 real) [lba + (don + chunk)..<lba + n]) \<and> (\<forall>e. r = Inl e \<longrightarrow> e = EIO) \<and>
          (faults s2 = [] \<longrightarrow> (\<exists>x. r = Inr x) \<and> faults s1 = [])"
        using True "1.prems" cs Some q s2 by (intro "1.IH") (auto simp: chunk_def w)
      have "don + chunk \<le> n" using True by (simp add: chunk_def)
      then have "[lba + don..<lba + n] = [lba + don..<lba + don + chunk] @ [lba + (don + chunk)..<lba + n]"
        using upt_add_eq_append [of "lba + don" "lba + don + chunk" "n - don - chunk"] by (simp add: add.assoc)
      then show ?thesis
        using IH sp Some same_but_faults_trans [of s s2 s1] unfolding s2 by (simp add: MAX_IO_RETRIES_def)
    qed
  qed
qed

lemma read_chunks_frame: "same_but_faults s (snd (read_chunks s real lba don n dst))"
proof (induction s real lba don n dst rule: read_chunks.induct)
  case (1 s real lba don n dst)
  let ?chunk = "min (n - don) (max_sectors_per_io (dev_at s real))"
  obtain q s2 where q: "read_attempts MAX_IO_RETRIES s real (u64 (lba + don)) ?chunk = (q, s2)" by force
  note fr = read_attempts_spec [OF q, THEN conjunct1]
  show ?case
  proof (cases "don < n \<and> 0 < max_sectors_per_io (dev_at s real)")
    case True
    note IH = "1.IH" [OF True refl q [symmetric]]
    show ?thesis using True q fr IH same_but_faults_trans [OF fr]
      by (subst read_chunks.simps) (auto simp: Let_def split: option.splits)
  qed (subst read_chunks.simps, auto)
qed

lemma block_read_frame:
  assumes "block_read s dev lba n = (r, s1)"
  shows "same_but_faults s s1"
proof -
  have "same_but_faults s (snd (block_read s dev lba n))"
    by (auto simp: block_read_def read_chunks_frame split: option.splits prod.splits)
  with assms show ?thesis by simp
qed

text \<open>The sectors of a device on the medium.\<close>

definition dev_sector :: "disks \<Rightarrow> nat \<Rightarrow> nat \<Rightarrow> sector" where
  "dev_sector s d l = medium s (disk_of s d) (start_of s d + l)"

lemma block_read_spec:
  assumes "block_read s (Some d) lba n = (r, s1)" "devs_ok (devices s)" "live_dev s d"
    and "lba + n \<le> sector_count (dev_at s d)"
  shows "same_but_faults s s1"
    and "r = Inr xs \<Longrightarrow> xs = map (\<lambda>i. dev_sector s d (lba + i)) [0..<n]"
    and "r = Inl e \<Longrightarrow> e = EIO \<or> e = EINVAL"
    and "faults s = [] \<Longrightarrow> ops (dev_at s d) \<Longrightarrow> n \<noteq> 0 \<Longrightarrow> \<not> block_gone s d \<Longrightarrow> (\<exists>xs. r = Inr xs) \<and> faults s1 = []"
    and "r = Inl e \<Longrightarrow> ops (dev_at s d) \<Longrightarrow> n \<noteq> 0 \<Longrightarrow> e = EIO"
proof -
  have b: "sector_count (dev_at s d) < 2 ^ 64" using devs_okD [OF assms(2,3)] by (simp add: dev_ok_def)
  have c: "\<not> u64 (lba + n) > sector_count (dev_at s d)" using b assms(4) by (simp add: u64_def)
  note res = resolve_eq [OF assms(2,3), of lba]
  note dk = disk_of_live [OF assms(2,3)]
  have fit: "start_of s d + lba + n < 2 ^ 64"
    using dk(3) devs_okD [OF assms(2) dk(1)] assms(4) by (simp add: dev_ok_def)
  have "same_but_faults s s1 \<and> (\<forall>xs. r = Inr xs \<longrightarrow> xs = map (\<lambda>i. dev_sector s d (lba + i)) [0..<n]) \<and>
      (\<forall>e. r = Inl e \<longrightarrow> e = EIO \<or> e = EINVAL \<and> (\<not> ops (dev_at s d) \<or> n = 0)) \<and>
      (faults s = [] \<and> ops (dev_at s d) \<and> n \<noteq> 0 \<and> \<not> block_gone s d \<longrightarrow> (\<exists>xs. r = Inr xs) \<and> faults s1 = [])"
  proof (cases "ops (dev_at s d) \<and> n \<noteq> 0 \<and> \<not> gone (dev_at s (disk_of s d))")
    case True
    then have rc: "read_chunks s (disk_of s d) (start_of s d + lba) 0 n [] = (r, s1)"
      using assms(1,4) c res by (simp add: block_read_def)
    have "map (medium s (disk_of s d)) [start_of s d + lba..<start_of s d + lba + n] =
        map (\<lambda>i. dev_sector s d (lba + i)) [0..<n]"
      by (rule nth_equalityI) (simp_all add: dev_sector_def add.assoc)
    with read_chunks_spec [OF rc dk(4) fit] True show ?thesis by (auto simp: block_gone_def)
  next
    case False
    with assms(1,4) c res show ?thesis by (auto simp: block_read_def block_gone_def split: if_splits)
  qed
  then show "same_but_faults s s1" "r = Inr xs \<Longrightarrow> xs = map (\<lambda>i. dev_sector s d (lba + i)) [0..<n]"
    "r = Inl e \<Longrightarrow> e = EIO \<or> e = EINVAL"
    "faults s = [] \<Longrightarrow> ops (dev_at s d) \<Longrightarrow> n \<noteq> 0 \<Longrightarrow> \<not> block_gone s d \<Longrightarrow> (\<exists>xs. r = Inr xs) \<and> faults s1 = []"
    "r = Inl e \<Longrightarrow> ops (dev_at s d) \<Longrightarrow> n \<noteq> 0 \<Longrightarrow> e = EIO"
    by blast+
qed

text \<open>After a write, successful or not, a sector of the medium is the old one or the new one, and
  outside the range it is the old one.\<close>

definition wrote :: "nat \<Rightarrow> nat \<Rightarrow> sector list \<Rightarrow> disks \<Rightarrow> disks \<Rightarrow> bool" where
  "wrote real lba src s s1 \<longleftrightarrow> (\<exists>f md. s1 = s\<lparr>faults := f, medium := md\<rparr> \<and>
     (\<forall>e l. md e l = medium s e l \<or> (e = real \<and> lba \<le> l \<and> l < lba + length src \<and> md e l = src ! (l - lba))))"

lemma wrote_refl [simp]: "wrote real lba src s s"
  unfolding wrote_def by (rule exI [of _ "faults s"], rule exI [of _ "medium s"]) simp

lemma wroteD:
  assumes "wrote real lba src s s1"
  shows "devices s1 = devices s" "buffers s1 = buffers s" "clock s1 = clock s" "inited s1 = inited s"
    "mallocs s1 = mallocs s" "forgotten s1 = forgotten s"
    "medium s1 e l = medium s e l \<or> (e = real \<and> lba \<le> l \<and> l < lba + length src \<and> medium s1 e l = src ! (l - lba))"
    "committed s1 = committed s"
proof -
  obtain f md where m: "s1 = s\<lparr>faults := f, medium := md\<rparr>"
    "\<And>e l. md e l = medium s e l \<or> (e = real \<and> lba \<le> l \<and> l < lba + length src \<and> md e l = src ! (l - lba))"
    using assms unfolding wrote_def by blast
  then show "devices s1 = devices s" "buffers s1 = buffers s" "clock s1 = clock s" "inited s1 = inited s"
    "mallocs s1 = mallocs s" "forgotten s1 = forgotten s" "committed s1 = committed s" by simp_all
  show "medium s1 e l = medium s e l \<or> (e = real \<and> lba \<le> l \<and> l < lba + length src \<and> medium s1 e l = src ! (l - lba))"
    using m by simp
qed

lemma wroteI:
  assumes "devices s1 = devices s" "buffers s1 = buffers s" "clock s1 = clock s" "inited s1 = inited s"
    "mallocs s1 = mallocs s" "forgotten s1 = forgotten s" "committed s1 = committed s"
    and "\<And>e l. medium s1 e l = medium s e l \<or> (e = real \<and> lba \<le> l \<and> l < lba + length src \<and> medium s1 e l = src ! (l - lba))"
  shows "wrote real lba src s s1"
  unfolding wrote_def
  by (rule exI [of _ "faults s1"], rule exI [of _ "medium s1"]) (use assms in auto)

lemma wrote_trans:
  assumes "wrote real lba src s s1" "wrote real lba src s1 s2"
  shows "wrote real lba src s s2"
proof (rule wroteI)
  show "medium s2 e l = medium s e l \<or> (e = real \<and> lba \<le> l \<and> l < lba + length src \<and> medium s2 e l = src ! (l - lba))" for e l
    using wroteD(7) [OF assms(1), of e l] wroteD(7) [OF assms(2), of e l] by auto
qed (simp_all add: wroteD(1-6,8) [OF assms(1)] wroteD(1-6,8) [OF assms(2)])

lemma wrote_part:
  assumes "wrote real (lba + a) (take n (drop a src)) s s1" "a \<le> length src"
  shows "wrote real lba src s s1"
proof (rule wroteI)
  show "medium s1 e l = medium s e l \<or> (e = real \<and> lba \<le> l \<and> l < lba + length src \<and> medium s1 e l = src ! (l - lba))" for e l
    using wroteD(7) [OF assms(1), of e l] assms(2) by (auto simp: add.commute add.left_commute)
qed (simp_all add: wroteD(1-6,8) [OF assms(1)])

lemma write_attempts_spec:
  "write_attempts k s real lba src = (ok, s1) \<Longrightarrow> wrote real lba src s s1 \<and>
    (ok \<longrightarrow> medium s1 = store real lba src (medium s)) \<and>
    (0 < k \<and> faults s = [] \<longrightarrow> ok \<and> faults s1 = [])"
proof (induction k arbitrary: s)
  case (Suc k)
  obtain f s2 where f: "next_fault s = (f, s2)" by force
  note fr = same_but_faultsD [OF next_fault_frame [OF f]]
  have st: "wrote real lba src s (s2\<lparr>medium := store real lba (take j src) (medium s2)\<rparr>)" for j
    by (rule wroteI) (auto simp: fr store_def)
  show ?case
  proof (cases f)
    case Fine
    then have "ok" "s1 = s2\<lparr>medium := store real lba src (medium s2)\<rparr>"
      using Suc.prems f by (auto simp: ops_write_def)
    then show ?thesis using st [of "length src"] f next_fault_quiet [of s] by (auto simp: fr)
  next
    case (Failed j)
    define s3 where "s3 = s2\<lparr>medium := store real lba (take j src) (medium s2)\<rparr>"
    have "write_attempts k s3 real lba src = (ok, s1)" using Suc.prems f Failed by (simp add: ops_write_def s3_def)
    note IH = Suc.IH [OF this]
    have w3: "wrote real lba src s s3" using st by (simp add: s3_def)
    have "store real lba src (medium s3) = store real lba src (medium s)"
      by (auto simp: store_def s3_def fr fun_eq_iff)
    then show ?thesis using IH wrote_trans [OF w3] f Failed next_fault_quiet [of s] by auto
  qed
qed simp

lemma store_Nil [simp]: "store d lba [] md = md"
  by (auto simp: store_def fun_eq_iff)

lemma store_append:
  "store d (lba + length a) b (store d lba a md) = store d lba (a @ b) md"
  by (auto simp: store_def fun_eq_iff nth_append)

lemma write_chunks_spec:
  assumes "write_chunks s real lba don src = (r, s1)" "0 < max_sectors_per_io (dev_at s real)"
    and "lba + length src < 2 ^ 64" "don \<le> length src"
  shows "wrote real lba src s s1 \<and>
    (r = Inr () \<longrightarrow> medium s1 = store real (lba + don) (drop don src) (medium s)) \<and> (\<forall>e. r = Inl e \<longrightarrow> e = EIO) \<and>
    (faults s = [] \<longrightarrow> r = Inr () \<and> faults s1 = [])"
  using assms
proof (induction s real lba don src rule: write_chunks.induct)
  case (1 s real lba don src)
  show ?case
  proof (cases "don < length src")
    case False
    with "1.prems" show ?thesis by (auto simp: write_chunks.simps)
  next
    case True
    define chunk where "chunk = min (length src - don) (max_sectors_per_io (dev_at s real))"
    define part where "part = take chunk (drop don src)"
    have w: "u64 (lba + don) = lba + don" using "1.prems" True by (simp add: u64_def)
    obtain ok s2 where q: "write_attempts MAX_IO_RETRIES s real (lba + don) part = (ok, s2)" by force
    note sp = write_attempts_spec [OF q]
    have w2: "wrote real lba src s s2"
      using sp True wrote_part [of real lba don chunk src s s2] by (simp add: part_def)
    have cs: "write_chunks s real lba don src =
        (case ok of False \<Rightarrow> (Inl EIO, s2) | True \<Rightarrow> write_chunks s2 real lba (don + chunk) src)"
      using True "1.prems"(2) q by (subst write_chunks.simps) (simp add: Let_def chunk_def part_def w split: bool.splits)
    show ?thesis
    proof (cases ok)
      case False
      with cs sp w2 "1.prems"(1) show ?thesis by (simp add: MAX_IO_RETRIES_def)
    next
      case True
      have IH: "wrote real lba src s2 s1 \<and>
          (r = Inr () \<longrightarrow> medium s1 = store real (lba + (don + chunk)) (drop (don + chunk) src) (medium s2)) \<and> (\<forall>e. r = Inl e \<longrightarrow> e = EIO) \<and>
          (faults s2 = [] \<longrightarrow> r = Inr () \<and> faults s1 = [])"
        using \<open>don < length src\<close> "1.prems" cs True q wroteD(1) [OF w2] by (intro "1.IH") (auto simp: chunk_def part_def w)
      have c: "length part = chunk" "part @ drop (don + chunk) src = drop don src"
        using \<open>don < length src\<close> append_take_drop_id [of chunk "drop don src"]
        by (simp_all add: part_def chunk_def add.commute)
      have "store real (lba + (don + chunk)) (drop (don + chunk) src) (store real (lba + don) part (medium s)) =
          store real (lba + don) (drop don src) (medium s)"
        using store_append [of real "lba + don" part "drop (don + chunk) src" "medium s"] c by (simp add: add.assoc)
      then show ?thesis using IH sp True wrote_trans [OF w2, of s1] by (simp add: MAX_IO_RETRIES_def)
    qed
  qed
qed

lemma block_write_spec:
  assumes "block_write s (Some d) lba src = (r, s1)" "devs_ok (devices s)" "live_dev s d"
    and "lba + length src \<le> sector_count (dev_at s d)"
  shows "wrote (disk_of s d) (start_of s d + lba) src s s1"
    and "r = Inr () \<Longrightarrow> medium s1 = store (disk_of s d) (start_of s d + lba) src (medium s)"
    and "r = Inl e \<Longrightarrow> e = EIO \<or> e = EINVAL"
    and "faults s = [] \<Longrightarrow> ops (dev_at s d) \<Longrightarrow> src \<noteq> [] \<Longrightarrow> \<not> block_gone s d \<Longrightarrow> r = Inr () \<and> faults s1 = []"
proof -
  have b: "sector_count (dev_at s d) < 2 ^ 64" using devs_okD [OF assms(2,3)] by (simp add: dev_ok_def)
  have c: "\<not> u64 (lba + length src) > sector_count (dev_at s d)" using b assms(4) by (simp add: u64_def)
  note res = resolve_eq [OF assms(2,3), of lba]
  note dk = disk_of_live [OF assms(2,3)]
  have fit: "start_of s d + lba + length src < 2 ^ 64"
    using dk(3) devs_okD [OF assms(2) dk(1)] assms(4) by (simp add: dev_ok_def)
  have "wrote (disk_of s d) (start_of s d + lba) src s s1 \<and>
      (r = Inr () \<longrightarrow> medium s1 = store (disk_of s d) (start_of s d + lba) src (medium s)) \<and>
      (\<forall>e. r = Inl e \<longrightarrow> e = EIO \<or> e = EINVAL) \<and>
      (faults s = [] \<and> ops (dev_at s d) \<and> src \<noteq> [] \<and> \<not> block_gone s d \<longrightarrow> r = Inr () \<and> faults s1 = [])"
  proof (cases "ops (dev_at s d) \<and> src \<noteq> [] \<and> \<not> gone (dev_at s (disk_of s d))")
    case True
    then have rc: "write_chunks s (disk_of s d) (start_of s d + lba) 0 src = (r, s1)"
      using assms(1,4) c res by (simp add: block_write_def)
    from write_chunks_spec [OF rc dk(4) fit] True show ?thesis by (auto simp: block_gone_def)
  next
    case False
    with assms(1,4) c res show ?thesis by (auto simp: block_write_def block_gone_def split: if_splits)
  qed
  then show "wrote (disk_of s d) (start_of s d + lba) src s s1"
    "r = Inr () \<Longrightarrow> medium s1 = store (disk_of s d) (start_of s d + lba) src (medium s)"
    "r = Inl e \<Longrightarrow> e = EIO \<or> e = EINVAL"
    "faults s = [] \<Longrightarrow> ops (dev_at s d) \<Longrightarrow> src \<noteq> [] \<Longrightarrow> \<not> block_gone s d \<Longrightarrow> r = Inr () \<and> faults s1 = []"
    by blast+
qed

text \<open>A flush changes what is committed of its disk only, and commits all of it when it succeeds.\<close>

definition synced :: "nat \<Rightarrow> disks \<Rightarrow> disks \<Rightarrow> bool" where
  "synced d s s1 \<longleftrightarrow> (\<exists>f st. s1 = s\<lparr>faults := f, committed := (committed s)(d := st)\<rparr> \<and> (st = committed s d \<or> st = medium s d))"

lemma synced_refl: "synced d s s"
  unfolding synced_def by (rule exI [of _ "faults s"], rule exI [of _ "committed s d"]) simp

lemma syncedD:
  assumes "synced d s s1"
  shows "medium s1 = medium s" "devices s1 = devices s" "buffers s1 = buffers s" "clock s1 = clock s" "inited s1 = inited s"
    "mallocs s1 = mallocs s" "forgotten s1 = forgotten s" "committed s e = medium s e \<Longrightarrow> committed s1 e = medium s1 e"
  using assms by (auto simp: synced_def)

lemma block_flush_spec:
  assumes "block_flush s (Some d) = (r, s1)"
  shows "synced (disk_of s d) s s1 \<and> (r = Inr () \<and> ops_flush (dev_at s d) \<longrightarrow> committed s1 (disk_of s d) = medium s (disk_of s d))"
proof -
  have fl: "synced e s s1 \<and> (ok \<longrightarrow> committed s1 e = medium s e)" if "flush_attempts k s e = (ok, s1)" for k s e ok s1
    using that
  proof (induction k arbitrary: s)
    case (Suc k)
    obtain f s2 where f: "next_fault s = (f, s2)" by force
    note fr = next_fault_frame [OF f]
    obtain fs where fs: "s2 = s\<lparr>faults := fs\<rparr>" using fr by (auto simp: same_but_faults_def)
    show ?case
    proof (cases "f = Fine")
      case True
      then show ?thesis using Suc.prems f fs by (auto simp: ops_sync_def synced_def)
    next
      case False
      then have "flush_attempts k s2 e = (ok, s1)" using Suc.prems f by (simp add: ops_sync_def)
      from Suc.IH [OF this] show ?thesis using fs by (auto simp: synced_def)
    qed
  qed (simp add: synced_refl)
  show ?thesis using assms fl synced_refl by (auto simp: block_flush_def split: if_splits prod.splits)
qed

text \<open>The check of the range adds in 64 bits: a request that ends at the last sector number of all
  wraps to 0 and is passed on to the driver, whatever the size of the disk.\<close>

lemma block_read_wraps:
  assumes "ops (dev_at s d)" "parent (dev_at s d) = None" "\<not> gone (dev_at s d)" "0 < max_sectors_per_io (dev_at s d)" "faults s = []"
  shows "block_read s (Some d) (2 ^ 64 - 1) 1 = (Inr [medium s d (2 ^ 64 - 1)], s)"
proof -
  have r: "resolve s d (2 ^ 64 - 1) = (d, 2 ^ 64 - 1)" using assms(2) by (simp add: resolve_unfold)
  have "read_attempts MAX_IO_RETRIES s d (2 ^ 64 - 1) 1 = (Some [medium s d (2 ^ 64 - 1)], s)"
    using assms(5) by (simp add: MAX_IO_RETRIES_def numeral_3_eq_3 ops_read_def next_fault_def)
  then have "read_chunks s d (2 ^ 64 - 1) 0 1 [] = (Inr [medium s d (2 ^ 64 - 1)], s)"
    using assms(4) by (subst read_chunks.simps, simp add: u64_def Let_def, subst read_chunks.simps, simp)
  then show ?thesis using assms(1,3) r by (simp add: block_read_def u64_def)
qed

text \<open>C30. A read request to a registered device or partition whose last sector number fits 64 bits: one that
  reaches beyond the end of the device is refused with \<open>EINVAL\<close>; one inside it fails with \<open>EIO\<close> or returns
  exactly the sectors asked for, those of the disk at the partition's offset, and it succeeds when the
  disk is plugged in and has no fault. No request changes a sector or a buffer.\<close>

theorem block_read_exact:
  assumes "devs_ok (devices s)" "live_dev s d" "ops (dev_at s d)" "0 < n" "lba + n < 2 ^ 64"
    and "block_read s (Some d) lba n = (r, s1)"
  shows "medium s1 = medium s \<and> committed s1 = committed s \<and> devices s1 = devices s \<and> buffers s1 = buffers s \<and>
    (if sector_count (dev_at s d) < lba + n then r = Inl EINVAL
     else (case r of Inl e \<Rightarrow> e = EIO \<and> (faults s \<noteq> [] \<or> block_gone s d)
           | Inr xs \<Rightarrow> xs = map (\<lambda>i. medium s (disk_of s d) (start_of s d + lba + i)) [0..<n]))"
proof (cases "sector_count (dev_at s d) < lba + n")
  case True
  then show ?thesis using assms(3-6) by (auto simp: block_read_def u64_def split: prod.splits)
next
  case False
  then have c: "lba + n \<le> sector_count (dev_at s d)" by simp
  note sp = block_read_spec [OF assms(6,1,2) c]
  note fr = same_but_faultsD [OF sp(1)]
  have "xs = map (\<lambda>i. medium s (disk_of s d) (start_of s d + lba + i)) [0..<n]" if "r = Inr xs" for xs
    using sp(2) [OF that] by (auto simp: dev_sector_def add.assoc)
  moreover have "e = EIO \<and> (faults s \<noteq> [] \<or> block_gone s d)" if "r = Inl e" for e
    using sp(4) sp(5) [OF that] assms(3,4) that by auto
  ultimately show ?thesis using fr False by (auto split: sum.splits)
qed

definition ex_part_disks :: disks where
  "ex_part_disks = \<lparr>devices = blank\<lparr>sector_size := 512, sector_count := 100, max_sectors_per_io := 2, ops := True, registered := True\<rparr> #
       blank\<lparr>sector_size := 512, sector_count := 50, max_sectors_per_io := 2, ops := True, registered := True, parent := Some 0, lba_offset := 40\<rparr> #
       replicate 14 blank, medium = (\<lambda>d l. [word_of_nat l]), committed = (\<lambda>d l. []), faults = [], forgotten = [], mallocs = [], buffers = [], clock = 0, inited = False\<rparr>"

lemma ex_part_devs: "dev_at ex_part_disks 0 = blank\<lparr>sector_size := 512, sector_count := 100, max_sectors_per_io := 2, ops := True, registered := True\<rparr>"
  "dev_at ex_part_disks (Suc 0) = blank\<lparr>sector_size := 512, sector_count := 50, max_sectors_per_io := 2, ops := True, registered := True, parent := Some 0, lba_offset := 40\<rparr>"
  "1 < i \<Longrightarrow> i < 16 \<Longrightarrow> dev_at ex_part_disks i = blank" "length (devices ex_part_disks) = 16" "faults ex_part_disks = []"
  "medium ex_part_disks = (\<lambda>d l. [word_of_nat l])"
  by (auto simp: ex_part_disks_def nth_Cons split: nat.splits)

lemma ex_part_ok: "devs_ok (devices ex_part_disks)"
  unfolding devs_ok_def MAX_BLKDEVS_def
proof (intro conjI allI impI)
  fix i :: nat assume "i < 16" "registered (dev_at ex_part_disks i)"
  then show "dev_ok (devices ex_part_disks) (dev_at ex_part_disks i)"
    using ex_part_devs(1,2) ex_part_devs(3) [of i]
    by (cases "i = 0"; cases "i = 1") (auto simp: dev_ok_def blank_def MAX_BLKDEVS_def)
qed (simp add: ex_part_devs)

theorem block_read_exact_witness:
  "\<exists>s1. block_read ex_part_disks (Some 1) 5 3 = (Inr [[45], [46], [47]], s1)"
proof -
  obtain r s1 where r: "block_read ex_part_disks (Some 1) 5 3 = (r, s1)" by force
  have l: "live_dev ex_part_disks 1" by (simp add: live_dev_def MAX_BLKDEVS_def ex_part_devs)
  have p: "disk_of ex_part_disks 1 = 0" "start_of ex_part_disks 1 = 40" "\<not> block_gone ex_part_disks 1"
    by (simp_all add: disk_of_unfold start_of_def block_gone_def ex_part_devs blank_def)
  have "0 < (3 :: nat)" "5 + 3 < (2 :: nat) ^ 64" "ops (dev_at ex_part_disks 1)" by (simp_all add: ex_part_devs)
  from block_read_exact [OF ex_part_ok l this(3,1,2) r] show ?thesis
    using r p by (cases r) (auto simp: ex_part_devs blank_def upt_rec)
qed

end
