(* ===== verification/Bcache.thy ===== *)
theory Bcache
  imports Blkdev
begin

text \<open>
  The sector cache (src/src/kernel/dev/bcache.cpp): a pool of buffers of one frame each, bound to
  sectors of devices, filled on a miss and written back when evicted or flushed. A buffer is its
  index in the pool. \<open>bcache::discard\<close> is in the theory of the block devices, whose registry calls
  it; the progress shown on the title bar is left out.

  The lemmas relate the cache to the contents \<open>V\<close> the devices have for their users: through every
  operation, on success and on failure, what is cached or on the medium is \<open>V\<close>; a buffer handed
  out holds \<open>V\<close> of its sector, a buffer put back dirty changes \<open>V\<close> there only, and after a
  successful flush the medium is \<open>V\<close>.
\<close>

definition block_sz :: nat where "block_sz = 4096"
definition CACHE_MIN_BUFS :: nat where "CACHE_MIN_BUFS = 256"
definition CACHE_MAX_BUFS :: nat where "CACHE_MAX_BUFS = 2048"
definition MAX_RANGE_COUNT :: nat where "MAX_RANGE_COUNT = 512"
definition MAX_RANGE_CHUNK :: nat where "MAX_RANGE_CHUNK = 64"
definition STAGE_BYTES :: nat where "STAGE_BYTES = 64 * 1024"

abbreviation buf_at :: "disks \<Rightarrow> nat \<Rightarrow> buf" where
  "buf_at s i \<equiv> buffers s ! i"

definition set_buf :: "disks \<Rightarrow> nat \<Rightarrow> buf \<Rightarrow> disks" where
  "set_buf s i b = s\<lparr>buffers := (buffers s)[i := b]\<rparr>"

definition kmalloc_ok :: "disks \<Rightarrow> bool \<times> disks" where
  "kmalloc_ok s = (case mallocs s of [] \<Rightarrow> (True, s) | f # fs \<Rightarrow> (\<not> f, s\<lparr>mallocs := fs\<rparr>))"

definition find_buffer :: "disks \<Rightarrow> nat \<Rightarrow> nat \<Rightarrow> nat option" where
  "find_buffer s dev lba =
     first_idx (\<lambda>i. valid (buf_at s i) \<and> bdev (buf_at s i) = Some dev \<and> blba (buf_at s i) = lba) 0 (length (buffers s))"

definition dirty_at :: "disks \<Rightarrow> nat \<Rightarrow> nat \<Rightarrow> nat option" where
  "dirty_at s dev lba = (case find_buffer s dev lba of None \<Rightarrow> None
     | Some i \<Rightarrow> if dirty (buf_at s i) then Some i else None)"

section \<open>Writing back\<close>

text \<open>The two loops that collect the run of dirty sectors around a buffer.\<close>

fun run_back :: "nat \<Rightarrow> disks \<Rightarrow> nat \<Rightarrow> nat \<Rightarrow> nat" where
  "run_back 0 s dev i = i"
| "run_back (Suc k) s dev i =
     (if blba (buf_at s i) = 0 then i
      else case dirty_at s dev (blba (buf_at s i) - 1) of None \<Rightarrow> i | Some p \<Rightarrow> run_back k s dev p)"

fun run_on :: "nat \<Rightarrow> disks \<Rightarrow> nat \<Rightarrow> nat \<Rightarrow> nat list" where
  "run_on 0 s dev lba = []"
| "run_on (Suc k) s dev lba = (case dirty_at s dev lba of None \<Rightarrow> [] | Some p \<Rightarrow> p # run_on k s dev (u64 (lba + 1)))"

definition clean_all :: "disks \<Rightarrow> nat list \<Rightarrow> disks" where
  "clean_all s run = foldl (\<lambda>s i. set_buf s i ((buf_at s i)\<lparr>dirty := False\<rparr>)) s run"

text \<open>The result, the number of sectors that went, and the state.\<close>

definition writeback :: "disks \<Rightarrow> nat \<Rightarrow> unit res \<times> nat \<times> disks" where
  "writeback s i =
     (if \<not> dirty (buf_at s i) then (Inr (), 0, s)
      else let dev = the (bdev (buf_at s i)) in
        if block_gone s dev then (Inl EIO, 0, set_buf s i ((buf_at s i)\<lparr>dirty := False\<rparr>))
        else let ss = sector_size (dev_at s dev);
                 mx = (if ss \<noteq> 0 \<and> ss \<le> STAGE_BYTES then STAGE_BYTES div ss else 1);
                 first = run_back (mx - 1) s dev i;
                 lba = blba (buf_at s first);
                 run = first # run_on (mx - 1) s dev (u64 (lba + 1))
             in case block_write s (Some dev) lba (map (\<lambda>j. take ss (data (buf_at s j))) run) of
                  (Inr _, s1) \<Rightarrow> (Inr (), length run, clean_all s1 run)
                | (Inl e, s1) \<Rightarrow> (Inl e, length run, s1))"

section \<open>Locking a sector\<close>

text \<open>The scan keeps the least recently used clean buffer and dirty buffer seen so far.\<close>

fun victim_from :: "disks \<Rightarrow> nat option \<Rightarrow> nat option \<Rightarrow> nat list \<Rightarrow> nat option" where
  "victim_from s bc bd [] = (case bc of Some i \<Rightarrow> Some i | None \<Rightarrow> bd)"
| "victim_from s bc bd (i # is) =
     (let b = buf_at s i;
          older = (\<lambda>best. case best of None \<Rightarrow> True | Some j \<Rightarrow> last_use b < last_use (buf_at s j))
      in if refcnt b \<noteq> 0 then victim_from s bc bd is
         else if \<not> valid b then Some i
         else if dirty b then victim_from s bc (if older bd then Some i else bd) is
         else victim_from s (if older bc then Some i else bc) bd is)"

definition pick_victim :: "disks \<Rightarrow> nat option" where
  "pick_victim s = victim_from s None None [0..<length (buffers s)]"

definition tick :: "disks \<Rightarrow> disks" where
  "tick s = s\<lparr>clock := u64 (clock s + 1)\<rparr>"

text \<open>A hit: one more lock.\<close>

definition lock_buf :: "disks \<Rightarrow> nat \<Rightarrow> disks" where
  "lock_buf s i =
     (let s1 = tick s in
      set_buf s1 i ((buf_at s1 i)\<lparr>refcnt := u32 (refcnt (buf_at s1 i) + 1), last_use := clock s1\<rparr>))"

text \<open>A miss: the victim's slot is bound to the sector.\<close>

definition rebind :: "disks \<Rightarrow> nat \<Rightarrow> nat \<Rightarrow> nat \<Rightarrow> disks" where
  "rebind s i dev lba =
     (let s1 = tick s in
      set_buf s1 i ((buf_at s1 i)\<lparr>bdev := Some dev, blba := lba, valid := True, dirty := False,
        refcnt := 1, last_use := clock s1\<rparr>))"

text \<open>The victim is bound again and filled from the device.\<close>

definition get_miss :: "disks \<Rightarrow> nat \<Rightarrow> nat \<Rightarrow> nat \<Rightarrow> nat res \<times> disks" where
  "get_miss s i d lba =
     (let s2 = rebind s i d lba;
          ss = sector_size (dev_at s2 d);
          s3 = (if block_sz > ss
                then set_buf s2 i ((buf_at s2 i)\<lparr>data := take ss (data (buf_at s2 i)) @ replicate (block_sz - ss) 0\<rparr>)
                else s2)
      in case block_read s3 (Some d) lba 1 of
           (Inr xs, s4) \<Rightarrow>
             (Inr i, set_buf s4 i ((buf_at s4 i)\<lparr>data := hd xs @ drop ss (data (buf_at s4 i))\<rparr>))
         | (Inl e, s4) \<Rightarrow> (Inl e, set_buf s4 i ((buf_at s4 i)\<lparr>valid := False, refcnt := 0\<rparr>)))"

definition cache_get :: "disks \<Rightarrow> nat option \<Rightarrow> nat \<Rightarrow> nat res \<times> disks" where
  "cache_get s dev lba =
     (case dev of None \<Rightarrow> (Inl ENXIO, s)
      | Some d \<Rightarrow>
        if \<not> inited s then (Inl ENXIO, s)
        else if lba \<ge> sector_count (dev_at s d) then (Inl EINVAL, s)
        else case find_buffer s d lba of Some i \<Rightarrow> (Inr i, lock_buf s i)
        | None \<Rightarrow>
          (case pick_victim s of None \<Rightarrow> (Inl EBUSY, s)
           | Some i \<Rightarrow>
             (let b = buf_at s i in
              case (if valid b \<and> dirty b \<and> \<not> block_gone s (the (bdev b)) then writeback s i else (Inr (), 0, s)) of
                (Inl e, _, s1) \<Rightarrow> (Inl e, s1)
              | (Inr _, _, s1) \<Rightarrow> get_miss s1 i d lba)))"

definition cache_put :: "disks \<Rightarrow> nat \<Rightarrow> bool \<Rightarrow> disks" where
  "cache_put s i d =
     (let s1 = tick s; b = buf_at s1 i in
      set_buf s1 i (b\<lparr>dirty := (dirty b \<or> d), refcnt := refcnt b - 1, last_use := clock s1\<rparr>))"

section \<open>Locking a range\<close>

text \<open>One sector into its buffer, the rest of the buffer zeroed.\<close>

definition fill_buf :: "nat \<Rightarrow> disks \<Rightarrow> nat \<Rightarrow> sector \<Rightarrow> disks" where
  "fill_buf ss s i x =
     set_buf s i ((buf_at s i)\<lparr>data :=
       (if block_sz > ss then x @ replicate (block_sz - ss) 0 else x @ drop ss (data (buf_at s i)))\<rparr>)"

function fill_chunks :: "disks \<Rightarrow> nat \<Rightarrow> nat \<Rightarrow> nat list \<Rightarrow> nat \<Rightarrow> nat \<Rightarrow> unit res \<times> disks" where
  "fill_chunks s dev lba bufs chunk don =
     (if don < length bufs \<and> 0 < chunk then
        let n = min (length bufs - don) chunk in
        (case block_read s (Some dev) (u64 (lba + don)) n of
           (Inl e, s1) \<Rightarrow> (Inl e, s1)
         | (Inr xs, s1) \<Rightarrow>
             fill_chunks (foldl (\<lambda>s k. fill_buf (sector_size (dev_at s dev)) s (bufs ! (don + k)) (xs ! k)) s1 [0..<n])
               dev lba bufs chunk (don + n))
      else (Inr (), s))"
  by pat_completeness auto
termination
  by (relation "measure (\<lambda>(s, dev, lba, bufs, chunk, don). length bufs - don)") auto

declare fill_chunks.simps [simp del]

definition fill_run :: "disks \<Rightarrow> nat \<Rightarrow> nat \<Rightarrow> nat list \<Rightarrow> unit res \<times> disks" where
  "fill_run s dev lba bufs =
     (case kmalloc_ok s of (False, s1) \<Rightarrow> (Inl ENOMEM, s1)
      | (True, s1) \<Rightarrow> fill_chunks s1 dev lba bufs (min (length bufs) MAX_RANGE_CHUNK) 0)"

definition put_all :: "disks \<Rightarrow> nat list \<Rightarrow> disks" where
  "put_all s out = foldl (\<lambda>s i. cache_put s i False) s out"

text \<open>Phase 1 locks the buffers from sector \<open>lba + i\<close> on: \<open>out\<close> are those locked so far, with whether
  they were misses.\<close>

fun lock_range :: "nat \<Rightarrow> disks \<Rightarrow> nat \<Rightarrow> nat \<Rightarrow> (nat \<times> bool) list \<Rightarrow> (nat \<times> bool) list res \<times> disks" where
  "lock_range 0 s d lba out = (Inr out, s)"
| "lock_range (Suc k) s d lba out =
     (case find_buffer s d lba of Some i \<Rightarrow> lock_range k (lock_buf s i) d (u64 (lba + 1)) (out @ [(i, False)])
      | None \<Rightarrow>
        (case pick_victim s of None \<Rightarrow> (Inl EBUSY, put_all s (map fst out))
         | Some i \<Rightarrow>
           (case (if valid (buf_at s i) \<and> dirty (buf_at s i) then writeback s i else (Inr (), 0, s)) of
              (Inl e, _, s1) \<Rightarrow> (Inl e, put_all s1 (map fst out))
            | (Inr _, _, s1) \<Rightarrow> lock_range k (rebind s1 i d lba) d (u64 (lba + 1)) (out @ [(i, True)]))))"

text \<open>One run of misses, in pieces the scratch buffer holds.\<close>

function fill_pieces :: "disks \<Rightarrow> nat \<Rightarrow> nat \<Rightarrow> nat list \<Rightarrow> unit res \<times> disks" where
  "fill_pieces s d lba run =
     (if run = [] then (Inr (), s)
      else let n = min (length run) MAX_RANGE_CHUNK in
        (case fill_run s d lba (take n run) of (Inl e, s1) \<Rightarrow> (Inl e, s1)
         | (Inr _, s1) \<Rightarrow> fill_pieces s1 d (u64 (lba + n)) (drop n run)))"
  by pat_completeness auto
termination
  by (relation "measure (\<lambda>(s, d, lba, run). length run)") (auto simp: MAX_RANGE_CHUNK_def)

declare fill_pieces.simps [simp del]

text \<open>Phase 2: the runs of misses, one after the other.\<close>

function fill_misses :: "disks \<Rightarrow> nat \<Rightarrow> nat \<Rightarrow> (nat \<times> bool) list \<Rightarrow> unit res \<times> disks" where
  "fill_misses s d lba [] = (Inr (), s)"
| "fill_misses s d lba ((i, False) # out) = fill_misses s d (u64 (lba + 1)) out"
| "fill_misses s d lba ((i, True) # out) =
     (let run = i # map fst (takeWhile snd out) in
      case fill_pieces s d lba run of (Inl e, s1) \<Rightarrow> (Inl e, s1)
      | (Inr _, s1) \<Rightarrow> fill_misses s1 d (u64 (lba + length run)) (dropWhile snd out))"
  by pat_completeness auto
termination
  by (relation "measure (\<lambda>(s, d, lba, out). length out)") (auto intro: le_imp_less_Suc length_dropWhile_le)

definition get_range :: "disks \<Rightarrow> nat option \<Rightarrow> nat \<Rightarrow> nat \<Rightarrow> nat list res \<times> disks" where
  "get_range s dev lba n =
     (case dev of None \<Rightarrow> (Inl ENXIO, s)
      | Some d \<Rightarrow>
        if \<not> inited s then (Inl ENXIO, s)
        else if n = 0 then (Inr [], s)
        else if n > MAX_RANGE_COUNT then (Inl EINVAL, s)
        else if u64 (lba + n) > sector_count (dev_at s d) then (Inl EINVAL, s)
        else case kmalloc_ok s of (False, s1) \<Rightarrow> (Inl ENOMEM, s1)
        | (True, s1) \<Rightarrow>
          (case lock_range n s1 d lba [] of (Inl e, s2) \<Rightarrow> (Inl e, s2)
           | (Inr out, s2) \<Rightarrow>
             (case fill_misses s2 d lba out of
                (Inl e, s3) \<Rightarrow> (Inl e, put_all s3 (map fst out))
              | (Inr _, s3) \<Rightarrow> (Inr (map fst out), s3))))"

section \<open>Flushing\<close>

text \<open>The buffers one by one; the first error that counts is kept.\<close>

fun flush_bufs :: "disks \<Rightarrow> nat option \<Rightarrow> errno option \<Rightarrow> nat list \<Rightarrow> errno option \<times> disks" where
  "flush_bufs s dev err [] = (err, s)"
| "flush_bufs s dev err (i # is) =
     (let b = buf_at s i in
      if \<not> valid b \<or> \<not> dirty b then flush_bufs s dev err is
      else if dev \<noteq> None \<and> bdev b \<noteq> dev then flush_bufs s dev err is
      else let lost = block_gone s (the (bdev b)) in
        (case writeback s i of
           (Inl e, _, s1) \<Rightarrow> flush_bufs s1 dev (if err = None \<and> (dev \<noteq> None \<or> \<not> lost) then Some e else err) is
         | (Inr _, _, s1) \<Rightarrow> flush_bufs s1 dev err is))"

text \<open>The whole disks of the registry, in the order \<open>block::get\<close> gives them.\<close>

fun flush_devs :: "disks \<Rightarrow> nat option \<Rightarrow> errno option \<Rightarrow> nat list \<Rightarrow> errno option \<times> disks" where
  "flush_devs s dev err [] = (err, s)"
| "flush_devs s dev err (d # ds) =
     (if parent (dev_at s d) \<noteq> None then flush_devs s dev err ds
      else if gone (dev_at s d) \<and> dev = None then flush_devs s dev err ds
      else if dev \<noteq> None \<and> d \<noteq> disk_of s (the dev) then flush_devs s dev err ds
      else (case block_flush s (Some d) of
              (Inl e, s1) \<Rightarrow> flush_devs s1 dev (if err = None then Some e else err) ds
            | (Inr _, s1) \<Rightarrow> flush_devs s1 dev err ds))"

definition flush :: "disks \<Rightarrow> nat option \<Rightarrow> unit res \<times> disks" where
  "flush s dev =
     (if \<not> inited s then (Inl ENXIO, s)
      else case flush_bufs s dev None [0..<length (buffers s)] of (err, s1) \<Rightarrow>
           (case flush_devs s1 dev err (filter (\<lambda>i. registered (dev_at s1 i)) [0..<MAX_BLKDEVS]) of (err', s2) \<Rightarrow>
              (case err' of None \<Rightarrow> Inr () | Some e \<Rightarrow> Inl e, s2)))"

definition release_one :: "nat option \<Rightarrow> unit res \<times> disks \<Rightarrow> nat \<Rightarrow> unit res \<times> disks" where
  "release_one dev = (\<lambda>(rc, s) i.
     let b = buf_at s i in
     if \<not> valid b \<or> (dev \<noteq> None \<and> bdev b \<noteq> dev) then (rc, s)
     else if refcnt b \<noteq> 0 then (case rc of Inr _ \<Rightarrow> Inl EBUSY | Inl e \<Rightarrow> Inl e, s)
     else (rc, set_buf s i (b\<lparr>valid := False, dirty := False, bdev := None\<rparr>)))"

definition release :: "disks \<Rightarrow> nat option \<Rightarrow> unit res \<times> disks" where
  "release s dev =
     (if \<not> inited s then (Inl ENXIO, s)
      else foldl (release_one dev) (flush s dev) [0..<length (buffers s)])"

definition stats :: "disks \<Rightarrow> nat \<times> nat" where
  "stats s = (length (filter (\<lambda>b. valid b \<and> dirty b) (buffers s)), length (filter valid (buffers s)))"

section \<open>Setting up the pool\<close>

text \<open>\<open>mem\<close> is the installed memory and \<open>frames\<close> the pages \<open>pmm::alloc_frame\<close> hands out, whose
  contents are not cleared.\<close>

definition init :: "disks \<Rightarrow> nat \<Rightarrow> byte list list \<Rightarrow> disks" where
  "init s mem frames =
     (if inited s then s
      else let n = u32 (mem div 64 div block_sz);
               n1 = (if n < CACHE_MIN_BUFS then CACHE_MIN_BUFS else n);
               n2 = (if n1 > CACHE_MAX_BUFS then CACHE_MAX_BUFS else n1);
               pool = (\<lambda>s n. s\<lparr>buffers := map (\<lambda>d. \<lparr>data = d, bdev = None, blba = 0, valid = False, dirty = False,
                          refcnt = 0, last_use = 0\<rparr>) (take n frames), inited := True\<rparr>)
           in case kmalloc_ok s of (True, s1) \<Rightarrow> pool s1 n2
              | (False, s1) \<Rightarrow>
                 (case kmalloc_ok s1 of (True, s2) \<Rightarrow> pool s2 CACHE_MIN_BUFS
                  | (False, s2) \<Rightarrow> s2\<lparr>buffers := []\<rparr>))"

section \<open>The contents of the devices\<close>

text \<open>The devices in use: registered, with sectors that fit a buffer, and no two of them over the
  same sectors of a disk.\<close>

definition vols_ok :: "nat set \<Rightarrow> disks \<Rightarrow> bool" where
  "vols_ok U s \<longleftrightarrow> devs_ok (devices s) \<and>
     (\<forall>d \<in> U. live_dev s d \<and> sector_size (dev_at s d) \<le> block_sz) \<and>
     (\<forall>d \<in> U. \<forall>e \<in> U. d \<noteq> e \<longrightarrow> disk_of s d = disk_of s e \<longrightarrow>
        start_of s d + sector_count (dev_at s d) \<le> start_of s e \<or> start_of s e + sector_count (dev_at s e) \<le> start_of s d)"

definition bound_to :: "disks \<Rightarrow> nat \<Rightarrow> nat \<Rightarrow> nat \<Rightarrow> bool" where
  "bound_to s i d l \<longleftrightarrow> i < length (buffers s) \<and> valid (buf_at s i) \<and> bdev (buf_at s i) = Some d \<and> blba (buf_at s i) = l"

definition bufs_ok :: "nat set \<Rightarrow> disks \<Rightarrow> bool" where
  "bufs_ok U s \<longleftrightarrow> (\<forall>b \<in> set (buffers s). length (data b) = block_sz) \<and>
     (\<forall>i < length (buffers s). valid (buf_at s i) \<longrightarrow> (\<exists>d \<in> U. \<exists>l < sector_count (dev_at s d). bound_to s i d l)) \<and>
     (\<forall>i j d l. bound_to s i d l \<longrightarrow> bound_to s j d l \<longrightarrow> i = j)"

text \<open>\<open>M\<close> are buffers bound to their sectors but not filled yet.\<close>

definition holds :: "nat set \<Rightarrow> (nat \<Rightarrow> nat \<Rightarrow> sector) \<Rightarrow> nat set \<Rightarrow> disks \<Rightarrow> bool" where
  "holds U V M s \<longleftrightarrow>
     (\<forall>i d l. bound_to s i d l \<longrightarrow> i \<notin> M \<longrightarrow> \<not> block_gone s d \<longrightarrow> take (sector_size (dev_at s d)) (data (buf_at s i)) = V d l) \<and>
     (\<forall>d \<in> U. \<forall>l < sector_count (dev_at s d). \<not> block_gone s d \<longrightarrow>
        (\<forall>i. bound_to s i d l \<longrightarrow> \<not> dirty (buf_at s i)) \<longrightarrow> dev_sector s d l = V d l) \<and>
     (\<forall>i \<in> M. i < length (buffers s) \<and> \<not> dirty (buf_at s i)) \<and>
     (\<forall>d \<in> U. \<forall>l < sector_count (dev_at s d). length (V d l) = sector_size (dev_at s d))"

definition cache_inv :: "nat set \<Rightarrow> (nat \<Rightarrow> nat \<Rightarrow> sector) \<Rightarrow> nat set \<Rightarrow> disks \<Rightarrow> bool" where
  "cache_inv U V M s \<longleftrightarrow> vols_ok U s \<and> bufs_ok U s \<and> holds U V M s"

text \<open>What no operation of the cache changes.\<close>

definition same_frame :: "disks \<Rightarrow> disks \<Rightarrow> bool" where
  "same_frame s s1 \<longleftrightarrow> devices s1 = devices s \<and> length (buffers s1) = length (buffers s) \<and> inited s1 = inited s"

lemma same_frame_refl [simp]: "same_frame s s"
  by (simp add: same_frame_def)

lemma same_frame_trans: "same_frame s s1 \<Longrightarrow> same_frame s1 s2 \<Longrightarrow> same_frame s s2"
  by (simp add: same_frame_def)

lemma by_devices:
  assumes "devices s1 = devices s"
  shows "disk_of s1 d = disk_of s d" "start_of s1 d = start_of s d" "block_gone s1 d = block_gone s d"
    "live_dev s1 d = live_dev s d" "vols_ok U s1 = vols_ok U s"
proof -
  show e: "disk_of s1 d = disk_of s d" "start_of s1 d = start_of s d" "block_gone s1 d = block_gone s d"
    "live_dev s1 d = live_dev s d" for d
    using assms by (simp_all add: disk_of_def start_of_def block_gone_def live_dev_def cong: option.case_cong)
  show "vols_ok U s1 = vols_ok U s" unfolding vols_ok_def e assms ..
qed

lemma vols_okD:
  assumes "vols_ok U s" "d \<in> U"
  shows "devs_ok (devices s)" "live_dev s d" "sector_size (dev_at s d) \<le> block_sz" "sector_count (dev_at s d) < 2 ^ 64"
  using assms devs_okD [of s d] by (auto simp: vols_ok_def dev_ok_def)

lemma location_inj:
  assumes "vols_ok U s" "d \<in> U" "e \<in> U" "l < sector_count (dev_at s d)" "m < sector_count (dev_at s e)"
    and "disk_of s d = disk_of s e" "start_of s d + l = start_of s e + m"
  shows "d = e \<and> l = m"
proof (cases "d = e")
  case False
  then have "start_of s d + sector_count (dev_at s d) \<le> start_of s e \<or> start_of s e + sector_count (dev_at s e) \<le> start_of s d"
    using assms(1,2,3,6) by (auto simp: vols_ok_def)
  with assms show ?thesis by linarith
qed (use assms in auto)

lemma bufs_okD:
  assumes "bufs_ok U s"
  shows "i < length (buffers s) \<Longrightarrow> length (data (buf_at s i)) = block_sz"
    and "bound_to s i d l \<Longrightarrow> d \<in> U" "bound_to s i d l \<Longrightarrow> l < sector_count (dev_at s d)"
    and "bound_to s i d l \<Longrightarrow> bound_to s j d l \<Longrightarrow> i = j"
proof -
  show "i < length (buffers s) \<Longrightarrow> length (data (buf_at s i)) = block_sz" using assms by (auto simp: bufs_ok_def)
  show "bound_to s i d l \<Longrightarrow> bound_to s j d l \<Longrightarrow> i = j" using assms unfolding bufs_ok_def by blast
  assume b: "bound_to s i d l"
  then obtain e m where "e \<in> U" "m < sector_count (dev_at s e)" "bound_to s i e m"
    using assms unfolding bufs_ok_def bound_to_def by blast
  with b show "d \<in> U" "l < sector_count (dev_at s d)" by (auto simp: bound_to_def)
qed

lemma bufs_okI:
  assumes "\<And>i. i < length (buffers s) \<Longrightarrow> length (data (buf_at s i)) = block_sz"
    and "\<And>i. i < length (buffers s) \<Longrightarrow> valid (buf_at s i) \<Longrightarrow> (\<exists>d l. bound_to s i d l \<and> d \<in> U \<and> l < sector_count (dev_at s d))"
    and "\<And>i j d l. bound_to s i d l \<Longrightarrow> bound_to s j d l \<Longrightarrow> i = j"
  shows "bufs_ok U s"
  unfolding bufs_ok_def
proof (intro conjI allI impI ballI)
  show "length (data b) = block_sz" if "b \<in> set (buffers s)" for b
    using that assms(1) by (auto simp: in_set_conv_nth)
  show "\<exists>d \<in> U. \<exists>l < sector_count (dev_at s d). bound_to s i d l" if "i < length (buffers s)" "valid (buf_at s i)" for i
    using assms(2) [OF that] by blast
qed (use assms(3) in blast)

lemma holdsD:
  assumes "holds U V M s"
  shows "bound_to s i d l \<Longrightarrow> i \<notin> M \<Longrightarrow> \<not> block_gone s d \<Longrightarrow> take (sector_size (dev_at s d)) (data (buf_at s i)) = V d l"
    and "d \<in> U \<Longrightarrow> l < sector_count (dev_at s d) \<Longrightarrow> \<not> block_gone s d \<Longrightarrow>
      (\<And>i. bound_to s i d l \<Longrightarrow> \<not> dirty (buf_at s i)) \<Longrightarrow> dev_sector s d l = V d l"
    and "i \<in> M \<Longrightarrow> i < length (buffers s) \<and> \<not> dirty (buf_at s i)"
    and "d \<in> U \<Longrightarrow> l < sector_count (dev_at s d) \<Longrightarrow> length (V d l) = sector_size (dev_at s d)"
  using assms unfolding holds_def by blast+

lemma holdsI:
  assumes "\<And>i d l. bound_to s i d l \<Longrightarrow> i \<notin> M \<Longrightarrow> \<not> block_gone s d \<Longrightarrow> take (sector_size (dev_at s d)) (data (buf_at s i)) = V d l"
    and "\<And>d l. d \<in> U \<Longrightarrow> l < sector_count (dev_at s d) \<Longrightarrow> \<not> block_gone s d \<Longrightarrow>
      (\<And>i. bound_to s i d l \<Longrightarrow> \<not> dirty (buf_at s i)) \<Longrightarrow> dev_sector s d l = V d l"
    and "\<And>i. i \<in> M \<Longrightarrow> i < length (buffers s) \<and> \<not> dirty (buf_at s i)"
    and "\<And>d l. d \<in> U \<Longrightarrow> l < sector_count (dev_at s d) \<Longrightarrow> length (V d l) = sector_size (dev_at s d)"
  shows "holds U V M s"
  using assms unfolding holds_def by blast

lemma cache_invD:
  assumes "cache_inv U V M s"
  shows "vols_ok U s" "bufs_ok U s" "holds U V M s"
  using assms by (auto simp: cache_inv_def)

section \<open>Searching the pool\<close>

lemma find_buffer_Some: "find_buffer s d l = Some i \<Longrightarrow> bound_to s i d l"
  using first_idx_SomeD(2,3) [of "\<lambda>i. valid (buf_at s i) \<and> bdev (buf_at s i) = Some d \<and> blba (buf_at s i) = l" 0 "length (buffers s)" i]
  by (simp add: find_buffer_def bound_to_def)

lemma find_buffer_None: "find_buffer s d l = None \<Longrightarrow> \<not> bound_to s i d l"
  by (auto simp: find_buffer_def bound_to_def first_idx_None)

lemma find_buffer_bound: "bufs_ok U s \<Longrightarrow> bound_to s i d l \<Longrightarrow> find_buffer s d l = Some i"
  using find_buffer_None [of s d l i] find_buffer_Some [of s d l] bufs_okD(4) [of U s i d l]
  by (cases "find_buffer s d l") auto

lemma dirty_at_Some: "dirty_at s d l = Some i \<Longrightarrow> bound_to s i d l \<and> dirty (buf_at s i)"
  by (auto simp: dirty_at_def dest: find_buffer_Some split: option.splits if_splits)

lemma victim_from_spec:
  assumes "victim_from s bc bd is = Some i"
    and "\<forall>j. bc = Some j \<or> bd = Some j \<longrightarrow> j < length (buffers s) \<and> refcnt (buf_at s j) = 0" "\<forall>j \<in> set is. j < length (buffers s)"
  shows "i < length (buffers s) \<and> refcnt (buf_at s i) = 0"
  using assms
proof (induction "is" arbitrary: bc bd)
  case (Cons j "is")
  show ?case
  proof (cases "refcnt (buf_at s j) \<noteq> 0 \<or> \<not> valid (buf_at s j)")
    case True
    then show ?thesis using Cons.prems Cons.IH [of bc bd] by (auto simp: Let_def split: if_splits)
  next
    case False
    then have "\<exists>bc' bd'. victim_from s bc bd (j # is) = victim_from s bc' bd' is \<and>
        (bc' = bc \<or> bc' = Some j) \<and> (bd' = bd \<or> bd' = Some j)"
      by (cases "dirty (buf_at s j)") (simp_all add: Let_def, (metis (full_types))+)
    with False show ?thesis using Cons.prems Cons.IH by auto
  qed
qed (auto split: option.splits)

lemma pick_victim_Some: "pick_victim s = Some i \<Longrightarrow> i < length (buffers s) \<and> refcnt (buf_at s i) = 0"
  unfolding pick_victim_def by (erule victim_from_spec) auto

section \<open>Writing back keeps the contents\<close>

text \<open>A run: dirty buffers of consecutive sectors of a device.\<close>

definition dirty_run :: "disks \<Rightarrow> nat \<Rightarrow> nat \<Rightarrow> nat list \<Rightarrow> bool" where
  "dirty_run s d l run \<longleftrightarrow> (\<forall>k < length run. bound_to s (run ! k) d (l + k) \<and> dirty (buf_at s (run ! k)))"

lemma run_back_dirty:
  "bound_to s i d l \<Longrightarrow> dirty (buf_at s i) \<Longrightarrow>
    \<exists>j \<le> k. \<exists>l'. l = l' + j \<and> bound_to s (run_back k s d i) d l' \<and> dirty (buf_at s (run_back k s d i)) \<and>
      (\<forall>t \<le> j. \<exists>p. bound_to s p d (l' + t) \<and> dirty (buf_at s p))"
proof (induction k arbitrary: i l)
  case (Suc k)
  show ?case
  proof (cases "blba (buf_at s i) = 0 \<or> dirty_at s d (blba (buf_at s i) - 1) = None")
    case True
    then have "run_back (Suc k) s d i = i" by auto
    with Suc.prems show ?thesis by (intro exI [of _ 0]) auto
  next
    case False
    then obtain p where p: "dirty_at s d (l - 1) = Some p" and l: "blba (buf_at s i) = l" "l \<noteq> 0"
      using Suc.prems(1) by (auto simp: bound_to_def)
    then have e: "run_back (Suc k) s d i = run_back k s d p" by simp
    from Suc.IH [of p "l - 1"] dirty_at_Some [OF p] obtain j l' where
      j: "j \<le> k" "l - 1 = l' + j" "bound_to s (run_back k s d p) d l'" "dirty (buf_at s (run_back k s d p))"
      "\<forall>t \<le> j. \<exists>p. bound_to s p d (l' + t) \<and> dirty (buf_at s p)" by blast
    have "\<exists>p. bound_to s p d (l' + t) \<and> dirty (buf_at s p)" if "t \<le> Suc j" for t
    proof (cases "t = Suc j")
      case True
      then have "l' + t = l" using j(2) l by simp
      then show ?thesis using Suc.prems by auto
    qed (use that j(5) in auto)
    then show ?thesis unfolding e using j l by (intro exI [of _ "Suc j"] conjI exI [of _ l']) auto
  qed
next
  case 0
  then show ?case by (intro exI [of _ 0]) auto
qed

lemma run_on_covers:
  assumes "vols_ok U s" "bufs_ok U s"
  shows "m \<le> k \<Longrightarrow> (\<And>t. t < m \<Longrightarrow> \<exists>p. bound_to s p d (l + t) \<and> dirty (buf_at s p)) \<Longrightarrow> m \<le> length (run_on k s d l)"
proof (induction k arbitrary: l m)
  case (Suc k)
  show ?case
  proof (cases m)
    case (Suc m')
    then obtain p where p: "bound_to s p d l" "dirty (buf_at s p)" using Suc.prems(2) [of 0] by auto
    then have "dirty_at s d l = Some p" using find_buffer_bound [OF assms(2)] by (simp add: dirty_at_def)
    moreover have "u64 (l + 1) = l + 1"
      using bufs_okD(2,3) [OF assms(2) p(1)] vols_okD(4) [OF assms(1), of d] by (simp add: u64_def)
    moreover have "m' \<le> length (run_on k s d (l + 1))"
    proof (rule Suc.IH)
      show "m' \<le> k" using Suc.prems(1) Suc by simp
      show "\<exists>p. bound_to s p d (l + 1 + t) \<and> dirty (buf_at s p)" if "t < m'" for t
        using Suc.prems(2) [of "Suc t"] that Suc by simp
    qed
    ultimately show ?thesis using Suc by simp
  qed simp
qed simp

lemma run_on_dirty: "vols_ok U s \<Longrightarrow> bufs_ok U s \<Longrightarrow> dirty_run s d l (run_on k s d l)"
proof (induction k arbitrary: l)
  case (Suc k)
  show ?case
  proof (cases "dirty_at s d l")
    case (Some p)
    note b = dirty_at_Some [OF Some]
    have "l < sector_count (dev_at s d)" "sector_count (dev_at s d) < 2 ^ 64"
      using b bufs_okD(2,3) [OF Suc.prems(2)] vols_okD(4) [OF Suc.prems(1)] by blast+
    then have "u64 (l + 1) = l + 1" by (simp add: u64_def)
    with Suc.IH [OF Suc.prems, of "l + 1"] b Some show ?thesis
      by (auto simp: dirty_run_def nth_Cons split: nat.splits)
  qed (simp add: dirty_run_def)
qed (simp add: dirty_run_def)

text \<open>The cleaning of a set of buffers.\<close>

definition cleaned :: "nat set \<Rightarrow> disks \<Rightarrow> disks \<Rightarrow> bool" where
  "cleaned C s s1 \<longleftrightarrow> same_frame s s1 \<and>
     (\<forall>i < length (buffers s). buf_at s1 i = (buf_at s i)\<lparr>dirty := dirty (buf_at s i) \<and> i \<notin> C\<rparr>)"

lemma cleaned_same: "buffers s1 = buffers s \<Longrightarrow> devices s1 = devices s \<Longrightarrow> inited s1 = inited s \<Longrightarrow> cleaned {} s s1"
  by (simp add: cleaned_def same_frame_def)

lemma cleaned_trans: "cleaned C s s1 \<Longrightarrow> cleaned C' s1 s2 \<Longrightarrow> cleaned (C \<union> C') s s2"
  by (auto simp: cleaned_def same_frame_def)

lemma clean_all_cleaned:
  "cleaned (set run) s (clean_all s run) \<and> medium (clean_all s run) = medium s"
proof (induction run rule: rev_induct)
  case (snoc i run)
  have "clean_all s (run @ [i]) = set_buf (clean_all s run) i ((buf_at (clean_all s run) i)\<lparr>dirty := False\<rparr>)"
    by (simp add: clean_all_def)
  then have m: "medium (clean_all s (run @ [i])) = medium s" and f: "same_frame s (clean_all s (run @ [i]))"
    and b: "buffers (clean_all s (run @ [i])) =
      (buffers (clean_all s run))[i := (buf_at (clean_all s run) i)\<lparr>dirty := False\<rparr>]"
    using snoc by (simp_all add: cleaned_def set_buf_def same_frame_def)
  have "buf_at (clean_all s (run @ [i])) j = (buf_at s j)\<lparr>dirty := dirty (buf_at s j) \<and> j \<notin> set (run @ [i])\<rparr>"
    if "j < length (buffers s)" for j
    using snoc that unfolding b by (cases "j = i") (auto simp: cleaned_def same_frame_def)
  with m f show ?case by (simp add: cleaned_def)
qed (simp add: clean_all_def cleaned_def)

lemma cleaned_bound: "cleaned C s s1 \<Longrightarrow> bound_to s1 i d l = bound_to s i d l"
  by (auto simp: cleaned_def bound_to_def same_frame_def)

lemma cleanedD:
  assumes "cleaned C s s1"
  shows "devices s1 = devices s" "length (buffers s1) = length (buffers s)" "inited s1 = inited s"
    and "i < length (buffers s) \<Longrightarrow> data (buf_at s1 i) = data (buf_at s i)"
    and "i < length (buffers s) \<Longrightarrow> dirty (buf_at s1 i) \<longleftrightarrow> dirty (buf_at s i) \<and> i \<notin> C"
    and "i < length (buffers s) \<Longrightarrow> refcnt (buf_at s1 i) = refcnt (buf_at s i)"
    and "i < length (buffers s) \<Longrightarrow> valid (buf_at s1 i) = valid (buf_at s i)"
  using assms by (auto simp: cleaned_def same_frame_def)

lemma bufs_ok_cleaned: "cleaned C s s1 \<Longrightarrow> bufs_ok U s \<Longrightarrow> bufs_ok U s1"
proof (rule bufs_okI)
  assume c: "cleaned C s s1" and b: "bufs_ok U s"
  note cb = cleaned_bound [OF c] and cd = cleanedD [OF c]
  show "length (data (buf_at s1 i)) = block_sz" if "i < length (buffers s1)" for i
    using that cd bufs_okD(1) [OF b, of i] by simp
  show "\<exists>d l. bound_to s1 i d l \<and> d \<in> U \<and> l < sector_count (dev_at s1 d)" if "i < length (buffers s1)" "valid (buf_at s1 i)" for i
  proof -
    have "i < length (buffers s)" "valid (buf_at s i)" using that cd by simp_all
    with b obtain d l where "d \<in> U" "l < sector_count (dev_at s d)" "bound_to s i d l" unfolding bufs_ok_def by blast
    then show ?thesis using cb cd(1) by auto
  qed
  show "i = j" if "bound_to s1 i d l" "bound_to s1 j d l" for i j d l
    using that bufs_okD(4) [OF b] unfolding cb by blast
qed

text \<open>Sectors whose dirty buffers are cleaned must have reached the medium.\<close>

lemma holds_cleaned:
  assumes h: "holds U V M s" and c: "cleaned C s s1"
    and md: "\<And>d l. d \<in> U \<Longrightarrow> l < sector_count (dev_at s d) \<Longrightarrow> \<not> block_gone s d \<Longrightarrow>
      (\<And>i. bound_to s i d l \<Longrightarrow> \<not> dirty (buf_at s i)) \<Longrightarrow> dev_sector s1 d l = dev_sector s d l"
    and wr: "\<And>i d l. bound_to s i d l \<Longrightarrow> dirty (buf_at s i) \<Longrightarrow> i \<in> C \<Longrightarrow> \<not> block_gone s d \<Longrightarrow>
      dev_sector s1 d l = take (sector_size (dev_at s d)) (data (buf_at s i))"
  shows "holds U V M s1"
proof (rule holdsI)
  note cb = cleaned_bound [OF c] and cd = cleanedD [OF c]
  note bd = by_devices [OF cd(1)]
  fix i d l
  show "take (sector_size (dev_at s1 d)) (data (buf_at s1 i)) = V d l"
    if "bound_to s1 i d l" "i \<notin> M" "\<not> block_gone s1 d"
  proof -
    have "bound_to s i d l" "i < length (buffers s)" using that(1) cb by (auto simp: bound_to_def)
    then show ?thesis using that holdsD(1) [OF h] cd(1,4) bd by simp
  qed
  show "dev_sector s1 d l = V d l"
    if a: "d \<in> U" "l < sector_count (dev_at s1 d)" "\<not> block_gone s1 d" and
      cl: "\<And>i. bound_to s1 i d l \<Longrightarrow> \<not> dirty (buf_at s1 i)"
  proof (cases "\<exists>i. bound_to s i d l \<and> dirty (buf_at s i)")
    case True
    then obtain i where i: "bound_to s i d l" "dirty (buf_at s i)" by blast
    then have "i < length (buffers s)" by (simp add: bound_to_def)
    with i cl [of i] cb cd(5) have "i \<in> C" by auto
    moreover have "i \<notin> M" using holdsD(3) [OF h] i(2) by blast
    ultimately show ?thesis using wr [OF i] holdsD(1) [OF h i(1)] a bd by simp
  next
    case False
    then show ?thesis using md [of d l] holdsD(2) [OF h, of d l] a bd cd(1) by auto
  qed
  show "i < length (buffers s1) \<and> \<not> dirty (buf_at s1 i)" if "i \<in> M"
    using holdsD(3) [OF h that] cd(2) cd(5) [of i] by simp
  show "length (V d l) = sector_size (dev_at s1 d)" if "d \<in> U" "l < sector_count (dev_at s1 d)"
    using that holdsD(4) [OF h] cd(1) by simp
qed

lemma dirty_run_fits:
  assumes "vols_ok U s" "bufs_ok U s" "dirty_run s d l run" "run \<noteq> []"
  shows "d \<in> U" "l + length run \<le> sector_count (dev_at s d)"
proof -
  have "bound_to s (last run) d (l + (length run - 1))"
    using assms(3,4) by (simp add: dirty_run_def last_conv_nth)
  from bufs_okD(2,3) [OF assms(2) this] assms(4) show "d \<in> U" "l + length run \<le> sector_count (dev_at s d)"
    by (cases run; simp)+
qed

text \<open>A write of a run, whatever comes of it, followed by the cleaning of the run if it succeeded.\<close>

lemma write_run:
  assumes inv: "cache_inv U V M s" and run: "dirty_run s d l run" "run \<noteq> []" and g: "\<not> block_gone s d"
    and w: "block_write s (Some d) l (map (\<lambda>j. take (sector_size (dev_at s d)) (data (buf_at s j))) run) = (r, s1)"
    and s2: "s2 = (if r = Inr () then clean_all s1 run else s1)" "C = (if r = Inr () then set run else {})"
  shows "cleaned C s s2 \<and> holds U V M s2"
proof -
  note v = cache_invD(1) [OF inv] and b = cache_invD(2) [OF inv] and h = cache_invD(3) [OF inv]
  note fits = dirty_run_fits [OF v b run]
  note vd = vols_okD [OF v fits(1)]
  let ?ss = "sector_size (dev_at s d)" and ?src = "map (\<lambda>j. take (sector_size (dev_at s d)) (data (buf_at s j))) run"
  have sp: "wrote (disk_of s d) (start_of s d + l) ?src s s1"
    "r = Inr () \<Longrightarrow> medium s1 = store (disk_of s d) (start_of s d + l) ?src (medium s)"
    using block_write_spec(1,2) [OF w vd(1,2)] fits(2) by auto
  note wd = wroteD [OF sp(1)]
  have c1: "cleaned {} s s1" using wd by (intro cleaned_same) auto
  have m2: "medium s2 = medium s1" using s2 clean_all_cleaned [of run s1] by simp
  have c: "cleaned C s s2"
    using cleaned_trans [OF c1, of "set run" "clean_all s1 run"] clean_all_cleaned [of run s1] c1 s2 by auto
  note cd = cleanedD [OF c] and bd = by_devices [OF cleanedD(1) [OF c]]
  have hit: "e = d \<and> (\<exists>k < length run. m = l + k)"
    if a: "e \<in> U" "m < sector_count (dev_at s e)" "disk_of s e = disk_of s d"
      "start_of s d + l \<le> start_of s e + m" "start_of s e + m < start_of s d + l + length run" for e m
  proof -
    obtain k where k: "start_of s e + m = start_of s d + (l + k)"
      using a(4) by (auto simp: le_iff_add add.assoc)
    then have "k < length run" using a(5) by simp
    then show ?thesis using location_inj [OF v a(1) fits(1) a(2) _ a(3) k] fits(2) by auto
  qed
  have "holds U V M s2"
  proof (rule holds_cleaned [OF h c])
    show "dev_sector s2 e m = dev_sector s e m"
      if a: "e \<in> U" "m < sector_count (dev_at s e)" "\<not> block_gone s e" and
        cl: "\<And>i. bound_to s i e m \<Longrightarrow> \<not> dirty (buf_at s i)" for e m
    proof -
      have "\<not> (disk_of s e = disk_of s d \<and> start_of s d + l \<le> start_of s e + m \<and> start_of s e + m < start_of s d + l + length run)"
        using hit [OF a(1,2)] cl run(1) unfolding dirty_run_def by blast
      then show ?thesis using wd(7) [of "disk_of s e" "start_of s e + m"] by (auto simp: dev_sector_def bd m2)
    qed
    show "dev_sector s2 e m = take (sector_size (dev_at s e)) (data (buf_at s i))"
      if "bound_to s i e m" "dirty (buf_at s i)" "i \<in> C" "\<not> block_gone s e" for i e m
    proof -
      have ok: "r = Inr ()" "i \<in> set run" using that(3) s2(2) by (auto split: if_splits)
      then obtain k where k: "k < length run" "i = run ! k" by (auto simp: in_set_conv_nth)
      with run(1) that(1) have em: "e = d" "m = l + k" by (auto simp: dirty_run_def bound_to_def)
      show ?thesis using k sp(2) [OF ok(1)] by (simp add: dev_sector_def bd m2 em store_def)
    qed
  qed
  with c show ?thesis ..
qed

lemma writeback_spec:
  assumes inv: "cache_inv U V M s" and i: "i < length (buffers s)" "valid (buf_at s i)"
    and w: "writeback s i = (r, n, s1)"
  shows "\<exists>C. cleaned C s s1 \<and> (r = Inr () \<longrightarrow> i \<in> C \<or> \<not> dirty (buf_at s i))" "cache_inv U V M s1"
proof -
  note v = cache_invD(1) [OF inv] and b = cache_invD(2) [OF inv] and h = cache_invD(3) [OF inv]
  obtain d l where dl: "bound_to s i d l" using i b unfolding bufs_ok_def by blast
  have "\<exists>C. cleaned C s s1 \<and> holds U V M s1 \<and> (r = Inr () \<longrightarrow> i \<in> C \<or> \<not> dirty (buf_at s i))"
  proof -
    consider "\<not> dirty (buf_at s i)" | "dirty (buf_at s i)" "block_gone s d" | "dirty (buf_at s i)" "\<not> block_gone s d" by blast
    then show ?thesis
    proof cases
      case 1
      with w h show ?thesis by (auto simp: writeback_def intro!: exI [of _ "{}"] cleaned_same)
    next
      case 2
      then have s1: "r = Inl EIO" "s1 = set_buf s i ((buf_at s i)\<lparr>dirty := False\<rparr>)"
        using w dl by (auto simp: writeback_def bound_to_def Let_def)
      have c: "cleaned {i} s s1"
        using clean_all_cleaned [of "[i]" s] unfolding s1(2) by (simp add: clean_all_def)
      have "dev_sector s1 e m = dev_sector s e m" for e m
        unfolding dev_sector_def by_devices [OF cleanedD(1) [OF c]] by (simp add: s1(2) set_buf_def)
      then have "holds U V M s1"
        using 2 dl by (intro holds_cleaned [OF h c]) (auto simp: bound_to_def dest: bufs_okD(2) [OF b])
      with c s1 show ?thesis by blast
    next
      case 3
      let ?ss = "sector_size (dev_at s d)"
      define mx where "mx = (if ?ss \<noteq> 0 \<and> ?ss \<le> STAGE_BYTES then STAGE_BYTES div ?ss else 1)"
      define first where "first = run_back (mx - 1) s d i"
      define lba where "lba = blba (buf_at s first)"
      define run where "run = first # run_on (mx - 1) s d (u64 (lba + 1))"
      obtain q s3 where q: "block_write s (Some d) lba (map (\<lambda>j. take ?ss (data (buf_at s j))) run) = (q, s3)" by force
      have r: "r = q \<and> s1 = (if q = Inr () then clean_all s3 run else s3)"
        using w 3 dl q by (auto simp: writeback_def bound_to_def Let_def mx_def first_def lba_def run_def split: sum.splits)
      obtain j where j: "j \<le> mx - 1" "l = lba + j" and fd: "bound_to s first d lba" "dirty (buf_at s first)"
        and between: "\<And>t. t \<le> j \<Longrightarrow> \<exists>p. bound_to s p d (lba + t) \<and> dirty (buf_at s p)"
        using run_back_dirty [OF dl 3(1), of "mx - 1"] unfolding first_def lba_def bound_to_def by auto
      have w1: "u64 (lba + 1) = lba + 1"
        using bufs_okD(2,3) [OF b fd(1)] vols_okD(4) [OF v, of d] by (simp add: u64_def)
      then have dr: "dirty_run s d lba run"
        using run_on_dirty [OF v b, of d "lba + 1" "mx - 1"] fd
        by (auto simp: run_def dirty_run_def nth_Cons split: nat.splits)
      from write_run [OF inv dr _ 3(2) q refl refl] have "cleaned (if q = Inr () then set run else {}) s s1 \<and> holds U V M s1"
        using r by (simp add: run_def)
      moreover have "i \<in> set run"
      proof -
        have "j \<le> length (run_on (mx - 1) s d (lba + 1))"
        proof (rule run_on_covers [OF v b j(1)])
          show "\<exists>p. bound_to s p d (lba + 1 + t) \<and> dirty (buf_at s p)" if "t < j" for t
            using between [of "Suc t"] that by simp
        qed
        then have jl: "j < length run" unfolding run_def w1 by simp
        then have "run ! j = i" using dr dl j(2) bufs_okD(4) [OF b] by (auto simp: dirty_run_def)
        with jl show ?thesis using nth_mem by blast
      qed
      ultimately show ?thesis using r by auto
    qed
  qed
  then obtain C where C: "cleaned C s s1" "holds U V M s1" "r = Inr () \<longrightarrow> i \<in> C \<or> \<not> dirty (buf_at s i)" by blast
  then show "\<exists>C. cleaned C s s1 \<and> (r = Inr () \<longrightarrow> i \<in> C \<or> \<not> dirty (buf_at s i))" by blast
  show "cache_inv U V M s1"
    using C v bufs_ok_cleaned [OF C(1) b] by_devices(5) [OF cleanedD(1) [OF C(1)]] by (simp add: cache_inv_def)
qed

section \<open>Single buffers\<close>

text \<open>A change of one buffer and of the clock.\<close>

definition one_buf :: "nat \<Rightarrow> disks \<Rightarrow> disks \<Rightarrow> bool" where
  "one_buf i s s1 \<longleftrightarrow> same_frame s s1 \<and> medium s1 = medium s \<and>
     (\<forall>j < length (buffers s). j \<noteq> i \<longrightarrow> buf_at s1 j = buf_at s j)"

lemma one_bufD:
  assumes "one_buf i s s1"
  shows "devices s1 = devices s" "length (buffers s1) = length (buffers s)" "inited s1 = inited s" "medium s1 = medium s"
    "j < length (buffers s) \<Longrightarrow> j \<noteq> i \<Longrightarrow> buf_at s1 j = buf_at s j"
    and "j \<noteq> i \<Longrightarrow> bound_to s1 j d l = bound_to s j d l"
    and "dev_sector s1 d l = dev_sector s d l"
proof -
  show a: "devices s1 = devices s" "length (buffers s1) = length (buffers s)" "inited s1 = inited s" "medium s1 = medium s"
    "\<And>j. j < length (buffers s) \<Longrightarrow> j \<noteq> i \<Longrightarrow> buf_at s1 j = buf_at s j"
    using assms by (auto simp: one_buf_def same_frame_def)
  show "j \<noteq> i \<Longrightarrow> bound_to s1 j d l = bound_to s j d l"
    using a(5) [of j] by (cases "j < length (buffers s)") (auto simp: bound_to_def a)
  show "dev_sector s1 d l = dev_sector s d l"
    unfolding dev_sector_def by_devices [OF a(1)] a(4) ..
qed

lemma one_buf_trans: "one_buf i s s1 \<Longrightarrow> one_buf i s1 s2 \<Longrightarrow> one_buf i s s2"
  by (auto simp: one_buf_def same_frame_def)

lemma one_buf_set: "one_buf i s (set_buf s i b)" "one_buf i s (set_buf (tick s) i b)"
  by (auto simp: one_buf_def same_frame_def set_buf_def tick_def)

lemma buf_at_set: "i < length (buffers s) \<Longrightarrow> buf_at (set_buf s i b) i = b"
  by (simp add: set_buf_def)

lemma tick_simps [simp]: "buffers (tick s) = buffers s" "devices (tick s) = devices s" "medium (tick s) = medium s"
  by (simp_all add: tick_def)

text \<open>Buffer \<open>i\<close> is bound to the sector \<open>(d, l)\<close> and holds \<open>V' d l\<close>, or is pending in \<open>M'\<close>; the rest is
  as before. If the contents of \<open>(d, l)\<close> change, the buffer is dirty.\<close>

lemma cache_inv_bind:
  assumes inv: "cache_inv U V M s" and one: "one_buf i s s1" and i: "i < length (buffers s)"
    and b1: "bound_to s1 i d l" and dl: "d \<in> U" "l < sector_count (dev_at s d)"
    and len: "length (data (buf_at s1 i)) = block_sz"
    and free: "\<And>j. j \<noteq> i \<Longrightarrow> \<not> bound_to s j d l"
    and old: "\<And>e m. bound_to s i e m \<Longrightarrow> (e, m) \<noteq> (d, l) \<Longrightarrow> dirty (buf_at s i) \<Longrightarrow> block_gone s e"
    and V': "\<And>e m. (e, m) \<noteq> (d, l) \<Longrightarrow> V' e m = V e m" "length (V' d l) = sector_size (dev_at s d)"
    and M': "M' - {i} \<subseteq> M" "i \<in> M' \<Longrightarrow> \<not> dirty (buf_at s1 i)" "M - {i} \<subseteq> M'"
    and fill: "i \<notin> M' \<Longrightarrow> \<not> block_gone s d \<Longrightarrow> take (sector_size (dev_at s d)) (data (buf_at s1 i)) = V' d l"
    and clean: "\<not> block_gone s d \<Longrightarrow> \<not> dirty (buf_at s1 i) \<Longrightarrow> dev_sector s d l = V' d l"
  shows "cache_inv U V' M' s1"
proof -
  note v = cache_invD(1) [OF inv] and b = cache_invD(2) [OF inv] and h = cache_invD(3) [OF inv]
  note od = one_bufD [OF one] and bd = by_devices [OF one_bufD(1) [OF one]]
  have bi: "e = d \<and> m = l" if "bound_to s1 i e m" for e m using that b1 by (auto simp: bound_to_def)
  have "bufs_ok U s1"
  proof (rule bufs_okI)
    show "length (data (buf_at s1 j)) = block_sz" if "j < length (buffers s1)" for j
      using that od(2) od(5) [of j] len bufs_okD(1) [OF b, of j] by (cases "j = i") auto
    show "\<exists>d l. bound_to s1 j d l \<and> d \<in> U \<and> l < sector_count (dev_at s1 d)"
      if "j < length (buffers s1)" "valid (buf_at s1 j)" for j
    proof (cases "j = i")
      case False
      then have "j < length (buffers s)" "valid (buf_at s j)" using that od(2) od(5) [of j] by auto
      then obtain e m where "e \<in> U" "m < sector_count (dev_at s e)" "bound_to s j e m" using b unfolding bufs_ok_def by blast
      then show ?thesis using od(1,6) False by auto
    qed (use b1 dl od(1) in auto)
    show "j = k" if "bound_to s1 j e m" "bound_to s1 k e m" for j k e m
      using that bi free od(6) bufs_okD(4) [OF b, of j e m k] by (cases "j = i"; cases "k = i") auto
  qed
  moreover have "holds U V' M' s1"
  proof (rule holdsI)
    fix j e m
    show "take (sector_size (dev_at s1 e)) (data (buf_at s1 j)) = V' e m"
      if "bound_to s1 j e m" "j \<notin> M'" "\<not> block_gone s1 e"
    proof (cases "j = i")
      case True
      then show ?thesis using that bi fill od(1) bd by auto
    next
      case False
      then have "bound_to s j e m" "j \<notin> M" "(e, m) \<noteq> (d, l)" using that od(6) free M'(3) by auto
      moreover have "buf_at s1 j = buf_at s j" using False od(5) \<open>bound_to s j e m\<close> by (simp add: bound_to_def)
      ultimately show ?thesis using that V'(1) holdsD(1) [OF h] od(1) bd by auto
    qed
    show "dev_sector s1 e m = V' e m"
      if a: "e \<in> U" "m < sector_count (dev_at s1 e)" "\<not> block_gone s1 e" and
        cl: "\<And>j. bound_to s1 j e m \<Longrightarrow> \<not> dirty (buf_at s1 j)"
    proof (cases "(e, m) = (d, l)")
      case True
      then show ?thesis using cl [of i] b1 clean a bd by (simp add: od(7))
    next
      case False
      have "\<not> dirty (buf_at s j)" if "bound_to s j e m" for j
        using that False a cl [of j] old [of e m] od(5) [of j] od(6) [of j e m] bd by (cases "j = i") (auto simp: bound_to_def)
      then show ?thesis using False V'(1) a holdsD(2) [OF h, of e m] od(1) bd by (auto simp: od(7))
    qed
    show "j < length (buffers s1) \<and> \<not> dirty (buf_at s1 j)" if "j \<in> M'"
      using that M' holdsD(3) [OF h, of j] od(2) od(5) [of j] i by (cases "j = i") auto
    show "length (V' e m) = sector_size (dev_at s1 e)" if "e \<in> U" "m < sector_count (dev_at s1 e)"
      using that V' holdsD(4) [OF h, of e m] od(1) by (cases "(e, m) = (d, l)") auto
  qed
  ultimately show ?thesis using v bd by (simp add: cache_inv_def)
qed

text \<open>Buffer \<open>i\<close> is given up.\<close>

lemma cache_inv_unbind:
  assumes inv: "cache_inv U V M s" and one: "one_buf i s s1" and i: "i < length (buffers s)"
    and b1: "\<not> valid (buf_at s1 i)" and len: "length (data (buf_at s1 i)) = block_sz"
    and old: "\<And>e m. bound_to s i e m \<Longrightarrow> dirty (buf_at s i) \<Longrightarrow> block_gone s e"
    and M: "i \<notin> M"
  shows "cache_inv U V M s1"
proof -
  note v = cache_invD(1) [OF inv] and b = cache_invD(2) [OF inv] and h = cache_invD(3) [OF inv]
  note od = one_bufD [OF one] and bd = by_devices [OF one_bufD(1) [OF one]]
  have ni: "\<not> bound_to s1 i e m" for e m using b1 by (auto simp: bound_to_def)
  have bs: "bound_to s j e m \<and> buf_at s1 j = buf_at s j" if "bound_to s1 j e m" for j e m
    using that ni od(2) od(5) [of j] od(6) [of j e m] by (cases "j = i") (auto simp: bound_to_def)
  have "bufs_ok U s1"
  proof (rule bufs_okI)
    show "length (data (buf_at s1 j)) = block_sz" if "j < length (buffers s1)" for j
      using that od(2) od(5) [of j] len bufs_okD(1) [OF b, of j] by (cases "j = i") auto
    show "\<exists>d l. bound_to s1 j d l \<and> d \<in> U \<and> l < sector_count (dev_at s1 d)"
      if a: "j < length (buffers s1)" "valid (buf_at s1 j)" for j
    proof -
      have "j \<noteq> i" using a b1 by auto
      then have "j < length (buffers s)" "valid (buf_at s j)" using a od(2) od(5) [of j] by auto
      then obtain e m where "e \<in> U" "m < sector_count (dev_at s e)" "bound_to s j e m" using b unfolding bufs_ok_def by blast
      then show ?thesis using od(1,6) \<open>j \<noteq> i\<close> by auto
    qed
    show "j = k" if "bound_to s1 j e m" "bound_to s1 k e m" for j k e m
      using bs [OF that(1)] bs [OF that(2)] bufs_okD(4) [OF b] by blast
  qed
  moreover have "holds U V M s1"
  proof (rule holdsI)
    fix j e m
    show "take (sector_size (dev_at s1 e)) (data (buf_at s1 j)) = V e m"
      if "bound_to s1 j e m" "j \<notin> M" "\<not> block_gone s1 e"
      using bs [OF that(1)] that holdsD(1) [OF h] od(1) bd by auto
    show "dev_sector s1 e m = V e m"
      if a: "e \<in> U" "m < sector_count (dev_at s1 e)" "\<not> block_gone s1 e" and
        cl: "\<And>j. bound_to s1 j e m \<Longrightarrow> \<not> dirty (buf_at s1 j)"
    proof -
      have "\<not> dirty (buf_at s j)" if "bound_to s j e m" for j
        using that a cl [of j] old [of e m] od(5) [of j] od(6) [of j e m] bd by (cases "j = i") (auto simp: bound_to_def)
      then show ?thesis using a holdsD(2) [OF h, of e m] od(1) bd by (auto simp: od(7))
    qed
    show "j < length (buffers s1) \<and> \<not> dirty (buf_at s1 j)" if "j \<in> M"
      using that M holdsD(3) [OF h, of j] od(2) od(5) [of j] by (cases "j = i") auto
    show "length (V e m) = sector_size (dev_at s1 e)" if "e \<in> U" "m < sector_count (dev_at s1 e)"
      using that holdsD(4) [OF h, of e m] od(1) by auto
  qed
  ultimately show ?thesis using v bd by (simp add: cache_inv_def)
qed

section \<open>Getting and putting\<close>

definition refs :: "disks \<Rightarrow> nat list" where
  "refs s = map refcnt (buffers s)"

lemma refs_cleaned: "cleaned C s s1 \<Longrightarrow> refs s1 = refs s"
  by (auto simp: refs_def cleaned_def same_frame_def intro!: nth_equalityI)

lemma refs_one_buf:
  "one_buf i s s1 \<Longrightarrow> i < length (buffers s) \<Longrightarrow> refs s1 = (refs s)[i := refcnt (buf_at s1 i)]"
  by (auto simp: refs_def one_buf_def same_frame_def nth_list_update intro!: nth_equalityI)

lemma block_read_one:
  assumes "block_read s (Some d) l 1 = (Inr xs, s1)" "vols_ok U s" "d \<in> U" "l < sector_count (dev_at s d)"
  shows "hd xs = dev_sector s d l" "\<not> block_gone s d"
proof -
  show "hd xs = dev_sector s d l"
    using block_read_spec(2) [OF assms(1) vols_okD(1,2) [OF assms(2,3)]] assms(4) by simp
  show "\<not> block_gone s d"
    using assms(1,4) resolve_eq [OF vols_okD(1,2) [OF assms(2,3)], of l]
    by (auto simp: block_read_def block_gone_def split: if_splits)
qed

text \<open>The victim's old contents are safe before it is bound again.\<close>

lemma victim_clean:
  assumes inv: "cache_inv U V M s" and i: "i < length (buffers s)"
    and w: "(if valid (buf_at s i) \<and> dirty (buf_at s i) \<and> (P \<longrightarrow> \<not> block_gone s (the (bdev (buf_at s i)))) then writeback s i
      else (Inr (), 0, s)) = (r, n, s1)"
  shows "cache_inv U V M s1" "\<exists>C. cleaned C s s1"
    "r = Inr () \<Longrightarrow> bound_to s1 i e m \<Longrightarrow> dirty (buf_at s1 i) \<Longrightarrow> block_gone s1 e"
proof -
  let ?c = "valid (buf_at s i) \<and> dirty (buf_at s i) \<and> (P \<longrightarrow> \<not> block_gone s (the (bdev (buf_at s i))))"
  have "cache_inv U V M s1 \<and> (\<exists>C. cleaned C s s1 \<and> (r = Inr () \<longrightarrow> bound_to s1 i e m \<longrightarrow> dirty (buf_at s1 i) \<longrightarrow> block_gone s1 e))"
  proof (cases ?c)
    case True
    then have w: "writeback s i = (r, n, s1)" using w by simp
    from writeback_spec(1) [OF inv i _ this] True obtain C where
      C: "cleaned C s s1" "r = Inr () \<longrightarrow> i \<in> C \<or> \<not> dirty (buf_at s i)" by blast
    then show ?thesis using writeback_spec(2) [OF inv i _ w] True cleanedD(5) [OF C(1) i] by blast
  next
    case False
    then have "s1 = s" "r = Inr ()" using w by auto
    then show ?thesis using False inv cleaned_same [of s s] by (auto simp: bound_to_def)
  qed
  then show "cache_inv U V M s1" "\<exists>C. cleaned C s s1"
    "r = Inr () \<Longrightarrow> bound_to s1 i e m \<Longrightarrow> dirty (buf_at s1 i) \<Longrightarrow> block_gone s1 e" by blast+
qed

lemma rebind_spec:
  assumes "i < length (buffers s)"
  shows "one_buf i s (rebind s i d l)" "bound_to (rebind s i d l) i d l" "\<not> dirty (buf_at (rebind s i d l) i)"
    "refcnt (buf_at (rebind s i d l) i) = 1" "data (buf_at (rebind s i d l) i) = data (buf_at s i)"
  using assms one_buf_set(2) [of i s] by (simp_all add: rebind_def Let_def bound_to_def) (simp_all add: set_buf_def)

lemma lock_buf_spec:
  assumes "i < length (buffers s)"
  shows "one_buf i s (lock_buf s i)"
    "buf_at (lock_buf s i) i = (buf_at s i)\<lparr>refcnt := u32 (refcnt (buf_at s i) + 1), last_use := clock (tick s)\<rparr>"
  using assms one_buf_set(2) [of i s] by (simp_all add: lock_buf_def Let_def) (simp_all add: set_buf_def)

lemma cache_put_spec:
  assumes "i < length (buffers s)"
  shows "one_buf i s (cache_put s i q)"
    "buf_at (cache_put s i q) i = (buf_at s i)\<lparr>dirty := (dirty (buf_at s i) \<or> q), refcnt := refcnt (buf_at s i) - 1, last_use := clock (tick s)\<rparr>"
  using assms one_buf_set(2) [of i s] by (simp_all add: cache_put_def Let_def) (simp_all add: set_buf_def)

text \<open>A change of locks, of the age and of nothing else.\<close>

lemma cache_inv_relock:
  assumes inv: "cache_inv U V M s" and one: "one_buf i s s1" and i: "i < length (buffers s)"
    and dl: "bound_to s i d l"
    and eq: "data (buf_at s1 i) = data (buf_at s i)" "bdev (buf_at s1 i) = bdev (buf_at s i)" "blba (buf_at s1 i) = blba (buf_at s i)"
      "valid (buf_at s1 i) = valid (buf_at s i)" "dirty (buf_at s1 i) = dirty (buf_at s i)"
  shows "cache_inv U V M s1"
proof -
  note b = cache_invD(2) [OF inv] and h = cache_invD(3) [OF inv]
  show ?thesis
  proof (rule cache_inv_bind [OF inv one i])
    show "bound_to s1 i d l" using dl eq one_bufD(2) [OF one] by (simp add: bound_to_def)
    show "length (data (buf_at s1 i)) = block_sz" using bufs_okD(1) [OF b i] eq by simp
    show "\<not> bound_to s j d l" if "j \<noteq> i" for j using bufs_okD(4) [OF b dl] that by blast
    show "block_gone s e" if "bound_to s i e m" "(e, m) \<noteq> (d, l)" for e m using that dl by (auto simp: bound_to_def)
    show "length (V d l) = sector_size (dev_at s d)" using holdsD(4) [OF h] bufs_okD(2,3) [OF b dl] by blast
    show "\<not> dirty (buf_at s1 i)" if "i \<in> M" using holdsD(3) [OF h that] eq by simp
    show "take (sector_size (dev_at s d)) (data (buf_at s1 i)) = V d l" if "i \<notin> M" "\<not> block_gone s d"
      using holdsD(1) [OF h dl that] eq by simp
    show "dev_sector s d l = V d l" if "\<not> block_gone s d" "\<not> dirty (buf_at s1 i)"
      using holdsD(2) [OF h bufs_okD(2,3) [OF b dl] that(1)] bufs_okD(4) [OF b dl] that(2) eq by metis
  qed (use bufs_okD(2,3) [OF b dl] in auto)
qed

lemma cache_get_hit:
  assumes inv: "cache_inv U V M s" and b: "bound_to s i d l" and s1: "s1 = lock_buf s i"
  shows "cache_inv U V M s1" "one_buf i s s1" "bound_to s1 i d l" "data (buf_at s1 i) = data (buf_at s i)"
    "refs s1 = (refs s)[i := u32 (refs s ! i + 1)]"
proof -
  have i: "i < length (buffers s)" using b by (simp add: bound_to_def)
  note ls = lock_buf_spec [OF i, folded s1]
  show one: "one_buf i s s1" by (rule ls(1))
  show "bound_to s1 i d l" "data (buf_at s1 i) = data (buf_at s i)"
    using b ls(2) one_bufD(2) [OF one] by (simp_all add: bound_to_def)
  show "refs s1 = (refs s)[i := u32 (refs s ! i + 1)]"
    unfolding refs_one_buf [OF one i] ls(2) using i by (simp add: refs_def)
  show "cache_inv U V M s1" by (rule cache_inv_relock [OF inv one i b]) (simp_all add: ls(2))
qed

lemma get_miss_spec:
  assumes inv: "cache_inv U V {} s" and i: "i < length (buffers s)" and dl: "d \<in> U" "l < sector_count (dev_at s d)"
    and free: "\<And>j. \<not> bound_to s j d l"
    and old: "\<forall>e m. bound_to s i e m \<longrightarrow> dirty (buf_at s i) \<longrightarrow> block_gone s e"
    and ref: "refcnt (buf_at s i) = 0"
    and g: "get_miss s i d l = (r, s1)"
  shows "cache_inv U V {} s1" "one_buf i s s1" "r = Inl e \<Longrightarrow> refs s1 = refs s"
    "r = Inr j \<Longrightarrow> j = i \<and> bound_to s1 i d l \<and> \<not> block_gone s d \<and> take (sector_size (dev_at s d)) (data (buf_at s1 i)) = V d l \<and>
       refs s1 = (refs s)[i := u32 (refs s ! i + 1)]"
proof -
  note v = cache_invD(1) [OF inv] and b = cache_invD(2) [OF inv] and h = cache_invD(3) [OF inv]
  let ?ss = "sector_size (dev_at s d)"
  note vd = vols_okD [OF v dl(1)]
  define s2 where "s2 = rebind s i d l"
  note rb = rebind_spec [OF i, of d l, folded s2_def]
  have i2: "i < length (buffers s2)" using one_bufD(2) [OF rb(1)] i by simp
  define s3 where "s3 = (if block_sz > ?ss
      then set_buf s2 i ((buf_at s2 i)\<lparr>data := take ?ss (data (buf_at s2 i)) @ replicate (block_sz - ?ss) 0\<rparr>) else s2)"
  have one3: "one_buf i s s3"
    using rb(1) one_buf_trans [OF rb(1) one_buf_set(1)] by (simp add: s3_def)
  have b3: "bound_to s3 i d l" "\<not> dirty (buf_at s3 i)" "refcnt (buf_at s3 i) = 1" "length (data (buf_at s3 i)) = block_sz"
    using rb i2 bufs_okD(1) [OF b i] vd(3)
    by (auto simp: s3_def bound_to_def buf_at_set) (auto simp: set_buf_def)
  obtain q s4 where q: "block_read s3 (Some d) l 1 = (q, s4)" by force
  note v3 = by_devices(5) [OF one_bufD(1) [OF one3], of U] and d3 = one_bufD(1) [OF one3]
  have rd: "same_but_faults s3 s4"
    using block_read_spec(1) [OF q] vd(1,2) dl(2) by (simp add: d3 by_devices [OF d3])
  have one4: "one_buf i s s4" using one3 same_but_faultsD [OF rd] by (simp add: one_buf_def same_frame_def)
  have b4: "buf_at s4 i = buf_at s3 i" "i < length (buffers s4)"
    using same_but_faultsD [OF rd] one_bufD(2) [OF one3] i by simp_all
  have V: "dev_sector s d l = V d l" if "\<not> block_gone s d" using holdsD(2) [OF h dl that] free by blast
  have gm: "(r, s1) = (case q of
      Inr xs \<Rightarrow> (Inr i, set_buf s4 i ((buf_at s4 i)\<lparr>data := hd xs @ drop ?ss (data (buf_at s4 i))\<rparr>))
    | Inl e \<Rightarrow> (Inl e, set_buf s4 i ((buf_at s4 i)\<lparr>valid := False, refcnt := 0\<rparr>)))"
  proof -
    have e: "dev_at s2 d = dev_at s d" using one_bufD(1) [OF rb(1)] by simp
    show ?thesis
      using g unfolding get_miss_def Let_def s2_def [symmetric] e s3_def [symmetric] q by (simp split: sum.splits)
  qed
  have one1: "one_buf i s s1"
    using gm one_buf_trans [OF one4 one_buf_set(1)] by (auto split: sum.splits)
  have main: "cache_inv U V {} s1 \<and> (\<forall>e. r = Inl e \<longrightarrow> refs s1 = refs s) \<and>
    (\<forall>j. r = Inr j \<longrightarrow> j = i \<and> bound_to s1 i d l \<and> \<not> block_gone s d \<and> take ?ss (data (buf_at s1 i)) = V d l \<and>
       refs s1 = (refs s)[i := u32 (refs s ! i + 1)])"
  proof (cases q)
    case (Inl e)
    then have s1: "r = Inl e" "buf_at s1 i = (buf_at s4 i)\<lparr>valid := False, refcnt := 0\<rparr>"
      using gm b4 by (auto simp: buf_at_set)
    have "cache_inv U V {} s1"
      by (rule cache_inv_unbind [OF inv one1 i]) (use s1 b4 b3 old in auto)
    moreover have "refs s1 = refs s"
      unfolding refs_one_buf [OF one1 i] using s1(2) ref i by (simp add: refs_def list_update_same_conv)
    ultimately show ?thesis using s1 by simp
  next
    case (Inr xs)
    then have s1: "r = Inr i" "buf_at s1 i = (buf_at s4 i)\<lparr>data := hd xs @ drop ?ss (data (buf_at s4 i))\<rparr>"
      using gm b4 by (auto simp: buf_at_set)
    have x: "hd xs = dev_sector s d l" "\<not> block_gone s d"
      using block_read_one [OF q [unfolded Inr], of U] v v3 dl d3 one_bufD(7) [OF one3] by (simp_all add: by_devices [OF d3])
    have lx: "length (hd xs) = ?ss" using x V holdsD(4) [OF h dl] by simp
    have bt: "bound_to s1 i d l" using b3(1) s1(2) b4 one_bufD(2) [OF one1] i by (simp add: bound_to_def)
    have tk: "take ?ss (data (buf_at s1 i)) = V d l" using s1(2) lx x V by simp
    have "cache_inv U V {} s1"
    proof (rule cache_inv_bind [OF inv one1 i bt dl])
      show "length (data (buf_at s1 i)) = block_sz" using s1(2) lx b4 b3(4) vd(3) by simp
    qed (use free old holdsD(4) [OF h dl] tk V in auto)
    moreover have "refs s1 = (refs s)[i := u32 (refs s ! i + 1)]"
      unfolding refs_one_buf [OF one1 i] using s1(2) b4 b3(3) ref i by (simp add: refs_def u32_def)
    ultimately show ?thesis using s1 bt tk x by simp
  qed
  then show "cache_inv U V {} s1" "r = Inl e \<Longrightarrow> refs s1 = refs s"
    "r = Inr j \<Longrightarrow> j = i \<and> bound_to s1 i d l \<and> \<not> block_gone s d \<and> take ?ss (data (buf_at s1 i)) = V d l \<and>
       refs s1 = (refs s)[i := u32 (refs s ! i + 1)]" by blast+
  show "one_buf i s s1" by (rule one1)
qed

lemma cache_get_spec:
  assumes inv: "cache_inv U V {} s" and d: "d \<in> U" and g: "cache_get s (Some d) l = (r, s1)"
  shows "cache_inv U V {} s1" "same_frame s s1" "r = Inl e \<Longrightarrow> refs s1 = refs s"
    "r = Inr i \<Longrightarrow> bound_to s1 i d l \<and> l < sector_count (dev_at s d) \<and> i < length (buffers s) \<and>
       (\<not> block_gone s d \<longrightarrow> take (sector_size (dev_at s d)) (data (buf_at s1 i)) = V d l) \<and>
       refs s1 = (refs s)[i := u32 (refs s ! i + 1)]"
proof -
  have "cache_inv U V {} s1 \<and> same_frame s s1 \<and> (\<forall>e. r = Inl e \<longrightarrow> refs s1 = refs s) \<and>
    (\<forall>i. r = Inr i \<longrightarrow> bound_to s1 i d l \<and> l < sector_count (dev_at s d) \<and> i < length (buffers s) \<and>
       (\<not> block_gone s d \<longrightarrow> take (sector_size (dev_at s d)) (data (buf_at s1 i)) = V d l) \<and>
       refs s1 = (refs s)[i := u32 (refs s ! i + 1)])" (is "?goal")
  proof (cases "\<not> inited s \<or> l \<ge> sector_count (dev_at s d)")
    case True
    then have "s1 = s" "\<exists>e. r = Inl e" using g by (auto simp: cache_get_def split: if_splits)
    with inv show ?thesis by auto
  next
    case ok: False
    then have l: "l < sector_count (dev_at s d)" by simp
    show ?thesis
    proof (cases "find_buffer s d l")
      case (Some i)
      then have "r = Inr i" "s1 = lock_buf s i" using g ok by (auto simp: cache_get_def)
      moreover note b = find_buffer_Some [OF Some]
      note hit = cache_get_hit [OF inv b \<open>s1 = lock_buf s i\<close>]
      have "\<not> block_gone s d \<longrightarrow> take (sector_size (dev_at s d)) (data (buf_at s1 i)) = V d l"
        using holdsD(1) [OF cache_invD(3) [OF inv] b] hit(4) by simp
      ultimately show ?thesis using hit l b by (auto simp: one_buf_def bound_to_def)
    next
      case None
      note nb = find_buffer_None [OF None]
      show ?thesis
      proof (cases "pick_victim s")
        case vn: None
        with g ok None inv show ?thesis by (auto simp: cache_get_def)
      next
        case (Some i)
        note pv = pick_victim_Some [OF Some]
        let ?w = "if valid (buf_at s i) \<and> dirty (buf_at s i) \<and> (True \<longrightarrow> \<not> block_gone s (the (bdev (buf_at s i)))) then writeback s i
          else (Inr (), 0, s)"
        obtain q n s2 where w: "?w = (q, n, s2)" by (metis prod_cases3)
        note vc = victim_clean [OF inv conjunct1 [OF pv] w]
        obtain C where C: "cleaned C s s2" using vc(2) by blast
        note cd = cleanedD [OF C] and cb = cleaned_bound [OF C] and bd = by_devices [OF cleanedD(1) [OF C]]
        have res: "(r, s1) = (case q of Inl e \<Rightarrow> (Inl e, s2) | Inr _ \<Rightarrow> get_miss s2 i d l)"
          using g ok None Some w by (simp add: cache_get_def Let_def split: sum.splits)
        show ?thesis
        proof (cases q)
          case (Inl e)
          then show ?thesis using res vc(1) refs_cleaned [OF C] C by (auto simp: cleaned_def)
        next
          case (Inr u)
          then have gm: "get_miss s2 i d l = (r, s1)" and q: "q = Inr ()" using res by auto
          have i2: "i < length (buffers s2)" "refcnt (buf_at s2 i) = 0" "l < sector_count (dev_at s2 d)"
            using pv cd l by auto
          have fr: "\<not> bound_to s2 j d l" for j using nb cb by blast
          have old: "\<forall>e m. bound_to s2 i e m \<longrightarrow> dirty (buf_at s2 i) \<longrightarrow> block_gone s2 e"
            using vc(3) [OF q] by blast
          note m = get_miss_spec [OF vc(1) i2(1) d i2(3) fr old i2(2) gm]
          have "same_frame s s1" using m(2) C same_frame_trans [of s s2 s1] by (simp add: one_buf_def cleaned_def)
          then show ?thesis using m(1,3,4) refs_cleaned [OF C] bd cd(1) l pv by auto
        qed
      qed
    qed
  qed
  then show "cache_inv U V {} s1" "same_frame s s1" "r = Inl e \<Longrightarrow> refs s1 = refs s"
    "r = Inr i \<Longrightarrow> bound_to s1 i d l \<and> l < sector_count (dev_at s d) \<and> i < length (buffers s) \<and>
       (\<not> block_gone s d \<longrightarrow> take (sector_size (dev_at s d)) (data (buf_at s1 i)) = V d l) \<and>
       refs s1 = (refs s)[i := u32 (refs s ! i + 1)]" by blast+
qed

lemma cache_put_clean:
  assumes inv: "cache_inv U V M s" and b: "bound_to s i d l"
  shows "cache_inv U V M (cache_put s i False)" "same_frame s (cache_put s i False)"
    "refs (cache_put s i False) = (refs s)[i := refs s ! i - 1]"
proof -
  have i: "i < length (buffers s)" using b by (simp add: bound_to_def)
  note p = cache_put_spec [OF i, of False]
  show "cache_inv U V M (cache_put s i False)"
    by (rule cache_inv_relock [OF inv p(1) i b]) (simp_all add: p(2))
  show "same_frame s (cache_put s i False)" using p(1) by (simp add: one_buf_def)
  show "refs (cache_put s i False) = (refs s)[i := refs s ! i - 1]"
    unfolding refs_one_buf [OF p(1) i] p(2) using i by (simp add: refs_def)
qed

text \<open>The bytes of a locked buffer are changed, and it is put back dirty.\<close>

definition set_data :: "disks \<Rightarrow> nat \<Rightarrow> byte list \<Rightarrow> disks" where
  "set_data s i x = set_buf s i ((buf_at s i)\<lparr>data := x\<rparr>)"

lemma cache_put_dirty:
  assumes inv: "cache_inv U V {} s" and b: "bound_to s i d l"
    and x: "length x = block_sz" and s1: "s1 = cache_put (set_data s i x) i True"
  shows "cache_inv U (V(d := (V d)(l := take (sector_size (dev_at s d)) x))) {} s1" "same_frame s s1"
    "refs s1 = (refs s)[i := refs s ! i - 1]"
proof -
  note bk = cache_invD(2) [OF inv] and v = cache_invD(1) [OF inv]
  have i: "i < length (buffers s)" "i < length (buffers (set_data s i x))" using b by (auto simp: bound_to_def set_data_def set_buf_def)
  note p = cache_put_spec [OF i(2), of True, folded s1]
  have one: "one_buf i s s1" using one_buf_trans [OF one_buf_set(1) p(1) [unfolded set_data_def]] by (simp add: set_data_def)
  have e: "buf_at s1 i = (buf_at s i)\<lparr>data := x, dirty := True, refcnt := refcnt (buf_at s i) - 1, last_use := clock (tick (set_data s i x))\<rparr>"
    using p(2) i by (simp add: set_data_def buf_at_set)
  show "same_frame s s1" using one by (simp add: one_buf_def)
  show "refs s1 = (refs s)[i := refs s ! i - 1]" unfolding refs_one_buf [OF one i(1)] e using i by (simp add: refs_def)
  show "cache_inv U (V(d := (V d)(l := take (sector_size (dev_at s d)) x))) {} s1"
  proof (rule cache_inv_bind [OF inv one i(1), of d l])
    show "bound_to s1 i d l" using b e one_bufD(2) [OF one] by (simp add: bound_to_def)
    show "d \<in> U" "l < sector_count (dev_at s d)" using bufs_okD(2,3) [OF bk b] by auto
    show "\<not> bound_to s j d l" if "j \<noteq> i" for j using bufs_okD(4) [OF bk b] that by blast
    show "block_gone s f" if "bound_to s i f m" "(f, m) \<noteq> (d, l)" for f m using that b by (auto simp: bound_to_def)
  qed (use e x vols_okD(3) [OF v bufs_okD(2) [OF bk b]] in auto)
qed

section \<open>Filling a range\<close>

definition same_keys :: "disks \<Rightarrow> disks \<Rightarrow> bool" where
  "same_keys s s1 \<longleftrightarrow> same_frame s s1 \<and> medium s1 = medium s \<and>
     (\<forall>i < length (buffers s). (buf_at s1 i)\<lparr>data := []\<rparr> = (buf_at s i)\<lparr>data := []\<rparr>)"

lemma same_key_fields:
  "(b :: buf)\<lparr>data := []\<rparr> = c\<lparr>data := []\<rparr> \<Longrightarrow>
    bdev b = bdev c \<and> blba b = blba c \<and> valid b = valid c \<and> dirty b = dirty c \<and> refcnt b = refcnt c"
  by (cases b; cases c) simp

lemma same_keys_refl [simp]: "same_keys s s"
  by (simp add: same_keys_def)

lemma same_keys_trans: "same_keys s s1 \<Longrightarrow> same_keys s1 s2 \<Longrightarrow> same_keys s s2"
  by (simp add: same_keys_def same_frame_def)

lemma same_keysD:
  assumes "same_keys s s1"
  shows "devices s1 = devices s" "length (buffers s1) = length (buffers s)" "medium s1 = medium s"
    "bound_to s1 i d l = bound_to s i d l" "refs s1 = refs s" "dev_sector s1 d l = dev_sector s d l"
proof -
  show a: "devices s1 = devices s" "length (buffers s1) = length (buffers s)" "medium s1 = medium s"
    using assms by (auto simp: same_keys_def same_frame_def)
  have k: "bdev (buf_at s1 j) = bdev (buf_at s j) \<and> blba (buf_at s1 j) = blba (buf_at s j) \<and>
      valid (buf_at s1 j) = valid (buf_at s j) \<and> refcnt (buf_at s1 j) = refcnt (buf_at s j)"
    if "j < length (buffers s)" for j
  proof -
    have "(buf_at s1 j)\<lparr>data := []\<rparr> = (buf_at s j)\<lparr>data := []\<rparr>" using assms that unfolding same_keys_def by blast
    from same_key_fields [OF this] show ?thesis by blast
  qed
  show "bound_to s1 i d l = bound_to s i d l" using k [of i] a(2) by (auto simp: bound_to_def)
  show "refs s1 = refs s" unfolding refs_def using k a(2) by (intro nth_equalityI) simp_all
  show "dev_sector s1 d l = dev_sector s d l" unfolding dev_sector_def by_devices [OF a(1)] a(3) ..
qed

lemma fill_buf_spec:
  assumes inv: "cache_inv U V M s" and b: "bound_to s i d l" "i \<in> M"
    and x: "\<not> block_gone s d \<Longrightarrow> x = V d l" "length x = sector_size (dev_at s d)"
    and s1: "s1 = fill_buf (sector_size (dev_at s d)) s i x"
  shows "cache_inv U V (M - {i}) s1" "same_keys s s1"
proof -
  note v = cache_invD(1) [OF inv] and bk = cache_invD(2) [OF inv] and h = cache_invD(3) [OF inv]
  note dl = bufs_okD(2,3) [OF bk b(1)]
  have i: "i < length (buffers s)" using b by (simp add: bound_to_def)
  have one: "one_buf i s s1" unfolding s1 fill_buf_def by (rule one_buf_set)
  let ?ss = "sector_size (dev_at s d)"
  define y where "y = (if block_sz > ?ss then x @ replicate (block_sz - ?ss) 0 else x @ drop ?ss (data (buf_at s i)))"
  have e: "buf_at s1 i = (buf_at s i)\<lparr>data := y\<rparr>" using i by (simp add: s1 fill_buf_def buf_at_set y_def)
  have ly: "length y = block_sz" "take ?ss y = x"
    using x(2) vols_okD(3) [OF v dl(1)] bufs_okD(1) [OF bk i] by (auto simp: y_def)
  show "cache_inv U V (M - {i}) s1"
  proof (rule cache_inv_bind [OF inv one i])
    show "bound_to s1 i d l" using b e one_bufD(2) [OF one] by (simp add: bound_to_def)
    show "\<not> bound_to s j d l" if "j \<noteq> i" for j using bufs_okD(4) [OF bk b(1)] that by blast
    show "block_gone s f" if "bound_to s i f m" "(f, m) \<noteq> (d, l)" for f m using that b by (auto simp: bound_to_def)
    show "dev_sector s d l = V d l" if "\<not> block_gone s d"
      using holdsD(2) [OF h dl that] bufs_okD(4) [OF bk b(1)] holdsD(3) [OF h b(2)] by metis
  qed (use dl e ly x holdsD(4) [OF h dl] in auto)
  show "same_keys s s1"
    unfolding same_keys_def
  proof (intro conjI allI impI)
    show "same_frame s s1" "medium s1 = medium s" using one by (auto simp: one_buf_def)
    show "(buf_at s1 j)\<lparr>data := []\<rparr> = (buf_at s j)\<lparr>data := []\<rparr>" if "j < length (buffers s)" for j
      using that e one_bufD(5) [OF one that] by (cases "j = i") auto
  qed
qed

text \<open>Buffers bound to consecutive sectors.\<close>

definition bound_run :: "disks \<Rightarrow> nat \<Rightarrow> nat \<Rightarrow> nat list \<Rightarrow> bool" where
  "bound_run s d l is \<longleftrightarrow> (\<forall>k < length is. bound_to s (is ! k) d (l + k))"

lemma bound_run_keys: "same_keys s s1 \<Longrightarrow> bound_run s1 d l is = bound_run s d l is"
  by (simp add: bound_run_def same_keysD(4))

lemma bound_run_distinct: "bound_run s d l is \<Longrightarrow> distinct is"
  unfolding distinct_conv_nth bound_run_def bound_to_def by (metis add_left_cancel)

lemma fill_fold:
  assumes "cache_inv U V M s" "bound_run s d l is" "set is \<subseteq> M" "length xs = length is"
    and "\<And>k. k < length is \<Longrightarrow> length (xs ! k) = sector_size (dev_at s d) \<and> (\<not> block_gone s d \<longrightarrow> xs ! k = V d (l + k))"
    and "n \<le> length is"
  shows "cache_inv U V (M - set (take n is)) (foldl (\<lambda>s k. fill_buf (sector_size (dev_at s d)) s (is ! k) (xs ! k)) s [0..<n]) \<and>
    same_keys s (foldl (\<lambda>s k. fill_buf (sector_size (dev_at s d)) s (is ! k) (xs ! k)) s [0..<n])"
  using assms(6)
proof (induction n)
  case 0
  then show ?case using assms(1) by simp
next
  case (Suc n)
  let ?s = "foldl (\<lambda>s k. fill_buf (sector_size (dev_at s d)) s (is ! k) (xs ! k)) s [0..<n]"
  have IH: "cache_inv U V (M - set (take n is)) ?s" "same_keys s ?s" using Suc by auto
  note kd = same_keysD [OF IH(2)] and bd = by_devices [OF same_keysD(1) [OF IH(2)]]
  have n: "n < length is" using Suc.prems by simp
  have tk: "take (Suc n) is = take n is @ [is ! n]" using n by (rule take_Suc_conv_app_nth)
  have new: "is ! n \<in> M - set (take n is)"
    using n assms(3) bound_run_distinct [OF assms(2)] tk by (metis Diff_iff distinct_append distinct_take disjoint_insert(1) list.simps(15) nth_mem subsetD)
  have b: "bound_to ?s (is ! n) d (l + n)" using assms(2) n kd(4) by (simp add: bound_run_def)
  have x: "\<not> block_gone ?s d \<Longrightarrow> xs ! n = V d (l + n)" "length (xs ! n) = sector_size (dev_at ?s d)"
    using assms(5) [OF n] bd kd(1) by auto
  note fb = fill_buf_spec [OF IH(1) b new x refl]
  have "M - set (take n is) - {is ! n} = M - set (take (Suc n) is)" unfolding tk by auto
  then show ?case using fb same_keys_trans [OF IH(2)] by simp
qed

end
