(* ===== verification/Bcflush.thy ===== *)
theory Bcflush
  imports Bcache
begin

text \<open>
  The operations of the sector cache on many buffers: \<open>get_range\<close>, \<open>flush\<close> and \<open>release\<close>
  (src/src/kernel/dev/bcache.cpp, defined in the theory of the cache), the properties of the cache
  and the contract its clients use.

  \<open>get_range\<close> that fails after it bound buffers to missing sectors leaves them valid with the bytes
  of other sectors (\<open>get_range_leaves_stale\<close>): the invariant then holds with a nonempty set of
  unfilled buffers, and no more is claimed of a failed call.
\<close>

section \<open>Filling a run of misses\<close>

lemma fill_chunks_spec:
  assumes "fill_chunks s d l is chunk don = (r, s1)" "cache_inv U V M s" "bound_run s d l is" "d \<in> U" "set (drop don is) \<subseteq> M"
    and "0 < chunk" "don \<le> length is" "l + length is \<le> sector_count (dev_at s d)"
  shows "same_keys s s1 \<and> (\<exists>M'. cache_inv U V M' s1) \<and> (r = Inr () \<longrightarrow> cache_inv U V (M - set (drop don is)) s1)"
  using assms
proof (induction s d l "is" chunk don arbitrary: M rule: fill_chunks.induct)
  case (1 s d l "is" chunk don)
  show ?case
  proof (cases "don < length is")
    case False
    then have "drop don is = []" "r = Inr ()" "s1 = s" using "1.prems" by (auto simp: fill_chunks.simps)
    then show ?thesis using "1.prems"(2) by auto
  next
    case True
    note inv = "1.prems"(2) and run = "1.prems"(3)
    note v = cache_invD(1) [OF inv] and b = cache_invD(2) [OF inv] and h = cache_invD(3) [OF inv]
    note vd = vols_okD [OF v "1.prems"(4)]
    define n where "n = min (length is - don) chunk"
    have n: "0 < n" "don + n \<le> length is" using True "1.prems"(6) by (auto simp: n_def)
    have w: "u64 (l + don) = l + don" using vd(4) "1.prems"(8) True by (simp add: u64_def)
    obtain q s2 where q: "block_read s (Some d) (l + don) n = (q, s2)" by force
    have cs: "fill_chunks s d l is chunk don = (case q of Inl e \<Rightarrow> (Inl e, s2) | Inr xs \<Rightarrow>
        fill_chunks (foldl (\<lambda>s k. fill_buf (sector_size (dev_at s d)) s (is ! (don + k)) (xs ! k)) s2 [0..<n]) d l is chunk (don + n))"
      using True "1.prems"(6) q by (subst fill_chunks.simps) (simp add: Let_def n_def w split: sum.splits)
    have fit: "l + don + n \<le> sector_count (dev_at s d)" using n "1.prems"(8) by simp
    note br = block_read_spec [OF q vd(1,2) fit]
    note fr = same_but_faultsD [OF br(1)]
    have k2: "same_keys s s2" using fr by (simp add: same_keys_def same_frame_def)
    have inv2: "cache_inv U V M s2"
      using inv fr by (simp add: cache_inv_def vols_ok_def bufs_ok_def holds_def bound_to_def dev_sector_def disk_of_def start_of_def
          live_dev_def block_gone_def cong: option.case_cong)
    show ?thesis
    proof (cases q)
      case (Inl e)
      then show ?thesis using cs "1.prems"(1) k2 inv2 by auto
    next
      case (Inr xs)
      let ?js = "take n (drop don is)"
      have xs: "xs = map (\<lambda>i. dev_sector s d (l + don + i)) [0..<n]" using br(2) Inr by blast
      have ng: "\<not> block_gone s d"
        using q Inr resolve_eq [OF vd(1,2), of "l + don"] fit n by (auto simp: block_read_def block_gone_def split: if_splits)
      have js: "bound_run s2 d (l + don) ?js" "set ?js \<subseteq> M"
        using run n same_keysD(4) [OF k2] "1.prems"(5) set_take_subset [of n "drop don is"] by (auto simp: bound_run_def add.assoc)
      have lj: "length ?js = n" using n by simp
      have V: "dev_sector s d (l + don + k) = V d (l + don + k)" if "k < n" for k
      proof (rule holdsD(2) [OF h "1.prems"(4) _ ng])
        show "l + don + k < sector_count (dev_at s d)" using fit that by simp
        have bk: "bound_to s (is ! (don + k)) d (l + don + k)" using run n that by (simp add: bound_run_def add.assoc)
        have "is ! (don + k) = drop don is ! k" "k < length (drop don is)" using n that by simp_all
        then have "is ! (don + k) \<in> M" using "1.prems"(5) nth_mem by (metis subsetD)
        then show "\<not> dirty (buf_at s i)" if "bound_to s i d (l + don + k)" for i
          using bufs_okD(4) [OF b that bk] holdsD(3) [OF h] by blast
      qed
      have vx: "length (xs ! k) = sector_size (dev_at s2 d) \<and> (\<not> block_gone s2 d \<longrightarrow> xs ! k = V d (l + don + k))" if "k < length ?js" for k
        using that lj xs V [of k] holdsD(4) [OF h "1.prems"(4), of "l + don + k"] fit fr(2) by simp
      define s3 where "s3 = foldl (\<lambda>s k. fill_buf (sector_size (dev_at s d)) s (is ! (don + k)) (xs ! k)) s2 [0..<n]"
      have s3: "s3 = foldl (\<lambda>s k. fill_buf (sector_size (dev_at s d)) s (?js ! k) (xs ! k)) s2 [0..<n]"
        unfolding s3_def using n by (intro foldl_cong) auto
      have rec: "fill_chunks s3 d l is chunk (don + n) = (r, s1)" using cs Inr "1.prems"(1) by (simp add: s3_def)
      have f3: "cache_inv U V (M - set ?js) s3" "same_keys s2 s3"
        using fill_fold [OF inv2 js(1,2) _ vx, of n] lj xs unfolding s3 by auto
      have k3: "same_keys s s3" using same_keys_trans [OF k2 f3(2)] .
      have dj: "set (drop (don + n) is) \<subseteq> M - set ?js"
      proof -
        have "drop don is = ?js @ drop (don + n) is" by (metis add.commute append_take_drop_id drop_drop)
        moreover have "distinct (drop don is)" using bound_run_distinct [OF run] by simp
        ultimately have "set ?js \<inter> set (drop (don + n) is) = {}" by (metis distinct_append)
        then show ?thesis using "1.prems"(5) set_drop_subset_set_drop [of don "don + n" "is"] by auto
      qed
      have IH: "same_keys s3 s1 \<and> (\<exists>M'. cache_inv U V M' s1) \<and> (r = Inr () \<longrightarrow> cache_inv U V (M - set ?js - set (drop (don + n) is)) s1)"
      proof -
        have ih: "\<And>M. fill_chunks s3 d l is chunk (don + n) = (r, s1) \<Longrightarrow> cache_inv U V M s3 \<Longrightarrow> bound_run s3 d l is \<Longrightarrow>
            d \<in> U \<Longrightarrow> set (drop (don + n) is) \<subseteq> M \<Longrightarrow> 0 < chunk \<Longrightarrow> don + n \<le> length is \<Longrightarrow>
            l + length is \<le> sector_count (dev_at s3 d) \<Longrightarrow>
            same_keys s3 s1 \<and> (\<exists>M'. cache_inv U V M' s1) \<and> (r = Inr () \<longrightarrow> cache_inv U V (M - set (drop (don + n) is)) s1)"
          by (rule "1.IH" [OF conjI [OF True "1.prems"(6)] refl, unfolded n_def [symmetric] w, OF q [symmetric] Inr, folded s3_def])
        show ?thesis
          using "1.prems"(3,8) bound_run_keys [OF k3] same_keysD(1) [OF k3]
          by (intro ih [OF rec f3(1) _ "1.prems"(4) dj "1.prems"(6) n(2)]) simp_all
      qed
      have "M - set ?js - set (drop (don + n) is) = M - set (drop don is)"
      proof -
        have "set (drop don is) = set ?js \<union> set (drop (don + n) is)"
          by (metis add.commute append_take_drop_id drop_drop set_append)
        then show ?thesis by blast
      qed
      then show ?thesis using IH same_keys_trans [OF k3] by auto
    qed
  qed
qed

lemma kmalloc_ok_frame:
  assumes "kmalloc_ok s = (ok, s1)"
  shows "devices s1 = devices s" "buffers s1 = buffers s" "medium s1 = medium s" "inited s1 = inited s" "clock s1 = clock s"
  using assms by (auto simp: kmalloc_ok_def split: list.splits)

lemma cache_inv_same:
  assumes "devices s1 = devices s" "buffers s1 = buffers s" "medium s1 = medium s"
  shows "cache_inv U V M s1 = cache_inv U V M s"
proof -
  note bd = by_devices [OF assms(1)]
  have "bound_to s1 = bound_to s" by (simp add: fun_eq_iff bound_to_def assms)
  moreover have "dev_sector s1 = dev_sector s" by (simp add: fun_eq_iff dev_sector_def bd assms)
  ultimately show ?thesis
    unfolding cache_inv_def bd bufs_ok_def holds_def by (simp add: assms)
qed

lemma fill_run_spec:
  assumes "fill_run s d l is = (r, s1)" "cache_inv U V M s" "bound_run s d l is" "d \<in> U" "set is \<subseteq> M" "is \<noteq> []"
  shows "same_keys s s1 \<and> (\<exists>M'. cache_inv U V M' s1) \<and> (r = Inr () \<longrightarrow> cache_inv U V (M - set is) s1)"
proof -
  obtain ok s2 where k: "kmalloc_ok s = (ok, s2)" by force
  note fr = kmalloc_ok_frame [OF k]
  have inv2: "cache_inv U V M s2" using assms(2) cache_inv_same [OF fr(1-3)] by simp
  have k2: "same_keys s s2" using fr by (simp add: same_keys_def same_frame_def)
  show ?thesis
  proof (cases ok)
    case False
    then show ?thesis using assms(1) k inv2 k2 by (auto simp: fill_run_def)
  next
    case True
    have "bound_to s (last is) d (l + (length is - 1))" using assms(3,6) by (simp add: bound_run_def last_conv_nth)
    from bufs_okD(3) [OF cache_invD(2) [OF assms(2)] this] have fit: "l + length is \<le> sector_count (dev_at s2 d)"
      using assms(6) fr(1) by (cases "is") simp_all
    have "fill_chunks s2 d l is (min (length is) MAX_RANGE_CHUNK) 0 = (r, s1)"
      using assms(1) k True by (simp add: fill_run_def)
    from fill_chunks_spec [OF this inv2 _ assms(4) _ _ _ fit] assms(3,5,6)
    show ?thesis using same_keys_trans [OF k2] by (simp add: bound_run_keys [OF k2] MAX_RANGE_CHUNK_def)
  qed
qed

lemma bound_run_append: "bound_run s d l (a @ b) \<longleftrightarrow> bound_run s d l a \<and> bound_run s d (l + length a) b"
proof
  assume ab: "bound_run s d l (a @ b)"
  have "bound_to s (b ! k) d (l + length a + k)" if "k < length b" for k
    using ab that unfolding bound_run_def by (metis add.assoc length_append nat_add_left_cancel_less nth_append_length_plus)
  moreover have "bound_to s (a ! k) d (l + k)" if "k < length a" for k
    using ab that unfolding bound_run_def by (metis length_append nth_append trans_less_add1)
  ultimately show "bound_run s d l a \<and> bound_run s d (l + length a) b" by (simp add: bound_run_def)
next
  assume "bound_run s d l a \<and> bound_run s d (l + length a) b"
  then show "bound_run s d l (a @ b)" by (auto simp: bound_run_def nth_append) (metis add.assoc add_diff_inverse_nat less_diff_conv2 not_less nat_add_left_cancel_less)
qed

lemma bound_run_fits:
  assumes "cache_inv U V M s" "bound_run s d l is" "is \<noteq> []"
  shows "l + length is \<le> sector_count (dev_at s d)" "l + length is < 2 ^ 64" "d \<in> U"
proof -
  have b: "bound_to s (last is) d (l + (length is - 1))" using assms(2,3) by (simp add: bound_run_def last_conv_nth)
  show d: "d \<in> U" using bufs_okD(2) [OF cache_invD(2) [OF assms(1)] b] .
  show f: "l + length is \<le> sector_count (dev_at s d)"
    using bufs_okD(3) [OF cache_invD(2) [OF assms(1)] b] assms(3) by (cases "is") simp_all
  show "l + length is < 2 ^ 64" using f vols_okD(4) [OF cache_invD(1) [OF assms(1)] d] by simp
qed

lemma fill_pieces_spec:
  assumes "fill_pieces s d l is = (r, s1)" "cache_inv U V M s" "bound_run s d l is" "set is \<subseteq> M"
  shows "same_keys s s1 \<and> (\<exists>M'. cache_inv U V M' s1) \<and> (r = Inr () \<longrightarrow> cache_inv U V (M - set is) s1)"
  using assms
proof (induction s d l "is" arbitrary: M rule: fill_pieces.induct)
  case (1 s d l "is")
  show ?case
  proof (cases "is = []")
    case True
    then show ?thesis using "1.prems" by (auto simp: fill_pieces.simps)
  next
    case False
    define n where "n = min (length is) MAX_RANGE_CHUNK"
    have n: "take n is \<noteq> []" "length (take n is) = n" using False by (auto simp: n_def MAX_RANGE_CHUNK_def)
    have br: "bound_run s d l (take n is)" "bound_run s d (l + n) (drop n is)"
      using "1.prems"(3) bound_run_append [of s d l "take n is" "drop n is"] n(2) by auto
    note fits = bound_run_fits [OF "1.prems"(2,3) False]
    have w: "u64 (l + n) = l + n" using fits(2) by (simp add: u64_def n_def)
    obtain q s2 where q: "fill_run s d l (take n is) = (q, s2)" by force
    have sub: "set (take n is) \<subseteq> M" "set (drop n is) \<subseteq> M" using "1.prems"(4) set_take_subset set_drop_subset by fast+
    note fr = fill_run_spec [OF q "1.prems"(2) br(1) fits(3) sub(1) n(1)]
    have cs: "fill_pieces s d l is = (case q of Inl e \<Rightarrow> (Inl e, s2) | Inr _ \<Rightarrow> fill_pieces s2 d (l + n) (drop n is))"
      using False q w by (subst fill_pieces.simps) (simp add: Let_def n_def split: sum.splits)
    show ?thesis
    proof (cases q)
      case (Inl e)
      then show ?thesis using fr cs "1.prems"(1) by auto
    next
      case (Inr u)
      have "distinct (take n is @ drop n is)" using bound_run_distinct [OF "1.prems"(3)] by simp
      then have sub2: "set (drop n is) \<subseteq> M - set (take n is)" using sub by (auto simp only: distinct_append)
      have IH: "same_keys s2 s1 \<and> (\<exists>M'. cache_inv U V M' s1) \<and> (r = Inr () \<longrightarrow> cache_inv U V (M - set (take n is) - set (drop n is)) s1)"
      proof -
        have ih: "\<And>M. fill_pieces s2 d (l + n) (drop n is) = (r, s1) \<Longrightarrow> cache_inv U V M s2 \<Longrightarrow>
            bound_run s2 d (l + n) (drop n is) \<Longrightarrow> set (drop n is) \<subseteq> M \<Longrightarrow>
            same_keys s2 s1 \<and> (\<exists>M'. cache_inv U V M' s1) \<and> (r = Inr () \<longrightarrow> cache_inv U V (M - set (drop n is)) s1)"
          by (rule "1.IH" [OF False refl _ Inr, of s2, unfolded n_def [symmetric] w, OF q [symmetric]])
        show ?thesis
        proof (rule ih)
          show "fill_pieces s2 d (l + n) (drop n is) = (r, s1)" using cs Inr "1.prems"(1) by simp
          show "cache_inv U V (M - set (take n is)) s2" using fr Inr by simp
          show "bound_run s2 d (l + n) (drop n is)" using br(2) bound_run_keys fr by blast
        qed (rule sub2)
      qed
      have "set is = set (take n is) \<union> set (drop n is)" by (metis append_take_drop_id set_append)
      then have "M - set (take n is) - set (drop n is) = M - set is" by blast
      then show ?thesis using IH fr same_keys_trans by auto
    qed
  qed
qed


definition misses :: "(nat \<times> bool) list \<Rightarrow> nat set" where
  "misses out = {i. (i, True) \<in> set out}"

lemma fill_misses_spec:
  assumes "fill_misses s d l out = (r, s1)" "cache_inv U V M s" "bound_run s d l (map fst out)" "misses out \<subseteq> M"
  shows "same_keys s s1 \<and> (\<exists>M'. cache_inv U V M' s1) \<and> (r = Inr () \<longrightarrow> cache_inv U V (M - misses out) s1)"
  using assms
proof (induction s d l out arbitrary: M rule: fill_misses.induct)
  case (1 s d l)
  then show ?case by (auto simp: misses_def)
next
  case (2 s d l i out)
  note fits = bound_run_fits [OF "2.prems"(2,3)]
  have w: "u64 (l + 1) = l + 1" using fits(2) by (simp add: u64_def)
  have "bound_run s d (l + 1) (map fst out)" using "2.prems"(3) bound_run_append [of s d l "[i]" "map fst out"] by simp
  moreover have "misses ((i, False) # out) = misses out" by (simp add: misses_def)
  ultimately show ?case using 2 w by simp
next
  case (3 s d l i out)
  define run where "run = i # map fst (takeWhile snd out)"
  define rest where "rest = dropWhile snd out"
  note fits = bound_run_fits [OF "3.prems"(2,3)]
  have all: "map fst ((i, True) # out) = run @ map fst rest"
    by (simp add: run_def rest_def flip: map_append)
  have len: "length run \<le> length ((i, True) # out)" using all by (metis length_append length_map le_add1)
  have w: "u64 (l + length run) = l + length run" using fits(2) len by (simp add: u64_def)
  have br: "bound_run s d l run" "bound_run s d (l + length run) (map fst rest)"
    using "3.prems"(3) unfolding all bound_run_append by blast+
  have "set run = {i} \<union> fst ` set (takeWhile snd out)" by (simp add: run_def)
  moreover have "(j, True) \<in> set out" if "(j, b) \<in> set (takeWhile snd out)" for j b
    using that set_takeWhileD [of "(j, b)" snd out] by auto
  ultimately have sr: "set run \<subseteq> misses ((i, True) # out)" unfolding misses_def by force
  have tr: "misses ((i, True) # out) = set run \<union> misses rest"
  proof
    show "misses ((i, True) # out) \<subseteq> set run \<union> misses rest"
    proof
      fix j assume "j \<in> misses ((i, True) # out)"
      then consider "j = i" | "(j, True) \<in> set (takeWhile snd out @ dropWhile snd out)" by (auto simp: misses_def)
      then show "j \<in> set run \<union> misses rest"
        by cases (force simp: run_def rest_def misses_def simp del: takeWhile_dropWhile_id)+
    qed
    show "set run \<union> misses rest \<subseteq> misses ((i, True) # out)"
      using sr set_dropWhileD by (fastforce simp: misses_def rest_def)
  qed
  obtain q s2 where q: "fill_pieces s d l run = (q, s2)" by force
  note fp = fill_pieces_spec [OF q "3.prems"(2) br(1)]
  have fp: "same_keys s s2 \<and> (\<exists>M'. cache_inv U V M' s2) \<and> (q = Inr () \<longrightarrow> cache_inv U V (M - set run) s2)"
    using fp sr "3.prems"(4) by blast
  have cs: "fill_misses s d l ((i, True) # out) = (case q of Inl e \<Rightarrow> (Inl e, s2) | Inr _ \<Rightarrow> fill_misses s2 d (l + length run) rest)"
    using q w by (simp add: Let_def run_def [symmetric] rest_def [symmetric] split: sum.splits)
  show ?case
  proof (cases q)
    case (Inl e)
    then show ?thesis using fp cs "3.prems"(1) by auto
  next
    case (Inr u)
    have ih: "\<And>M. fill_misses s2 d (l + length run) rest = (r, s1) \<Longrightarrow> cache_inv U V M s2 \<Longrightarrow>
        bound_run s2 d (l + length run) (map fst rest) \<Longrightarrow> misses rest \<subseteq> M \<Longrightarrow>
        same_keys s2 s1 \<and> (\<exists>M'. cache_inv U V M' s1) \<and> (r = Inr () \<longrightarrow> cache_inv U V (M - misses rest) s1)"
      using "3.IH" [OF run_def _ Inr, of s2] q unfolding run_def [symmetric] rest_def [symmetric] w by auto
    have dis: "set run \<inter> set (map fst rest) = {}"
      using bound_run_distinct [OF "3.prems"(3)] unfolding all by simp
    have "misses rest \<subseteq> set (map fst rest)" by (force simp: misses_def)
    then have sub2: "misses rest \<subseteq> M - set run" using dis tr "3.prems"(4) by blast
    have "same_keys s2 s1 \<and> (\<exists>M'. cache_inv U V M' s1) \<and> (r = Inr () \<longrightarrow> cache_inv U V (M - set run - misses rest) s1)"
    proof (rule ih)
      show "fill_misses s2 d (l + length run) rest = (r, s1)" using cs Inr "3.prems"(1) by simp
      show "cache_inv U V (M - set run) s2" using fp Inr by simp
      show "bound_run s2 d (l + length run) (map fst rest)" using br(2) bound_run_keys fp by blast
    qed (rule sub2)
    moreover have "M - set run - misses rest = M - misses ((i, True) # out)" using tr by blast
    ultimately show ?thesis using fp same_keys_trans by auto
  qed
qed


section \<open>Locking a range\<close>

text \<open>Exactly the buffers of \<open>is\<close> are locked, once each.\<close>

definition locked :: "disks \<Rightarrow> nat set \<Rightarrow> bool" where
  "locked s L \<longleftrightarrow> (\<forall>i < length (buffers s). refcnt (buf_at s i) = (if i \<in> L then 1 else 0))"

lemma locked_refs: "locked s L \<Longrightarrow> refs s1 = refs s \<Longrightarrow> locked s1 L"
  unfolding locked_def refs_def by (metis length_map nth_map)

lemma locked_one_buf:
  assumes "locked s L" "one_buf i s s1" "refcnt (buf_at s1 i) = (if i \<in> L' then 1 else 0)" "\<And>j. j \<noteq> i \<Longrightarrow> j \<in> L' \<longleftrightarrow> j \<in> L"
  shows "locked s1 L'"
  unfolding locked_def
proof (intro allI impI)
  fix j assume "j < length (buffers s1)"
  then show "refcnt (buf_at s1 j) = (if j \<in> L' then 1 else 0)"
    using assms one_bufD(2,5) [OF assms(2)] by (cases "j = i") (auto simp: locked_def)
qed

lemma bound_run_one_buf:
  "bound_run s d l is \<Longrightarrow> one_buf i s s1 \<Longrightarrow> i \<notin> set is \<Longrightarrow> bound_run s1 d l is"
  unfolding bound_run_def using one_bufD(6) by (metis nth_mem)

lemma put_all_spec:
  assumes "cache_inv U V M s" "bound_run s d l is" "locked s (set is \<union> L)" "set is \<inter> L = {}"
  shows "cache_inv U V M (put_all s is) \<and> locked (put_all s is) L \<and> same_frame s (put_all s is)"
  using assms
proof (induction "is" arbitrary: s l)
  case (Cons i "is")
  have b: "bound_to s i d l" using Cons.prems(2) by (auto simp: bound_run_def)
  have i: "i < length (buffers s)" using b by (simp add: bound_to_def)
  let ?s = "cache_put s i False"
  note p = cache_put_spec [OF i, of False] and pc = cache_put_clean [OF Cons.prems(1) b]
  have ni: "i \<notin> set is" using bound_run_distinct [OF Cons.prems(2)] by simp
  have "refcnt (buf_at s i) = 1" using Cons.prems(3) i by (simp add: locked_def)
  then have "locked ?s (set is \<union> L)"
    using ni Cons.prems(4) by (intro locked_one_buf [OF Cons.prems(3) p(1)]) (auto simp: p(2))
  moreover have "bound_run s d (l + 1) is" using Cons.prems(2) bound_run_append [of s d l "[i]" "is"] by simp
  then have "bound_run ?s d (l + 1) is" by (rule bound_run_one_buf [OF _ p(1) ni])
  ultimately have "cache_inv U V M (put_all ?s is) \<and> locked (put_all ?s is) L \<and> same_frame ?s (put_all ?s is)"
    using Cons.IH [OF pc(1)] Cons.prems(4) by simp
  then show ?case using pc(2) same_frame_trans by (auto simp: put_all_def)
qed (auto simp: put_all_def)

lemma lock_range_spec:
  assumes "lock_range k s d (l + length out) out = (r, s1)"
    and inv: "cache_inv U V (misses out) s" and d: "d \<in> U" "l + length out + k \<le> sector_count (dev_at s d)"
    and run: "bound_run s d l (map fst out)" and lk: "locked s (set (map fst out))"
  shows "same_frame s s1 \<and> (\<exists>M. cache_inv U V M s1) \<and> (\<forall>e. r = Inl e \<longrightarrow> locked s1 {}) \<and>
    (\<forall>out'. r = Inr out' \<longrightarrow> length out' = length out + k \<and> cache_inv U V (misses out') s1 \<and>
       bound_run s1 d l (map fst out') \<and> locked s1 (set (map fst out')))"
  using assms
proof (induction k arbitrary: s out)
  case 0
  then show ?case by auto
next
  case (Suc k)
  note inv = Suc.prems(2) and run = Suc.prems(5) and lk = Suc.prems(6)
  note v = cache_invD(1) [OF inv] and b = cache_invD(2) [OF inv] and h = cache_invD(3) [OF inv]
  let ?l = "l + length out"
  have l: "?l < sector_count (dev_at s d)" using Suc.prems(4) by simp
  have w: "u64 (?l + 1) = l + length (out @ [x])" for x :: "nat \<times> bool"
    using l vols_okD(4) [OF v d(1)] by (simp add: u64_def)
  have new: "i \<notin> set (map fst out)" if "bound_to s i d ?l" for i
    using that run unfolding bound_run_def in_set_conv_nth by (auto simp: bound_to_def)
  have snoc: "bound_run s2 d l (map fst (out @ [(i, m)]))" if "bound_run s2 d l (map fst out)" "bound_to s2 i d ?l" for s2 i m
    using that bound_run_append [of s2 d l "map fst out" "[i]"] by (simp add: bound_run_def)
  show ?case
  proof (cases "find_buffer s d ?l")
    case (Some i)
    note bi = find_buffer_Some [OF Some]
    note hit = cache_get_hit [OF inv bi refl]
    have i: "i < length (buffers s)" using bi by (simp add: bound_to_def)
    let ?out = "out @ [(i, False)]"
    have m: "misses ?out = misses out" by (auto simp: misses_def)
    have "lock_range k (lock_buf s i) d (l + length ?out) ?out = (r, s1)"
      using Suc.prems(1) Some w [of "(i, False)"] by simp
    moreover have "bound_run (lock_buf s i) d l (map fst ?out)"
      by (rule snoc [OF bound_run_one_buf [OF run hit(2) new [OF bi]] hit(3)])
    moreover have "locked (lock_buf s i) (set (map fst ?out))"
      using lk i new [OF bi] lock_buf_spec(2) [OF i]
      by (intro locked_one_buf [OF lk hit(2)]) (auto simp: locked_def u32_def)
    ultimately have "same_frame (lock_buf s i) s1 \<and> (\<exists>M. cache_inv U V M s1) \<and> (\<forall>e. r = Inl e \<longrightarrow> locked s1 {}) \<and>
      (\<forall>out'. r = Inr out' \<longrightarrow> length out' = length ?out + k \<and> cache_inv U V (misses out') s1 \<and>
         bound_run s1 d l (map fst out') \<and> locked s1 (set (map fst out')))"
      using hit(1) m d(1) Suc.prems(4) one_bufD(1) [OF hit(2)] by (intro Suc.IH) simp_all
    then show ?thesis using hit(2) same_frame_trans by (auto simp: one_buf_def)
  next
    case None
    note nb = find_buffer_None [OF None]
    show ?thesis
    proof (cases "pick_victim s")
      case vn: None
      have "s1 = put_all s (map fst out)" "r = Inl EBUSY" using Suc.prems(1) None vn by auto
      then show ?thesis using put_all_spec [OF inv run, of "{}"] lk by auto
    next
      case (Some i)
      note pv = pick_victim_Some [OF Some]
      have ni: "i \<notin> set (map fst out)" using pv lk by (auto simp: locked_def split: if_splits)
      let ?w = "if valid (buf_at s i) \<and> dirty (buf_at s i) \<and> (False \<longrightarrow> \<not> block_gone s (the (bdev (buf_at s i)))) then writeback s i
        else (Inr (), 0, s)"
      obtain q n s2 where wb: "?w = (q, n, s2)" by (metis prod_cases3)
      note vc = victim_clean [OF inv conjunct1 [OF pv] wb]
      obtain C where C: "cleaned C s s2" using vc(2) by blast
      note cd = cleanedD [OF C] and cb = cleaned_bound [OF C] and bd = by_devices [OF cleanedD(1) [OF C]]
      have run2: "bound_run s2 d l (map fst out)" using run cb by (simp add: bound_run_def)
      have lk2: "locked s2 (set (map fst out))" using locked_refs [OF lk refs_cleaned [OF C]] .
      show ?thesis
      proof (cases q)
        case (Inl e)
        then have "s1 = put_all s2 (map fst out)" "r = Inl e" using Suc.prems(1) None Some wb by auto
        then show ?thesis using put_all_spec [OF vc(1) run2, of "{}"] lk2 C same_frame_trans by (auto simp: cleaned_def)
      next
        case (Inr u)
        let ?out = "out @ [(i, True)]" and ?s = "rebind s2 i d ?l"
        have i2: "i < length (buffers s2)" using pv cd(2) by simp
        note rb = rebind_spec [OF i2, of d ?l]
        have m: "misses ?out = insert i (misses out)" by (auto simp: misses_def)
        have l2: "?l < sector_count (dev_at s2 d)" using l cd(1) by simp
        have inv3: "cache_inv U V (misses ?out) ?s"
        proof (rule cache_inv_bind [OF vc(1) rb(1) i2 rb(2) d(1) l2])
          show "length (data (buf_at ?s i)) = block_sz"
            using rb(5) bufs_okD(1) [OF cache_invD(2) [OF vc(1)] i2] by simp
          show "\<not> bound_to s2 j d ?l" for j using nb cb by blast
          show "block_gone s2 e" if "bound_to s2 i e m" "dirty (buf_at s2 i)" for e m
            using vc(3) that Inr by auto
          show "length (V d ?l) = sector_size (dev_at s2 d)" using holdsD(4) [OF h d(1) l] cd(1) by simp
          show "dev_sector s2 d ?l = V d ?l" if "\<not> block_gone s2 d"
            using holdsD(2) [OF cache_invD(3) [OF vc(1)] d(1) l2 that] nb cb by blast
        qed (use rb(3) m in auto)
        have "lock_range k ?s d (l + length ?out) ?out = (r, s1)"
          using Suc.prems(1) None Some wb Inr w [of "(i, True)"] by simp
        moreover have "bound_run ?s d l (map fst ?out)"
          by (rule snoc [OF bound_run_one_buf [OF run2 rb(1) ni] rb(2)])
        moreover have "locked ?s (set (map fst ?out))"
          using rb(4) ni by (intro locked_one_buf [OF lk2 rb(1)]) auto
        ultimately have "same_frame ?s s1 \<and> (\<exists>M. cache_inv U V M s1) \<and> (\<forall>e. r = Inl e \<longrightarrow> locked s1 {}) \<and>
          (\<forall>out'. r = Inr out' \<longrightarrow> length out' = length ?out + k \<and> cache_inv U V (misses out') s1 \<and>
             bound_run s1 d l (map fst out') \<and> locked s1 (set (map fst out')))"
          using inv3 d(1) Suc.prems(4) one_bufD(1) [OF rb(1)] cd(1) by (intro Suc.IH) simp_all
        moreover have "same_frame s ?s" using rb(1) C same_frame_trans [of s s2 ?s] by (simp add: one_buf_def cleaned_def)
        ultimately show ?thesis using same_frame_trans by auto
      qed
    qed
  qed
qed

lemma get_range_spec:
  assumes inv: "cache_inv U V {} s" and d: "d \<in> U" and lk: "locked s {}" and fit: "l + n < 2 ^ 64"
    and g: "get_range s (Some d) l n = (r, s1)"
  shows "same_frame s s1" "\<exists>M. cache_inv U V M s1" "r = Inl e \<Longrightarrow> locked s1 {}"
    "r = Inr is \<Longrightarrow> length is = n \<and> cache_inv U V {} s1 \<and> bound_run s1 d l is \<and> locked s1 (set is)"
proof -
  have "same_frame s s1 \<and> (\<exists>M. cache_inv U V M s1) \<and> (\<forall>e. r = Inl e \<longrightarrow> locked s1 {}) \<and>
    (\<forall>is. r = Inr is \<longrightarrow> length is = n \<and> cache_inv U V {} s1 \<and> bound_run s1 d l is \<and> locked s1 (set is))"
  proof (cases "\<not> inited s \<or> n = 0 \<or> n > MAX_RANGE_COUNT \<or> u64 (l + n) > sector_count (dev_at s d)")
    case True
    then have "s1 = s" "(\<exists>e. r = Inl e) \<or> (r = Inr [] \<and> n = 0)" using g by (auto simp: get_range_def split: if_splits)
    with inv lk show ?thesis by (auto simp: bound_run_def)
  next
    case False
    then have ok: "inited s" "n \<noteq> 0" "n \<le> MAX_RANGE_COUNT" "l + n \<le> sector_count (dev_at s d)" using fit by (auto simp: u64_def)
    obtain a s2 where k: "kmalloc_ok s = (a, s2)" by force
    note fr = kmalloc_ok_frame [OF k]
    have inv2: "cache_inv U V (misses []) s2" using inv cache_inv_same [OF fr(1-3)] by (simp add: misses_def)
    have lk2: "locked s2 {}" using lk fr(2) by (simp add: locked_def)
    have sf2: "same_frame s s2" using fr by (simp add: same_frame_def)
    show ?thesis
    proof (cases a)
      case False
      then have "r = Inl ENOMEM" "s1 = s2" using g ok \<open>\<not> (_ \<or> _)\<close> k by (auto simp: get_range_def)
      with inv2 lk2 sf2 show ?thesis by auto
    next
      case True
      obtain q s3 where q: "lock_range n s2 d l [] = (q, s3)" by force
      have lr: "same_frame s2 s3 \<and> (\<exists>M. cache_inv U V M s3) \<and> (\<forall>e. q = Inl e \<longrightarrow> locked s3 {}) \<and>
        (\<forall>out'. q = Inr out' \<longrightarrow> length out' = n \<and> cache_inv U V (misses out') s3 \<and>
           bound_run s3 d l (map fst out') \<and> locked s3 (set (map fst out')))"
        using lock_range_spec [of n s2 d l "[]" q s3 U V] q inv2 d ok(4) fr(1) lk2 by (simp add: bound_run_def)
      have gr: "(r, s1) = (case q of Inl e \<Rightarrow> (Inl e, s3) | Inr out \<Rightarrow> (case fill_misses s3 d l out of
          (Inl e, s4) \<Rightarrow> (Inl e, put_all s4 (map fst out)) | (Inr _, s4) \<Rightarrow> (Inr (map fst out), s4)))"
        using g \<open>\<not> (_ \<or> _)\<close> k True q by (simp add: get_range_def split: sum.splits prod.splits)
      show ?thesis
      proof (cases q)
        case (Inl e)
        then show ?thesis using gr lr sf2 same_frame_trans by auto
      next
        case (Inr out)
        note lo = lr [THEN conjunct2, THEN conjunct2, THEN conjunct2, rule_format, OF Inr]
        obtain f s4 where f: "fill_misses s3 d l out = (f, s4)" by force
        note fm = fill_misses_spec [OF f, of U V "misses out"]
        have fm: "same_keys s3 s4" "\<exists>M'. cache_inv U V M' s4" "f = Inr () \<Longrightarrow> cache_inv U V {} s4"
          using fm lo by auto
        have r4: "bound_run s4 d l (map fst out)" "locked s4 (set (map fst out))"
          using lo bound_run_keys [OF fm(1)] locked_refs [OF _ same_keysD(5) [OF fm(1)]] by auto
        have sf4: "same_frame s s4" using sf2 lr fm(1) same_frame_trans by (metis same_keys_def)
        show ?thesis
        proof (cases f)
          case fe: (Inl e)
          obtain M' where "cache_inv U V M' s4" using fm(2) by blast
          from put_all_spec [OF this r4(1), of "{}"] r4(2) gr Inr f fe sf4 same_frame_trans show ?thesis by auto
        next
          case (Inr u)
          then show ?thesis using gr \<open>q = Inr out\<close> f fm(3) r4 lo sf4 by auto
        qed
      qed
    qed
  qed
  then show "same_frame s s1" "\<exists>M. cache_inv U V M s1" "r = Inl e \<Longrightarrow> locked s1 {}"
    "r = Inr is \<Longrightarrow> length is = n \<and> cache_inv U V {} s1 \<and> bound_run s1 d l is \<and> locked s1 (set is)" by blast+
qed


section \<open>Flushing\<close>

lemma flush_bufs_spec:
  assumes "flush_bufs s dev err is = (err', s1)" "cache_inv U V {} s" "\<forall>i \<in> set is. i < length (buffers s)"
  shows "cache_inv U V {} s1 \<and> (\<exists>C. cleaned C s s1) \<and>
    (err' = None \<longrightarrow> err = None \<and> (\<forall>i \<in> set is. \<forall>d l. bound_to s1 i d l \<longrightarrow> dirty (buf_at s1 i) \<longrightarrow> (dev = None \<or> dev = Some d) \<longrightarrow> block_gone s d))"
  using assms
proof (induction "is" arbitrary: s err)
  case Nil
  then show ?case using cleaned_same [of s s] by auto
next
  case (Cons i "is")
  have i: "i < length (buffers s)" using Cons.prems(3) by simp
  show ?case
  proof (cases "valid (buf_at s i) \<and> dirty (buf_at s i) \<and> (dev = None \<or> bdev (buf_at s i) = dev)")
    case False
    then have rec: "flush_bufs s dev err is = (err', s1)" using Cons.prems(1) by (auto simp: Let_def split: if_splits)
    have IH: "cache_inv U V {} s1 \<and> (\<exists>C. cleaned C s s1) \<and>
      (err' = None \<longrightarrow> err = None \<and> (\<forall>i \<in> set is. \<forall>d l. bound_to s1 i d l \<longrightarrow> dirty (buf_at s1 i) \<longrightarrow> (dev = None \<or> dev = Some d) \<longrightarrow> block_gone s d))"
      using Cons.IH [OF rec] Cons.prems by simp
    then obtain C where C: "cleaned C s s1" by blast
    have "\<not> (dev = None \<or> dev = Some d)" if "bound_to s1 i d l" "dirty (buf_at s1 i)" for d l
      using False that cleaned_bound [OF C, of i d l] cleanedD(5) [OF C i] by (auto simp: bound_to_def)
    then show ?thesis using IH by auto
  next
    case True
    obtain q n s2 where w: "writeback s i = (q, n, s2)" by (metis prod_cases3)
    obtain C where C: "cleaned C s s2" "q = Inr () \<longrightarrow> i \<in> C \<or> \<not> dirty (buf_at s i)"
      using writeback_spec(1) [OF Cons.prems(2) i _ w] True by blast
    have inv2: "cache_inv U V {} s2" using writeback_spec(2) [OF Cons.prems(2) i _ w] True by blast
    define err2 where "err2 = (case q of Inl e \<Rightarrow> if err = None \<and> (dev \<noteq> None \<or> \<not> block_gone s (the (bdev (buf_at s i)))) then Some e else err
      | Inr _ \<Rightarrow> err)"
    have rec: "flush_bufs s2 dev err2 is = (err', s1)"
      using Cons.prems(1) True w by (auto simp: Let_def err2_def split: sum.splits)
    note bd = by_devices [OF cleanedD(1) [OF C(1)]]
    have IH: "cache_inv U V {} s1 \<and> (\<exists>C. cleaned C s2 s1) \<and>
      (err' = None \<longrightarrow> err2 = None \<and> (\<forall>i \<in> set is. \<forall>d l. bound_to s1 i d l \<longrightarrow> dirty (buf_at s1 i) \<longrightarrow> (dev = None \<or> dev = Some d) \<longrightarrow> block_gone s2 d))"
      using Cons.IH [OF rec inv2] Cons.prems(3) cleanedD(2) [OF C(1)] by simp
    then obtain C2 where C2: "cleaned C2 s2 s1" by blast
    have cl: "cleaned (C \<union> C2) s s1" using cleaned_trans [OF C(1) C2] .
    have "block_gone s d" if a: "err' = None" "bound_to s1 i d l" "dirty (buf_at s1 i)" for d l
    proof (rule ccontr)
      assume ng: "\<not> block_gone s d"
      have bi: "bdev (buf_at s i) = Some d" using a(2) cleaned_bound [OF cl, of i d l] by (simp add: bound_to_def)
      have "i \<notin> C" using a(3) cleanedD(5) [OF cl i] by simp
      then have "\<exists>e. q = Inl e" using C(2) True by (cases q) auto
      then have "err2 \<noteq> None" using ng bi by (auto simp: err2_def)
      then show False using IH a(1) by simp
    qed
    moreover have "err' = None \<longrightarrow> err = None" using IH by (auto simp: err2_def split: sum.splits if_splits)
    ultimately show ?thesis using IH cl bd by auto
  qed
qed

definition same_but_committed :: "disks \<Rightarrow> disks \<Rightarrow> bool" where
  "same_but_committed s s1 \<longleftrightarrow> medium s1 = medium s \<and> devices s1 = devices s \<and> buffers s1 = buffers s \<and> inited s1 = inited s"

lemma same_but_committedD:
  assumes "same_but_committed s s1"
  shows "medium s1 = medium s" "devices s1 = devices s" "buffers s1 = buffers s" "inited s1 = inited s"
  using assms by (simp_all add: same_but_committed_def)

text \<open>The disks of the registry a flush of \<open>dev\<close>, or of everything, goes to.\<close>

definition flushed_disk :: "disks \<Rightarrow> nat option \<Rightarrow> nat \<Rightarrow> bool" where
  "flushed_disk s dev d \<longleftrightarrow> parent (dev_at s d) = None \<and> \<not> (gone (dev_at s d) \<and> dev = None) \<and> (dev \<noteq> None \<longrightarrow> d = disk_of s (the dev))"

lemma flush_devs_spec:
  "flush_devs s dev err ds = (err', s1) \<Longrightarrow> same_but_committed s s1 \<and>
    (\<forall>e. committed s e = medium s e \<longrightarrow> committed s1 e = medium s e) \<and>
    (err' = None \<longrightarrow> err = None \<and> (\<forall>d \<in> set ds. flushed_disk s dev d \<and> ops_flush (dev_at s d) \<longrightarrow> committed s1 d = medium s d))"
proof (induction ds arbitrary: s err)
  case (Cons d ds)
  show ?case
  proof (cases "flushed_disk s dev d")
    case False
    then have "flush_devs s dev err ds = (err', s1)" using Cons.prems by (auto simp: flushed_disk_def split: if_splits)
    from Cons.IH [OF this] False show ?thesis by auto
  next
    case True
    obtain q s2 where q: "block_flush s (Some d) = (q, s2)" by force
    have dd: "disk_of s d = d" using True by (simp add: flushed_disk_def disk_of_unfold)
    note bf = block_flush_spec [OF q, unfolded dd]
    note sd = syncedD [OF bf [THEN conjunct1]] and bd = by_devices [OF syncedD(2) [OF bf [THEN conjunct1]]]
    define err2 where "err2 = (case q of Inl e \<Rightarrow> if err = None then Some e else err | Inr _ \<Rightarrow> err)"
    have rec: "flush_devs s2 dev err2 ds = (err', s1)"
      using Cons.prems True q by (auto simp: flushed_disk_def err2_def split: sum.splits)
    have fd: "flushed_disk s2 dev e = flushed_disk s dev e" for e unfolding flushed_disk_def bd sd(2) ..
    note IH = Cons.IH [OF rec, unfolded fd]
    have "err2 = None \<longrightarrow> err = None \<and> q = Inr ()" by (auto simp: err2_def split: sum.splits if_splits)
    moreover have "committed s1 d = medium s d" if "q = Inr ()" "ops_flush (dev_at s d)"
    proof -
      have "committed s2 d = medium s2 d" using bf that sd(1) by simp
      then show ?thesis using IH sd(1) by simp
    qed
    moreover have "committed s1 e = medium s e" if "committed s e = medium s e" for e
      using sd(8) [OF that] IH sd(1) by simp
    ultimately show ?thesis using IH sd(1-5) by (auto simp: same_but_committed_def)
  qed
qed (simp add: same_but_committed_def)

lemma flush_spec:
  assumes inv: "cache_inv U V {} s" and f: "flush s dev = (r, s1)"
  shows "cache_inv U V {} s1" "\<exists>C. cleaned C s s1"
    "r = Inr () \<Longrightarrow> bound_to s1 i d l \<Longrightarrow> dev = None \<or> dev = Some d \<Longrightarrow> \<not> block_gone s d \<Longrightarrow> \<not> dirty (buf_at s1 i)"
    "r = Inr () \<Longrightarrow> live_dev s e \<Longrightarrow> flushed_disk s dev e \<Longrightarrow> ops_flush (dev_at s e) \<Longrightarrow> committed s1 e = medium s1 e"
proof -
  have "cache_inv U V {} s1 \<and> (\<exists>C. cleaned C s s1) \<and> (r = Inr () \<longrightarrow> (\<forall>i d l. bound_to s1 i d l \<longrightarrow>
      dev = None \<or> dev = Some d \<longrightarrow> \<not> block_gone s d \<longrightarrow> \<not> dirty (buf_at s1 i)) \<and>
      (\<forall>e. live_dev s e \<longrightarrow> flushed_disk s dev e \<longrightarrow> ops_flush (dev_at s e) \<longrightarrow> committed s1 e = medium s1 e))"
  proof (cases "inited s")
    case False
    then show ?thesis using f inv cleaned_same [of s s] by (auto simp: flush_def)
  next
    case True
    obtain err s2 where a: "flush_bufs s dev None [0..<length (buffers s)] = (err, s2)" by force
    obtain err' s3 where b: "flush_devs s2 dev err (filter (\<lambda>i. registered (dev_at s2 i)) [0..<MAX_BLKDEVS]) = (err', s3)" by force
    have r: "r = (case err' of None \<Rightarrow> Inr () | Some e \<Rightarrow> Inl e)" "s1 = s3" using f True a b by (auto simp: flush_def)
    note fb = flush_bufs_spec [OF a inv] and fd = flush_devs_spec [OF b]
    note same = same_but_committedD [OF fd [THEN conjunct1]]
    obtain C where C: "cleaned C s s2" using fb by auto
    have c3: "cleaned C s s3" using C same by (auto simp: cleaned_def same_frame_def)
    have inv3: "cache_inv U V {} s3" using fb cache_inv_same [OF same(2,3,1)] by simp
    have "\<not> dirty (buf_at s3 i)" if "r = Inr ()" "bound_to s3 i d l" "dev = None \<or> dev = Some d" "\<not> block_gone s d" for i d l
    proof -
      have "err = None" using that(1) r fd by (auto split: option.splits)
      moreover have "bound_to s2 i d l" "i < length (buffers s)"
        using that(2) same cleanedD(2) [OF C] by (auto simp: bound_to_def)
      moreover from this have "i \<in> set [0..<length (buffers s)]" by simp
      ultimately have "dirty (buf_at s2 i) \<longrightarrow> block_gone s d" using fb that(3) by fastforce
      then show ?thesis using that(4) same(3) by simp
    qed
    moreover have "committed s3 e = medium s3 e" if "r = Inr ()" "live_dev s e" "flushed_disk s dev e" "ops_flush (dev_at s e)" for e
    proof -
      note dv = cleanedD(1) [OF C] and bd = by_devices [OF cleanedD(1) [OF C]]
      have "err' = None" using that(1) r by (auto split: option.splits)
      moreover have "e \<in> set (filter (\<lambda>i. registered (dev_at s2 i)) [0..<MAX_BLKDEVS])" using that(2) dv by (simp add: live_dev_def)
      moreover have "flushed_disk s2 dev e \<and> ops_flush (dev_at s2 e)" using that(3,4) unfolding flushed_disk_def bd dv by blast
      ultimately show ?thesis using fd same(1) by auto
    qed
    ultimately show ?thesis using inv3 c3 r by blast
  qed
  then show "cache_inv U V {} s1" "\<exists>C. cleaned C s s1"
    "r = Inr () \<Longrightarrow> bound_to s1 i d l \<Longrightarrow> dev = None \<or> dev = Some d \<Longrightarrow> \<not> block_gone s d \<Longrightarrow> \<not> dirty (buf_at s1 i)"
    "r = Inr () \<Longrightarrow> live_dev s e \<Longrightarrow> flushed_disk s dev e \<Longrightarrow> ops_flush (dev_at s e) \<Longrightarrow> committed s1 e = medium s1 e" by blast+
qed


lemma release_fold:
  assumes "foldl (release_one dev) (Inr (), s) is = (Inr (), s1)" "cache_inv U V {} s" "\<forall>i \<in> set is. i < length (buffers s)"
    and "\<forall>i d l. bound_to s i d l \<longrightarrow> dev = None \<or> dev = Some d \<longrightarrow> \<not> block_gone s d \<longrightarrow> \<not> dirty (buf_at s i)"
  shows "cache_inv U V {} s1 \<and> same_frame s s1 \<and> medium s1 = medium s \<and>
    (\<forall>j < length (buffers s). valid (buf_at s1 j) \<longrightarrow> buf_at s1 j = buf_at s j) \<and>
    (\<forall>i \<in> set is. \<forall>d l. bound_to s1 i d l \<longrightarrow> dev \<noteq> None \<and> dev \<noteq> Some d)"
  using assms
proof (induction "is" arbitrary: s)
  case (Cons i "is")
  have i: "i < length (buffers s)" using Cons.prems(3) by simp
  have inl: "foldl (release_one dev) (Inl e, s) is \<noteq> (Inr (), s1)" for e s "is"
    by (induction "is" arbitrary: s) (auto simp: release_one_def Let_def)
  show ?case
  proof (cases "valid (buf_at s i) \<and> (dev = None \<or> bdev (buf_at s i) = dev)")
    case False
    then have e: "release_one dev (Inr (), s) i = (Inr (), s)" by (auto simp: release_one_def Let_def)
    have IH: "cache_inv U V {} s1 \<and> same_frame s s1 \<and> medium s1 = medium s \<and>
      (\<forall>j < length (buffers s). valid (buf_at s1 j) \<longrightarrow> buf_at s1 j = buf_at s j) \<and>
      (\<forall>i \<in> set is. \<forall>d l. bound_to s1 i d l \<longrightarrow> dev \<noteq> None \<and> dev \<noteq> Some d)"
      using Cons.prems e by (intro Cons.IH) auto
    moreover have "dev \<noteq> None \<and> dev \<noteq> Some d" if "bound_to s1 i d l" for d l
    proof -
      have "valid (buf_at s1 i)" using that by (simp add: bound_to_def)
      then have "buf_at s1 i = buf_at s i" using IH i by blast
      then show ?thesis using that False by (auto simp: bound_to_def)
    qed
    ultimately show ?thesis by auto
  next
    case True
    show ?thesis
    proof (cases "refcnt (buf_at s i) = 0")
      case False
      then have "release_one dev (Inr (), s) i = (Inl EBUSY, s)" using True by (auto simp: release_one_def Let_def)
      then show ?thesis using Cons.prems(1) inl by simp
    next
      case ref: True
      define s2 where "s2 = set_buf s i ((buf_at s i)\<lparr>valid := False, dirty := False, bdev := None\<rparr>)"
      have e: "release_one dev (Inr (), s) i = (Inr (), s2)" using True ref by (auto simp: release_one_def Let_def s2_def)
      have one: "one_buf i s s2" unfolding s2_def by (rule one_buf_set)
      note od = one_bufD [OF one] and bd = by_devices [OF one_bufD(1) [OF one]]
      have b2: "buf_at s2 i = (buf_at s i)\<lparr>valid := False, dirty := False, bdev := None\<rparr>" using i by (simp add: s2_def buf_at_set)
      have inv2: "cache_inv U V {} s2"
      proof (rule cache_inv_unbind [OF Cons.prems(2) one i])
        show "\<not> valid (buf_at s2 i)" using b2 by simp
        show "length (data (buf_at s2 i)) = block_sz" using b2 bufs_okD(1) [OF cache_invD(2) [OF Cons.prems(2)] i] by simp
        show "block_gone s f" if "bound_to s i f m" "dirty (buf_at s i)" for f m
          using Cons.prems(4) that True by (auto simp: bound_to_def)
      qed simp
      have cl: "\<forall>j d l. bound_to s2 j d l \<longrightarrow> dev = None \<or> dev = Some d \<longrightarrow> \<not> block_gone s2 d \<longrightarrow> \<not> dirty (buf_at s2 j)"
      proof (intro allI impI)
        fix j d l assume a: "bound_to s2 j d l" "dev = None \<or> dev = Some d" "\<not> block_gone s2 d"
        have "j \<noteq> i" using a(1) b2 by (auto simp: bound_to_def)
        then have "bound_to s j d l" "buf_at s2 j = buf_at s j" using a(1) od(2,6) od(5) [of j] by (auto simp: bound_to_def)
        then show "\<not> dirty (buf_at s2 j)" using Cons.prems(4) a bd by auto
      qed
      have IH: "cache_inv U V {} s1 \<and> same_frame s2 s1 \<and> medium s1 = medium s2 \<and>
        (\<forall>j < length (buffers s2). valid (buf_at s1 j) \<longrightarrow> buf_at s1 j = buf_at s2 j) \<and>
        (\<forall>i \<in> set is. \<forall>d l. bound_to s1 i d l \<longrightarrow> dev \<noteq> None \<and> dev \<noteq> Some d)"
        using Cons.prems e inv2 cl od(2) by (intro Cons.IH) auto
      have nv: "\<not> valid (buf_at s1 i)" using IH i od(2) b2 by (metis buf.simps(4) buf.select_convs(4) buf.surjective buf.update_convs(2,4,5))
      have sb: "buf_at s1 j = buf_at s j" if "j < length (buffers s)" "valid (buf_at s1 j)" for j
        using IH that nv od(2) od(5) [of j] by (cases "j = i") auto
      have "same_frame s s1" using IH one same_frame_trans by (auto simp: one_buf_def)
      then show ?thesis using IH nv sb od(4) by (auto simp: bound_to_def)
    qed
  qed
qed auto

lemma release_spec:
  assumes inv: "cache_inv U V {} s" and f: "release s dev = (Inr (), s1)"
  shows "cache_inv U V {} s1" "bound_to s1 i d l \<Longrightarrow> dev \<noteq> None \<and> dev \<noteq> Some d" "same_frame s s1"
proof -
  obtain r s2 where fl: "flush s dev = (r, s2)" by force
  have inl: "foldl (release_one dev) (Inl e, s) is \<noteq> (Inr (), s1)" for e s "is"
    by (induction "is" arbitrary: s) (auto simp: release_one_def Let_def)
  have rl: "foldl (release_one dev) (r, s2) [0..<length (buffers s)] = (Inr (), s1)"
    using f fl by (auto simp: release_def split: if_splits)
  then have r: "r = Inr ()" using inl by (cases r) auto
  note fs = flush_spec [OF inv fl]
  obtain C where C: "cleaned C s s2" using fs(2) by blast
  note bd = by_devices [OF cleanedD(1) [OF C]]
  have cl: "\<forall>i d l. bound_to s2 i d l \<longrightarrow> dev = None \<or> dev = Some d \<longrightarrow> \<not> block_gone s2 d \<longrightarrow> \<not> dirty (buf_at s2 i)"
    using fs(3) [OF r] bd by blast
  note rf = release_fold [OF rl [unfolded r] fs(1) _ cl]
  have rf: "cache_inv U V {} s1 \<and> same_frame s2 s1 \<and>
      (\<forall>i \<in> set [0..<length (buffers s)]. \<forall>d l. bound_to s1 i d l \<longrightarrow> dev \<noteq> None \<and> dev \<noteq> Some d)"
    using rf cleanedD(2) [OF C] by auto
  then show "cache_inv U V {} s1" by blast
  show sf: "same_frame s s1" using rf C same_frame_trans by (auto simp: cleaned_def)
  show "dev \<noteq> None \<and> dev \<noteq> Some d" if "bound_to s1 i d l"
  proof -
    have "i \<in> set [0..<length (buffers s)]" using that sf by (simp add: bound_to_def same_frame_def)
    then show ?thesis using rf that by blast
  qed
qed

section \<open>The pool at boot\<close>

lemma init_inv:
  assumes v: "vols_ok U s" and nb: "\<forall>b \<in> set (buffers s). \<not> valid b \<and> length (data b) = block_sz"
    and fr: "\<forall>f \<in> set frames. length f = block_sz"
    and md: "\<And>d l. d \<in> U \<Longrightarrow> l < sector_count (dev_at s d) \<Longrightarrow> length (dev_sector s d l) = sector_size (dev_at s d)"
  shows "cache_inv U (dev_sector s) {} (init s mem frames)"
proof -
  define s1 where "s1 = init s mem frames"
  obtain a s2 where k: "kmalloc_ok s = (a, s2)" by force
  obtain b s3 where k2: "kmalloc_ok s2 = (b, s3)" by force
  note f2 = kmalloc_ok_frame [OF k] and f3 = kmalloc_ok_frame [OF k2]
  have dv: "devices s1 = devices s" "medium s1 = medium s"
    using k k2 f2 f3 by (auto simp: s1_def init_def Let_def split: bool.splits)
  have bs: "\<forall>b \<in> set (buffers s1). \<not> valid b \<and> length (data b) = block_sz"
    using k k2 f2 f3 nb fr set_take_subset [of _ frames]
    by (auto simp: s1_def init_def Let_def split: bool.splits)
  have nbd: "\<not> bound_to s1 i d l" for i d l using bs by (auto simp: bound_to_def)
  have "bufs_ok U s1" by (rule bufs_okI) (use bs nbd in auto)
  moreover have ds: "dev_sector s1 d l = dev_sector s d l" for d l
    unfolding dev_sector_def by_devices [OF dv(1)] dv(2) ..
  have "holds U (dev_sector s) {} s1" by (rule holdsI) (use nbd ds md dv in auto)
  ultimately show ?thesis using v by_devices(5) [OF dv(1)] by (simp add: cache_inv_def s1_def)
qed

section \<open>A small disk\<close>

definition ex_dev :: blkdev where
  "ex_dev = blank\<lparr>dname := ''usb0'', sector_size := 512, sector_count := 8, max_sectors_per_io := 4, ops := True, registered := True\<rparr>"

definition ex_disks :: disks where
  "ex_disks = \<lparr>devices = ex_dev # replicate 15 blank, medium = (\<lambda>d l. replicate 512 (word_of_nat l)), committed = (\<lambda>d l. []), faults = [], forgotten = [],
     mallocs = [], buffers = replicate 2 \<lparr>data = replicate 4096 7, bdev = None, blba = 0, valid = False, dirty = False,
       refcnt = 0, last_use = 0\<rparr>, clock = 0, inited = True\<rparr>"

lemma ex_devs: "dev_at ex_disks 0 = ex_dev" "length (devices ex_disks) = 16"
  "0 < i \<Longrightarrow> i < 16 \<Longrightarrow> dev_at ex_disks i = blank"
  by (auto simp: ex_disks_def nth_Cons split: nat.splits)

lemma ex_vols: "vols_ok {0} ex_disks"
proof -
  have "devs_ok (devices ex_disks)"
    unfolding devs_ok_def MAX_BLKDEVS_def
  proof (intro conjI allI impI)
    fix i :: nat assume "i < 16" "registered (dev_at ex_disks i)"
    then show "dev_ok (devices ex_disks) (dev_at ex_disks i)"
      using ex_devs(1) ex_devs(3) [of i] by (cases "i = 0") (auto simp: dev_ok_def ex_dev_def blank_def)
  qed (simp add: ex_devs)
  then show ?thesis by (auto simp: vols_ok_def live_dev_def MAX_BLKDEVS_def ex_devs ex_dev_def block_sz_def)
qed

lemma ex_place: "disk_of ex_disks 0 = 0" "start_of ex_disks 0 = 0" "block_gone ex_disks 0 = False"
  "dev_sector ex_disks 0 l = replicate 512 (word_of_nat l)"
proof -
  have p: "parent (dev_at ex_disks 0) = None" by (simp add: ex_devs ex_dev_def blank_def)
  show d: "disk_of ex_disks 0 = 0" "start_of ex_disks 0 = 0" by (simp_all add: disk_of_unfold start_of_def p)
  show "block_gone ex_disks 0 = False" by (simp add: block_gone_def d ex_devs ex_dev_def blank_def)
  show "dev_sector ex_disks 0 l = replicate 512 (word_of_nat l)" unfolding dev_sector_def d by (simp add: ex_disks_def)
qed

lemma ex_inv: "cache_inv {0} (dev_sector ex_disks) {} ex_disks"
proof -
  have "init ex_disks 0 [] = ex_disks" by (simp add: init_def ex_disks_def)
  moreover have "\<forall>b \<in> set (buffers ex_disks). \<not> valid b \<and> length (data b) = block_sz"
    by (simp add: ex_disks_def block_sz_def)
  ultimately show ?thesis
    using init_inv [OF ex_vols, of "[]" 0] by (simp add: ex_place ex_devs ex_dev_def)
qed

lemma ex_locked: "locked ex_disks {}"
  by (simp add: locked_def ex_disks_def nth_Cons split: nat.splits)

text \<open>A read of the example disk from a cold cache.\<close>

lemma ex_get: "\<exists>s1. cache_get ex_disks (Some 0) 3 = (Inr 0, s1)"
proof -
  have f: "find_buffer ex_disks 0 3 = None"
    by (auto simp: find_buffer_def first_idx_None ex_disks_def nth_Cons split: nat.splits)
  have p: "pick_victim ex_disks = Some 0"
    by (simp add: pick_victim_def ex_disks_def upt_rec)
  define s2 where "s2 = rebind ex_disks 0 0 3"
  define s3 where "s3 = set_buf s2 0 ((buf_at s2 0)\<lparr>data := take 512 (data (buf_at s2 0)) @ replicate (4096 - 512) 0\<rparr>)"
  have d3: "devices s3 = devices ex_disks" "faults s3 = []" by (simp_all add: s3_def s2_def rebind_def Let_def set_buf_def tick_def ex_disks_def)
  obtain q s4 where q: "block_read s3 (Some 0) 3 1 = (q, s4)" by force
  have "vols_ok {0} s3" using ex_vols by_devices(5) [OF d3(1)] by simp
  from vols_okD [OF this, of 0] have "\<exists>xs. q = Inr xs"
    using block_read_spec(4) [OF q] by (simp add: d3 ex_devs ex_dev_def blank_def by_devices(3) [OF d3(1)] ex_place)
  then obtain xs where xs: "q = Inr xs" by blast
  have "get_miss ex_disks 0 0 3 = (Inr 0, set_buf s4 0 ((buf_at s4 0)\<lparr>data := hd xs @ drop 512 (data (buf_at s4 0))\<rparr>))"
  proof -
    have e: "sector_size (dev_at s2 0) = 512" by (simp add: s2_def rebind_def Let_def set_buf_def ex_devs ex_dev_def)
    show ?thesis unfolding get_miss_def Let_def s2_def [symmetric] e
      using q xs by (simp add: block_sz_def s3_def)
  qed
  then show ?thesis using f p by (simp add: cache_get_def Let_def ex_devs ex_dev_def blank_def) (simp add: ex_disks_def)
qed

section \<open>The contract of the cache\<close>

text \<open>What a file system relies on: \<open>inv V s\<close> says that the devices of \<open>U\<close> have the contents \<open>V\<close>; a
  buffer handed out has the contents of its sector, can be put back as it is or, with other bytes in
  it, as the new contents of that sector; a failure changes nothing.\<close>

locale sector_cache =
  fixes U :: "nat set" and ssize :: "nat \<Rightarrow> nat" and scount :: "nat \<Rightarrow> nat" and bsize :: nat
    and inv :: "(nat \<Rightarrow> nat \<Rightarrow> sector) \<Rightarrow> 's \<Rightarrow> bool"
    and get :: "'s \<Rightarrow> nat option \<Rightarrow> nat \<Rightarrow> nat res \<times> 's"
    and put :: "'s \<Rightarrow> nat \<Rightarrow> bool \<Rightarrow> 's"
    and bytes :: "'s \<Rightarrow> nat \<Rightarrow> byte list"
    and set_bytes :: "'s \<Rightarrow> nat \<Rightarrow> byte list \<Rightarrow> 's"
  assumes get_err: "inv V s \<Longrightarrow> d \<in> U \<Longrightarrow> get s (Some d) l = (Inl e, s1) \<Longrightarrow> inv V s1"
    and get_bytes: "inv V s \<Longrightarrow> d \<in> U \<Longrightarrow> get s (Some d) l = (Inr i, s1) \<Longrightarrow>
      l < scount d \<and> length (bytes s1 i) = bsize \<and> take (ssize d) (bytes s1 i) = V d l"
    and put_same: "inv V s \<Longrightarrow> d \<in> U \<Longrightarrow> get s (Some d) l = (Inr i, s1) \<Longrightarrow> inv V (put s1 i False)"
    and put_new: "inv V s \<Longrightarrow> d \<in> U \<Longrightarrow> get s (Some d) l = (Inr i, s1) \<Longrightarrow> length x = bsize \<Longrightarrow>
      inv (V(d := (V d)(l := take (ssize d) x))) (put (set_bytes s1 i x) i True)"
begin

definition read_sector :: "'s \<Rightarrow> nat \<Rightarrow> nat \<Rightarrow> byte list res \<times> 's" where
  "read_sector s d l = (case get s (Some d) l of (Inl e, s1) \<Rightarrow> (Inl e, s1)
     | (Inr i, s1) \<Rightarrow> (Inr (bytes s1 i), put s1 i False))"

definition change_sector :: "'s \<Rightarrow> nat \<Rightarrow> nat \<Rightarrow> (byte list \<Rightarrow> byte list) \<Rightarrow> unit res \<times> 's" where
  "change_sector s d l f = (case get s (Some d) l of (Inl e, s1) \<Rightarrow> (Inl e, s1)
     | (Inr i, s1) \<Rightarrow> (Inr (), put (set_bytes s1 i (f (bytes s1 i))) i True))"

lemma read_sector_spec:
  assumes "inv V s" "d \<in> U" "read_sector s d l = (r, s1)"
  shows "inv V s1" "r = Inr x \<Longrightarrow> l < scount d \<and> length x = bsize \<and> take (ssize d) x = V d l"
  using assms get_err [OF assms(1,2), of l] get_bytes [OF assms(1,2), of l] put_same [OF assms(1,2), of l]
  by (auto simp: read_sector_def split: prod.splits sum.splits)

lemma change_sector_spec:
  assumes "inv V s" "d \<in> U" "change_sector s d l f = (r, s1)" "\<And>x. length x = bsize \<Longrightarrow> length (f x) = bsize"
    and "\<And>x. length x = bsize \<Longrightarrow> take (ssize d) (f x) = g (take (ssize d) x)"
  shows "r = Inl e \<Longrightarrow> inv V s1"
    "r = Inr u \<Longrightarrow> l < scount d \<and> inv (V(d := (V d)(l := g (V d l)))) s1"
proof -
  obtain q s2 where q: "get s (Some d) l = (q, s2)" by force
  show "inv V s1" if "r = Inl e" using get_err [OF assms(1,2)] q assms(3) that by (cases q) (auto simp: change_sector_def)
  show "l < scount d \<and> inv (V(d := (V d)(l := g (V d l)))) s1" if ru: "r = Inr u"
  proof -
    obtain i where i: "q = Inr i" using q assms(3) ru by (cases q) (auto simp: change_sector_def)
    then have s1: "s1 = put (set_bytes s2 i (f (bytes s2 i))) i True" using q assms(3) by (simp add: change_sector_def)
    note gb = get_bytes [OF assms(1,2) q [unfolded i]]
    have "take (ssize d) (f (bytes s2 i)) = g (V d l)" using assms(5) gb by metis
    then show ?thesis using put_new [OF assms(1,2) q [unfolded i], of "f (bytes s2 i)"] assms(4) gb s1 by auto
  qed
qed

end

text \<open>The state between the calls of a file system: no buffer locked, no volume unplugged.\<close>

definition at_rest :: "nat set \<Rightarrow> (nat \<Rightarrow> blkdev) \<Rightarrow> (nat \<Rightarrow> nat \<Rightarrow> sector) \<Rightarrow> disks \<Rightarrow> bool" where
  "at_rest U dv V s \<longleftrightarrow> cache_inv U V {} s \<and> locked s {} \<and> (\<forall>d \<in> U. dev_at s d = dv d \<and> \<not> block_gone s d)"

lemma at_restD:
  assumes "at_rest U dv V s"
  shows "cache_inv U V {} s" "locked s {}" "d \<in> U \<Longrightarrow> dev_at s d = dv d" "d \<in> U \<Longrightarrow> \<not> block_gone s d"
  using assms by (auto simp: at_rest_def)

lemma at_rest_frame:
  assumes "at_rest U dv V s" "same_frame s s1" "cache_inv U V' {} s1" "locked s1 {}"
  shows "at_rest U dv V' s1"
proof -
  have "devices s1 = devices s" using assms(2) by (simp add: same_frame_def)
  then show ?thesis using assms by_devices(3) [of s1 s] by (auto simp: at_rest_def)
qed

lemma locked_alt: "locked s L \<longleftrightarrow> (\<forall>i < length (refs s). refs s ! i = (if i \<in> L then 1 else 0))"
  by (simp add: locked_def refs_def)

lemma locked_get:
  assumes "locked s {}" "i < length (buffers s)" "refs s1 = (refs s)[i := u32 (refs s ! i + 1)]"
  shows "locked s1 {i}"
  using assms by (auto simp: locked_alt nth_list_update u32_def refs_def [of s])

lemma locked_put:
  assumes "locked s {i}" "i < length (buffers s)" "refs s1 = (refs s)[i := refs s ! i - 1]"
  shows "locked s1 {}"
proof -
  have "i < length (refs s)" "refs s ! i = 1" using assms(1,2) by (auto simp: locked_alt refs_def)
  with assms show ?thesis by (auto simp: locked_alt nth_list_update)
qed

interpretation bc: sector_cache U "\<lambda>d. sector_size (dv d)" "\<lambda>d. sector_count (dv d)" block_sz "at_rest U dv"
    cache_get cache_put "\<lambda>s i. data (buf_at s i)" set_data for U dv
proof unfold_locales
  fix V s d l e s1
  assume a: "at_rest U dv V s" "d \<in> U"
  note inv = at_restD(1) [OF a(1)] and dd = at_restD(3,4) [OF a]
  show "at_rest U dv V s1" if g: "cache_get s (Some d) l = (Inl e, s1)"
    using at_rest_frame [OF a(1)] cache_get_spec [OF inv a(2) g] locked_refs [OF at_restD(2) [OF a(1)]] by blast
  fix i and x :: "byte list"
  assume g: "cache_get s (Some d) l = (Inr i, s1)"
  note gs = cache_get_spec(1,2) [OF inv a(2) g] and gi = cache_get_spec(4) [OF inv a(2) g refl]
  have lk: "locked s1 {i}" using locked_get [OF at_restD(2) [OF a(1)]] gi by blast
  have i1: "i < length (buffers s1)" and b: "bound_to s1 i d l" and dv1: "dev_at s1 d = dv d"
    using gi dd gs(2) by (auto simp: bound_to_def same_frame_def)
  show "l < sector_count (dv d) \<and> length (data (buf_at s1 i)) = block_sz \<and> take (sector_size (dv d)) (data (buf_at s1 i)) = V d l"
    using gi dd bufs_okD(1) [OF cache_invD(2) [OF gs(1)] i1] by simp
  show "at_rest U dv V (cache_put s1 i False)"
    using cache_put_clean [OF gs(1) b] locked_put [OF lk i1] same_frame_trans [OF gs(2)] by (intro at_rest_frame [OF a(1)]) auto
  assume x: "length x = block_sz"
  show "at_rest U dv (V(d := (V d)(l := take (sector_size (dv d)) x))) (cache_put (set_data s1 i x) i True)"
    using cache_put_dirty [OF gs(1) b x refl] locked_put [OF lk i1] same_frame_trans [OF gs(2)]
    unfolding dv1 by (intro at_rest_frame [OF a(1)]) auto
qed

section \<open>Properties\<close>

text \<open>C4. Through \<open>bcache::get\<close> the cache keeps the contents \<open>V\<close> of the devices, whether the call
  succeeds, evicts and writes back other sectors, or fails with an I/O error at any point; and a buffer
  it hands out holds the contents of the sector asked for, for any disk that was not unplugged.\<close>

theorem cache_get_contents:
  assumes "cache_inv U V {} s" "d \<in> U" "cache_get s (Some d) l = (r, s1)"
  shows "cache_inv U V {} s1 \<and>
    (\<forall>i. r = Inr i \<longrightarrow> \<not> block_gone s d \<longrightarrow> bound_to s1 i d l \<and> take (sector_size (dev_at s d)) (data (buf_at s1 i)) = V d l)"
  using cache_get_spec(1,4) [OF assms] by blast

theorem cache_get_contents_witness:
  "\<exists>s1. cache_get ex_disks (Some 0) 3 = (Inr 0, s1) \<and> take 512 (data (buf_at s1 0)) = replicate 512 3"
proof -
  obtain s1 where g: "cache_get ex_disks (Some 0) 3 = (Inr 0, s1)" using ex_get by blast
  from cache_get_contents [OF ex_inv _ g] show ?thesis using g by (simp add: ex_place ex_devs ex_dev_def)
qed

text \<open>A buffer put back dirty becomes the contents of its sector and of no other.\<close>

theorem cache_put_changes_one_sector:
  assumes "cache_inv U V {} s" "bound_to s i d l" "length x = block_sz"
  shows "cache_inv U (\<lambda>e m. if e = d \<and> m = l then take (sector_size (dev_at s d)) x else V e m) {}
    (cache_put (set_data s i x) i True)"
proof -
  have "(\<lambda>e m. if e = d \<and> m = l then take (sector_size (dev_at s d)) x else V e m) =
      V(d := (V d)(l := take (sector_size (dev_at s d)) x))" by (auto simp: fun_eq_iff)
  then show ?thesis using cache_put_dirty(1) [OF assms refl] by simp
qed

theorem cache_put_changes_one_sector_witness:
  "\<exists>s1. bound_to s1 0 0 3 \<and> cache_inv {0} (\<lambda>e m. if e = 0 \<and> m = 3 then replicate 512 9 else dev_sector ex_disks e m) {}
     (cache_put (set_data s1 0 (replicate block_sz 9)) 0 True)"
proof -
  obtain s1 where g: "cache_get ex_disks (Some 0) 3 = (Inr 0, s1)" using ex_get by blast
  note sp = cache_get_spec [OF ex_inv _ g]
  have b: "bound_to s1 0 0 3" and e: "sector_size (dev_at s1 0) = 512"
    using sp(4) [of 0] sp(2) by (auto simp: same_frame_def ex_devs ex_dev_def)
  have x: "take 512 (replicate block_sz 9) = (replicate 512 9 :: byte list)" by (simp add: block_sz_def)
  from cache_put_changes_one_sector [OF sp(1) b, of "replicate block_sz 9"] b show ?thesis
    unfolding e x by auto
qed

text \<open>What a loss of power is sure to leave of a sector: what the disk committed, or the medium itself when
  the disk has no write cache.\<close>

definition durable :: "disks \<Rightarrow> nat \<Rightarrow> nat \<Rightarrow> sector" where
  "durable s d l =
     (let r = disk_of s d in (if ops_flush (dev_at s r) then committed s r else medium s r) (start_of s d + l))"

text \<open>C17. After a flush of a device, or of everything, that reports success, every sector of the device, if it
  is not unplugged, is durable as its users see it: the dirty buffers are on the medium, and where the
  disk has a write cache of its own the disk has committed it.\<close>

theorem flush_is_durable:
  assumes "cache_inv U V {} s" "flush s dev = (Inr (), s1)" "d \<in> U" "dev = None \<or> dev = Some d"
    and "\<not> block_gone s d" "l < sector_count (dev_at s d)"
  shows "cache_inv U V {} s1 \<and> dev_sector s1 d l = V d l \<and> durable s1 d l = V d l"
proof -
  note fs = flush_spec [OF assms(1,2)]
  obtain C where C: "cleaned C s s1" using fs(2) by blast
  note bd = by_devices [OF cleanedD(1) [OF C]] and dv = cleanedD(1) [OF C]
  have m: "dev_sector s1 d l = V d l"
    using fs(3) assms(4,5,6) bd dv by (intro holdsD(2) [OF cache_invD(3) [OF fs(1)] assms(3)]) auto
  note v = vols_okD [OF cache_invD(1) [OF assms(1)] assms(3)]
  note dl = disk_of_live [OF v(1,2)]
  have "flushed_disk s dev (disk_of s d)" using dl(2) assms(4,5) by (auto simp: flushed_disk_def block_gone_def)
  then have "committed s1 (disk_of s d) = medium s1 (disk_of s d)" if "ops_flush (dev_at s (disk_of s d))"
    using fs(4) [OF refl dl(1)] that by blast
  then have "durable s1 d l = dev_sector s1 d l" by (simp add: durable_def dev_sector_def Let_def bd dv)
  with fs(1) m show ?thesis by simp
qed

text \<open>A disk with a write cache and one dirty buffer, which holds new bytes for sector 3.\<close>

definition ex_dirty_buf :: buf where
  "ex_dirty_buf = \<lparr>data = replicate 4096 9, bdev = Some 0, blba = 3, valid = True, dirty = True, refcnt = 0, last_use = 0\<rparr>"

definition ex_dirty :: disks where
  "ex_dirty = ex_disks\<lparr>devices := ex_dev\<lparr>ops_flush := True\<rparr> # replicate 15 blank, buffers := [ex_dirty_buf]\<rparr>"

lemma ex_dirty_devs: "dev_at ex_dirty 0 = ex_dev\<lparr>ops_flush := True\<rparr>" "0 < i \<Longrightarrow> i < 16 \<Longrightarrow> dev_at ex_dirty i = blank" "length (devices ex_dirty) = 16"
  "disk_of ex_dirty 0 = 0" "start_of ex_dirty 0 = 0" "\<not> block_gone ex_dirty 0" "faults ex_dirty = []" "buffers ex_dirty = [ex_dirty_buf]"
proof -
  show d: "dev_at ex_dirty 0 = ex_dev\<lparr>ops_flush := True\<rparr>" "0 < i \<Longrightarrow> i < 16 \<Longrightarrow> dev_at ex_dirty i = blank" "length (devices ex_dirty) = 16"
    "faults ex_dirty = []" "buffers ex_dirty = [ex_dirty_buf]"
    by (auto simp: ex_dirty_def ex_disks_def nth_Cons split: nat.splits)
  show p: "disk_of ex_dirty 0 = 0" "start_of ex_dirty 0 = 0" by (simp_all add: disk_of_unfold start_of_def d ex_dev_def blank_def)
  show "\<not> block_gone ex_dirty 0" by (simp add: block_gone_def p d ex_dev_def blank_def)
qed

lemma ex_dirty_vols: "vols_ok {0} ex_dirty"
proof -
  have "devs_ok (devices ex_dirty)"
    unfolding devs_ok_def MAX_BLKDEVS_def
  proof (intro conjI allI impI)
    fix i :: nat assume "i < 16" "registered (dev_at ex_dirty i)"
    then show "dev_ok (devices ex_dirty) (dev_at ex_dirty i)"
      using ex_dirty_devs(1) ex_dirty_devs(2) [of i] by (cases "i = 0") (auto simp: dev_ok_def ex_dev_def blank_def)
  qed (simp add: ex_dirty_devs)
  then show ?thesis by (auto simp: vols_ok_def live_dev_def MAX_BLKDEVS_def ex_dirty_devs ex_dev_def block_sz_def)
qed

definition ex_dirty_V :: "nat \<Rightarrow> nat \<Rightarrow> sector" where
  "ex_dirty_V d l = (if l = 3 then replicate 512 9 else replicate 512 (word_of_nat l))"

lemma ex_dirty_inv: "cache_inv {0} ex_dirty_V {} ex_dirty"
proof -
  have b: "bound_to ex_dirty i d l \<longleftrightarrow> i = 0 \<and> d = 0 \<and> l = 3" for i d l
    by (auto simp: bound_to_def ex_dirty_devs ex_dirty_buf_def)
  have c: "sector_count (dev_at ex_dirty 0) = 8" "sector_size (dev_at ex_dirty 0) = 512" by (simp_all add: ex_dirty_devs ex_dev_def)
  have "bufs_ok {0} ex_dirty"
    by (rule bufs_okI) (use c in \<open>auto simp: b ex_dirty_devs ex_dirty_buf_def block_sz_def\<close>)
  moreover have "holds {0} ex_dirty_V {} ex_dirty"
  proof (rule holdsI)
    fix d l assume "d \<in> {0 :: nat}" and nd: "\<And>i. bound_to ex_dirty i d l \<Longrightarrow> \<not> dirty (buf_at ex_dirty i)"
    then have "l \<noteq> 3" using nd [of 0] by (auto simp: b ex_dirty_devs ex_dirty_buf_def)
    then show "dev_sector ex_dirty d l = ex_dirty_V d l"
      using \<open>d \<in> {0}\<close> by (simp add: dev_sector_def ex_dirty_devs ex_dirty_V_def) (simp add: ex_dirty_def ex_disks_def)
  qed (auto simp: b c ex_dirty_V_def ex_dirty_devs(8) ex_dirty_buf_def)
  ultimately show ?thesis using ex_dirty_vols by (simp add: cache_inv_def)
qed

lemma ex_dirty_flush: "\<exists>s1. flush ex_dirty None = (Inr (), s1)"
proof -
  have nd: "dirty_at ex_dirty 0 l = None" if "l \<noteq> 3" for l
  proof -
    have "find_buffer ex_dirty 0 l = None"
      using that by (auto simp: find_buffer_def first_idx_None ex_dirty_devs(8) ex_dirty_buf_def)
    then show ?thesis by (simp add: dirty_at_def)
  qed
  have rb: "run_back k ex_dirty 0 0 = 0" for k using nd [of 2] by (cases k) (simp_all add: ex_dirty_devs ex_dirty_buf_def)
  have ro: "run_on k ex_dirty 0 4 = []" for k using nd [of 4] by (cases k) simp_all
  obtain q s1 where q: "block_write ex_dirty (Some 0) 3 [replicate 512 9] = (q, s1)" by force
  note v = vols_okD [OF ex_dirty_vols, of 0]
  have c: "3 + length [replicate 512 (9 :: byte)] \<le> sector_count (dev_at ex_dirty 0)" by (simp add: ex_dirty_devs ex_dev_def)
  have o: "ops (dev_at ex_dirty 0)" by (simp add: ex_dirty_devs ex_dev_def)
  note bw = block_write_spec [OF q v(1,2) c, simplified]
  have qi: "q = Inr ()" "faults s1 = []" using bw(4) ex_dirty_devs(6,7) o by auto
  let ?s2 = "clean_all s1 [0]"
  have d2: "devices ?s2 = devices ex_dirty" "faults ?s2 = []"
    using wroteD(1) [OF bw(1)] qi(2) by (simp_all add: clean_all_def set_buf_def)
  have "writeback ex_dirty 0 = (Inr (), 1, ?s2)"
    using q qi(1) rb ro by (simp add: writeback_def Let_def ex_dirty_devs ex_dirty_buf_def ex_dev_def u64_def)
  then have fb: "flush_bufs ex_dirty None None [0..<length (buffers ex_dirty)] = (None, ?s2)"
    by (simp add: ex_dirty_devs ex_dirty_buf_def Let_def)
  have "filter (\<lambda>i. registered (dev_at ex_dirty i)) [0..<MAX_BLKDEVS] = [0]"
    by (simp add: MAX_BLKDEVS_def upt_rec ex_dirty_devs) (simp add: ex_dev_def blank_def)
  moreover have "\<exists>s3. block_flush ?s2 (Some 0) = (Inr (), s3)"
    using d2 ex_dirty_devs(1) by_devices(1) [OF d2(1)] ex_dirty_devs(4)
    by (simp add: block_flush_def ex_dev_def blank_def MAX_IO_RETRIES_def numeral_3_eq_3 ops_sync_def next_fault_def)
  then have "\<exists>s3. flush_devs ?s2 None None [0] = (None, s3)"
    using d2(1) ex_dirty_devs(1) by (auto simp: ex_dev_def blank_def)
  ultimately show ?thesis using fb d2(1) by (auto simp: flush_def ex_dirty_def ex_disks_def)
qed

theorem flush_is_durable_witness: "\<exists>s1. flush ex_dirty None = (Inr (), s1) \<and> durable s1 0 3 = replicate 512 9"
proof -
  obtain s1 where f: "flush ex_dirty None = (Inr (), s1)" using ex_dirty_flush by blast
  from flush_is_durable [OF ex_dirty_inv f, of 0 3] show ?thesis
    using f ex_dirty_devs(6) by (simp add: ex_dirty_devs(1) ex_dev_def ex_dirty_V_def)
qed

text \<open>From a cache with no locks, \<open>get_range\<close> that succeeds locks exactly one buffer for each
  sector of the range, each holding its contents; one that fails leaves nothing locked.\<close>

theorem get_range_contents:
  assumes "cache_inv U V {} s" "d \<in> U" "locked s {}" "l + n < 2 ^ 64" "get_range s (Some d) l n = (r, s1)"
  shows "case r of Inl e \<Rightarrow> locked s1 {}
    | Inr is \<Rightarrow> length is = n \<and> locked s1 (set is) \<and> cache_inv U V {} s1 \<and>
        (\<forall>k < n. bound_to s1 (is ! k) d (l + k) \<and>
           (\<not> block_gone s d \<longrightarrow> take (sector_size (dev_at s d)) (data (buf_at s1 (is ! k))) = V d (l + k)))"
proof (cases r)
  case (Inl e)
  then show ?thesis using get_range_spec(3) [OF assms] by simp
next
  case (Inr "is")
  note g = get_range_spec(1) [OF assms] and gi = get_range_spec(4) [OF assms Inr]
  have dv: "devices s1 = devices s" using g by (simp add: same_frame_def)
  have "take (sector_size (dev_at s d)) (data (buf_at s1 (is ! k))) = V d (l + k)" if "k < n" "\<not> block_gone s d" for k
    using holdsD(1) [OF cache_invD(3), of U V "{}" s1 "is ! k" d "l + k"] gi that dv by_devices(3) [OF dv]
    by (auto simp: bound_run_def)
  then show ?thesis using gi Inr by (auto simp: bound_run_def)
qed


lemma ex_get_range: "\<exists>s1. get_range ex_disks (Some 0) 2 2 = (Inr [0, 1], s1)"
proof -
  define s1 where "s1 = rebind ex_disks 0 0 2"
  define s2 where "s2 = rebind s1 1 0 3"
  have s1: "buffers s1 = [\<lparr>data = replicate 4096 7, bdev = Some 0, blba = 2, valid = True, dirty = False, refcnt = 1, last_use = 1\<rparr>,
      \<lparr>data = replicate 4096 7, bdev = None, blba = 0, valid = False, dirty = False, refcnt = 0, last_use = 0\<rparr>]"
    by (simp add: s1_def rebind_def Let_def set_buf_def tick_def ex_disks_def u64_def numeral_2_eq_2)
  have f0: "find_buffer ex_disks 0 2 = None"
    by (auto simp: find_buffer_def first_idx_None ex_disks_def nth_Cons split: nat.splits)
  have p0: "pick_victim ex_disks = Some 0" by (simp add: pick_victim_def ex_disks_def upt_rec)
  have f1: "find_buffer s1 0 3 = None"
    by (auto simp: find_buffer_def first_idx_None s1 nth_Cons split: nat.splits)
  have p1: "pick_victim s1 = Some 1" by (simp add: pick_victim_def s1 upt_rec)
  have v0: "\<not> valid (buf_at ex_disks 0)" by (simp add: ex_disks_def)
  have v1: "\<not> valid (buf_at s1 1)" by (simp add: s1)
  have w: "u64 3 = 3" "u64 4 = 4" by (simp_all add: u64_def)
  have "lock_range (Suc (Suc 0)) ex_disks 0 2 [] = (Inr [(0, True), (1, True)], s2)"
    using f0 p0 v0 f1 p1 v1 by (simp add: w s2_def s1_def)
  then have lr: "lock_range 2 ex_disks 0 2 [] = (Inr [(0, True), (1, True)], s2)" by (simp add: numeral_2_eq_2)
  have d2: "devices s2 = devices ex_disks" "faults s2 = []" "mallocs s2 = []"
    by (simp_all add: s2_def s1_def rebind_def Let_def set_buf_def tick_def ex_disks_def)
  obtain q s4 where q: "block_read s2 (Some 0) 2 2 = (q, s4)" by force
  have "vols_ok {0} s2" using ex_vols by_devices(5) [OF d2(1)] by simp
  from vols_okD [OF this, of 0] have "\<exists>xs. q = Inr xs"
    using block_read_spec(4) [OF q] by (simp add: d2 ex_devs ex_dev_def blank_def by_devices(3) [OF d2(1)] ex_place)
  then obtain xs where xs: "q = Inr xs" by blast
  have w2: "u64 2 = 2" by (simp add: u64_def)
  have "\<exists>s5. fill_chunks s2 0 2 [0, 1] 2 0 = (Inr (), s5)"
    using q xs by (subst fill_chunks.simps, simp add: Let_def w2 flip: numeral_2_eq_2, subst fill_chunks.simps, simp)
  then obtain s5 where "fill_run s2 0 2 [0, 1] = (Inr (), s5)"
    using d2(3) by (auto simp: fill_run_def kmalloc_ok_def MAX_RANGE_CHUNK_def simp flip: numeral_2_eq_2)
  then have "fill_pieces s2 0 2 [0, 1] = (Inr (), s5)"
    by (subst fill_pieces.simps, simp add: Let_def MAX_RANGE_CHUNK_def, subst fill_pieces.simps, simp)
  then have fm: "fill_misses s2 0 2 [(0, True), (1, True)] = (Inr (), s5)" by (simp add: Let_def)
  have "inited ex_disks" "kmalloc_ok ex_disks = (True, ex_disks)" by (simp_all add: ex_disks_def kmalloc_ok_def)
  then show ?thesis using lr fm by (simp add: get_range_def MAX_RANGE_COUNT_def w(2) ex_devs ex_dev_def)
qed

theorem get_range_contents_witness:
  "\<exists>s1. get_range ex_disks (Some 0) 2 2 = (Inr [0, 1], s1) \<and> take 512 (data (buf_at s1 1)) = replicate 512 3 \<and> locked s1 {0, 1}"
proof -
  obtain s1 where g: "get_range ex_disks (Some 0) 2 2 = (Inr [0, 1], s1)" using ex_get_range by blast
  from get_range_contents [OF ex_inv _ ex_locked _ g] show ?thesis
    using g by (auto simp: ex_place ex_devs ex_dev_def dest!: spec [of _ "1 :: nat"])
qed

section \<open>A failed fill\<close>

lemma read_attempts_fails: "faults s = replicate k (Failed 0) @ fs \<Longrightarrow> read_attempts k s real lba n = (None, s\<lparr>faults := fs\<rparr>)"
  by (induction k arbitrary: s) (simp_all add: ops_read_def next_fault_def)

text \<open>When the device fails three times, \<open>get_range\<close> reports the error, but the sector stays in the
  cache, valid and clean, with the bytes the buffer had before; \<open>get\<close> then hands them out as the
  contents of the sector.\<close>

lemma get_range_leaves_stale:
  assumes inv: "cache_inv U V {} s" and d: "d \<in> U" "l < sector_count (dev_at s d)" "inited s" "ops (dev_at s d)" "\<not> block_gone s d"
    and miss: "find_buffer s d l = None" "pick_victim s = Some i" "\<not> dirty (buf_at s i)"
    and env: "mallocs s = []" "faults s = [Failed 0, Failed 0, Failed 0]"
  shows "\<exists>s1 s2. get_range s (Some d) l 1 = (Inl EIO, s1) \<and> cache_get s1 (Some d) l = (Inr i, s2) \<and>
    data (buf_at s2 i) = data (buf_at s i)"
proof -
  note v = cache_invD(1) [OF inv] and vd = vols_okD [OF cache_invD(1) [OF inv] d(1)]
  note pv = pick_victim_Some [OF miss(2)]
  define s1 where "s1 = rebind s i d l"
  note rb = rebind_spec [OF conjunct1 [OF pv], of d l, folded s1_def]
  note od = one_bufD [OF rb(1)]
  have fl: "faults s1 = [Failed 0, Failed 0, Failed 0]" "mallocs s1 = []"
    using env by (simp_all add: s1_def rebind_def Let_def set_buf_def tick_def)
  have w: "u64 (l + 1) = l + 1" using d(2) vd(4) by (simp add: u64_def)
  have lr: "lock_range 1 s d l [] = (Inr [(i, True)], s1)" using miss by (simp add: s1_def)
  define s2 where "s2 = s1\<lparr>faults := []\<rparr>"
  have "block_read s1 (Some d) l 1 = (Inl EIO, s2)"
  proof -
    let ?real = "disk_of s d"
    have res: "resolve s1 d l = (?real, start_of s d + l)"
      using resolve_eq [of s1 d l] vd d(2) by (simp add: od(1) by_devices [OF od(1)])
    have ch: "read_chunks s1 ?real (start_of s d + l) 0 1 [] = (Inl EIO, s2)"
      using read_attempts_fails [of s1 3 "[]"] fl disk_of_live(4) [OF vd(1,2)]
      by (subst read_chunks.simps) (simp add: MAX_IO_RETRIES_def od(1) s2_def numeral_3_eq_3 Let_def)
    show ?thesis
      using d res ch w by (simp add: block_read_def od(1) block_gone_def)
  qed
  then have "fill_chunks s1 d l [i] 1 0 = (Inl EIO, s2)"
    using d(2) vd(4) by (subst fill_chunks.simps) (simp add: u64_def)
  then have "fill_run s1 d l [i] = (Inl EIO, s2)" using fl(2) by (simp add: fill_run_def kmalloc_ok_def MAX_RANGE_CHUNK_def)
  then have "fill_pieces s1 d l [i] = (Inl EIO, s2)" by (subst fill_pieces.simps) (simp add: Let_def MAX_RANGE_CHUNK_def)
  then have fm: "fill_misses s1 d l [(i, True)] = (Inl EIO, s2)" by (simp add: Let_def)
  let ?s3 = "cache_put s2 i False"
  have g: "get_range s (Some d) l 1 = (Inl EIO, ?s3)"
    using lr fm env(1) d w by (simp add: get_range_def kmalloc_ok_def MAX_RANGE_COUNT_def put_all_def)
  have i2: "i < length (buffers s2)" using pv od(2) by (simp add: s2_def)
  note pt = cache_put_spec [OF i2, of False]
  have b2: "buf_at s2 i = buf_at s1 i" "devices s2 = devices s" "inited s2 = inited s" by (simp_all add: s2_def od)
  have b3: "bound_to ?s3 i d l" using rb(2) pt(2) i2 one_bufD(2) [OF pt(1)] b2(1) by (simp add: bound_to_def)
  have u3: "j = i" if "bound_to ?s3 j d l" for j
  proof (rule ccontr)
    assume "j \<noteq> i"
    then have "bound_to s j d l" using that one_bufD(6) [OF pt(1), of j d l] od(6) [of j d l] by (simp add: bound_to_def s2_def)
    then show False using find_buffer_None [OF miss(1)] by blast
  qed
  have f3: "find_buffer ?s3 d l = Some i"
    using find_buffer_None [of ?s3 d l i] find_buffer_Some [of ?s3 d l] b3 u3 by (cases "find_buffer ?s3 d l") auto
  have d3: "inited ?s3" "dev_at ?s3 d = dev_at s d" using one_bufD(1,3) [OF pt(1)] b2 d(3) by simp_all
  have "cache_get ?s3 (Some d) l = (Inr i, lock_buf ?s3 i)" using f3 d3 d(2) by (simp add: cache_get_def)
  moreover have "data (buf_at (lock_buf ?s3 i) i) = data (buf_at s i)"
    using lock_buf_spec(2) [of i ?s3] i2 one_bufD(2) [OF pt(1)] pt(2) b2(1) rb(5) by simp
  ultimately show ?thesis using g by blast
qed

end
