(* ===== verification/Part.thy ===== *)
theory Part
  imports Bcache
begin

text \<open>
  The partition tables (src/src/kernel/dev/part.cpp): GPT and MBR are read from a disk, and each
  partition in them becomes a block device. A result of \<open>None\<close> is a read outside a buffer. The lock
  of the disks that \<open>scan\<close> takes and the messages are left out.

  The lemmas show that the registry stays sound, that a new device is a partition inside its disk,
  and that the entries of a GPT are read inside their buffer unless their size overflows.
\<close>

definition MAX_PARTS_PER_DISK :: nat where "MAX_PARTS_PER_DISK = 8"
definition MAX_GPT_ENTRIES :: nat where "MAX_GPT_ENTRIES = 128"
definition gpt_entry_bytes :: nat where "gpt_entry_bytes = 128"

definition rd64 :: "byte list \<Rightarrow> nat \<Rightarrow> nat" where
  "rd64 bs i = rd32 bs i + 2 ^ 32 * rd32 bs (i + 4)"

definition byte_at :: "byte list \<Rightarrow> nat \<Rightarrow> nat" where
  "byte_at bs i = unat (bs ! i)"

section \<open>Checks\<close>

definition crc_bit :: "32 word \<Rightarrow> 32 word" where
  "crc_bit crc = drop_bit 1 crc XOR (0xEDB88320 AND (0 - (crc AND 1)))"

definition crc_byte :: "32 word \<Rightarrow> byte \<Rightarrow> 32 word" where
  "crc_byte crc b = (crc_bit ^^ 8) (crc XOR ucast b)"

definition crc32 :: "byte list \<Rightarrow> 32 word" where
  "crc32 bs = foldl crc_byte 0xFFFFFFFF bs XOR 0xFFFFFFFF"



definition is_fat_boot_sector :: "sector \<Rightarrow> nat \<Rightarrow> bool" where
  "is_fat_boot_sector sector ss \<longleftrightarrow>
     \<not> ss < 512 \<and>
     \<not> (byte_at sector 0 \<noteq> 0xEB \<and> byte_at sector 0 \<noteq> 0xE9) \<and>
     \<not> (byte_at sector 510 \<noteq> 0x55 \<or> byte_at sector 511 \<noteq> 0xAA) \<and>
     \<not> rd16 sector 11 \<noteq> ss \<and>
     (let spc = byte_at sector 13 in
        \<not> (spc = 0 \<or> spc > 128 \<or> sector ! 13 AND (sector ! 13 - 1) \<noteq> 0)) \<and>
     \<not> rd16 sector 14 = 0 \<and>
     \<not> byte_at sector 16 = 0 \<and>
     \<not> rd16 sector 17 \<noteq> 0 \<and>
     \<not> rd16 sector 19 \<noteq> 0 \<and>
     \<not> rd16 sector 22 \<noteq> 0 \<and>
     \<not> rd32 sector 36 = 0"

section \<open>Registering partitions\<close>

fun dec_rev :: "nat \<Rightarrow> string" where
  "dec_rev v = (if v = 0 then [] else char_of (48 + v mod 10) # dec_rev (v div 10))"

declare dec_rev.simps [simp del]

definition child_name :: "string \<Rightarrow> nat \<Rightarrow> string" where
  "child_name disk_name index =
     (let base = take 10 disk_name @ [CHR ''p''];
          digits = (if index = 0 then ''0'' else dec_rev index)
      in base @ take (15 - length base) (rev digits))"

definition register_child :: "disks \<Rightarrow> nat \<Rightarrow> nat \<Rightarrow> nat \<Rightarrow> nat \<Rightarrow> disks" where
  "register_child s disk index start sz =
     snd (alloc_partition s (Some disk) (child_name (dname (dev_at s disk)) index) start sz)"

section \<open>GPT\<close>

text \<open>The entry array, in pieces the driver takes; a limit of 0 makes the first request fail.\<close>

function read_entries :: "disks \<Rightarrow> nat \<Rightarrow> nat \<Rightarrow> nat \<Rightarrow> nat \<Rightarrow> byte list \<Rightarrow> byte list option \<times> disks" where
  "read_entries s disk lba sectors k acc =
     (if k < sectors then
        let n = min (max_sectors_per_io (dev_at s disk)) (sectors - k) in
        (case block_read s (Some disk) (u64 (lba + k)) n of
           (Inl e, s1) \<Rightarrow> (None, s1)
         | (Inr xs, s1) \<Rightarrow> read_entries s1 disk lba sectors (k + n) (acc @ concat xs))
      else (Some acc, s))"
  by pat_completeness auto
termination
proof (relation "measure (\<lambda>(s, disk, lba, sectors, k, acc). sectors - k)", goal_cases)
  case (2 s disk lba sectors k acc n p s1 xs)
  then have "n \<noteq> 0" by (auto simp: block_read_def split: if_splits)
  with 2 show ?case by auto
qed simp

declare read_entries.simps [simp del]

text \<open>The entries from the \<open>i\<close>-th on.\<close>

fun register_entries :: "disks \<Rightarrow> nat \<Rightarrow> byte list \<Rightarrow> nat \<Rightarrow> nat \<Rightarrow> nat list \<Rightarrow> disks option" where
  "register_entries s disk entries esz cnt [] = Some s"
| "register_entries s disk entries esz cnt (i # is) =
     (let off = i * esz in
      if length entries < off + 16 then None
      else if take 16 (drop off entries) = replicate 16 0 then register_entries s disk entries esz cnt is
      else if length entries < off + 48 then None
      else let first_lba = rd64 entries (off + 32); last_lba = rd64 entries (off + 40) in
        if last_lba < first_lba \<or> last_lba \<ge> sector_count (dev_at s disk)
        then register_entries s disk entries esz cnt is
        else if cnt \<ge> MAX_PARTS_PER_DISK then Some s
        else register_entries (register_child s disk (i + 1) first_lba (last_lba - first_lba + 1))
               disk entries esz (cnt + 1) is)"

text \<open>When the rounded size wraps to 0, \<open>kmalloc(0)\<close> gives a null pointer.\<close>

definition parse_gpt :: "disks \<Rightarrow> nat \<Rightarrow> sector \<Rightarrow> disks option" where
  "parse_gpt s disk hdr =
     (let esz = rd32 hdr 84; num = rd32 hdr 80; ss = sector_size (dev_at s disk) in
      if esz < gpt_entry_bytes \<or> num = 0 \<or> num > MAX_GPT_ENTRIES then Some s
      else let total = u32 (num * esz); sectors = u32 (total + ss - 1) div ss in
        if sectors * ss = 0 then Some s
        else case kmalloc_ok s of (False, s1) \<Rightarrow> Some s1
        | (True, s1) \<Rightarrow>
          (case read_entries s1 disk (rd64 hdr 72) sectors 0 [] of
             (None, s2) \<Rightarrow> Some s2
           | (Some entries, s2) \<Rightarrow>
               if length entries < total then None
               else if crc32 (take total entries) \<noteq> word_of_nat (rd32 hdr 88) then Some s2
               else register_entries s2 disk entries esz 0 [0..<num]))"

section \<open>MBR\<close>



section \<open>The scan of a disk\<close>




section \<open>What may change\<close>

text \<open>From a registry to one with more partitions of \<open>disk\<close>, each inside it.\<close>

definition grown :: "nat \<Rightarrow> disks \<Rightarrow> disks \<Rightarrow> bool" where
  "grown disk s s1 \<longleftrightarrow> length (devices s1) = length (devices s) \<and> medium s1 = medium s \<and> buffers s1 = buffers s \<and>
     (\<forall>i < length (devices s). dev_at s1 i = dev_at s i \<or>
        \<not> registered (dev_at s i) \<and> registered (dev_at s1 i) \<and> parent (dev_at s1 i) = Some disk \<and>
        0 < sector_count (dev_at s1 i) \<and> lba_offset (dev_at s1 i) + sector_count (dev_at s1 i) \<le> sector_count (dev_at s disk) \<and>
        sector_size (dev_at s1 i) = sector_size (dev_at s disk) \<and> max_sectors_per_io (dev_at s1 i) = max_sectors_per_io (dev_at s disk))"

definition whole_disk :: "nat \<Rightarrow> disks \<Rightarrow> bool" where
  "whole_disk disk s \<longleftrightarrow> devs_ok (devices s) \<and> live_dev s disk \<and> parent (dev_at s disk) = None"


lemma grown_same: "devices s1 = devices s \<Longrightarrow> medium s1 = medium s \<Longrightarrow> buffers s1 = buffers s \<Longrightarrow> grown disk s s1"
  by (simp add: grown_def)

lemma grown_disk: "grown disk s s1 \<Longrightarrow> whole_disk disk s \<Longrightarrow> dev_at s1 disk = dev_at s disk"
  by (auto simp: grown_def whole_disk_def live_dev_def devs_ok_def)


lemma grown_whole:
  assumes g: "grown disk s s1" and w: "whole_disk disk s"
  shows "whole_disk disk s1"
proof -
  note d = grown_disk [OF g w]
  have ok: "devs_ok (devices s)" and l: "live_dev s disk" and pn: "parent (dev_at s disk) = None"
    using w by (auto simp: whole_disk_def)
  have len: "length (devices s1) = MAX_BLKDEVS" using g ok by (simp add: grown_def devs_ok_def)
  have keep: "dev_at s1 i = dev_at s i" if "i < MAX_BLKDEVS" "registered (dev_at s i)" for i
    using g that ok by (auto simp: grown_def devs_ok_def)
  have "dev_ok (devices s1) (dev_at s1 i)" if i: "i < MAX_BLKDEVS" "registered (dev_at s1 i)" for i
  proof (cases "dev_at s1 i = dev_at s i")
    case True
    then have di: "dev_ok (devices s) (dev_at s i)" using i ok by (simp add: devs_ok_def)
    then show ?thesis using True keep by (auto simp: dev_ok_def split: option.splits)
  next
    case False
    then have n: "parent (dev_at s1 i) = Some disk" "lba_offset (dev_at s1 i) + sector_count (dev_at s1 i) \<le> sector_count (dev_at s disk)"
      "sector_size (dev_at s1 i) = sector_size (dev_at s disk)" "max_sectors_per_io (dev_at s1 i) = max_sectors_per_io (dev_at s disk)"
      using g i ok by (auto simp: grown_def devs_ok_def)
    then show ?thesis using devs_okD [OF ok l] d pn l by (auto simp: dev_ok_def live_dev_def)
  qed
  then show ?thesis using len l d pn by (auto simp: whole_disk_def devs_ok_def live_dev_def)
qed


lemma kmalloc_grown: "kmalloc_ok s = (ok, s1) \<Longrightarrow> grown disk s s1"
  by (auto simp: kmalloc_ok_def split: list.splits intro!: grown_same)

lemma block_read_grown: "block_read s dev lba n = (r, s1) \<Longrightarrow> grown disk s s1"
  using same_but_faultsD [OF block_read_frame] by (intro grown_same) auto








section \<open>Reads inside the entry buffer\<close>

lemma read_chunks_sectors:
  assumes "read_chunks s real lba don n dst = (Inr x, s1)" "0 < max_sectors_per_io (dev_at s real)" "don \<le> n"
  shows "length x = length dst + (n - don) \<and> set x \<subseteq> set dst \<union> range (medium s real)"
  using assms
proof (induction s real lba don n dst rule: read_chunks.induct)
  case (1 s real lba don n dst)
  let ?chunk = "min (n - don) (max_sectors_per_io (dev_at s real))"
  obtain q s2 where q: "read_attempts MAX_IO_RETRIES s real (u64 (lba + don)) ?chunk = (q, s2)" by force
  note sp = read_attempts_spec [OF q] and fr = same_but_faultsD(1,2) [OF read_attempts_spec [OF q, THEN conjunct1]]
  show ?case
  proof (cases "don < n")
    case True
    then obtain y where y: "q = Some y" "read_chunks s2 real lba (don + ?chunk) n (dst @ y) = (Inr x, s1)"
      using "1.prems"(1,2) q by (subst (asm) read_chunks.simps) (auto simp: Let_def split: option.splits)
    have ly: "y = map (medium s real) [u64 (lba + don)..<u64 (lba + don) + ?chunk]" using sp y(1) by blast
    have "length x = length (dst @ y) + (n - (don + ?chunk)) \<and> set x \<subseteq> set (dst @ y) \<union> range (medium s2 real)"
      using True "1.prems"(2) y fr by (intro "1.IH" [OF _ refl q [symmetric] y(1)]) auto
    then show ?thesis using ly fr(1) True by auto
  qed (use "1.prems" in \<open>auto simp: read_chunks.simps\<close>)
qed

lemma whole_disk_of: "whole_disk disk s \<Longrightarrow> disk_of s disk = disk \<and> (\<forall>lba. resolve s disk lba = (disk, lba)) \<and> 0 < max_sectors_per_io (dev_at s disk)"
  using devs_okD [of s disk] by (auto simp: whole_disk_def disk_of_unfold resolve_unfold dev_ok_def)

lemma block_read_sectors:
  assumes "block_read s (Some disk) lba n = (Inr xs, s1)" "whole_disk disk s"
  shows "length xs = n" "set xs \<subseteq> range (medium s disk)"
  using assms whole_disk_of [OF assms(2)] read_chunks_sectors [of s disk lba 0 n "[]" xs s1]
  by (auto simp: block_read_def split: if_splits)

lemma read_entries_length:
  assumes "read_entries s disk lba sectors k acc = (Some es, s1)" "whole_disk disk s"
    and "\<And>l. length (medium s disk l) = ss" "k \<le> sectors"
  shows "length es = length acc + (sectors - k) * ss"
  using assms
proof (induction s disk lba sectors k acc rule: read_entries.induct)
  case (1 s disk lba sectors k acc)
  let ?n = "min (max_sectors_per_io (dev_at s disk)) (sectors - k)"
  obtain q s2 where q: "block_read s (Some disk) (u64 (lba + k)) ?n = (q, s2)" by force
  note g = block_read_grown [OF q, of disk] and fr = same_but_faultsD [OF block_read_frame [OF q]]
  show ?case
  proof (cases "k < sectors")
    case True
    then obtain xs where xs: "q = Inr xs" "read_entries s2 disk lba sectors (k + ?n) (acc @ concat xs) = (Some es, s1)"
      using "1.prems"(1) q by (subst (asm) read_entries.simps) (auto simp: Let_def split: sum.splits)
    note bs = block_read_sectors [OF q [unfolded xs(1)] "1.prems"(2)]
    have "\<forall>x \<in> set xs. length x = ss" using bs(2) "1.prems"(3) by auto
    then have "length (concat xs) = ?n * ss" using bs(1) by (simp add: length_concat sum_list_triv map_idI cong: map_cong)
    moreover have "length es = length (acc @ concat xs) + (sectors - (k + ?n)) * ss"
      using "1.prems" xs fr(1) grown_whole [OF g "1.prems"(2)] True by (intro "1.IH" [OF True refl q [symmetric] xs(1)]) auto
    ultimately have "length es = length acc + (?n + (sectors - (k + ?n))) * ss" by (simp add: add_mult_distrib)
    moreover have "?n + (sectors - (k + ?n)) = sectors - k" using True by simp
    ultimately show ?thesis by simp
  qed (use "1.prems" in \<open>auto simp: read_entries.simps\<close>)
qed

lemma register_entries_defined:
  "gpt_entry_bytes \<le> esz \<Longrightarrow> \<forall>i \<in> set is. (i + 1) * esz \<le> length entries \<Longrightarrow> register_entries s disk entries esz cnt is \<noteq> None"
proof (induction s disk entries esz cnt "is" rule: register_entries.induct)
  case (2 s disk entries esz cnt i "is")
  then have "i * esz + 128 \<le> length entries" by (simp add: gpt_entry_bytes_def)
  with 2 show ?case by (auto simp: Let_def)
qed simp

lemma gpt_in_bounds:
  assumes "whole_disk disk s" "sector_size (dev_at s disk) = ss" "0 < ss" "\<forall>l. length (medium s disk l) = ss"
    and "rd32 hdr 80 * rd32 hdr 84 + ss \<le> 2 ^ 32"
  shows "parse_gpt s disk hdr \<noteq> None"
proof -
  let ?total = "rd32 hdr 80 * rd32 hdr 84"
  obtain ok s2 where k: "kmalloc_ok s = (ok, s2)" by force
  note g2 = kmalloc_grown [OF k, of disk] and w2 = grown_whole [OF kmalloc_grown [OF k] assms(1)]
  have t: "u32 ?total = ?total" "u32 (?total + ss - 1) = ?total + ss - 1" using assms(3,5) by (simp_all add: u32_def)
  obtain q s3 where q: "read_entries s2 disk (rd64 hdr 72) ((?total + ss - 1) div ss) 0 [] = (q, s3)" by force
  have m2: "length (medium s2 disk l) = ss" for l using g2 assms(4) by (simp add: grown_def)
  have len: "?total \<le> length es" if "q = Some es" for es
  proof -
    have "length es = (?total + ss - 1) div ss * ss" using read_entries_length [OF q [unfolded that] w2 m2] by simp
    moreover have "?total \<le> (?total + ss - 1) div ss * ss"
      using assms(3) div_mult_mod_eq [of "?total + ss - 1" ss] mod_less_divisor [of ss "?total + ss - 1"] by linarith
    ultimately show ?thesis by simp
  qed
  have "register_entries s3 disk es (rd32 hdr 84) 0 [0..<rd32 hdr 80] \<noteq> None" if "q = Some es" "gpt_entry_bytes \<le> rd32 hdr 84" for es
  proof (rule register_entries_defined [OF that(2)], rule ballI)
    fix i assume "i \<in> set [0..<rd32 hdr 80]"
    then have "(i + 1) * rd32 hdr 84 \<le> ?total" by (intro mult_le_mono1) simp
    then show "(i + 1) * rd32 hdr 84 \<le> length es" using len [OF that(1)] by linarith
  qed
  then show ?thesis
    using k q t len assms(2) by (auto simp: parse_gpt_def Let_def split: bool.splits option.splits)
qed

text \<open>C37. The entries of a GPT are read inside the buffer allocated for them, whatever the disk holds,
  as long as the size of the entry array, rounded up to sectors, fits 32 bits.\<close>

theorem gpt_reads_in_bounds:
  assumes "whole_disk disk s" "sector_size (dev_at s disk) = ss" "0 < ss" "\<forall>l. length (medium s disk l) = ss"
    and "rd32 hdr 80 * rd32 hdr 84 + ss \<le> 2 ^ 32"
  shows "parse_gpt s disk hdr \<noteq> None"
  using assms by (rule gpt_in_bounds)

definition ex_gpt_disk :: disks where
  "ex_gpt_disk = ex_part_disks\<lparr>medium := (\<lambda>d l. replicate 512 0)\<rparr>"

lemma ex_gpt_whole: "whole_disk 0 ex_gpt_disk" "sector_size (dev_at ex_gpt_disk 0) = 512"
  using ex_part_ok by (simp_all add: whole_disk_def ex_gpt_disk_def live_dev_def MAX_BLKDEVS_def ex_part_devs blank_def)

theorem gpt_reads_in_bounds_witness: "parse_gpt ex_gpt_disk 0 (wr32 (wr32 (replicate 512 0) 80 128) 84 128) \<noteq> None"
proof -
  have "rd32 (wr32 (wr32 (replicate 512 0) 80 128) 84 128) 84 = 128" "rd32 (wr32 (wr32 (replicate 512 0) 80 128) 84 128) 80 = 128"
    by (simp_all add: rd32_wr32 rd32_wr32_other)
  then show ?thesis
    using gpt_reads_in_bounds [OF ex_gpt_whole, of "wr32 (wr32 (replicate 512 0) 80 128) 84 128"]
    by (simp add: ex_gpt_disk_def)
qed

text \<open>With 128 entries of 0x2000080 bytes the product wraps to 16384: a buffer of 16 KiB passes the
  checksum and the second entry is read 32 MiB behind its start.\<close>

lemma gpt_size_wraps:
  assumes "rd32 hdr 80 = 128" "rd32 hdr 84 = 0x2000080" "sector_size (dev_at s disk) = 512" "mallocs s = []"
    and "read_entries s disk (rd64 hdr 72) 32 0 [] = (Some entries, s2)" "length entries = 16384" "take 16 entries = replicate 16 0"
    and "crc32 entries = word_of_nat (rd32 hdr 88)"
  shows "parse_gpt s disk hdr = None"
proof -
  have u: "[0..<128] = 0 # 1 # [2..<128]" by (simp add: upt_rec)
  have "u32 (128 * 0x2000080) = 16384" "u32 (16384 + 512 - 1) div 512 = 32" by (simp_all add: u32_def)
  then show ?thesis using assms unfolding parse_gpt_def Let_def
    by (simp add: gpt_entry_bytes_def MAX_GPT_ENTRIES_def kmalloc_ok_def u)
qed

section \<open>Partitions lie inside their disk\<close>













end
