(* ===== verification/Bclive.thy ===== *)
theory Bclive
  imports Bcflush
begin

text \<open>
  Progress of the sector cache: with drivers that report no fault, allocations that succeed and no
  buffer locked, \<open>bcache::get\<close> of a sector of a mounted device succeeds, whatever has to be evicted
  and written back for it, and \<open>bcache::get_range\<close> too if the cache has enough buffers.
\<close>

text \<open>128 sectors are the largest cluster of a FAT volume; the cache of a running system has 256 buffers
  or more.\<close>

definition healthy :: "nat set \<Rightarrow> disks \<Rightarrow> bool" where
  "healthy U s \<longleftrightarrow> inited s \<and> faults s = [] \<and> mallocs s = [] \<and> 128 \<le> length (buffers s) \<and> (\<forall>d \<in> U. ops (dev_at s d))"

lemma healthy_frame: "healthy U s \<Longrightarrow> same_frame s s1 \<Longrightarrow> faults s1 = [] \<Longrightarrow> mallocs s1 = [] \<Longrightarrow> healthy U s1"
  by (auto simp: healthy_def same_frame_def)

lemma healthyD:
  assumes "healthy U s"
  shows "inited s" "faults s = []" "buffers s \<noteq> []" "d \<in> U \<Longrightarrow> ops (dev_at s d)" "mallocs s = []"
    "128 \<le> length (buffers s)"
  using assms by (auto simp: healthy_def)

lemma victim_from_None: "victim_from s bc bd is = None \<Longrightarrow> bc = None \<and> bd = None \<and> (\<forall>i \<in> set is. refcnt (buf_at s i) \<noteq> 0)"
proof (induction "is" arbitrary: bc bd)
  case (Cons i "is")
  show ?case
  proof (cases "refcnt (buf_at s i) \<noteq> 0 \<or> \<not> valid (buf_at s i)")
    case True
    then have "refcnt (buf_at s i) \<noteq> 0 \<and> victim_from s bc bd is = None" using Cons.prems by (simp add: Let_def split: if_splits)
    then show ?thesis using Cons.IH [of bc bd] by simp
  next
    case False
    define pick where "pick best = (if case best of None \<Rightarrow> True | Some j \<Rightarrow> last_use (buf_at s i) < last_use (buf_at s j) then Some i else best)" for best
    have some: "pick best \<noteq> None" for best by (cases best) (simp_all add: pick_def)
    have "victim_from s bc (pick bd) is = None \<or> victim_from s (pick bc) bd is = None"
      using Cons.prems False unfolding pick_def by (cases "dirty (buf_at s i)") (simp_all add: Let_def)
    then show ?thesis using Cons.IH [of bc "pick bd"] Cons.IH [of "pick bc" bd] some [of bc] some [of bd] by argo
  qed
qed (simp split: option.splits)

lemma victim_exists:
  assumes "locked s {}" "buffers s \<noteq> []"
  shows "\<exists>i. pick_victim s = Some i"
proof (rule ccontr)
  assume "\<nexists>i. pick_victim s = Some i"
  then have "victim_from s None None [0..<length (buffers s)] = None" by (simp add: pick_victim_def)
  note n = victim_from_None [OF this, THEN conjunct2, THEN conjunct2]
  have "0 < length (buffers s)" using assms(2) by simp
  then have "refcnt (buf_at s 0) \<noteq> 0" "refcnt (buf_at s 0) = 0" using n assms(1) by (auto simp: locked_def)
  then show False by simp
qed

lemma clean_all_faults: "faults (clean_all s run) = faults s" "mallocs (clean_all s run) = mallocs s"
  unfolding clean_all_def by (induction run arbitrary: s) (simp_all add: set_buf_def)

lemma writeback_succeeds:
  assumes inv: "cache_inv U V M s" and dl: "bound_to s i d l" "dirty (buf_at s i)" "\<not> block_gone s d" and h: "healthy U s"
  shows "\<exists>n s1. writeback s i = (Inr (), n, s1) \<and> faults s1 = [] \<and> mallocs s1 = []"
proof -
  note v = cache_invD(1) [OF inv] and b = cache_invD(2) [OF inv]
  let ?ss = "sector_size (dev_at s d)"
  define mx where "mx = (if ?ss \<noteq> 0 \<and> ?ss \<le> STAGE_BYTES then STAGE_BYTES div ?ss else 1)"
  define first where "first = run_back (mx - 1) s d i"
  define lba where "lba = blba (buf_at s first)"
  define run where "run = first # run_on (mx - 1) s d (u64 (lba + 1))"
  let ?src = "map (\<lambda>j. take ?ss (data (buf_at s j))) run"
  obtain q s3 where q: "block_write s (Some d) lba ?src = (q, s3)" by force
  have fd: "bound_to s first d lba" "dirty (buf_at s first)"
    using run_back_dirty [OF dl(1,2), of "mx - 1"] unfolding first_def lba_def bound_to_def by auto
  have w1: "u64 (lba + 1) = lba + 1"
    using bufs_okD(2,3) [OF b fd(1)] vols_okD(4) [OF v, of d] by (simp add: u64_def)
  then have dr: "dirty_run s d lba run"
    using run_on_dirty [OF v b, of d "lba + 1" "mx - 1"] fd
    by (auto simp: run_def dirty_run_def nth_Cons split: nat.splits)
  have ne: "run \<noteq> []" by (simp add: run_def)
  note fits = dirty_run_fits [OF v b dr ne]
  have len: "lba + length ?src \<le> sector_count (dev_at s d)" using fits(2) by simp
  have "q = Inr () \<and> faults s3 = []"
    using block_write_spec(4) [OF q vols_okD(1,2) [OF v fits(1)] len healthyD(2) [OF h] healthyD(4) [OF h fits(1)] _ dl(3)] ne by simp
  moreover have "writeback s i = (case q of Inr _ \<Rightarrow> (Inr (), length run, clean_all s3 run) | Inl e \<Rightarrow> (Inl e, length run, s3))"
    using dl q by (simp add: writeback_def bound_to_def Let_def mx_def first_def lba_def run_def split: sum.splits)
  moreover have "mallocs s3 = []" using wroteD(5) [OF block_write_spec(1) [OF q vols_okD(1,2) [OF v fits(1)] len]] healthyD(5) [OF h] by simp
  ultimately show ?thesis by (simp add: clean_all_faults)
qed

lemma get_miss_succeeds:
  assumes "devs_ok (devices s)" "live_dev s d" "l < sector_count (dev_at s d)" "faults s = []" "mallocs s = []" "ops (dev_at s d)" "\<not> block_gone s d"
  shows "\<exists>s1. get_miss s i d l = (Inr i, s1) \<and> faults s1 = [] \<and> mallocs s1 = []"
proof -
  let ?s2 = "rebind s i d l" and ?ss = "sector_size (dev_at s d)"
  let ?s3 = "if block_sz > ?ss then set_buf ?s2 i ((buf_at ?s2 i)\<lparr>data := take ?ss (data (buf_at ?s2 i)) @ replicate (block_sz - ?ss) 0\<rparr>) else ?s2"
  have e: "devices ?s2 = devices s" "devices ?s3 = devices s" "faults ?s3 = []" "mallocs ?s3 = []"
    using assms(4,5) by (simp_all add: rebind_def Let_def set_buf_def tick_def)
  obtain q s4 where q: "block_read ?s3 (Some d) l 1 = (q, s4)" by force
  have "(\<exists>xs. q = Inr xs) \<and> faults s4 = []"
    using assms e by (intro block_read_spec(4) [OF q]) (simp_all add: by_devices [OF e(2)] Suc_leI)
  moreover have "mallocs s4 = []" using same_but_faultsD [OF block_read_frame [OF q]] e(4) by simp
  ultimately show ?thesis using q by (auto simp: get_miss_def Let_def e(1) set_buf_def)
qed

lemma cache_get_succeeds:
  assumes r: "at_rest U dv V s" and d: "d \<in> U" and h: "healthy U s" and l: "l < sector_count (dev_at s d)"
  shows "\<exists>i s1. cache_get s (Some d) l = (Inr i, s1) \<and> healthy U s1"
proof -
  note inv = at_restD(1) [OF r] and v = cache_invD(1) [OF at_restD(1) [OF r]] and b = cache_invD(2) [OF at_restD(1) [OF r]]
  have fr: "same_frame s s1" if "cache_get s (Some d) l = (q, s1)" for q s1 using cache_get_spec(2) [OF inv d that] .
  have "\<exists>i s1. cache_get s (Some d) l = (Inr i, s1) \<and> faults s1 = [] \<and> mallocs s1 = []"
  proof (cases "find_buffer s d l")
    case (Some i)
    then show ?thesis using healthyD(1,2,5) [OF h] l by (simp add: cache_get_def lock_buf_def Let_def set_buf_def tick_def)
  next
    case None
    obtain i where i: "pick_victim s = Some i" using victim_exists at_restD(2) [OF r] healthyD(3) [OF h] by blast
    note pv = pick_victim_Some [OF i]
    let ?c = "valid (buf_at s i) \<and> dirty (buf_at s i) \<and> \<not> block_gone s (the (bdev (buf_at s i)))"
    obtain n s2 where w: "(if ?c then writeback s i else (Inr (), 0, s)) = (Inr (), n, s2)" "faults s2 = []" "mallocs s2 = []" "\<exists>C. cleaned C s s2"
    proof (cases ?c)
      case True
      then obtain e m where em: "bound_to s i e m" using b pv unfolding bufs_ok_def by blast
      then have "bdev (buf_at s i) = Some e" by (simp add: bound_to_def)
      then obtain n s2 where wb: "writeback s i = (Inr (), n, s2)" "faults s2 = []" "mallocs s2 = []"
        using writeback_succeeds [OF inv em _ _ h] True by auto
      have "\<exists>C. cleaned C s s2" using writeback_spec(1) [OF inv _ _ wb(1)] pv True by blast
      then show thesis using wb True by (intro that [of n s2]) simp_all
    next
      case False
      have "\<exists>C. cleaned C s s" using cleaned_same [of s s] by blast
      then show thesis by (rule that [OF if_not_P [OF False] healthyD(2,5) [OF h]])
    qed
    obtain C where C: "cleaned C s s2" using w(4) by blast
    note dv2 = cleanedD(1) [OF C] and bd = by_devices [OF cleanedD(1) [OF C]]
    have "\<exists>s1. get_miss s2 i d l = (Inr i, s1) \<and> faults s1 = [] \<and> mallocs s1 = []"
      using vols_okD(1,2) [OF v d] l w(2,3) healthyD(4) [OF h d] at_restD(4) [OF r d] by (intro get_miss_succeeds) (simp_all add: dv2 bd)
    then show ?thesis using None i w(1) healthyD(1) [OF h] l by (auto simp: cache_get_def Let_def)
  qed
  then show ?thesis using fr healthy_frame [OF h] by blast
qed

lemma cache_put_healthy [simp]: "healthy U (cache_put s i b) = healthy U s" "healthy U (set_data s i x) = healthy U s"
  by (simp_all add: healthy_def cache_put_def set_data_def Let_def set_buf_def tick_def)

section \<open>Ranges\<close>

lemma lock_range_split:
  "lock_range (Suc k) s d l out = (case lock_range (Suc 0) s d l out of (Inl e, s1) \<Rightarrow> (Inl e, s1)
     | (Inr out1, s1) \<Rightarrow> lock_range k s1 d (u64 (l + 1)) out1)"
  by (simp split: option.splits prod.splits sum.splits if_splits)

lemma victim_among:
  assumes "locked s L" "finite L" "card L < length (buffers s)"
  shows "\<exists>i. pick_victim s = Some i"
proof (rule ccontr)
  assume "\<nexists>i. pick_victim s = Some i"
  then have "victim_from s None None [0..<length (buffers s)] = None" by (simp add: pick_victim_def)
  note n = victim_from_None [OF this, THEN conjunct2, THEN conjunct2]
  have "{..<length (buffers s)} \<subseteq> L" using n assms(1) by (auto simp: locked_def split: if_splits)
  from card_mono [OF assms(2) this] show False using assms(3) by simp
qed

lemma lock_one_succeeds:
  assumes inv: "cache_inv U V M s" and lk: "locked s (set (map fst out))" "length out < length (buffers s)"
    and h: "healthy U s" and up: "\<forall>d \<in> U. \<not> block_gone s d"
  shows "\<exists>x s1. lock_range (Suc 0) s d l out = (Inr (out @ [x]), s1) \<and> faults s1 = [] \<and> mallocs s1 = []"
proof (cases "find_buffer s d l")
  case (Some i)
  then show ?thesis using healthyD(2,5) [OF h] by (intro exI [of _ "(i, False)"]) (simp add: lock_buf_def Let_def set_buf_def tick_def)
next
  case None
  have "card (set (map fst out)) \<le> length out" using card_length [of "map fst out"] by simp
  then obtain i where i: "pick_victim s = Some i" using victim_among [OF lk(1)] lk(2) by fastforce
  note pv = pick_victim_Some [OF i]
  let ?c = "valid (buf_at s i) \<and> dirty (buf_at s i)"
  have "\<exists>n s2. (if ?c then writeback s i else (Inr (), 0, s)) = (Inr (), n, s2) \<and> faults s2 = [] \<and> mallocs s2 = []"
  proof (cases ?c)
    case True
    obtain e m where em: "bound_to s i e m" "e \<in> U" using cache_invD(2) [OF inv] pv True unfolding bufs_ok_def by blast
    then show ?thesis using writeback_succeeds [OF inv em(1) _ _ h] True up by auto
  next
    case False
    have "(if ?c then writeback s i else (Inr (), 0, s)) = (Inr (), 0, s)" by (rule if_not_P [OF False])
    then show ?thesis using healthyD(2,5) [OF h] by blast
  qed
  then obtain n s2 where "(if ?c then writeback s i else (Inr (), 0, s)) = (Inr (), n, s2)" "faults s2 = []" "mallocs s2 = []" by blast
  then show ?thesis using None i by (intro exI [of _ "(i, True)"]) (simp add: rebind_def Let_def set_buf_def tick_def)
qed

lemma lock_range_succeeds:
  assumes "cache_inv U V (misses out) s" "locked s (set (map fst out))" "bound_run s d l (map fst out)" "d \<in> U"
    and "healthy U s" "\<forall>d \<in> U. \<not> block_gone s d" "length out + k \<le> length (buffers s)" "l + length out + k \<le> sector_count (dev_at s d)"
  shows "\<exists>out' s1. lock_range k s d (l + length out) out = (Inr out', s1) \<and> healthy U s1"
  using assms
proof (induction k arbitrary: s out)
  case 0
  then show ?case by simp
next
  case (Suc k)
  have "length out < length (buffers s)" using Suc.prems(7) by simp
  then obtain x s2 where x: "lock_range (Suc 0) s d (l + length out) out = (Inr (out @ [x]), s2)" "faults s2 = []" "mallocs s2 = []"
    using lock_one_succeeds [OF Suc.prems(1,2) _ Suc.prems(5,6)] by blast
  have lim: "l + length out + Suc 0 \<le> sector_count (dev_at s d)" using Suc.prems(8) by simp
  note sp = lock_range_spec [OF x(1) Suc.prems(1,4) lim Suc.prems(3,2)]
  have sf: "same_frame s s2" and nx: "cache_inv U V (misses (out @ [x])) s2" "bound_run s2 d l (map fst (out @ [x]))" "locked s2 (set (map fst (out @ [x])))"
    using sp by blast+
  have dv: "devices s2 = devices s" "length (buffers s2) = length (buffers s)" using sf by (auto simp: same_frame_def)
  have h2: "healthy U s2" by (rule healthy_frame [OF Suc.prems(5) sf x(2,3)])
  have w: "u64 (l + length out + 1) = l + length (out @ [x])"
    using lim vols_okD(4) [OF cache_invD(1) [OF Suc.prems(1)] Suc.prems(4)] by (simp add: u64_def)
  have "\<exists>out' s1. lock_range k s2 d (l + length (out @ [x])) (out @ [x]) = (Inr out', s1) \<and> healthy U s1"
    using Suc.prems(4,6,7,8) dv by_devices(3) [OF dv(1)] by (intro Suc.IH [OF nx(1,3,2) _ h2]) simp_all
  then show ?case unfolding lock_range_split [of k] x(1) using w by simp
qed

lemma fill_buf_frame: "devices (fill_buf ss s i x) = devices s" "faults (fill_buf ss s i x) = faults s" "mallocs (fill_buf ss s i x) = mallocs s"
  by (simp_all add: fill_buf_def set_buf_def)

lemma fill_fold_frame:
  "devices (foldl (\<lambda>s k. fill_buf (f s) s (b k) (x k)) s ks) = devices s \<and> faults (foldl (\<lambda>s k. fill_buf (f s) s (b k) (x k)) s ks) = faults s \<and>
   mallocs (foldl (\<lambda>s k. fill_buf (f s) s (b k) (x k)) s ks) = mallocs s"
  by (induction ks arbitrary: s) (simp_all add: fill_buf_frame)

text \<open>A device that can be read.\<close>

definition readable :: "nat \<Rightarrow> disks \<Rightarrow> bool" where
  "readable d s \<longleftrightarrow> devs_ok (devices s) \<and> live_dev s d \<and> ops (dev_at s d) \<and> \<not> block_gone s d \<and> faults s = [] \<and> mallocs s = []"

lemma readable_same: "readable d s \<Longrightarrow> devices s1 = devices s \<Longrightarrow> faults s1 = [] \<Longrightarrow> mallocs s1 = [] \<Longrightarrow> readable d s1"
  using by_devices(3) [of s1 s d] by (simp add: readable_def live_dev_def)

lemma fill_chunks_succeeds:
  assumes "readable d s" "l + length bufs \<le> sector_count (dev_at s d)" "0 < chunk" "don \<le> length bufs"
  shows "\<exists>s1. fill_chunks s d l bufs chunk don = (Inr (), s1) \<and> readable d s1 \<and> devices s1 = devices s"
  using assms
proof (induction s d l bufs chunk don rule: fill_chunks.induct)
  case (1 s d l bufs chunk don)
  show ?case
  proof (cases "don < length bufs")
    case False
    then show ?thesis using "1.prems" by (simp add: fill_chunks.simps [of s])
  next
    case True
    let ?n = "min (length bufs - don) chunk"
    note r = "1.prems"(1) [unfolded readable_def]
    have sc: "sector_count (dev_at s d) < 2 ^ 64" using devs_okD [of s d] r by (simp add: dev_ok_def)
    have w: "u64 (l + don) = l + don" using "1.prems"(2) True sc by (simp add: u64_def)
    obtain q s2 where q: "block_read s (Some d) (l + don) ?n = (q, s2)" by force
    have lim: "l + don + ?n \<le> sector_count (dev_at s d)" using "1.prems"(2) True by simp
    have ok: "(\<exists>xs. q = Inr xs) \<and> faults s2 = []"
      using block_read_spec(4) [OF q _ _ lim] r True "1.prems"(3) by simp
    then obtain xs where xs: "q = Inr xs" by blast
    note fr = same_but_faultsD [OF block_read_frame [OF q]]
    define s3 where "s3 = foldl (\<lambda>s k. fill_buf (sector_size (dev_at s d)) s (bufs ! (don + k)) (xs ! k)) s2 [0..<?n]"
    have f3: "devices s3 = devices s" "faults s3 = []" "mallocs s3 = []"
      using fill_fold_frame [of "\<lambda>s. sector_size (dev_at s d)" "\<lambda>k. bufs ! (don + k)" "\<lambda>k. xs ! k" s2 "[0..<?n]"] fr(2,6) ok r
      by (simp_all add: s3_def)
    have r3: "readable d s3" by (rule readable_same [OF "1.prems"(1) f3])
    have cond: "don < length bufs \<and> 0 < chunk" using True "1.prems"(3) by simp
    have q': "(q, s2) = block_read s (Some d) (u64 (l + don)) ?n" using q w by simp
    have "don + ?n \<le> length bufs" using True by simp
    then have "\<exists>s1. fill_chunks s3 d l bufs chunk (don + ?n) = (Inr (), s1) \<and> readable d s1 \<and> devices s1 = devices s3"
      using "1.IH" [OF cond refl q' xs, folded s3_def] r3 f3(1) "1.prems"(2,3) by simp
    then show ?thesis using cond q w xs f3(1) by (simp add: fill_chunks.simps [of s] Let_def s3_def)
  qed
qed

lemma fill_run_succeeds:
  assumes "readable d s" "l + length bufs \<le> sector_count (dev_at s d)" "bufs \<noteq> []"
  shows "\<exists>s1. fill_run s d l bufs = (Inr (), s1) \<and> readable d s1 \<and> devices s1 = devices s"
proof -
  have "kmalloc_ok s = (True, s)" using assms(1) by (simp add: readable_def kmalloc_ok_def)
  moreover have "0 < min (length bufs) MAX_RANGE_CHUNK" using assms(3) by (simp add: MAX_RANGE_CHUNK_def)
  ultimately show ?thesis using fill_chunks_succeeds [OF assms(1,2), of "min (length bufs) MAX_RANGE_CHUNK" 0] by (simp add: fill_run_def)
qed

lemma fill_pieces_succeeds:
  assumes "readable d s" "l + length run \<le> sector_count (dev_at s d)"
  shows "\<exists>s1. fill_pieces s d l run = (Inr (), s1) \<and> readable d s1 \<and> devices s1 = devices s"
  using assms
proof (induction s d l run rule: fill_pieces.induct)
  case (1 s d l run)
  show ?case
  proof (cases "run = []")
    case True
    then show ?thesis using "1.prems" by (simp add: fill_pieces.simps [of s])
  next
    case False
    let ?n = "min (length run) MAX_RANGE_CHUNK"
    have sc: "sector_count (dev_at s d) < 2 ^ 64" using devs_okD [of s d] "1.prems"(1) by (simp add: readable_def dev_ok_def)
    have w: "u64 (l + ?n) = l + ?n" using "1.prems"(2) sc by (simp add: u64_def)
    have ne: "take ?n run \<noteq> []" using False by (simp add: MAX_RANGE_CHUNK_def)
    have lim: "l + length (take ?n run) \<le> sector_count (dev_at s d)" using "1.prems"(2) by simp
    obtain s2 where r: "fill_run s d l (take ?n run) = (Inr (), s2)" "readable d s2" "devices s2 = devices s"
      using fill_run_succeeds [OF "1.prems"(1) lim ne] by blast
    have "l + ?n + length (drop ?n run) \<le> sector_count (dev_at s2 d)" using "1.prems"(2) r(3) by simp
    then have "\<exists>s1. fill_pieces s2 d (l + ?n) (drop ?n run) = (Inr (), s1) \<and> readable d s1 \<and> devices s1 = devices s2"
      using "1.IH" [OF False refl r(1) [symmetric] refl] r(2) w by simp
    then show ?thesis using r False w by (simp add: fill_pieces.simps [of s] Let_def)
  qed
qed

lemma fill_misses_succeeds:
  assumes "readable d s" "l + length out \<le> sector_count (dev_at s d)"
  shows "\<exists>s1. fill_misses s d l out = (Inr (), s1) \<and> readable d s1 \<and> devices s1 = devices s"
  using assms
proof (induction s d l out rule: fill_misses.induct)
  case (1 s d l)
  then show ?case by simp
next
  case (2 s d l i out)
  have sc: "sector_count (dev_at s d) < 2 ^ 64" using devs_okD [of s d] "2.prems"(1) by (simp add: readable_def dev_ok_def)
  then have "u64 (l + 1) = l + 1" using "2.prems"(2) by (simp add: u64_def)
  then show ?case using 2 by simp
next
  case (3 s d l i out)
  let ?run = "i # map fst (takeWhile snd out)"
  have len: "length ?run + length (dropWhile snd out) = length ((i, True) # out)"
    using arg_cong [OF takeWhile_dropWhile_id [of snd out], of length] by (simp del: takeWhile_dropWhile_id)
  have sc: "sector_count (dev_at s d) < 2 ^ 64" using devs_okD [of s d] "3.prems"(1) by (simp add: readable_def dev_ok_def)
  have w: "u64 (l + length ?run) = l + length ?run" using "3.prems"(2) sc len by (simp add: u64_def)
  have "l + length ?run \<le> sector_count (dev_at s d)" using "3.prems"(2) len by linarith
  then obtain s2 where r: "fill_pieces s d l ?run = (Inr (), s2)" "readable d s2" "devices s2 = devices s"
    using fill_pieces_succeeds [OF "3.prems"(1)] by blast
  have "l + length ?run + length (dropWhile snd out) \<le> sector_count (dev_at s2 d)" using "3.prems"(2) len r(3) by simp
  then have "\<exists>s1. fill_misses s2 d (l + length ?run) (dropWhile snd out) = (Inr (), s1) \<and> readable d s1 \<and> devices s1 = devices s2"
    using "3.IH" [OF refl r(1) [symmetric] refl] r(2) w by simp
  then show ?case using r w by (simp add: Let_def)
qed

lemma get_range_succeeds:
  assumes r: "at_rest U dv V s" and d: "d \<in> U" and h: "healthy U s" and l: "l + n \<le> sector_count (dev_at s d)"
    and n: "n \<le> 128"
  shows "\<exists>rng s1. get_range s (Some d) l n = (Inr rng, s1) \<and> healthy U s1"
proof (cases "n = 0")
  case True
  then show ?thesis using h healthyD(1) [OF h] by (simp add: get_range_def)
next
  case False
  have n: "n \<le> length (buffers s)" "n \<le> MAX_RANGE_COUNT" using n healthyD(6) [OF h] by (simp_all add: MAX_RANGE_COUNT_def)
  note inv = at_restD(1) [OF r] and v = cache_invD(1) [OF at_restD(1) [OF r]]
  have up: "\<forall>d \<in> U. \<not> block_gone s d" using at_restD(4) [OF r] by blast
  have inv0: "cache_inv U V (misses []) s" using inv by (simp add: misses_def)
  obtain out s2 where o: "lock_range n s d l [] = (Inr out, s2)" "healthy U s2"
    using lock_range_succeeds [OF inv0, of d l n] at_restD(2) [OF r] d h up n l by (auto simp: bound_run_def)
  have sp: "same_frame s s2" "length out = n"
    using lock_range_spec [of n s d l "[]" "Inr out" s2 U V] o(1) inv0 d l at_restD(2) [OF r] by (auto simp: bound_run_def)
  have dv: "devices s2 = devices s" using sp(1) by (simp add: same_frame_def)
  have "readable d s2"
    using vols_okD(1,2) [OF v d] healthyD [OF o(2)] d up dv by_devices(3) [OF dv] by (simp add: readable_def live_dev_def)
  then obtain s3 where f: "fill_misses s2 d l out = (Inr (), s3)" "readable d s3" "devices s3 = devices s2"
    using fill_misses_succeeds [of d s2 l out] sp(2) l dv by auto
  have "u64 (l + n) = l + n" using l vols_okD(4) [OF v d] by (simp add: u64_def)
  then have g: "get_range s (Some d) l n = (Inr (map fst out), s3)"
    using healthyD(1,5) [OF h] False n(2) l o(1) f(1) by (simp add: get_range_def kmalloc_ok_def)
  have "l + n < 2 ^ 64" using l vols_okD(4) [OF v d] by simp
  then have "same_frame s s3" using get_range_spec(1) [OF inv d at_restD(2) [OF r] _ g] by blast
  then have "healthy U s3" using f(2) by (intro healthy_frame [OF h]) (simp_all add: readable_def)
  then show ?thesis using g by blast
qed

end
