(* ===== verification/Fat.thy ===== *)
theory Fat
  imports Bclive Part
begin

text \<open>
  The FAT of a volume (src/src/kernel/fs/fat32/fat.cpp): its entries, the walk along a chain with the
  position cache of a file, the allocator, the FSInfo sector and the clean flag, and \<open>read_super\<close> of
  vnode.cpp. The state holds the superblock, the FAT part and the size of the file being worked on,
  and the block devices with their cache; every access to the disk is one of the cache's operations.
  A pointer argument that receives a result is the value of \<open>Inr\<close>; numbers are natural numbers, cut
  to 32 or 64 bits where the source's type is narrower than the result.

  The lemmas relate each operation to the table of the first FAT copy, the function \<open>tab\<close>.
\<close>

section \<open>State\<close>

record fat_super =
  sb_dev :: nat
  bytes_per_sector :: nat
  sectors_per_cluster :: nat
  cluster_size :: nat
  reserved_sectors :: nat
  num_fats :: nat
  fat_size :: nat
  fat_start :: nat
  data_start :: nat
  root_cluster :: nat
  total_sectors :: nat
  total_clusters :: nat
  fsinfo_sector :: nat
  fsinfo_valid :: bool
  free_count :: nat
  next_free :: nat
  active :: bool

record fat_node =
  first_cluster :: nat
  parent_cluster :: nat
  entry_index :: nat
  last_index :: nat
  last_cluster :: nat
  entry_lba :: nat
  entry_off :: nat

text \<open>The fields of the vnode that the file operations use; \<open>epoch\<close> is the time the clock shows.\<close>

record fat_st =
  sb :: fat_super
  fn :: fat_node
  vsize :: nat
  vdirty :: bool
  mtime :: nat
  ctime :: nat
  epoch :: nat
  dsk :: disks

definition FAT_CLUSTER_FREE :: nat where "FAT_CLUSTER_FREE = 0"
definition FAT_CLUSTER_BAD :: nat where "FAT_CLUSTER_BAD = 0x0FFFFFF7"
definition FAT_CLUSTER_EOC :: nat where "FAT_CLUSTER_EOC = 0x0FFFFFF8"

lemmas fat_values = FAT_CLUSTER_FREE_def FAT_CLUSTER_BAD_def FAT_CLUSTER_EOC_def

text \<open>Return at the first error.\<close>

definition bindE :: "'a res \<times> 's \<Rightarrow> ('a \<Rightarrow> 's \<Rightarrow> 'b res \<times> 's) \<Rightarrow> 'b res \<times> 's" where
  "bindE m k = (case m of (Inl e, s) \<Rightarrow> (Inl e, s) | (Inr x, s) \<Rightarrow> k x s)"

lemma bindE_simps [simp]: "bindE (Inl e, s) k = (Inl e, s)" "bindE (Inr x, s) k = k x s"
  by (simp_all add: bindE_def)

definition cluster_lba :: "fat_super \<Rightarrow> nat \<Rightarrow> nat" where
  "cluster_lba b cluster = u32 (data_start b + sub32 cluster 2 * sectors_per_cluster b)"

section \<open>Entries\<close>

definition read_entry :: "fat_st \<Rightarrow> nat \<Rightarrow> nat res \<times> fat_st" where
  "read_entry s cluster =
     (let b = sb s in
      if cluster < 1 \<or> cluster > u32 (total_clusters b + 1) then (Inl EINVAL, s)
      else let byte_off = u32 (cluster * 4);
               sector = u32 (fat_start b + byte_off div bytes_per_sector b);
               in_sector = byte_off mod bytes_per_sector b
           in case cache_get (dsk s) (Some (sb_dev b)) sector of
                (Inl e, d) \<Rightarrow> (Inl e, s\<lparr>dsk := d\<rparr>)
              | (Inr i, d) \<Rightarrow>
                  (Inr (rd32 (data (buf_at d i)) in_sector mod 2 ^ 28), s\<lparr>dsk := cache_put d i False\<rparr>))"

text \<open>The slot keeps its top four bits.\<close>

definition set_slot :: "byte list \<Rightarrow> nat \<Rightarrow> nat \<Rightarrow> byte list" where
  "set_slot x i v = wr32 x i (rd32 x i div 2 ^ 28 * 2 ^ 28 + v)"

fun write_copies :: "fat_st \<Rightarrow> nat \<Rightarrow> nat \<Rightarrow> nat \<Rightarrow> nat list \<Rightarrow> unit res \<times> fat_st" where
  "write_copies s sec_in_fat in_sector v [] = (Inr (), s)"
| "write_copies s sec_in_fat in_sector v (f # fs) =
     (case cache_get (dsk s) (Some (sb_dev (sb s))) (u64 (fat_start (sb s) + f * fat_size (sb s) + sec_in_fat)) of
        (Inl e, d) \<Rightarrow> (Inl e, s\<lparr>dsk := d\<rparr>)
      | (Inr i, d) \<Rightarrow>
          write_copies (s\<lparr>dsk := cache_put (set_data d i (set_slot (data (buf_at d i)) in_sector v)) i True\<rparr>)
            sec_in_fat in_sector v fs)"

definition write_entry :: "fat_st \<Rightarrow> nat \<Rightarrow> nat \<Rightarrow> unit res \<times> fat_st" where
  "write_entry s cluster v =
     (let b = sb s in
      if cluster < 1 \<or> cluster > u32 (total_clusters b + 1) then (Inl EINVAL, s)
      else let byte_off = u32 (cluster * 4) in
        write_copies s (byte_off div bytes_per_sector b) (byte_off mod bytes_per_sector b)
          (v mod 2 ^ 28) [0..<num_fats b])"

section \<open>Walking a chain\<close>

fun chain_advance :: "fat_st \<Rightarrow> nat \<Rightarrow> nat \<Rightarrow> nat res \<times> fat_st" where
  "chain_advance s cluster 0 = (Inr cluster, s)"
| "chain_advance s cluster (Suc steps) =
     bindE (read_entry s cluster) (\<lambda>next s1.
       if next \<ge> FAT_CLUSTER_EOC then (Inl ENXIO, s1)
       else if next = FAT_CLUSTER_FREE then (Inl EIO, s1)
       else if next = FAT_CLUSTER_BAD then (Inl EIO, s1)
       else chain_advance s1 next steps)"

definition cluster_at :: "fat_st \<Rightarrow> nat \<Rightarrow> nat res \<times> fat_st" where
  "cluster_at s index =
     (let n = fn s in
      if first_cluster n < 2 then (Inl ENXIO, s)
      else let near = last_cluster n \<ge> 2 \<and> index \<ge> last_index n \<and> index - last_index n < total_clusters (sb s);
               cluster = (if near then last_cluster n else first_cluster n);
               steps = (if near then index - last_index n else index)
           in bindE (chain_advance s cluster steps) (\<lambda>c s1.
                (Inr c, s1\<lparr>fn := (fn s1)\<lparr>last_index := index, last_cluster := c\<rparr>\<rparr>)))"

section \<open>The allocator\<close>

text \<open>The free entries counted and the first of them, over the clusters \<open>cs\<close>, up to a read error.\<close>

fun count_free :: "fat_st \<Rightarrow> nat \<Rightarrow> nat \<Rightarrow> nat list \<Rightarrow> nat \<times> nat \<times> fat_st" where
  "count_free s free first_free [] = (free, first_free, s)"
| "count_free s free first_free (c # cs) =
     (case read_entry s c of
        (Inl e, s1) \<Rightarrow> (free, first_free, s1)
      | (Inr v, s1) \<Rightarrow>
          if v = FAT_CLUSTER_FREE
          then count_free s1 (free + 1) (if first_free = 0xFFFFFFFF then c else first_free) cs
          else count_free s1 free first_free cs)"

definition scan_free_hint :: "fat_st \<Rightarrow> fat_st" where
  "scan_free_hint s =
     (case count_free s 0 0xFFFFFFFF [2..<u32 (total_clusters (sb s) + 1) + 1] of
        (free, first_free, s1) \<Rightarrow>
          s1\<lparr>sb := (sb s1)\<lparr>free_count := free, next_free := (if first_free \<noteq> 0xFFFFFFFF then first_free else 2)\<rparr>\<rparr>)"

text \<open>The search over the \<open>n\<close> clusters still to be looked at; \<open>None\<close> when all are taken.\<close>

fun find_free :: "nat \<Rightarrow> fat_st \<Rightarrow> nat \<Rightarrow> nat option res \<times> fat_st" where
  "find_free 0 s c = (Inr None, s)"
| "find_free (Suc n) s c =
     bindE (read_entry s c) (\<lambda>v s1.
       if v = FAT_CLUSTER_FREE then (Inr (Some c), s1)
       else find_free n s1 (if u32 (c + 1) > u32 (total_clusters (sb s1) + 1) then 2 else u32 (c + 1)))"

definition alloc_cluster :: "fat_st \<Rightarrow> nat res \<times> fat_st" where
  "alloc_cluster s =
     (let max_cluster = u32 (total_clusters (sb s) + 1);
          start = (if next_free (sb s) < 2 \<or> next_free (sb s) > max_cluster then 2 else next_free (sb s))
      in bindE (find_free (total_clusters (sb s)) s start) (\<lambda>found s1.
           case found of None \<Rightarrow> (Inl ENOSPC, s1)
           | Some c \<Rightarrow>
             bindE (write_entry s1 c FAT_CLUSTER_EOC) (\<lambda>_ s2.
               let b = sb s2;
                   fc = (if free_count b \<noteq> 0xFFFFFFFF \<and> free_count b > 0 then free_count b - 1 else free_count b);
                   nf = (if u32 (c + 1) > max_cluster then 2 else u32 (c + 1))
               in (Inr c, s2\<lparr>sb := b\<lparr>free_count := fc, next_free := nf\<rparr>\<rparr>))))"

text \<open>The loop of \<open>free_chain\<close> with \<open>n\<close> rounds left before its guard.\<close>

fun free_from :: "nat \<Rightarrow> fat_st \<Rightarrow> nat \<Rightarrow> unit res \<times> fat_st" where
  "free_from n s c =
     (if c \<ge> 2 \<and> c < FAT_CLUSTER_EOC then
        (case n of 0 \<Rightarrow> (Inl EIO, s)
         | Suc m \<Rightarrow>
           bindE (read_entry s c) (\<lambda>next s1.
           bindE (write_entry s1 c FAT_CLUSTER_FREE) (\<lambda>_ s2.
             let b = sb s2 in
             free_from m (s2\<lparr>sb := b\<lparr>free_count := (if free_count b \<noteq> 0xFFFFFFFF then free_count b + 1 else free_count b)\<rparr>\<rparr>) next)))
      else (Inr (), s))"

declare free_from.simps [simp del]

definition free_chain :: "fat_st \<Rightarrow> nat \<Rightarrow> unit res \<times> fat_st" where
  "free_chain s first = free_from (u32 (total_clusters (sb s) + 2)) s first"

text \<open>The end of the chain from \<open>c\<close>, the cluster number \<open>idx\<close> of the file, with \<open>n\<close> rounds left.\<close>

fun find_end :: "nat \<Rightarrow> fat_st \<Rightarrow> nat \<Rightarrow> nat \<Rightarrow> (nat \<times> nat) res \<times> fat_st" where
  "find_end n s c idx =
     bindE (read_entry s c) (\<lambda>next s1.
       if next \<ge> FAT_CLUSTER_EOC then (Inr (c, idx), s1)
       else if next < 2 then (Inl EIO, s1)
       else case n of 0 \<Rightarrow> (Inl EIO, s1) | Suc m \<Rightarrow> find_end m s1 next (u32 (idx + 1)))"

declare find_end.simps [simp del]

definition chain_append :: "fat_st \<Rightarrow> nat \<Rightarrow> unit res \<times> fat_st" where
  "chain_append s newc =
     (let n = fn s in
      if first_cluster n < 2
      then (Inr (), s\<lparr>fn := n\<lparr>first_cluster := newc, last_index := 0, last_cluster := newc\<rparr>\<rparr>)
      else bindE (find_end (u32 (total_clusters (sb s) + 2)) s
             (if last_cluster n \<ge> 2 then last_cluster n else first_cluster n)
             (if last_cluster n < 2 then 0 else last_index n)) (\<lambda>(c, idx) s1.
           bindE (write_entry s1 c newc) (\<lambda>_ s2.
             (Inr (), s2\<lparr>fn := (fn s2)\<lparr>last_index := u32 (idx + 1), last_cluster := newc\<rparr>\<rparr>))))"

section \<open>FSInfo and the clean flag\<close>

definition flush_fsinfo :: "fat_st \<Rightarrow> unit res \<times> fat_st" where
  "flush_fsinfo s =
     (if \<not> fsinfo_valid (sb s) \<or> fsinfo_sector (sb s) = 0 then (Inr (), s)
      else case cache_get (dsk s) (Some (sb_dev (sb s))) (fsinfo_sector (sb s)) of
        (Inl e, d) \<Rightarrow> (Inl e, s\<lparr>dsk := d\<rparr>)
      | (Inr i, d) \<Rightarrow>
          (let x = data (buf_at d i) in
           if rd32 x 0 = 0x41615252 \<and> rd32 x 484 = 0x61417272
           then (Inr (), s\<lparr>dsk := cache_put (set_data d i (wr32 (wr32 x 488 (free_count (sb s))) 492 (next_free (sb s)))) i True\<rparr>)
           else (Inr (), s\<lparr>dsk := cache_put d i False\<rparr>)))"

definition set_dirty_bit :: "fat_st \<Rightarrow> bool \<Rightarrow> fat_st" where
  "set_dirty_bit s d =
     (case read_entry s 1 of (Inl e, s1) \<Rightarrow> s1
      | (Inr v, s1) \<Rightarrow>
          (let want = (if d then unset_bit 27 v else set_bit 27 v) in
           if want = v then s1
           else case write_entry s1 1 want of (Inl e, s2) \<Rightarrow> s2
           | (Inr _, s2) \<Rightarrow> s2\<lparr>dsk := snd (flush (dsk s2) (Some (sb_dev (sb s2))))\<rparr>))"

definition load_fsinfo :: "fat_st \<Rightarrow> unit res \<times> fat_st" where
  "load_fsinfo s0 =
     (let s = s0\<lparr>sb := (sb s0)\<lparr>fsinfo_valid := False, free_count := 0xFFFFFFFF, next_free := 2\<rparr>\<rparr> in
      if fsinfo_sector (sb s) = 0 \<or> fsinfo_sector (sb s) \<ge> reserved_sectors (sb s)
      then (Inr (), scan_free_hint s)
      else case cache_get (dsk s) (Some (sb_dev (sb s))) (fsinfo_sector (sb s)) of
        (Inl e, d) \<Rightarrow> (Inl e, scan_free_hint (s\<lparr>dsk := d\<rparr>))
      | (Inr i, d) \<Rightarrow>
          (let x = data (buf_at d i);
               sigs_ok = (rd32 x 0 = 0x41615252 \<and> rd32 x 484 = 0x61417272 \<and> rd32 x 508 = 0xAA550000);
               s1 = s\<lparr>dsk := cache_put d i False\<rparr>
           in if \<not> sigs_ok \<or> rd32 x 488 = 0xFFFFFFFF \<or> rd32 x 492 < 2 \<or> rd32 x 492 > u32 (total_clusters (sb s) + 1)
              then let s2 = scan_free_hint s1 in (Inr (), s2\<lparr>sb := (sb s2)\<lparr>fsinfo_valid := sigs_ok\<rparr>\<rparr>)
              else (Inr (), s1\<lparr>sb := (sb s1)\<lparr>fsinfo_valid := True, free_count := rd32 x 488, next_free := rd32 x 492\<rparr>\<rparr>)))"

section \<open>The superblock\<close>

text \<open>The geometry from the boot sector \<open>x\<close> of a device, the checks in the order of the source.\<close>

definition no_super :: fat_super where
  "no_super = \<lparr>sb_dev = 0, bytes_per_sector = 0, sectors_per_cluster = 0, cluster_size = 0, reserved_sectors = 0,
     num_fats = 0, fat_size = 0, fat_start = 0, data_start = 0, root_cluster = 0, total_sectors = 0, total_clusters = 0,
     fsinfo_sector = 0, fsinfo_valid = False, free_count = 0, next_free = 0, active = False\<rparr>"

definition read_bpb :: "blkdev \<Rightarrow> nat \<Rightarrow> byte list \<Rightarrow> fat_super res" where
  "read_bpb dev d x =
     (let spc = byte_at x 13 in
      if rd16 x 11 \<noteq> sector_size dev then Inl EINVAL
      else if spc = 0 \<or> spc > 128 \<or> x ! 13 AND (x ! 13 - 1) \<noteq> 0 then Inl EINVAL
      else if byte_at x 16 = 0 \<or> rd32 x 36 = 0 \<or> rd32 x 44 < 2 \<or> rd32 x 32 = 0 then Inl EINVAL
      else let data = u32 (rd16 x 14 + byte_at x 16 * rd32 x 36);
               total = (if rd32 x 32 > sector_count dev then u32 (sector_count dev) else rd32 x 32)
           in if data \<ge> total then Inl EINVAL
              else Inr (no_super\<lparr>sb_dev := d, bytes_per_sector := rd16 x 11, sectors_per_cluster := spc,
                     cluster_size := spc * rd16 x 11, reserved_sectors := rd16 x 14, num_fats := byte_at x 16,
                     fat_size := rd32 x 36, fat_start := rd16 x 14, data_start := data, root_cluster := rd32 x 44,
                     total_sectors := total, total_clusters := (total - data) div spc, fsinfo_sector := rd16 x 48\<rparr>))"

text \<open>After an error the caller, \<open>fat_mount_fs\<close>, clears the superblock.\<close>

definition read_super :: "fat_st \<Rightarrow> nat \<Rightarrow> unit res \<times> fat_st" where
  "read_super s d =
     (case cache_get (dsk s) (Some d) 0 of
        (Inl e, d1) \<Rightarrow> (Inl e, s\<lparr>sb := no_super, dsk := d1\<rparr>)
      | (Inr i, d1) \<Rightarrow>
        (let d2 = cache_put d1 i False in
         case read_bpb (dev_at d1 d) d (data (buf_at d1 i)) of Inl e \<Rightarrow> (Inl e, s\<lparr>sb := no_super, dsk := d2\<rparr>)
         | Inr b \<Rightarrow>
           (case kmalloc_ok d2 of (False, d3) \<Rightarrow> (Inl ENOMEM, s\<lparr>sb := no_super, dsk := d3\<rparr>)
            | (True, d3) \<Rightarrow>
              let s1 = snd (load_fsinfo (s\<lparr>sb := b, dsk := d3\<rparr>));
                  s2 = snd (read_entry s1 1);
                  s3 = set_dirty_bit s2 True
              in (Inr (), s3\<lparr>sb := (sb s3)\<lparr>active := True\<rparr>\<rparr>))))"

section \<open>The table\<close>

text \<open>What the operations never change of a superblock.\<close>

definition geo :: "fat_super \<Rightarrow> fat_super" where
  "geo b = b\<lparr>fsinfo_valid := False, free_count := 0, next_free := 0, active := False\<rparr>"

lemma geo_same [simp]: "geo (b\<lparr>free_count := x\<rparr>) = geo b" "geo (b\<lparr>next_free := x\<rparr>) = geo b"
  "geo (b\<lparr>fsinfo_valid := v\<rparr>) = geo b" "geo (b\<lparr>active := v\<rparr>) = geo b" "geo (geo b) = geo b"
  by (simp_all add: geo_def)

lemma geo_fields [simp]: "sb_dev (geo b) = sb_dev b" "bytes_per_sector (geo b) = bytes_per_sector b"
  "sectors_per_cluster (geo b) = sectors_per_cluster b" "cluster_size (geo b) = cluster_size b"
  "reserved_sectors (geo b) = reserved_sectors b" "num_fats (geo b) = num_fats b" "fat_size (geo b) = fat_size b"
  "fat_start (geo b) = fat_start b" "data_start (geo b) = data_start b" "root_cluster (geo b) = root_cluster b"
  "total_clusters (geo b) = total_clusters b" "fsinfo_sector (geo b) = fsinfo_sector b"
  by (simp_all add: geo_def)

text \<open>A sound layout on the device: the FAT describes all clusters, its copies lie before the data,
  the data area inside the device, and every cluster number is below the end marks.\<close>

definition layout :: "blkdev \<Rightarrow> fat_super \<Rightarrow> bool" where
  "layout x g \<longleftrightarrow> bytes_per_sector g = sector_size x \<and> 0 < bytes_per_sector g \<and> 4 dvd bytes_per_sector g \<and>
     0 < num_fats g \<and> 4 * (total_clusters g + 2) \<le> fat_size g * bytes_per_sector g \<and>
     0 < fat_start g \<and> fat_start g + num_fats g * fat_size g \<le> data_start g \<and>
     0 < sectors_per_cluster g \<and> sectors_per_cluster g \<le> 128 \<and> cluster_size g = sectors_per_cluster g * bytes_per_sector g \<and>
     data_start g + total_clusters g * sectors_per_cluster g \<le> sector_count x \<and>
     data_start g + total_clusters g * sectors_per_cluster g < 2 ^ 32 \<and> cluster_size g < 2 ^ 32 \<and>
     total_clusters g + 2 \<le> FAT_CLUSTER_BAD"

lemma layoutD:
  assumes "layout x g"
  shows "bytes_per_sector g = sector_size x" "0 < bytes_per_sector g" "4 dvd bytes_per_sector g" "0 < num_fats g"
    "4 * (total_clusters g + 2) \<le> fat_size g * bytes_per_sector g" "fat_start g + num_fats g * fat_size g \<le> data_start g"
    "data_start g + total_clusters g * sectors_per_cluster g < 2 ^ 32" "total_clusters g + 2 \<le> FAT_CLUSTER_BAD"
  using assms by (auto simp: layout_def)

definition entry_sector :: "fat_super \<Rightarrow> nat \<Rightarrow> nat \<Rightarrow> nat" where
  "entry_sector g f c = fat_start g + f * fat_size g + 4 * c div bytes_per_sector g"

definition entry_pos :: "fat_super \<Rightarrow> nat \<Rightarrow> nat" where
  "entry_pos g c = 4 * c mod bytes_per_sector g"

text \<open>The whole 32-bit slot of cluster \<open>c\<close> in copy \<open>f\<close>, and its 28-bit value.\<close>

definition slot :: "fat_super \<Rightarrow> (nat \<Rightarrow> nat \<Rightarrow> sector) \<Rightarrow> nat \<Rightarrow> nat \<Rightarrow> nat" where
  "slot g V f c = rd32 (V (sb_dev g) (entry_sector g f c)) (entry_pos g c)"

definition tab :: "fat_super \<Rightarrow> (nat \<Rightarrow> nat \<Rightarrow> sector) \<Rightarrow> nat \<Rightarrow> nat \<Rightarrow> nat" where
  "tab g V f c = slot g V f c mod 2 ^ 28"

text \<open>The contents after an entry was written to the copies \<open>fs\<close>.\<close>

definition put_entry :: "fat_super \<Rightarrow> (nat \<Rightarrow> nat \<Rightarrow> sector) \<Rightarrow> nat \<Rightarrow> nat \<Rightarrow> nat set \<Rightarrow> nat \<Rightarrow> nat \<Rightarrow> sector" where
  "put_entry g V c v F = (\<lambda>d l. if d = sb_dev g \<and> l \<in> (\<lambda>f. entry_sector g f c) ` F then set_slot (V d l) (entry_pos g c) (v mod 2 ^ 28) else V d l)"

definition mounted :: "nat set \<Rightarrow> (nat \<Rightarrow> blkdev) \<Rightarrow> fat_super \<Rightarrow> (nat \<Rightarrow> nat \<Rightarrow> sector) \<Rightarrow> fat_st \<Rightarrow> bool" where
  "mounted U dv g V s \<longleftrightarrow> at_rest U dv V (dsk s) \<and> inited (dsk s) \<and> sb_dev g \<in> U \<and> layout (dv (sb_dev g)) g \<and> geo (sb s) = geo g"

lemma mountedD:
  assumes "mounted U dv g V s"
  shows "at_rest U dv V (dsk s)" "inited (dsk s)" "sb_dev g \<in> U" "layout (dv (sb_dev g)) g" "geo (sb s) = geo g"
  using assms by (auto simp: mounted_def)

lemma geo_eqD:
  assumes "geo b = geo g"
  shows "sb_dev b = sb_dev g" "bytes_per_sector b = bytes_per_sector g" "sectors_per_cluster b = sectors_per_cluster g"
    "cluster_size b = cluster_size g" "num_fats b = num_fats g" "fat_size b = fat_size g" "fat_start b = fat_start g"
    "data_start b = data_start g" "total_clusters b = total_clusters g" "reserved_sectors b = reserved_sectors g"
    "fsinfo_sector b = fsinfo_sector g"
  by (metis assms geo_fields)+

lemma layout_less: "layout x g \<Longrightarrow> total_clusters g + 2 < 2 ^ 28"
  using layoutD(8) [of x g] by (simp add: fat_values)

lemma max_cluster: "layout x g \<Longrightarrow> u32 (total_clusters g + 1) = total_clusters g + 1"
  "layout x g \<Longrightarrow> u32 (total_clusters g + 2) = total_clusters g + 2"
  "layout x g \<Longrightarrow> u32 (Suc (total_clusters g)) = Suc (total_clusters g)"
  "layout x g \<Longrightarrow> u32 (Suc (Suc (total_clusters g))) = Suc (Suc (total_clusters g))"
  using layout_less [of x g] by (simp_all add: u32_def)

lemma entry_place:
  assumes l: "layout x g" and c: "c \<le> total_clusters g + 1"
  shows "u32 (c * 4) = 4 * c" "entry_pos g c + 4 \<le> bytes_per_sector g" "4 * c div bytes_per_sector g < fat_size g"
    "f < num_fats g \<Longrightarrow> entry_sector g f c < data_start g"
proof -
  note d = layoutD [OF l]
  show "u32 (c * 4) = 4 * c" using layout_less [OF l] c by (simp add: u32_def)
  have "entry_pos g c < bytes_per_sector g" using d(2) by (simp add: entry_pos_def)
  moreover have "4 dvd entry_pos g c" using d(3) by (simp add: entry_pos_def dvd_mod)
  ultimately show "entry_pos g c + 4 \<le> bytes_per_sector g" using d(3) by (auto elim!: dvdE)
  have "4 * c < 4 * (total_clusters g + 2)" using c by simp
  then have "4 * c < fat_size g * bytes_per_sector g" using d(5) by (rule less_le_trans)
  then show lt: "4 * c div bytes_per_sector g < fat_size g" by (simp add: less_mult_imp_div_less)
  assume "f < num_fats g"
  then have "(f + 1) * fat_size g \<le> num_fats g * fat_size g" by (intro mult_le_mono1) simp
  then show "entry_sector g f c < data_start g" using lt d(6) by (simp add: entry_sector_def)
qed

lemma entry_sector_inj:
  assumes "layout x g" "c \<le> total_clusters g + 1" "c' \<le> total_clusters g + 1" "entry_sector g f c = entry_sector g f' c'"
  shows "f = f'" "4 * c div bytes_per_sector g = 4 * c' div bytes_per_sector g"
proof -
  note p = entry_place(3) [OF assms(1,2)] entry_place(3) [OF assms(1,3)]
  have e: "f * fat_size g + 4 * c div bytes_per_sector g = f' * fat_size g + 4 * c' div bytes_per_sector g"
    using assms(4) by (simp add: entry_sector_def)
  then have "(f * fat_size g + 4 * c div bytes_per_sector g) div fat_size g = (f' * fat_size g + 4 * c' div bytes_per_sector g) div fat_size g" by simp
  then show "f = f'" using p by simp
  with e show "4 * c div bytes_per_sector g = 4 * c' div bytes_per_sector g" by simp
qed

lemma entry_apart:
  assumes "layout x g" "c \<noteq> c'" "4 * c div bytes_per_sector g = 4 * c' div bytes_per_sector g"
  shows "entry_pos g c' + 4 \<le> entry_pos g c \<or> entry_pos g c + 4 \<le> entry_pos g c'"
proof -
  define q where "q = 4 * c div bytes_per_sector g * bytes_per_sector g"
  have "4 * c = q + entry_pos g c" "4 * c' = q + entry_pos g c'" unfolding q_def by (simp add: entry_pos_def, simp add: entry_pos_def assms(3))
  then show ?thesis using assms(2) by presburger
qed

lemma rd32_set_slot:
  assumes "i + 4 \<le> length x" "v < 2 ^ 28"
  shows "rd32 (set_slot x i v) i = rd32 x i div 2 ^ 28 * 2 ^ 28 + v"
proof -
  have "rd32 x i div 2 ^ 28 < 16" using rd32_less [of x i] by (simp add: div_less_iff_less_mult)
  then have "rd32 x i div 2 ^ 28 * 2 ^ 28 + v < 2 ^ 32" using assms(2) by simp
  then show ?thesis using assms(1) by (simp add: set_slot_def rd32_wr32)
qed

text \<open>The sectors with the entry of \<open>c\<close> in the copies \<open>F\<close> have their full length.\<close>

definition whole_sectors :: "fat_super \<Rightarrow> (nat \<Rightarrow> nat \<Rightarrow> sector) \<Rightarrow> nat \<Rightarrow> nat set \<Rightarrow> bool" where
  "whole_sectors g V c F \<longleftrightarrow> (\<forall>f \<in> F. length (V (sb_dev g) (entry_sector g f c)) = bytes_per_sector g)"

lemma slot_put_entry:
  assumes l: "layout x g" and c: "c \<le> total_clusters g + 1" "c' \<le> total_clusters g + 1"
    and len: "whole_sectors g V c F"
  shows "slot g (put_entry g V c v F) f c' = (if c' = c \<and> f \<in> F then slot g V f c div 2 ^ 28 * 2 ^ 28 + v mod 2 ^ 28 else slot g V f c')"
proof (cases "\<exists>f' \<in> F. entry_sector g f c' = entry_sector g f' c")
  case True
  then have f: "f \<in> F" "4 * c' div bytes_per_sector g = 4 * c div bytes_per_sector g" "entry_sector g f c' = entry_sector g f c"
    using entry_sector_inj [OF l c(2,1)] by metis+
  then have e: "put_entry g V c v F (sb_dev g) (entry_sector g f c') = set_slot (V (sb_dev g) (entry_sector g f c)) (entry_pos g c) (v mod 2 ^ 28)"
    by (auto simp: put_entry_def)
  show ?thesis
  proof (cases "c' = c")
    case True
    then show ?thesis using e f len entry_place(2) [OF l c(1)] by (simp add: slot_def rd32_set_slot whole_sectors_def)
  next
    case False
    from entry_apart [OF l this f(2)] show ?thesis using e f(3) False by (auto simp: slot_def set_slot_def rd32_wr32_other)
  qed
next
  case False
  then have "put_entry g V c v F (sb_dev g) (entry_sector g f c') = V (sb_dev g) (entry_sector g f c')" by (auto simp: put_entry_def)
  then show ?thesis using False by (auto simp: slot_def)
qed

lemma tab_put_entry:
  assumes "layout x g" "c \<le> total_clusters g + 1" "c' \<le> total_clusters g + 1"
    and "whole_sectors g V c F"
  shows "tab g (put_entry g V c v F) f c' = (if c' = c \<and> f \<in> F then v mod 2 ^ 28 else tab g V f c')"
  using slot_put_entry [OF assms] by (simp add: tab_def)

lemma put_entry_outside:
  assumes "layout x g" "c \<le> total_clusters g + 1" "F \<subseteq> {..<num_fats g}" "d \<noteq> sb_dev g \<or> l < fat_start g \<or> data_start g \<le> l"
  shows "put_entry g V c v F d l = V d l"
proof -
  have "fat_start g \<le> entry_sector g f c \<and> entry_sector g f c < data_start g" if "f \<in> F" for f
    using entry_place(4) [OF assms(1,2), of f] assms(3) that by (auto simp: entry_sector_def)
  then show ?thesis using assms(4) by (fastforce simp: put_entry_def)
qed

lemma put_entry_none [simp]: "put_entry g V c v {} = V"
  by (simp add: put_entry_def)

section \<open>Access through the cache\<close>

text \<open>The errors of an access; none of them is the end of a chain or a full volume.\<close>

definition io_errors :: "errno set" where "io_errors = {EIO, EINVAL, EBUSY, ENOMEM}"

lemma read_chunks_err: "read_chunks s real lba don n dst = (Inl e, s1) \<Longrightarrow> e = EIO"
proof (induction s real lba don n dst rule: read_chunks.induct)
  case (1 s real lba don n dst)
  obtain q s2 where q: "read_attempts MAX_IO_RETRIES s real (u64 (lba + don)) (min (n - don) (max_sectors_per_io (dev_at s real))) = (q, s2)"
    by force
  show ?case
  proof (cases q)
    case (Some x)
    show ?thesis using "1.IH" [OF _ refl q [symmetric] Some] "1.prems" q Some
      by (simp add: read_chunks.simps [of s] Let_def split: if_splits)
  qed (use "1.prems" q in \<open>simp add: read_chunks.simps [of s] Let_def split: if_splits\<close>)
qed

lemma write_chunks_err: "write_chunks s real lba don src = (Inl e, s1) \<Longrightarrow> e = EIO"
proof (induction s real lba don src rule: write_chunks.induct)
  case (1 s real lba don src)
  let ?chunk = "min (length src - don) (max_sectors_per_io (dev_at s real))"
  obtain q s2 where q: "write_attempts MAX_IO_RETRIES s real (u64 (lba + don)) (take ?chunk (drop don src)) = (q, s2)"
    by force
  show ?case
  proof (cases q)
    case True
    show ?thesis using "1.IH" [OF _ refl q [symmetric]] "1.prems" q True
      by (simp add: write_chunks.simps [of s] Let_def split: if_splits)
  qed (use "1.prems" q in \<open>simp add: write_chunks.simps [of s] Let_def split: if_splits\<close>)
qed

lemma block_io_err:
  "block_read s d lba n = (Inl e, s1) \<Longrightarrow> e \<in> io_errors" "block_write s d lba src = (Inl e, s1) \<Longrightarrow> e \<in> io_errors"
  using read_chunks_err write_chunks_err
  by (auto simp: block_read_def block_write_def io_errors_def split: if_splits option.splits prod.splits)

lemma writeback_err: "writeback s i = (Inl e, n, s1) \<Longrightarrow> e \<in> io_errors"
  using block_io_err(2) by (auto simp: writeback_def Let_def io_errors_def [symmetric] split: if_splits prod.splits sum.splits)
    (auto simp: io_errors_def)

lemma get_miss_err: "get_miss s i d l = (Inl e, s1) \<Longrightarrow> e \<in> io_errors"
  using block_io_err(1) by (auto simp: get_miss_def Let_def split: if_splits prod.splits sum.splits)

lemma cache_get_err:
  assumes "cache_get s (Some d) l = (Inl e, s1)" "inited s"
  shows "e \<in> io_errors"
proof -
  have "EINVAL \<in> io_errors" "EBUSY \<in> io_errors" by (simp_all add: io_errors_def)
  then show ?thesis using assms writeback_err get_miss_err
    by (auto simp: cache_get_def Let_def split: if_splits option.splits prod.splits sum.splits)
qed

lemma cache_get_inited: "at_rest U dv V s \<Longrightarrow> d \<in> U \<Longrightarrow> cache_get s (Some d) l = (r, s1) \<Longrightarrow> inited s1 = inited s"
  using cache_get_spec(2) [OF at_restD(1)] by (auto simp: same_frame_def)

lemma cache_put_inited [simp]: "inited (cache_put s i b) = inited s" "inited (set_data s i x) = inited s"
  by (simp_all add: cache_put_def set_data_def Let_def set_buf_def tick_def)

section \<open>Entries in the table\<close>

definition dsk_only :: "fat_st \<Rightarrow> fat_st \<Rightarrow> bool" where
  "dsk_only s s1 \<longleftrightarrow> (\<exists>d. s1 = s\<lparr>dsk := d\<rparr>)"

lemma dsk_only_refl [simp]: "dsk_only s s"
  unfolding dsk_only_def by (rule exI [of _ "dsk s"]) simp

lemma dsk_only_set [simp]: "dsk_only s (s\<lparr>dsk := d\<rparr>)"
  by (auto simp: dsk_only_def)

lemma dsk_only_trans: "dsk_only s s1 \<Longrightarrow> dsk_only s1 s2 \<Longrightarrow> dsk_only s s2"
  by (auto simp: dsk_only_def)

lemma dsk_onlyD:
  assumes "dsk_only s s1"
  shows "sb s1 = sb s" "fn s1 = fn s" "vsize s1 = vsize s" "vdirty s1 = vdirty s"
  using assms by (auto simp: dsk_only_def)

lemma sector_sizes:
  assumes "mounted U dv g V s"
  shows "bytes_per_sector g \<le> block_sz"
  using vols_okD(3) [OF cache_invD(1) [OF at_restD(1) [OF mountedD(1) [OF assms]]] mountedD(3) [OF assms]]
    at_restD(3) [OF mountedD(1) [OF assms] mountedD(3) [OF assms]] layoutD(1) [OF mountedD(4) [OF assms]] by simp

lemma rd32_take: "i + 4 \<le> n \<Longrightarrow> rd32 (take n x) i = rd32 x i"
  by (simp add: rd32_def)

lemma read_entry_spec:
  assumes m: "mounted U dv g V s" and r: "read_entry s c = (r, s1)"
  shows "mounted U dv g V s1" "dsk_only s s1"
    "r = Inr v \<Longrightarrow> 1 \<le> c \<and> c \<le> total_clusters g + 1 \<and> v = tab g V 0 c"
    "r = Inl e \<Longrightarrow> e \<in> io_errors"
proof -
  note d = mountedD [OF m] and ge = geo_eqD [OF mountedD(5) [OF m]] and l = mountedD(4) [OF m]
  have "mounted U dv g V s1 \<and> dsk_only s s1 \<and> (\<forall>v. r = Inr v \<longrightarrow> 1 \<le> c \<and> c \<le> total_clusters g + 1 \<and> v = tab g V 0 c) \<and>
    (\<forall>e. r = Inl e \<longrightarrow> e \<in> io_errors)"
  proof (cases "c < 1 \<or> c > total_clusters g + 1")
    case True
    then have "r = Inl EINVAL" "s1 = s" using r ge max_cluster [OF l] by (auto simp: read_entry_def Let_def)
    then show ?thesis using m by (auto simp: io_errors_def)
  next
    case False
    then have c: "1 \<le> c" "c \<le> total_clusters g + 1" by auto
    note p = entry_place [OF l c(2)]
    have "entry_sector g 0 c < data_start g" using p(4) layoutD(4) [OF l] by simp
    then have sec: "u32 (fat_start g + 4 * c div bytes_per_sector g) = entry_sector g 0 c"
      using layoutD(7) [OF l] by (simp add: u32_def entry_sector_def)
    obtain q d1 where q: "cache_get (dsk s) (Some (sb_dev g)) (entry_sector g 0 c) = (q, d1)" by force
    have eq: "read_entry s c = (case (q, d1) of (Inl e, d) \<Rightarrow> (Inl e, s\<lparr>dsk := d\<rparr>)
              | (Inr i, d) \<Rightarrow> (Inr (rd32 (data (buf_at d i)) (entry_pos g c) mod 2 ^ 28), s\<lparr>dsk := cache_put d i False\<rparr>))"
      using c max_cluster [OF l] ge q sec p(1) unfolding read_entry_def Let_def entry_pos_def by (cases q) simp_all
    note ini = cache_get_inited [OF d(1,3) q]
    show ?thesis
    proof (cases q)
      case (Inl e)
      then show ?thesis using eq r bc.get_err [OF d(1,3)] q cache_get_err [OF q [unfolded Inl] d(2)] d ini by (auto simp: mounted_def)
    next
      case (Inr i)
      note gb = bc.get_bytes [OF d(1,3) q [unfolded Inr]]
      have "rd32 (data (buf_at d1 i)) (entry_pos g c) = slot g V 0 c"
        using gb rd32_take [OF p(2), of "data (buf_at d1 i)"] layoutD(1) [OF l] by (simp add: slot_def)
      then show ?thesis using eq Inr r c d ini bc.put_same [OF d(1,3) q [unfolded Inr]] by (auto simp: mounted_def tab_def)
    qed
  qed
  then show "mounted U dv g V s1" "dsk_only s s1"
    "r = Inr v \<Longrightarrow> 1 \<le> c \<and> c \<le> total_clusters g + 1 \<and> v = tab g V 0 c" "r = Inl e \<Longrightarrow> e \<in> io_errors" by blast+
qed

lemma put_entry_insert:
  assumes l: "layout x g" "c \<le> total_clusters g + 1" "f \<notin> F"
  shows "put_entry g (put_entry g V c v {f}) c v F = put_entry g V c v (insert f F)"
proof (intro ext)
  fix d m
  have "entry_sector g f c \<notin> (\<lambda>f. entry_sector g f c) ` F" using entry_sector_inj(1) [OF l(1,2,2)] l(3) by (metis imageE)
  then show "put_entry g (put_entry g V c v {f}) c v F d m = put_entry g V c v (insert f F) d m"
    by (auto simp: put_entry_def)
qed

lemma write_copies_spec:
  assumes "mounted U dv g V s" "c \<le> total_clusters g + 1" "set fs \<subseteq> {..<num_fats g}" "distinct fs"
    and "write_copies s (4 * c div bytes_per_sector g) (entry_pos g c) (v mod 2 ^ 28) fs = (r, s1)"
  shows "\<exists>F \<subseteq> set fs. mounted U dv g (put_entry g V c v F) s1 \<and> dsk_only s s1 \<and>
    whole_sectors g V c F \<and>
    (r = Inr () \<longrightarrow> F = set fs) \<and> (\<forall>e. r = Inl e \<longrightarrow> e \<in> io_errors) \<and> (F \<noteq> {} \<longrightarrow> hd fs \<in> F)"
  using assms
proof (induction fs arbitrary: V s)
  case Nil
  show ?case using Nil by (auto simp: whole_sectors_def)
next
  case (Cons f fs)
  note m = Cons.prems(1) and c = Cons.prems(2)
  note d = mountedD [OF m] and ge = geo_eqD [OF mountedD(5) [OF m]] and l = mountedD(4) [OF m]
  note p = entry_place [OF l c]
  have f: "f < num_fats g" "f \<notin> set fs" using Cons.prems(3,4) by auto
  have sec: "u64 (fat_start g + f * fat_size g + 4 * c div bytes_per_sector g) = entry_sector g f c"
    using p(4) [OF f(1)] layoutD(7) [OF l] by (simp add: u64_def entry_sector_def)
  obtain q d1 where q: "cache_get (dsk s) (Some (sb_dev g)) (entry_sector g f c) = (q, d1)" by force
  note ini = cache_get_inited [OF d(1,3) q]
  show ?case
  proof (cases q)
    case (Inl e)
    then have "r = Inl e" "s1 = s\<lparr>dsk := d1\<rparr>" using Cons.prems(5) q ge sec by auto
    moreover have "mounted U dv g V (s\<lparr>dsk := d1\<rparr>)" using bc.get_err [OF d(1,3) q [unfolded Inl]] d ini by (simp add: mounted_def)
    ultimately show ?thesis using cache_get_err [OF q [unfolded Inl] d(2)] by (intro exI [of _ "{}"]) (auto simp: whole_sectors_def)
  next
    case (Inr i)
    note gb = bc.get_bytes [OF d(1,3) q [unfolded Inr]]
    let ?x = "set_slot (data (buf_at d1 i)) (entry_pos g c) (v mod 2 ^ 28)"
    let ?s = "s\<lparr>dsk := cache_put (set_data d1 i ?x) i True\<rparr>"
    have len: "length (V (sb_dev g) (entry_sector g f c)) = bytes_per_sector g"
      using gb sector_sizes [OF m] layoutD(1) [OF l] by (metis length_take min.absorb2)
    have tk: "take (bytes_per_sector g) ?x = set_slot (V (sb_dev g) (entry_sector g f c)) (entry_pos g c) (v mod 2 ^ 28)"
      using gb layoutD(1) [OF l] rd32_take [OF p(2), of "data (buf_at d1 i)"] by (simp add: set_slot_def wr32_def take_update_swap)
    have "V(sb_dev g := (V (sb_dev g))(entry_sector g f c := take (bytes_per_sector g) ?x)) = put_entry g V c v {f}"
      unfolding tk by (auto simp: put_entry_def fun_eq_iff)
    then have m1: "mounted U dv g (put_entry g V c v {f}) ?s"
      using bc.put_new [OF d(1,3) q [unfolded Inr], of ?x] gb d ini layoutD(1) [OF l] by (simp add: mounted_def set_slot_def)
    have wc: "write_copies ?s (4 * c div bytes_per_sector g) (entry_pos g c) (v mod 2 ^ 28) fs = (r, s1)"
      using Cons.prems(5) q Inr ge sec by simp
    have "set fs \<subseteq> {..<num_fats g}" "distinct fs" using Cons.prems(3,4) by auto
    from Cons.IH [OF m1 c this wc] obtain F where F: "F \<subseteq> set fs" "mounted U dv g (put_entry g (put_entry g V c v {f}) c v F) s1"
      "dsk_only ?s s1" "whole_sectors g (put_entry g V c v {f}) c F"
      "r = Inr () \<longrightarrow> F = set fs" "\<forall>e. r = Inl e \<longrightarrow> e \<in> io_errors" by blast
    have nf: "f \<notin> F" using F(1) f(2) by blast
    have "length (V (sb_dev g) (entry_sector g f' c)) = bytes_per_sector g" if "f' \<in> insert f F" for f'
      using F(4) that len entry_sector_inj(1) [OF l c c, of f' f] nf by (auto simp: whole_sectors_def put_entry_def split: if_splits)
    then have "whole_sectors g V c (insert f F)" by (simp add: whole_sectors_def)
    moreover have "dsk_only s s1" using dsk_only_trans [OF dsk_only_set F(3)] .
    ultimately show ?thesis using F(1,2,5,6) put_entry_insert [OF l c nf] by (intro exI [of _ "insert f F"]) auto
  qed
qed

lemma write_entry_spec:
  assumes m: "mounted U dv g V s" and w: "write_entry s c v = (r, s1)"
  shows "\<exists>F \<subseteq> {..<num_fats g}. mounted U dv g (put_entry g V c v F) s1 \<and> dsk_only s s1 \<and>
    whole_sectors g V c F \<and>
    (r = Inr () \<longrightarrow> F = {..<num_fats g} \<and> 1 \<le> c \<and> c \<le> total_clusters g + 1) \<and> (\<forall>e. r = Inl e \<longrightarrow> e \<in> io_errors) \<and>
    (F \<noteq> {} \<longrightarrow> 0 \<in> F \<and> 1 \<le> c \<and> c \<le> total_clusters g + 1)"
proof -
  note ge = geo_eqD [OF mountedD(5) [OF m]] and l = mountedD(4) [OF m]
  show ?thesis
  proof (cases "c < 1 \<or> c > total_clusters g + 1")
    case True
    then have "r = Inl EINVAL" "s1 = s" using w ge max_cluster [OF l] by (auto simp: write_entry_def Let_def)
    then show ?thesis using m by (intro exI [of _ "{}"]) (auto simp: io_errors_def whole_sectors_def)
  next
    case False
    then have c: "1 \<le> c" "c \<le> total_clusters g + 1" by auto
    have wc: "write_copies s (4 * c div bytes_per_sector g) (entry_pos g c) (v mod 2 ^ 28) [0..<num_fats g] = (r, s1)"
      using w c ge max_cluster [OF l] entry_place(1) [OF l c(2)] unfolding write_entry_def Let_def entry_pos_def by simp
    have sub: "set [0..<num_fats g] \<subseteq> {..<num_fats g}" by auto
    obtain F where "F \<subseteq> set [0..<num_fats g]"
      "mounted U dv g (put_entry g V c v F) s1 \<and> dsk_only s s1 \<and>
      whole_sectors g V c F \<and>
      (r = Inr () \<longrightarrow> F = set [0..<num_fats g]) \<and> (\<forall>e. r = Inl e \<longrightarrow> e \<in> io_errors) \<and> (F \<noteq> {} \<longrightarrow> hd [0..<num_fats g] \<in> F)"
      using write_copies_spec [OF m c(2) sub distinct_upt wc] by (elim exE conjE) blast
    then show ?thesis using c layoutD(4) [OF l] by (intro exI [of _ F]) (auto simp: lessThan_atLeast0)
  qed
qed

text \<open>Nothing but the FAT area differs.\<close>

definition only_fat :: "fat_super \<Rightarrow> (nat \<Rightarrow> nat \<Rightarrow> sector) \<Rightarrow> (nat \<Rightarrow> nat \<Rightarrow> sector) \<Rightarrow> bool" where
  "only_fat g V V' \<longleftrightarrow> (\<forall>d l. d \<noteq> sb_dev g \<or> l < fat_start g \<or> data_start g \<le> l \<longrightarrow> V' d l = V d l)"

lemma only_fat_refl [simp]: "only_fat g V V"
  by (simp add: only_fat_def)

lemma only_fat_trans: "only_fat g V V' \<Longrightarrow> only_fat g V' V'' \<Longrightarrow> only_fat g V V''"
  by (simp add: only_fat_def)

text \<open>All copies of the FAT hold the same values.\<close>

definition mirrored :: "fat_super \<Rightarrow> (nat \<Rightarrow> nat \<Rightarrow> sector) \<Rightarrow> bool" where
  "mirrored g V \<longleftrightarrow> (\<forall>f < num_fats g. \<forall>c \<le> total_clusters g + 1. tab g V f c = tab g V 0 c)"

text \<open>The table that the first copy shows, over the clusters of the volume.\<close>

definition shows_tab :: "fat_super \<Rightarrow> (nat \<Rightarrow> nat \<Rightarrow> sector) \<Rightarrow> (nat \<Rightarrow> nat) \<Rightarrow> bool" where
  "shows_tab g V T \<longleftrightarrow> (\<forall>c \<le> total_clusters g + 1. tab g V 0 c = T c)"

lemma shows_tab_self: "shows_tab g V (tab g V 0)"
  by (simp add: shows_tab_def)

definition keeps :: "fat_super \<Rightarrow> (nat \<Rightarrow> nat \<Rightarrow> sector) \<Rightarrow> (nat \<Rightarrow> nat \<Rightarrow> sector) \<Rightarrow> bool" where
  "keeps g V V' \<longleftrightarrow> only_fat g V V' \<and> (mirrored g V \<longrightarrow> mirrored g V')"

lemma keeps_refl [simp]: "keeps g V V"
  by (simp add: keeps_def)

lemma keeps_trans: "keeps g V V' \<Longrightarrow> keeps g V' V'' \<Longrightarrow> keeps g V V''"
  using only_fat_trans by (auto simp: keeps_def)

text \<open>The step that the operations on chains are made of.\<close>

lemma write_entry_tab:
  assumes m: "mounted U dv g V s" and T: "shows_tab g V T" and w: "write_entry s c v = (Inr (), s1)"
  shows "\<exists>V'. mounted U dv g V' s1 \<and> keeps g V V' \<and> shows_tab g V' (T(c := v mod 2 ^ 28)) \<and>
    1 \<le> c \<and> c \<le> total_clusters g + 1 \<and> dsk_only s s1"
proof -
  note l = mountedD(4) [OF m]
  let ?F = "{..<num_fats g}"
  have sp: "mounted U dv g (put_entry g V c v ?F) s1" "dsk_only s s1"
    "whole_sectors g V c ?F" "1 \<le> c" "c \<le> total_clusters g + 1"
    using write_entry_spec [OF m w] by auto
  have tp: "tab g (put_entry g V c v ?F) f c' = (if c' = c \<and> f \<in> ?F then v mod 2 ^ 28 else tab g V f c')" if "c' \<le> total_clusters g + 1" for f c'
    by (rule tab_put_entry [OF l sp(5) that sp(3)])
  have "only_fat g V (put_entry g V c v ?F)" using put_entry_outside [OF l sp(5) subset_refl] by (simp add: only_fat_def)
  moreover have "mirrored g (put_entry g V c v ?F)" if mi: "mirrored g V"
    unfolding mirrored_def
  proof (intro allI impI)
    fix f c' assume f: "f < num_fats g" "c' \<le> total_clusters g + 1"
    then have "tab g V f c' = tab g V 0 c'" using mi unfolding mirrored_def by blast
    then show "tab g (put_entry g V c v ?F) f c' = tab g (put_entry g V c v ?F) 0 c'"
      unfolding tp [OF f(2)] using f layoutD(4) [OF l] by simp
  qed
  ultimately have "keeps g V (put_entry g V c v ?F)" by (simp add: keeps_def)
  moreover have "shows_tab g (put_entry g V c v ?F) (T(c := v mod 2 ^ 28))"
    using T layoutD(4) [OF l] by (simp add: shows_tab_def tp)
  ultimately show ?thesis using sp by blast
qed

lemma write_entry_err:
  assumes m: "mounted U dv g V s" and w: "write_entry s c v = (Inl e, s1)"
  shows "\<exists>V'. mounted U dv g V' s1 \<and> only_fat g V V' \<and> e \<in> io_errors \<and> dsk_only s s1 \<and>
    (\<forall>f. \<forall>c' \<le> total_clusters g + 1. c' \<noteq> c \<longrightarrow> tab g V' f c' = tab g V f c')"
proof -
  note l = mountedD(4) [OF m]
  obtain F where F: "F \<subseteq> {..<num_fats g}" "mounted U dv g (put_entry g V c v F) s1" "dsk_only s s1"
    "whole_sectors g V c F" "e \<in> io_errors"
    "F \<noteq> {} \<longrightarrow> c \<le> total_clusters g + 1"
    using write_entry_spec [OF m w] by auto
  show ?thesis
  proof (cases "F = {}")
    case True
    then show ?thesis using F m by (intro exI [of _ V]) simp
  next
    case False
    then have c: "c \<le> total_clusters g + 1" using F(6) by simp
    have "only_fat g V (put_entry g V c v F)" using put_entry_outside [OF l c F(1)] by (simp add: only_fat_def)
    then show ?thesis using F tab_put_entry [OF l c _ F(4)] by (intro exI [of _ "put_entry g V c v F"]) simp
  qed
qed

section \<open>Allocation\<close>

abbreviation clusters :: "fat_super \<Rightarrow> nat set" where
  "clusters g \<equiv> {2..total_clusters g + 1}"

definition free_clusters :: "fat_super \<Rightarrow> (nat \<Rightarrow> nat) \<Rightarrow> nat set" where
  "free_clusters g T = {c \<in> clusters g. T c = FAT_CLUSTER_FREE}"

lemma finite_free [simp]: "finite (free_clusters g T)"
  by (simp add: free_clusters_def)

lemma free_clusters_cong: "(\<And>c. c \<in> clusters g \<Longrightarrow> T c = T' c) \<Longrightarrow> free_clusters g T = free_clusters g T'"
  by (auto simp: free_clusters_def)

text \<open>The \<open>i\<close>-th cluster of the search that starts at \<open>c\<close>.\<close>

definition round_robin :: "nat \<Rightarrow> nat \<Rightarrow> nat \<Rightarrow> nat" where
  "round_robin n c i = 2 + (c - 2 + i) mod n"

lemma round_robin_next:
  assumes "2 \<le> c" "c \<le> n + 1"
  shows "round_robin n (if n + 1 < c + 1 then 2 else c + 1) i = round_robin n c (Suc i)"
proof (cases "c = n + 1")
  case True
  then have "c - 2 + Suc i = i + n" using assms by simp
  then show ?thesis using True by (simp add: round_robin_def)
next
  case False
  then have "(if n + 1 < c + 1 then 2 else c + 1) - 2 + i = c - 2 + Suc i" using assms by simp
  then show ?thesis by (simp only: round_robin_def)
qed

lemma round_robin_covers:
  assumes "2 \<le> c" "c \<le> n + 1" "2 \<le> k" "k \<le> n + 1"
  shows "\<exists>i < n. round_robin n c i = k"
proof (cases "c \<le> k")
  case True
  then have "round_robin n c (k - c) = k" "k - c < n" using assms by (auto simp: round_robin_def)
  then show ?thesis by blast
next
  case False
  then have "c - 2 + (n + k - c) = k - 2 + n" "k - 2 < n" using assms by auto
  then have "round_robin n c (n + k - c) = 2 + (k - 2 + n) mod n" "(k - 2 + n) mod n = k - 2"
    unfolding round_robin_def by (simp only:, simp only: mod_add_self2 mod_less)
  then have "round_robin n c (n + k - c) = k" using assms by simp
  moreover have "n + k - c < n" using False assms by auto
  ultimately show ?thesis by blast
qed

lemma find_free_spec:
  assumes "mounted U dv g V s" "shows_tab g V T" "c \<in> clusters g" "find_free n s c = (r, s1)"
  shows "mounted U dv g V s1 \<and> dsk_only s s1 \<and> (\<forall>e. r = Inl e \<longrightarrow> e \<in> io_errors) \<and>
    (\<forall>k. r = Inr (Some k) \<longrightarrow> k \<in> free_clusters g T) \<and>
    (r = Inr None \<longrightarrow> (\<forall>i < n. T (round_robin (total_clusters g) c i) \<noteq> FAT_CLUSTER_FREE))"
  using assms
proof (induction n arbitrary: s c)
  case 0
  then show ?case by auto
next
  case (Suc n)
  obtain q s2 where q: "read_entry s c = (q, s2)" by force
  note re = read_entry_spec [OF Suc.prems(1) q]
  show ?case
  proof (cases q)
    case (Inl e)
    then have "r = Inl e" "s1 = s2" using q Suc.prems(4) by auto
    with re(1,2) re(4) [OF Inl] show ?thesis by auto
  next
    case (Inr v)
    have v: "v = T c" using re(3) [OF Inr] Suc.prems(2) by (auto simp: shows_tab_def)
    show ?thesis
    proof (cases "v = FAT_CLUSTER_FREE")
      case True
      then have "r = Inr (Some c)" "s1 = s2" using q Inr Suc.prems(4) by auto
      with re(1,2) v True Suc.prems(3) show ?thesis by (auto simp: free_clusters_def)
    next
      case False
      let ?c = "if total_clusters g + 1 < c + 1 then 2 else c + 1"
      note l = mountedD(4) [OF Suc.prems(1)]
      have "u32 (c + 1) = c + 1" using Suc.prems(3) layout_less [OF l] by (simp add: u32_def)
      then have ff: "find_free n s2 ?c = (r, s1)"
        using Suc.prems(4) q Inr False max_cluster [OF l] geo_eqD(9) [OF mountedD(5) [OF re(1)]] by (simp split: if_splits)
      have c: "?c \<in> clusters g" using Suc.prems(3) by auto
      have "T (round_robin (total_clusters g) c i) \<noteq> FAT_CLUSTER_FREE"
        if "\<forall>i < n. T (round_robin (total_clusters g) ?c i) \<noteq> FAT_CLUSTER_FREE" "i < Suc n" for i
      proof (cases i)
        case 0
        then have "round_robin (total_clusters g) c i = c" using Suc.prems(3) by (auto simp: round_robin_def)
        then show ?thesis using False v by simp
      next
        case (Suc j)
        have "round_robin (total_clusters g) c (Suc j) = round_robin (total_clusters g) ?c j"
          using round_robin_next [of c "total_clusters g" j] Suc.prems(3) \<open>c \<in> clusters g\<close> by simp
        then show ?thesis using that Suc by simp
      qed
      then show ?thesis using Suc.IH [OF re(1) Suc.prems(2) c ff] dsk_only_trans [OF re(2)] by blast
    qed
  qed
qed

text \<open>The count of free clusters is known and right.\<close>

definition count_ok :: "fat_super \<Rightarrow> (nat \<Rightarrow> nat) \<Rightarrow> fat_st \<Rightarrow> bool" where
  "count_ok g T s \<longleftrightarrow> free_count (sb s) = card (free_clusters g T)"

lemma free_clusters_take: "c \<in> free_clusters g T \<Longrightarrow> v \<noteq> FAT_CLUSTER_FREE \<Longrightarrow> free_clusters g (T(c := v)) = free_clusters g T - {c}"
  by (auto simp: free_clusters_def)

lemma free_clusters_give: "c \<in> clusters g \<Longrightarrow> T c \<noteq> FAT_CLUSTER_FREE \<Longrightarrow>
    free_clusters g (T(c := FAT_CLUSTER_FREE)) = insert c (free_clusters g T) \<and> c \<notin> free_clusters g T"
  by (auto simp: free_clusters_def)

lemma card_free: "layout x g \<Longrightarrow> card (free_clusters g T) < 0xFFFFFFFF"
proof -
  assume l: "layout x g"
  have "card (free_clusters g T) \<le> card (clusters g)" by (rule card_mono) (auto simp: free_clusters_def)
  then show ?thesis using layout_less [OF l] by simp
qed

lemma mounted_sb: "mounted U dv g V s \<Longrightarrow> geo b = geo (sb s) \<Longrightarrow> mounted U dv g V (s\<lparr>sb := b\<rparr>)"
  by (simp add: mounted_def)

lemma alloc_cluster_spec:
  assumes m: "mounted U dv g V s" and T: "shows_tab g V T" and a: "alloc_cluster s = (r, s1)"
  shows "r = Inr c \<Longrightarrow> c \<in> free_clusters g T \<and> fn s1 = fn s \<and> vsize s1 = vsize s \<and> (count_ok g T s \<longrightarrow> count_ok g (T(c := FAT_CLUSTER_EOC)) s1) \<and>
      next_free (sb s1) \<in> clusters g \<and> (\<exists>V'. mounted U dv g V' s1 \<and> keeps g V V' \<and> shows_tab g V' (T(c := FAT_CLUSTER_EOC)))"
    and "r = Inl ENOSPC \<Longrightarrow> free_clusters g T = {} \<and> mounted U dv g V s1 \<and> dsk_only s s1"
    and "r = Inl e \<Longrightarrow> e = ENOSPC \<or> e \<in> io_errors"
proof -
  note l = mountedD(4) [OF m] and ge = geo_eqD [OF mountedD(5) [OF m]]
  let ?n = "total_clusters g" and ?start = "if next_free (sb s) < 2 \<or> next_free (sb s) > total_clusters g + 1 then 2 else next_free (sb s)"
  obtain q s2 where q: "find_free ?n s ?start = (q, s2)" by force
  have eos: "FAT_CLUSTER_EOC mod 2 ^ 28 = FAT_CLUSTER_EOC" "ENOSPC \<notin> io_errors" by (simp_all add: fat_values io_errors_def)
  have start: "?start \<in> clusters g" if "?n \<noteq> 0" using that by auto
  have sp: "mounted U dv g V s2 \<and> dsk_only s s2 \<and> (\<forall>e. q = Inl e \<longrightarrow> e \<in> io_errors) \<and>
    (\<forall>k. q = Inr (Some k) \<longrightarrow> k \<in> free_clusters g T) \<and> (q = Inr None \<longrightarrow> free_clusters g T = {})"
  proof (cases "?n = 0")
    case True
    then show ?thesis using q m by (auto simp: free_clusters_def)
  next
    case False
    note ff = find_free_spec [OF m T start [OF False] q]
    have "free_clusters g T = {}" if "q = Inr None"
    proof -
      have "T k \<noteq> FAT_CLUSTER_FREE" if k: "k \<in> clusters g" for k
        using round_robin_covers [of ?start ?n k] start [OF False] k ff \<open>q = Inr None\<close> by auto
      then show ?thesis by (auto simp: free_clusters_def)
    qed
    then show ?thesis using ff by blast
  qed
  have eq: "alloc_cluster s = bindE (q, s2) (\<lambda>found s1. case found of None \<Rightarrow> (Inl ENOSPC, s1)
       | Some c \<Rightarrow> bindE (write_entry s1 c FAT_CLUSTER_EOC) (\<lambda>_ s2.
           (Inr c, s2\<lparr>sb := (sb s2)\<lparr>free_count := (if free_count (sb s2) \<noteq> 0xFFFFFFFF \<and> free_count (sb s2) > 0 then free_count (sb s2) - 1 else free_count (sb s2)),
              next_free := (if u32 (c + 1) > total_clusters g + 1 then 2 else u32 (c + 1))\<rparr>\<rparr>)))"
    unfolding alloc_cluster_def Let_def ge max_cluster [OF l] q ..
  show "e = ENOSPC \<or> e \<in> io_errors" if "r = Inl e"
    using that a sp unfolding eq
    by (auto split: sum.splits option.splits prod.splits simp: bindE_def dest!: write_entry_err [rotated])
  show "free_clusters g T = {} \<and> mounted U dv g V s1 \<and> dsk_only s s1" if "r = Inl ENOSPC"
    using that a sp eos(2) unfolding eq
    by (auto split: sum.splits option.splits prod.splits simp: bindE_def dest!: write_entry_err [rotated])
  show "c \<in> free_clusters g T \<and> fn s1 = fn s \<and> vsize s1 = vsize s \<and> (count_ok g T s \<longrightarrow> count_ok g (T(c := FAT_CLUSTER_EOC)) s1) \<and>
      next_free (sb s1) \<in> clusters g \<and> (\<exists>V'. mounted U dv g V' s1 \<and> keeps g V V' \<and> shows_tab g V' (T(c := FAT_CLUSTER_EOC)))"
    if rc: "r = Inr c"
  proof -
    obtain s3 where s3: "q = Inr (Some c)" "write_entry s2 c FAT_CLUSTER_EOC = (Inr (), s3)"
      "s1 = s3\<lparr>sb := (sb s3)\<lparr>free_count := (if free_count (sb s3) \<noteq> 0xFFFFFFFF \<and> free_count (sb s3) > 0 then free_count (sb s3) - 1 else free_count (sb s3)),
              next_free := (if u32 (c + 1) > total_clusters g + 1 then 2 else u32 (c + 1))\<rparr>\<rparr>"
      using rc a unfolding eq by (auto simp: bindE_def split: sum.splits option.splits prod.splits)
    have fc: "c \<in> free_clusters g T" using sp s3(1) by blast
    then have cl: "c \<in> clusters g" by (simp add: free_clusters_def)
    obtain V' where V': "mounted U dv g V' s3" "keeps g V V'" "shows_tab g V' (T(c := FAT_CLUSTER_EOC))" "dsk_only s2 s3"
      using write_entry_tab [OF conjunct1 [OF sp] T s3(2), unfolded eos(1)] by blast
    have d: "dsk_only s s3" using dsk_only_trans V'(4) sp by blast
    have u: "u32 (c + 1) = c + 1" using cl layout_less [OF l] by (simp add: u32_def)
    have "0 < card (free_clusters g T)" using fc card_gt_0_iff by fastforce
    have cd: "card (free_clusters g (T(c := FAT_CLUSTER_EOC))) = card (free_clusters g T) - 1"
      using free_clusters_take [OF fc, of FAT_CLUSTER_EOC] fc by (simp add: fat_values)
    have "free_count (sb s3) = free_count (sb s)" using dsk_onlyD(1) [OF d] by simp
    then have "count_ok g (T(c := FAT_CLUSTER_EOC)) s1" if "count_ok g T s"
      using that card_free [OF l, of T] \<open>0 < card (free_clusters g T)\<close> unfolding count_ok_def cd s3(3) by auto
    moreover have "mounted U dv g V' s1" unfolding s3(3) by (rule mounted_sb [OF V'(1)]) simp
    moreover have "next_free (sb s1) \<in> clusters g" using s3(3) u cl by simp
    moreover have "fn s1 = fn s" "vsize s1 = vsize s" using dsk_onlyD [OF d] s3(3) by simp_all
    ultimately show ?thesis using fc V'(2,3) by blast
  qed
qed

section \<open>Chains\<close>

text \<open>The clusters \<open>cs\<close> are linked in the table \<open>T\<close>, the last one marked as the end.\<close>

fun is_chain :: "(nat \<Rightarrow> nat) \<Rightarrow> nat list \<Rightarrow> bool" where
  "is_chain T [] \<longleftrightarrow> False"
| "is_chain T [c] \<longleftrightarrow> T c \<ge> FAT_CLUSTER_EOC"
| "is_chain T (c # c' # cs) \<longleftrightarrow> T c = c' \<and> is_chain T (c' # cs)"

definition file_chain :: "fat_super \<Rightarrow> (nat \<Rightarrow> nat) \<Rightarrow> nat list \<Rightarrow> bool" where
  "file_chain g T cs \<longleftrightarrow> is_chain T cs \<and> set cs \<subseteq> clusters g"

lemma is_chain_ne [simp]: "is_chain T cs \<Longrightarrow> cs \<noteq> []"
  by auto

lemma is_chain_nth: "is_chain T cs \<Longrightarrow> Suc i < length cs \<Longrightarrow> T (cs ! i) = cs ! Suc i"
proof (induction T cs arbitrary: i rule: is_chain.induct)
  case (3 T c c' cs)
  then show ?case by (cases i) auto
qed auto

lemma is_chain_last: "is_chain T cs \<Longrightarrow> T (last cs) \<ge> FAT_CLUSTER_EOC"
  by (induction T cs rule: is_chain.induct) auto

lemma is_chain_cong: "is_chain T cs \<Longrightarrow> (\<And>c. c \<in> set cs \<Longrightarrow> T' c = T c) \<Longrightarrow> is_chain T' cs"
  by (induction T cs rule: is_chain.induct) auto

lemma is_chain_drop: "is_chain T cs \<Longrightarrow> i < length cs \<Longrightarrow> is_chain T (drop i cs)"
proof (induction T cs arbitrary: i rule: is_chain.induct)
  case (3 T c c' cs)
  then show ?case by (cases i) auto
qed auto

text \<open>Two chains from the same cluster are equal, so a chain never comes back to a cluster.\<close>

lemma is_chain_unique:
  assumes "is_chain T cs" "is_chain T ds" "hd cs = hd ds" "\<forall>c \<in> set cs \<union> set ds. c < FAT_CLUSTER_EOC"
  shows "cs = ds"
  using assms
proof (induction T cs arbitrary: ds rule: is_chain.induct)
  case (2 T c)
  then show ?case by (cases ds rule: remdups_adj.cases) auto
next
  case (3 T c c' cs)
  then obtain ds' where ds: "ds = c # ds'" by (cases ds) auto
  with 3 have "ds' \<noteq> []" by (cases ds') auto
  with 3 ds have "is_chain T ds'" "hd ds' = c'" by (cases ds'; auto)+
  with 3 ds show ?case by auto
qed auto

lemma is_chain_distinct:
  assumes "is_chain T cs" "\<forall>c \<in> set cs. c < FAT_CLUSTER_EOC"
  shows "distinct cs"
proof -
  have False if ij: "i < j" "j < length cs" "cs ! i = cs ! j" for i j
  proof -
    have "drop i cs = drop j cs"
      using is_chain_drop [OF assms(1)] ij assms(2)
      by (intro is_chain_unique [of T]) (auto simp: hd_drop_conv_nth dest: in_set_dropD)
    then have "length cs - i = length cs - j" by (metis length_drop)
    then show False using ij by linarith
  qed
  then show ?thesis unfolding distinct_conv_nth by (metis linorder_neqE_nat)
qed

lemma file_chainD:
  assumes "layout x g" "file_chain g T cs"
  shows "is_chain T cs" "cs \<noteq> []" "c \<in> set cs \<Longrightarrow> c \<in> clusters g" "c \<in> set cs \<Longrightarrow> 2 \<le> c \<and> c < FAT_CLUSTER_BAD" "distinct cs" "length cs \<le> total_clusters g"
proof -
  show "is_chain T cs" "cs \<noteq> []" "c \<in> set cs \<Longrightarrow> c \<in> clusters g" using assms(2) by (auto simp: file_chain_def)
  have b: "2 \<le> c \<and> c < FAT_CLUSTER_BAD" if "c \<in> set cs" for c
    using assms(2) layoutD(8) [OF assms(1)] that by (fastforce simp: file_chain_def)
  then show "c \<in> set cs \<Longrightarrow> 2 \<le> c \<and> c < FAT_CLUSTER_BAD" .
  have "\<forall>c \<in> set cs. c < FAT_CLUSTER_EOC" using b by (fastforce simp: fat_values)
  then show dist: "distinct cs" using is_chain_distinct assms(2) by (auto simp: file_chain_def)
  have "card (set cs) \<le> card (clusters g)" using assms(2) by (intro card_mono) (auto simp: file_chain_def)
  then show "length cs \<le> total_clusters g" using distinct_card [OF dist] by simp
qed

text \<open>The position cache of the file is empty or right.\<close>

definition pos_ok :: "fat_node \<Rightarrow> nat list \<Rightarrow> bool" where
  "pos_ok n cs \<longleftrightarrow> first_cluster n = hd cs \<and>
     (last_cluster n < 2 \<or> last_index n < length cs \<and> last_cluster n = cs ! last_index n)"

lemma chain_advance_spec:
  assumes "mounted U dv g V s" "shows_tab g V T" "file_chain g T cs" "i < length cs" "chain_advance s (cs ! i) n = (r, s1)"
  shows "mounted U dv g V s1 \<and> dsk_only s s1 \<and>
    (case r of Inr c \<Rightarrow> i + n < length cs \<and> c = cs ! (i + n) | Inl e \<Rightarrow> e \<in> io_errors \<or> e = ENXIO \<and> length cs \<le> i + n)"
  using assms
proof (induction n arbitrary: s i)
  case (Suc n)
  obtain q s2 where q: "read_entry s (cs ! i) = (q, s2)" by force
  note re = read_entry_spec [OF Suc.prems(1) q] and l = mountedD(4) [OF Suc.prems(1)]
  note fc = file_chainD [OF l Suc.prems(3)]
  show ?case
  proof (cases q)
    case (Inl e)
    then show ?thesis using q Suc.prems(5) re(1,2) re(4) [OF Inl] by auto
  next
    case (Inr v)
    have v: "v = T (cs ! i)" using re(3) [OF Inr] Suc.prems(2) by (auto simp: shows_tab_def)
    show ?thesis
    proof (cases "Suc i < length cs")
      case True
      then have vn: "v = cs ! Suc i" using v is_chain_nth [OF fc(1)] by simp
      then have "2 \<le> v" "v < FAT_CLUSTER_BAD" using fc(4) [of v] True by auto
      then have "chain_advance s2 (cs ! Suc i) n = (r, s1)" using Suc.prems(5) q Inr vn by (auto simp: fat_values)
      from Suc.IH [OF re(1) Suc.prems(2,3) True this] show ?thesis
        using dsk_only_trans [OF re(2)] by (auto split: sum.splits)
    next
      case False
      then have "cs ! i = last cs" using Suc.prems(4) by (metis Suc_lessI diff_Suc_1 last_conv_nth fc(2))
      then have "v \<ge> FAT_CLUSTER_EOC" using v is_chain_last [OF fc(1)] by simp
      then show ?thesis using Suc.prems(5) q Inr re(1,2) False by auto
    qed
  qed
qed auto

lemma cluster_at_spec:
  assumes m: "mounted U dv g V s" "shows_tab g V T" "file_chain g T cs" "pos_ok (fn s) cs" and c: "cluster_at s i = (r, s1)"
  shows "mounted U dv g V s1" "pos_ok (fn s1) cs" "sb s1 = sb s" "vsize s1 = vsize s"
    "case r of Inr c \<Rightarrow> i < length cs \<and> c = cs ! i | Inl e \<Rightarrow> e \<in> io_errors \<or> e = ENXIO \<and> length cs \<le> i"
proof -
  note l = mountedD(4) [OF m(1)] and fc = file_chainD [OF mountedD(4) [OF m(1)] m(3)]
  define near where "near \<longleftrightarrow> last_cluster (fn s) \<ge> 2 \<and> i \<ge> last_index (fn s) \<and> i - last_index (fn s) < total_clusters (sb s)"
  define k where "k = (if near then last_index (fn s) else 0)"
  have k: "k < length cs" "k \<le> i" "(if near then last_cluster (fn s) else first_cluster (fn s)) = cs ! k"
    "(if near then i - last_index (fn s) else i) = i - k"
    using m(4) fc(2) by (auto simp: k_def near_def pos_ok_def hd_conv_nth)
  have f2: "\<not> first_cluster (fn s) < 2" using m(4) fc(2) fc(4) [of "hd cs"] by (auto simp: pos_ok_def)
  obtain q s2 where q: "chain_advance s (cs ! k) (i - k) = (q, s2)" by force
  have eq: "(r, s1) = bindE (q, s2) (\<lambda>c s1. (Inr c, s1\<lparr>fn := (fn s1)\<lparr>last_index := i, last_cluster := c\<rparr>\<rparr>))"
    using c f2 k(3,4) q unfolding cluster_at_def Let_def near_def [symmetric] by simp
  have ki: "k + (i - k) = i" using k(2) by simp
  from chain_advance_spec [OF m(1-3) k(1) q, unfolded ki] have sp: "mounted U dv g V s2" "dsk_only s s2"
    "case q of Inr c \<Rightarrow> i < length cs \<and> c = cs ! i | Inl e \<Rightarrow> e \<in> io_errors \<or> e = ENXIO \<and> length cs \<le> i" by auto
  show "mounted U dv g V s1" "pos_ok (fn s1) cs" "sb s1 = sb s" "vsize s1 = vsize s"
    "case r of Inr c \<Rightarrow> i < length cs \<and> c = cs ! i | Inl e \<Rightarrow> e \<in> io_errors \<or> e = ENXIO \<and> length cs \<le> i"
    using eq sp m(4) dsk_onlyD [OF sp(2)] by (cases q; auto simp: mounted_def pos_ok_def)+
qed

section \<open>Freeing and appending\<close>

definition freed :: "nat list \<Rightarrow> (nat \<Rightarrow> nat) \<Rightarrow> nat \<Rightarrow> nat" where
  "freed cs T = (\<lambda>c. if c \<in> set cs then FAT_CLUSTER_FREE else T c)"

text \<open>After an error some of the chain may be free already, and nothing else is.\<close>

definition only_in :: "fat_super \<Rightarrow> nat set \<Rightarrow> (nat \<Rightarrow> nat \<Rightarrow> sector) \<Rightarrow> (nat \<Rightarrow> nat \<Rightarrow> sector) \<Rightarrow> bool" where
  "only_in g C V V' \<longleftrightarrow> only_fat g V V' \<and> (\<forall>c \<le> total_clusters g + 1. c \<notin> C \<longrightarrow> tab g V' 0 c = tab g V 0 c)"

lemma only_in_trans: "only_in g C V V' \<Longrightarrow> only_in g D V' V'' \<Longrightarrow> C \<subseteq> E \<Longrightarrow> D \<subseteq> E \<Longrightarrow> only_in g E V V''"
  using only_fat_trans by (fastforce simp: only_in_def)

lemma shows_tab_only_in: "shows_tab g V T \<Longrightarrow> shows_tab g V' (T(c := v)) \<Longrightarrow> only_fat g V V' \<Longrightarrow> only_in g {c} V V'"
  by (simp add: shows_tab_def only_in_def)

lemma is_chain_tl: "is_chain T (c # cs) \<Longrightarrow> cs = [] \<and> T c \<ge> FAT_CLUSTER_EOC \<or> T c = hd cs \<and> is_chain T cs"
  by (cases cs) auto

lemma free_from_end: "c \<ge> FAT_CLUSTER_EOC \<Longrightarrow> free_from n s c = (Inr (), s)"
  by (simp add: free_from.simps [of n s c])

lemma free_from_spec:
  assumes "mounted U dv g V s" "shows_tab g V T" "file_chain g T cs" "length cs \<le> n" "free_from n s (hd cs) = (r, s1)"
  shows "\<exists>V'. mounted U dv g V' s1 \<and> only_in g (set cs) V V' \<and> fn s1 = fn s \<and> vsize s1 = vsize s \<and>
    (case r of Inl e \<Rightarrow> e \<in> io_errors
     | Inr _ \<Rightarrow> keeps g V V' \<and> shows_tab g V' (freed cs T) \<and> (count_ok g T s \<longrightarrow> count_ok g (freed cs T) s1))"
  using assms
proof (induction n arbitrary: cs V T s)
  case 0
  then show ?case by (auto simp: file_chain_def)
next
  case (Suc n)
  note m = Suc.prems(1) and T = Suc.prems(2) and l = mountedD(4) [OF Suc.prems(1)]
  note fc = file_chainD [OF l Suc.prems(3)]
  obtain c ds where cs: "cs = c # ds" using fc(2) by (cases cs) auto
  have cc: "c \<in> clusters g" "2 \<le> c" "c < FAT_CLUSTER_EOC" using fc(3,4) [of c] cs by (auto simp: fat_values)
  have Tc: "T c \<noteq> FAT_CLUSTER_FREE"
    using is_chain_tl [of T c ds] fc(1) fc(4) [of "hd ds"] cs by (cases ds) (auto simp: fat_values)
  obtain q s2 where q: "read_entry s c = (q, s2)" by force
  note re = read_entry_spec [OF m q]
  have eq: "(r, s1) = bindE (q, s2) (\<lambda>next s1. bindE (write_entry s1 c FAT_CLUSTER_FREE) (\<lambda>_ s2.
      free_from n (s2\<lparr>sb := (sb s2)\<lparr>free_count := (if free_count (sb s2) \<noteq> 0xFFFFFFFF then free_count (sb s2) + 1 else free_count (sb s2))\<rparr>\<rparr>) next))"
    using Suc.prems(5) cs cc q by (simp add: free_from.simps [of "Suc n"] Let_def)
  show ?case
  proof (cases q)
    case (Inl e)
    then show ?thesis using eq re(1) re(4) [OF Inl] dsk_onlyD [OF re(2)] by (intro exI [of _ V]) (simp add: only_in_def)
  next
    case (Inr v)
    have v: "v = T c" using re(3) [OF Inr] T by (auto simp: shows_tab_def)
    obtain w s3 where w: "write_entry s2 c FAT_CLUSTER_FREE = (w, s3)" by force
    show ?thesis
    proof (cases w)
      case (Inl e)
      obtain V' where V': "mounted U dv g V' s3" "only_fat g V V'" "e \<in> io_errors" "dsk_only s2 s3"
        "\<forall>f. \<forall>c' \<le> total_clusters g + 1. c' \<noteq> c \<longrightarrow> tab g V' f c' = tab g V f c'"
        using write_entry_err [OF re(1) w [unfolded Inl]] by blast
      have "only_in g (set cs) V V'" using V'(2,5) cs by (simp add: only_in_def)
      moreover have "r = Inl e" "s1 = s3" using eq \<open>q = Inr v\<close> w Inl by simp_all
      ultimately show ?thesis using V'(1,3) dsk_onlyD(2,3) [OF dsk_only_trans [OF re(2) V'(4)]] by auto
    next
      case (Inr u)
      have wu: "write_entry s2 c FAT_CLUSTER_FREE = (Inr (), s3)" using w Inr by simp
      have z: "FAT_CLUSTER_FREE mod 2 ^ 28 = FAT_CLUSTER_FREE" by (simp add: fat_values)
      let ?T = "T(c := FAT_CLUSTER_FREE)"
      obtain V' where V': "mounted U dv g V' s3" "keeps g V V'" "shows_tab g V' ?T" "dsk_only s2 s3"
        using write_entry_tab [OF re(1) T wu, unfolded z] by blast
      note d = dsk_onlyD [OF dsk_only_trans [OF re(2) V'(4)]]
      define s4 where "s4 = s3\<lparr>sb := (sb s3)\<lparr>free_count := (if free_count (sb s3) \<noteq> 0xFFFFFFFF then free_count (sb s3) + 1 else free_count (sb s3))\<rparr>\<rparr>"
      have m4: "mounted U dv g V' s4" unfolding s4_def by (rule mounted_sb [OF V'(1)]) simp
      have f4: "fn s4 = fn s" "vsize s4 = vsize s" "free_count (sb s4) = (if free_count (sb s) \<noteq> 0xFFFFFFFF then free_count (sb s) + 1 else free_count (sb s))"
        using d by (simp_all add: s4_def)
      have cd: "card (free_clusters g ?T) = card (free_clusters g T) + 1" using free_clusters_give [of c g T] cc(1) Tc by simp
      have cnt: "count_ok g ?T s4" if "count_ok g T s"
        using that card_free [OF l, of T] unfolding count_ok_def cd f4(3) by auto
      have oi: "only_in g {c} V V'" using shows_tab_only_in [OF T V'(3)] V'(2) by (simp add: keeps_def)
      have fr: "free_from n s4 v = (r, s1)" using eq \<open>q = Inr v\<close> w Inr by (simp add: s4_def)
      show ?thesis
      proof (cases "ds = []")
        case True
        then have "free_from n s4 v = (Inr (), s4)" using is_chain_tl [of T c ds] fc(1) cs v by (intro free_from_end) auto
        then have r1: "r = Inr ()" "s1 = s4" using fr by auto
        have "freed cs T = ?T" using True cs by (auto simp: freed_def)
        then show ?thesis using r1 m4 V'(2,3) oi f4(1,2) cnt True cs by (intro exI [of _ V']) simp
      next
        case False
        then have ch: "v = hd ds" "is_chain T ds" using is_chain_tl [of T c ds] fc(1) cs v by auto
        have "is_chain ?T ds" using fc(5) cs by (intro is_chain_cong [OF ch(2)]) auto
        then have fc': "file_chain g ?T ds" using Suc.prems(3) cs by (simp add: file_chain_def)
        have fd: "freed ds ?T = freed cs T" using cs by (auto simp: freed_def)
        have "length ds \<le> n" using Suc.prems(4) cs by simp
        from Suc.IH [OF m4 V'(3) fc' this fr [unfolded ch(1)], unfolded fd] obtain V'' where V'':
          "mounted U dv g V'' s1" "only_in g (set ds) V' V''" "fn s1 = fn s4" "vsize s1 = vsize s4"
          "case r of Inl e \<Rightarrow> e \<in> io_errors | Inr _ \<Rightarrow> keeps g V' V'' \<and> shows_tab g V'' (freed cs T) \<and> (count_ok g ?T s4 \<longrightarrow> count_ok g (freed cs T) s1)"
          by blast
        have "only_in g (set cs) V V''" using only_in_trans [OF oi V''(2), of "set cs"] cs by auto
        then show ?thesis using V'' f4(1,2) cnt keeps_trans [OF V'(2)] by (intro exI [of _ V'']) (auto split: sum.splits)
      qed
    qed
  qed
qed

lemma free_chain_spec:
  assumes "mounted U dv g V s" "shows_tab g V T" "file_chain g T cs" "free_chain s (hd cs) = (r, s1)"
  shows "\<exists>V'. mounted U dv g V' s1 \<and> only_in g (set cs) V V' \<and> fn s1 = fn s \<and> vsize s1 = vsize s \<and>
    (case r of Inl e \<Rightarrow> e \<in> io_errors
     | Inr _ \<Rightarrow> keeps g V V' \<and> shows_tab g V' (freed cs T) \<and> (count_ok g T s \<longrightarrow> count_ok g (freed cs T) s1))"
proof (rule free_from_spec [OF assms(1-3)])
  note l = mountedD(4) [OF assms(1)]
  show "length cs \<le> total_clusters g + 2" using file_chainD(6) [OF l assms(3)] by simp
  show "free_from (total_clusters g + 2) s (hd cs) = (r, s1)"
    using assms(4) max_cluster [OF l] geo_eqD(9) [OF mountedD(5) [OF assms(1)]] by (simp add: free_chain_def)
qed

lemma find_end_spec:
  assumes "mounted U dv g V s" "shows_tab g V T" "file_chain g T cs" "i < length cs" "length cs \<le> n + i + 1" "find_end n s (cs ! i) i = (r, s1)"
  shows "mounted U dv g V s1 \<and> dsk_only s s1 \<and>
    (case r of Inl e \<Rightarrow> e \<in> io_errors | Inr (c, k) \<Rightarrow> c = last cs \<and> k = length cs - 1)"
  using assms
proof (induction n arbitrary: s i)
  case 0
  have i: "i = length cs - 1" using 0(4,5) by linarith
  then have i: "i = length cs - 1" "cs ! i = last cs" using file_chainD(2) [OF mountedD(4) [OF 0(1)] 0(3)] by (simp_all add: last_conv_nth)
  obtain q s2 where q: "read_entry s (cs ! i) = (q, s2)" by force
  note re = read_entry_spec [OF 0(1) q]
  have "v \<ge> FAT_CLUSTER_EOC" if "q = Inr v" for v
    using re(3) [OF that] 0(2) is_chain_last [OF file_chainD(1) [OF mountedD(4) [OF 0(1)] 0(3)]] i by (auto simp: shows_tab_def)
  then show ?case using 0(6) q re i by (cases q) (auto simp: find_end.simps [of 0 s])
next
  case (Suc n)
  note l = mountedD(4) [OF Suc.prems(1)]
  note fc = file_chainD [OF l Suc.prems(3)]
  obtain q s2 where q: "read_entry s (cs ! i) = (q, s2)" by force
  note re = read_entry_spec [OF Suc.prems(1) q]
  show ?case
  proof (cases q)
    case (Inl e)
    then show ?thesis using Suc.prems(6) q re(1,2) re(4) [OF Inl] by (auto simp: find_end.simps [of "Suc n" s])
  next
    case (Inr v)
    have v: "v = T (cs ! i)" using re(3) [OF Inr] Suc.prems(2) by (auto simp: shows_tab_def)
    show ?thesis
    proof (cases "Suc i < length cs")
      case True
      then have vn: "v = cs ! Suc i" using v is_chain_nth [OF fc(1)] by simp
      then have "2 \<le> v" "v < FAT_CLUSTER_EOC" using fc(4) [of v] True by (auto simp: fat_values)
      moreover have "u32 (i + 1) = Suc i" using True fc(6) layout_less [OF l] by (simp add: u32_def)
      ultimately have "find_end n s2 (cs ! Suc i) (Suc i) = (r, s1)" using Suc.prems(6) q Inr vn by (simp add: find_end.simps [of "Suc n" s])
      from Suc.IH [OF re(1) Suc.prems(2,3) True _ this] show ?thesis
        using Suc.prems(5) dsk_only_trans [OF re(2)] by auto
    next
      case False
      then have i: "i = length cs - 1" using Suc.prems(4) by linarith
      then have i: "i = length cs - 1" "cs ! i = last cs" using fc(2) by (simp_all add: last_conv_nth)
      then have "v \<ge> FAT_CLUSTER_EOC" using v is_chain_last [OF fc(1)] by simp
      then show ?thesis using Suc.prems(6) q Inr re(1,2) i by (auto simp: find_end.simps [of "Suc n" s])
    qed
  qed
qed

lemma is_chain_append:
  assumes "is_chain T cs" "distinct cs" "newc \<notin> set cs" "T newc \<ge> FAT_CLUSTER_EOC"
  shows "is_chain (T(last cs := newc)) (cs @ [newc])"
  using assms
proof (induction T cs rule: is_chain.induct)
  case (3 T c c' cs)
  then have "c \<noteq> last (c' # cs)" by (metis distinct.simps(2) last_in_set list.distinct(1))
  then show ?case using 3 by auto
qed auto

text \<open>The clusters of a file, \<open>[]\<close> while it has none.\<close>

definition node_chain :: "fat_super \<Rightarrow> (nat \<Rightarrow> nat) \<Rightarrow> fat_node \<Rightarrow> nat list \<Rightarrow> bool" where
  "node_chain g T n cs \<longleftrightarrow> (if cs = [] then first_cluster n < 2 else file_chain g T cs \<and> pos_ok n cs)"

lemma chain_append_spec:
  assumes m: "mounted U dv g V s" and T: "shows_tab g V T" and nc: "node_chain g T (fn s) cs"
    and new: "newc \<in> clusters g" "newc \<notin> set cs" "T newc \<ge> FAT_CLUSTER_EOC" and a: "chain_append s newc = (r, s1)"
  shows "\<exists>V'. mounted U dv g V' s1 \<and> vsize s1 = vsize s \<and> sb s1 = sb s \<and>
    (case r of Inl e \<Rightarrow> e \<in> io_errors \<and> only_in g {last cs} V V' \<and> fn s1 = fn s
     | Inr _ \<Rightarrow> keeps g V V' \<and>
        (\<exists>T'. shows_tab g V' T' \<and> (\<forall>c. c \<notin> set cs \<longrightarrow> T' c = T c) \<and> free_clusters g T' = free_clusters g T \<and>
           node_chain g T' (fn s1) (cs @ [newc])))"
proof (cases "cs = []")
  case True
  then have "r = Inr ()" "s1 = s\<lparr>fn := (fn s)\<lparr>first_cluster := newc, last_index := 0, last_cluster := newc\<rparr>\<rparr>"
    using nc a by (auto simp: node_chain_def chain_append_def Let_def)
  moreover have "node_chain g T (fn s1) (cs @ [newc])" using calculation True new by (simp add: node_chain_def file_chain_def pos_ok_def)
  ultimately show ?thesis using m T by (intro exI [of _ V]) (auto simp: mounted_def)
next
  case False
  note l = mountedD(4) [OF m] and ge = geo_eqD [OF mountedD(5) [OF m]]
  have fch: "file_chain g T cs" "pos_ok (fn s) cs" using nc False by (auto simp: node_chain_def)
  note fc = file_chainD [OF l fch(1)]
  define i where "i = (if last_cluster (fn s) < 2 then 0 else last_index (fn s))"
  have i: "i < length cs" "(if last_cluster (fn s) \<ge> 2 then last_cluster (fn s) else first_cluster (fn s)) = cs ! i"
    using fch(2) fc(2) by (auto simp: i_def pos_ok_def hd_conv_nth)
  have f2: "\<not> first_cluster (fn s) < 2" using fch(2) fc(2) fc(4) [of "hd cs"] by (auto simp: pos_ok_def)
  obtain q s2 where q: "find_end (total_clusters g + 2) s (cs ! i) i = (q, s2)" by force
  have eq: "(r, s1) = bindE (q, s2) (\<lambda>(c, idx) s1. bindE (write_entry s1 c newc) (\<lambda>_ s2.
             (Inr (), s2\<lparr>fn := (fn s2)\<lparr>last_index := u32 (idx + 1), last_cluster := newc\<rparr>\<rparr>)))"
    using a f2 unfolding chain_append_def Let_def i(2) i_def [symmetric] ge max_cluster [OF l] q by simp
  have "length cs \<le> total_clusters g + 2 + i + 1" using fc(6) by simp
  note fe = find_end_spec [OF m T fch(1) i(1) this q]
  show ?thesis
  proof (cases q)
    case (Inl e)
    then show ?thesis using eq fe dsk_onlyD [of s s2] by (intro exI [of _ V]) (auto simp: only_in_def)
  next
    case (Inr p)
    then have p: "p = (last cs, length cs - 1)" using fe by (cases p) auto
    have m2: "mounted U dv g V s2" "dsk_only s s2" using fe by auto
    obtain w s3 where w: "write_entry s2 (last cs) newc = (w, s3)" by force
    show ?thesis
    proof (cases w)
      case (Inl e)
      obtain V' where V': "mounted U dv g V' s3" "only_fat g V V'" "e \<in> io_errors" "dsk_only s2 s3"
        "\<forall>f. \<forall>c' \<le> total_clusters g + 1. c' \<noteq> last cs \<longrightarrow> tab g V' f c' = tab g V f c'"
        using write_entry_err [OF m2(1) w [unfolded Inl]] by blast
      have "r = Inl e" "s1 = s3" using eq \<open>q = Inr p\<close> p w Inl by simp_all
      then show ?thesis using V' dsk_onlyD [OF dsk_only_trans [OF m2(2) V'(4)]] by (intro exI [of _ V']) (simp add: only_in_def)
    next
      case (Inr u)
      have wu: "write_entry s2 (last cs) newc = (Inr (), s3)" using w Inr by simp
      have nm: "newc mod 2 ^ 28 = newc" using new(1) layout_less [OF l] by simp
      let ?T = "T(last cs := newc)"
      obtain V' where V': "mounted U dv g V' s3" "keeps g V V'" "shows_tab g V' ?T" "dsk_only s2 s3"
        using write_entry_tab [OF m2(1) T wu, unfolded nm] by blast
      have u: "u32 (length cs - 1 + 1) = length cs" using fc(2,6) layout_less [OF l] by (cases cs) (simp_all add: u32_def)
      have s1: "r = Inr ()" "s1 = s3\<lparr>fn := (fn s3)\<lparr>last_index := length cs, last_cluster := newc\<rparr>\<rparr>"
        using eq \<open>q = Inr p\<close> p wu u by simp_all
      note d = dsk_onlyD [OF dsk_only_trans [OF m2(2) V'(4)]]
      have "file_chain g ?T (cs @ [newc])"
        using is_chain_append [OF fc(1,5) new(2,3)] fch(1) new(1) by (simp add: file_chain_def)
      then have "node_chain g ?T (fn s1) (cs @ [newc])"
        using s1(2) d(2) fch(2) fc(2) by (simp add: node_chain_def pos_ok_def)
      moreover have "free_clusters g ?T = free_clusters g T"
        using is_chain_last [OF fc(1)] new(1) by (auto simp: free_clusters_def fat_values)
      moreover have "\<forall>c. c \<notin> set cs \<longrightarrow> ?T c = T c" using fc(2) by auto
      moreover have "mounted U dv g V' s1" using V'(1) s1(2) by (simp add: mounted_def)
      ultimately show ?thesis using V'(2,3) s1 d by (intro exI [of _ V']) auto
    qed
  qed
qed

section \<open>Progress\<close>

text \<open>With drivers that report no fault, the operations on entries succeed.\<close>

lemma entry_on_disk:
  assumes "mounted U dv g V s" "c \<le> total_clusters g + 1" "f < num_fats g"
  shows "entry_sector g f c < sector_count (dev_at (dsk s) (sb_dev g))"
proof -
  note l = mountedD(4) [OF assms(1)]
  have "data_start g \<le> sector_count (dv (sb_dev g))" using l by (simp add: layout_def)
  then show ?thesis using entry_place(4) [OF l assms(2,3)] at_restD(3) [OF mountedD(1,3) [OF assms(1)]] by simp
qed

lemma read_entry_succeeds:
  assumes m: "mounted U dv g V s" and h: "healthy U (dsk s)" and c: "1 \<le> c" "c \<le> total_clusters g + 1"
  shows "\<exists>s1. read_entry s c = (Inr (tab g V 0 c), s1) \<and> healthy U (dsk s1)"
proof -
  note l = mountedD(4) [OF m] and ge = geo_eqD [OF mountedD(5) [OF m]] and p = entry_place [OF mountedD(4) [OF m] c(2)]
  have f: "0 < num_fats g" using layoutD(4) [OF l] .
  obtain i d1 where q: "cache_get (dsk s) (Some (sb_dev g)) (entry_sector g 0 c) = (Inr i, d1)" "healthy U d1"
    using cache_get_succeeds [OF mountedD(1,3) [OF m] h entry_on_disk [OF m c(2) f]] by blast
  have sec: "u32 (fat_start g + 4 * c div bytes_per_sector g) = entry_sector g 0 c"
    using p(4) [OF f] layoutD(7) [OF l] by (simp add: u32_def entry_sector_def)
  obtain v s1 where r: "read_entry s c = (Inr v, s1)" "s1 = s\<lparr>dsk := cache_put d1 i False\<rparr>"
    using c max_cluster [OF l] ge q sec p(1) by (simp add: read_entry_def Let_def)
  then show ?thesis using read_entry_spec(3) [OF m r(1) refl] q(2) by auto
qed

lemma write_copies_succeeds:
  assumes "mounted U dv g V s" "healthy U (dsk s)" "c \<le> total_clusters g + 1" "set fs \<subseteq> {..<num_fats g}" "distinct fs"
  shows "\<exists>s1. write_copies s (4 * c div bytes_per_sector g) (entry_pos g c) (v mod 2 ^ 28) fs = (Inr (), s1) \<and> healthy U (dsk s1)"
  using assms
proof (induction fs arbitrary: s V)
  case (Cons f fs)
  note m = Cons.prems(1) and c = Cons.prems(3)
  note l = mountedD(4) [OF m] and ge = geo_eqD [OF mountedD(5) [OF m]]
  have f: "f < num_fats g" using Cons.prems(4) by simp
  obtain i d1 where q: "cache_get (dsk s) (Some (sb_dev g)) (entry_sector g f c) = (Inr i, d1)" "healthy U d1"
    using cache_get_succeeds [OF mountedD(1,3) [OF m] Cons.prems(2) entry_on_disk [OF m c f]] by blast
  have sec: "u64 (fat_start g + f * fat_size g + 4 * c div bytes_per_sector g) = entry_sector g f c"
    using entry_place(4) [OF l c f] layoutD(7) [OF l] by (simp add: u64_def entry_sector_def)
  let ?s = "s\<lparr>dsk := cache_put (set_data d1 i (set_slot (data (buf_at d1 i)) (entry_pos g c) (v mod 2 ^ 28))) i True\<rparr>"
  have eq: "write_copies s (4 * c div bytes_per_sector g) (entry_pos g c) (v mod 2 ^ 28) (f # xs) =
      write_copies ?s (4 * c div bytes_per_sector g) (entry_pos g c) (v mod 2 ^ 28) xs" for xs
    using q(1) ge sec by simp
  have w: "write_copies s (4 * c div bytes_per_sector g) (entry_pos g c) (v mod 2 ^ 28) [f] = (Inr (), ?s)" using eq [of "[]"] by simp
  have "set [f] \<subseteq> {..<num_fats g}" "distinct [f]" using f by auto
  from write_copies_spec [OF m c this w] obtain V' where "mounted U dv g V' ?s" by blast
  then show ?case using Cons.IH [of V' ?s] Cons.prems(3,4,5) q(2) eq [of fs] by auto
qed auto

lemma write_entry_succeeds:
  assumes m: "mounted U dv g V s" and h: "healthy U (dsk s)" and c: "1 \<le> c" "c \<le> total_clusters g + 1"
  shows "\<exists>s1. write_entry s c v = (Inr (), s1) \<and> healthy U (dsk s1)"
proof -
  note l = mountedD(4) [OF m] and ge = geo_eqD [OF mountedD(5) [OF m]]
  have "set [0..<num_fats g] \<subseteq> {..<num_fats g}" by auto
  from write_copies_succeeds [OF m h c(2) this distinct_upt, of v] show ?thesis
    using c ge max_cluster [OF l] entry_place(1) [OF l c(2)] unfolding write_entry_def Let_def entry_pos_def by simp
qed

lemma find_free_succeeds:
  assumes "mounted U dv g V s" "healthy U (dsk s)" "c \<in> clusters g"
  shows "\<exists>q s1. find_free n s c = (Inr q, s1) \<and> healthy U (dsk s1)"
  using assms
proof (induction n arbitrary: s c)
  case (Suc n)
  note l = mountedD(4) [OF Suc.prems(1)]
  obtain s1 where r: "read_entry s c = (Inr (tab g V 0 c), s1)" "healthy U (dsk s1)"
    using read_entry_succeeds [OF Suc.prems(1,2), of c] Suc.prems(3) by auto
  note m1 = read_entry_spec(1) [OF Suc.prems(1) r(1)]
  have "u32 (c + 1) = c + 1" using Suc.prems(3) layout_less [OF l] by (simp add: u32_def)
  then have "(if u32 (c + 1) > u32 (total_clusters (sb s1) + 1) then 2 else u32 (c + 1)) \<in> clusters g"
    using Suc.prems(3) max_cluster [OF l] geo_eqD(9) [OF mountedD(5) [OF m1]] by auto
  from Suc.IH [OF m1 r(2) this] show ?case using r by simp
qed auto

lemma alloc_cluster_succeeds:
  assumes m: "mounted U dv g V s" and h: "healthy U (dsk s)" and a: "alloc_cluster s = (r, s1)"
  shows "(r = Inl ENOSPC \<or> (\<exists>c. r = Inr c)) \<and> healthy U (dsk s1)"
proof -
  note l = mountedD(4) [OF m] and ge = geo_eqD [OF mountedD(5) [OF m]]
  let ?start = "if next_free (sb s) < 2 \<or> next_free (sb s) > total_clusters g + 1 then 2 else next_free (sb s)"
  obtain q s2 where q: "find_free (total_clusters g) s ?start = (Inr q, s2)" "healthy U (dsk s2)" "q = None \<or> (\<exists>c \<in> clusters g. q = Some c)"
    "mounted U dv g V s2"
  proof (cases "total_clusters g = 0")
    case True
    then show thesis using h m by (intro that [of None s]) simp_all
  next
    case False
    then have st: "?start \<in> clusters g" by auto
    then obtain q s2 where q: "find_free (total_clusters g) s ?start = (Inr q, s2)" "healthy U (dsk s2)"
      using find_free_succeeds [OF m h] by blast
    from find_free_spec [OF m shows_tab_self st q(1)] show thesis
      using q by (intro that [OF q]) (cases q; auto simp: free_clusters_def)+
  qed
  show ?thesis
  proof (cases q)
    case None
    then show ?thesis using a q unfolding alloc_cluster_def Let_def ge max_cluster [OF l] q(1) by auto
  next
    case (Some c)
    then have c: "1 \<le> c" "c \<le> total_clusters g + 1" using q(3) by auto
    obtain s3 where "write_entry s2 c FAT_CLUSTER_EOC = (Inr (), s3)" "healthy U (dsk s3)"
      using write_entry_succeeds [OF q(4,2) c] by blast
    then show ?thesis using a Some unfolding alloc_cluster_def Let_def ge max_cluster [OF l] q(1) by auto
  qed
qed

lemma free_from_succeeds:
  assumes "mounted U dv g V s" "healthy U (dsk s)" "shows_tab g V T" "file_chain g T cs" "length cs \<le> n"
  shows "\<exists>s1. free_from n s (hd cs) = (Inr (), s1) \<and> healthy U (dsk s1)"
  using assms
proof (induction n arbitrary: cs V T s)
  case 0
  then show ?case by (auto simp: file_chain_def)
next
  case (Suc n)
  note l = mountedD(4) [OF Suc.prems(1)]
  note fc = file_chainD [OF l Suc.prems(4)]
  obtain c ds where cs: "cs = c # ds" using fc(2) by (cases cs) auto
  have cc: "1 \<le> c" "2 \<le> c" "c \<le> total_clusters g + 1" "c < FAT_CLUSTER_EOC" using fc(3,4) [of c] cs by (auto simp: fat_values)
  obtain s2 where r: "read_entry s c = (Inr (tab g V 0 c), s2)" "healthy U (dsk s2)"
    using read_entry_succeeds [OF Suc.prems(1,2) cc(1,3)] by blast
  note m2 = read_entry_spec(1) [OF Suc.prems(1) r(1)]
  obtain s3 where w: "write_entry s2 c FAT_CLUSTER_FREE = (Inr (), s3)" "healthy U (dsk s3)"
    using write_entry_succeeds [OF m2 r(2) cc(1,3)] by blast
  have z: "FAT_CLUSTER_FREE mod 2 ^ 28 = FAT_CLUSTER_FREE" by (simp add: fat_values)
  let ?T = "T(c := FAT_CLUSTER_FREE)"
  obtain V' where V': "mounted U dv g V' s3" "shows_tab g V' ?T" using write_entry_tab [OF m2 Suc.prems(3) w(1), unfolded z] by blast
  define s4 where "s4 = s3\<lparr>sb := (sb s3)\<lparr>free_count := (if free_count (sb s3) \<noteq> 0xFFFFFFFF then free_count (sb s3) + 1 else free_count (sb s3))\<rparr>\<rparr>"
  have m4: "mounted U dv g V' s4" "healthy U (dsk s4)" unfolding s4_def using mounted_sb [OF V'(1)] w(2) by simp_all
  have tc: "tab g V 0 c = T c" using Suc.prems(3) cc(3) by (simp add: shows_tab_def)
  have eq: "free_from (Suc n) s (hd cs) = free_from n s4 (T c)"
    using cs cc r w tc by (simp add: free_from.simps [of "Suc n"] Let_def s4_def)
  show ?case
  proof (cases "ds = []")
    case True
    then have "free_from n s4 (T c) = (Inr (), s4)" using is_chain_tl [of T c ds] fc(1) cs by (intro free_from_end) auto
    then show ?thesis using eq m4(2) by simp
  next
    case False
    then have ch: "T c = hd ds" "is_chain T ds" using is_chain_tl [of T c ds] fc(1) cs by auto
    have "is_chain ?T ds" using fc(5) cs by (intro is_chain_cong [OF ch(2)]) auto
    then have fc': "file_chain g ?T ds" using Suc.prems(4) cs by (simp add: file_chain_def)
    have "length ds \<le> n" using Suc.prems(5) cs by simp
    from Suc.IH [OF m4 V'(2) fc' this] show ?thesis using eq ch(1) by simp
  qed
qed

lemma chain_advance_succeeds:
  assumes "mounted U dv g V s" "healthy U (dsk s)" "shows_tab g V T" "file_chain g T cs" "i < length cs"
  shows "\<exists>r s1. chain_advance s (cs ! i) n = (r, s1) \<and> healthy U (dsk s1) \<and> (r = Inl ENXIO \<or> (\<exists>c. r = Inr c))"
  using assms
proof (induction n arbitrary: s i)
  case (Suc n)
  note l = mountedD(4) [OF Suc.prems(1)]
  note fc = file_chainD [OF l Suc.prems(4)]
  have "cs ! i \<in> clusters g" using fc(3) Suc.prems(5) by (simp only: nth_mem)
  then obtain s2 where r: "read_entry s (cs ! i) = (Inr (tab g V 0 (cs ! i)), s2)" "healthy U (dsk s2)" "tab g V 0 (cs ! i) = T (cs ! i)"
    using read_entry_succeeds [OF Suc.prems(1,2), of "cs ! i"] Suc.prems(3) by (auto simp: shows_tab_def)
  note m2 = read_entry_spec(1) [OF Suc.prems(1) r(1)]
  show ?case
  proof (cases "Suc i < length cs")
    case True
    then have vn: "T (cs ! i) = cs ! Suc i" using is_chain_nth [OF fc(1)] by simp
    then have "2 \<le> T (cs ! i)" "T (cs ! i) < FAT_CLUSTER_BAD" using fc(4) [of "T (cs ! i)"] True by auto
    then have "chain_advance s (cs ! i) (Suc n) = chain_advance s2 (cs ! Suc i) n" using r vn by (auto simp: fat_values)
    then show ?thesis using Suc.IH [OF m2 r(2) Suc.prems(3,4) True] by simp
  next
    case False
    then have "cs ! i = last cs" using Suc.prems(5) by (metis Suc_lessI diff_Suc_1 last_conv_nth fc(2))
    then have "T (cs ! i) \<ge> FAT_CLUSTER_EOC" using is_chain_last [OF fc(1)] by simp
    then show ?thesis using r by simp
  qed
qed auto

lemma cluster_at_succeeds:
  assumes m: "mounted U dv g V s" "healthy U (dsk s)" "shows_tab g V T" "file_chain g T cs" "pos_ok (fn s) cs" and i: "i < length cs"
  shows "\<exists>s1. cluster_at s i = (Inr (cs ! i), s1) \<and> healthy U (dsk s1)"
proof -
  note fc = file_chainD [OF mountedD(4) [OF m(1)] m(4)]
  define near where "near \<longleftrightarrow> last_cluster (fn s) \<ge> 2 \<and> i \<ge> last_index (fn s) \<and> i - last_index (fn s) < total_clusters (sb s)"
  define k where "k = (if near then last_index (fn s) else 0)"
  have k: "k < length cs" "(if near then last_cluster (fn s) else first_cluster (fn s)) = cs ! k"
    "(if near then i - last_index (fn s) else i) = i - k"
    using m(5) fc(2) by (auto simp: k_def near_def pos_ok_def hd_conv_nth)
  have f2: "\<not> first_cluster (fn s) < 2" using m(5) fc(2) fc(4) [of "hd cs"] by (auto simp: pos_ok_def)
  obtain q s2 where q: "chain_advance s (cs ! k) (i - k) = (q, s2)" "healthy U (dsk s2)" "q = Inl ENXIO \<or> (\<exists>c. q = Inr c)"
    using chain_advance_succeeds [OF m(1-4) k(1)] by blast
  obtain r s1 where r: "cluster_at s i = (r, s1)" by force
  have eq: "(r, s1) = bindE (q, s2) (\<lambda>c s1. (Inr c, s1\<lparr>fn := (fn s1)\<lparr>last_index := i, last_cluster := c\<rparr>\<rparr>))"
    using r f2 k(2,3) q unfolding cluster_at_def Let_def near_def [symmetric] by simp
  have "ENXIO \<notin> io_errors" by (simp add: io_errors_def)
  then show ?thesis using cluster_at_spec(5) [OF m(1,3,4,5) r] eq q r i by (cases q) auto
qed

section \<open>A small volume\<close>

text \<open>Five clusters of one sector each, two FAT copies; a file of two clusters, 2 and then 3.\<close>

definition ex_fat_sector :: sector where
  "ex_fat_sector = wr32 (wr32 (replicate 512 0) 8 3) 12 FAT_CLUSTER_EOC"

definition ex_vol :: disks where
  "ex_vol = ex_disks\<lparr>medium := (\<lambda>d l. if l = 1 \<or> l = 2 then ex_fat_sector else replicate 512 (word_of_nat l)),
     buffers := replicate 128 (hd (buffers ex_disks))\<rparr>"

definition ex_super :: fat_super where
  "ex_super = no_super\<lparr>bytes_per_sector := 512, sectors_per_cluster := 1, cluster_size := 512, reserved_sectors := 1, num_fats := 2,
     fat_size := 1, fat_start := 1, data_start := 3, root_cluster := 2, total_sectors := 8, total_clusters := 5, free_count := 3,
     next_free := 3, active := True\<rparr>"

definition ex_st :: fat_st where
  "ex_st = \<lparr>sb = ex_super, fn = \<lparr>first_cluster = 2, parent_cluster = 0, entry_index = 0, last_index = 0, last_cluster = 0,
     entry_lba = 0, entry_off = 0\<rparr>, vsize = 600, vdirty = False, mtime = 0, ctime = 0, epoch = 9, dsk = ex_vol\<rparr>"

lemma ex_vol_same: "devices ex_vol = devices ex_disks" "buffers ex_vol = replicate 128 (hd (buffers ex_disks))" "inited ex_vol" "faults ex_vol = []" "mallocs ex_vol = []"
  "medium ex_vol = (\<lambda>d l. if l = 1 \<or> l = 2 then ex_fat_sector else replicate 512 (word_of_nat l))"
  by (simp_all add: ex_vol_def ex_disks_def)

lemma ex_vol_rest: "at_rest {0} (\<lambda>_. ex_dev) (dev_sector ex_vol) ex_vol"
proof -
  note bd = by_devices [OF ex_vol_same(1)]
  have "init ex_vol 0 [] = ex_vol" by (simp add: init_def ex_vol_same)
  moreover have "\<forall>b \<in> set (buffers ex_vol). \<not> valid b \<and> length (data b) = block_sz"
    by (simp add: ex_vol_same ex_disks_def block_sz_def)
  moreover have "vols_ok {0} ex_vol" using ex_vols bd(5) by simp
  moreover have "length (dev_sector ex_vol 0 l) = 512" for l
    by (simp add: dev_sector_def ex_vol_same ex_fat_sector_def)
  ultimately have "cache_inv {0} (dev_sector ex_vol) {} ex_vol"
    using init_inv [of "{0}" ex_vol "[]" 0] by (simp add: ex_vol_same ex_devs ex_dev_def)
  moreover have "locked ex_vol {}" by (simp add: locked_def ex_vol_same) (simp add: ex_disks_def)
  ultimately show ?thesis using bd(3) by (simp add: at_rest_def ex_vol_same ex_devs ex_place)
qed

lemma ex_layout: "layout ex_dev ex_super"
  by (simp add: layout_def ex_super_def no_super_def ex_dev_def fat_values)

lemma ex_mounted: "mounted {0} (\<lambda>_. ex_dev) ex_super (dev_sector ex_vol) ex_st"
  using ex_vol_rest ex_layout by (simp add: mounted_def ex_st_def ex_vol_same) (simp add: ex_super_def no_super_def)

lemma ex_healthy: "healthy {0} (dsk ex_st)"
  by (simp add: healthy_def ex_st_def ex_vol_same ex_devs) (simp add: ex_disks_def ex_dev_def)

lemma ex_tab:
  assumes "c \<le> 6" "f < 2"
  shows "tab ex_super (dev_sector ex_vol) f c = (if c = 2 then 3 else if c = 3 then FAT_CLUSTER_EOC else 0)"
proof -
  have z: "rd32 (replicate 512 0) i = 0" if "i + 4 \<le> 512" for i using that by (simp add: rd32_def)
  have r: "rd32 ex_fat_sector (4 * c) = (if c = 2 then 3 else if c = 3 then FAT_CLUSTER_EOC else 0)"
  proof (cases "c = 3")
    case True
    then show ?thesis by (simp add: ex_fat_sector_def rd32_wr32 fat_values)
  next
    case False
    then have "rd32 ex_fat_sector (4 * c) = rd32 (wr32 (replicate 512 0) 8 3) (4 * c)"
      unfolding ex_fat_sector_def by (intro rd32_wr32_other) presburger
    also have "\<dots> = (if c = 2 then 3 else 0)"
    proof (cases "c = 2")
      case False
      then have "rd32 (wr32 (replicate 512 0) 8 3) (4 * c) = rd32 (replicate 512 0) (4 * c)" by (intro rd32_wr32_other) presburger
      then show ?thesis using False z assms(1) by simp
    qed (simp add: rd32_wr32)
    finally show ?thesis using False by simp
  qed
  have "entry_sector ex_super f c = f + 1" "entry_pos ex_super c = 4 * c" "sb_dev ex_super = 0"
    using assms by (simp_all add: entry_sector_def entry_pos_def ex_super_def no_super_def)
  moreover have "dev_sector ex_vol 0 (f + 1) = ex_fat_sector"
    using assms(2) by_devices [OF ex_vol_same(1)] by (auto simp: dev_sector_def ex_vol_same ex_place)
  ultimately show ?thesis using r by (simp add: tab_def slot_def fat_values)
qed

abbreviation ex_T :: "nat \<Rightarrow> nat" where "ex_T \<equiv> tab ex_super (dev_sector ex_vol) 0"

lemma ex_clusters: "clusters ex_super = {2..6}" "total_clusters ex_super = 5" "num_fats ex_super = 2"
  by (simp_all add: ex_super_def no_super_def)

lemma ex_chain: "file_chain ex_super ex_T [2, 3]" "pos_ok (fn ex_st) [2, 3]" "vsize ex_st = 600"
  by (simp_all add: file_chain_def ex_tab ex_clusters pos_ok_def ex_st_def)

lemma ex_free: "free_clusters ex_super ex_T = {4, 5, 6}"
  by (auto simp: free_clusters_def ex_tab ex_clusters fat_values split: if_splits)

lemma ex_count: "count_ok ex_super ex_T ex_st" "mirrored ex_super (dev_sector ex_vol)"
  by (simp_all add: count_ok_def ex_free mirrored_def ex_tab ex_clusters) (simp add: ex_st_def ex_super_def no_super_def)

section \<open>Properties\<close>

text \<open>A successful \<open>write_entry\<close> puts the 28-bit value into the cluster's entry of every FAT copy,
  keeps the top four bits of the slots, every other entry of every copy, and every sector outside the
  FAT; a following \<open>read_entry\<close> that succeeds returns the value.\<close>

theorem write_entry_all_copies:
  assumes m: "mounted U dv g V s" and w: "write_entry s c v = (Inr (), s1)"
  shows "\<exists>V'. mounted U dv g V' s1 \<and> only_fat g V V' \<and>
    (\<forall>f < num_fats g. \<forall>c' \<le> total_clusters g + 1.
       slot g V' f c' = (if c' = c then slot g V f c div 2 ^ 28 * 2 ^ 28 + v mod 2 ^ 28 else slot g V f c')) \<and>
    (\<forall>x s2. read_entry s1 c = (Inr x, s2) \<longrightarrow> x = v mod 2 ^ 28)"
proof -
  note l = mountedD(4) [OF m]
  let ?F = "{..<num_fats g}" and ?V = "put_entry g V c v {..<num_fats g}"
  have sp: "mounted U dv g ?V s1"
    "whole_sectors g V c ?F" "c \<le> total_clusters g + 1"
    using write_entry_spec [OF m w] by auto
  have tp: "slot g ?V f c' = (if c' = c \<and> f \<in> ?F then slot g V f c div 2 ^ 28 * 2 ^ 28 + v mod 2 ^ 28 else slot g V f c')"
    if "c' \<le> total_clusters g + 1" for f c'
    by (rule slot_put_entry [OF l sp(3) that sp(2)])
  have "only_fat g V ?V" using put_entry_outside [OF l sp(3) subset_refl] by (simp add: only_fat_def)
  moreover have "x = v mod 2 ^ 28" if "read_entry s1 c = (Inr x, s2)" for x s2
    using read_entry_spec(3) [OF sp(1) that refl] tp [OF sp(3), of 0] layoutD(4) [OF l] by (simp add: tab_def)
  ultimately show ?thesis using sp(1) tp by (intro exI [of _ ?V]) simp
qed

theorem write_entry_all_copies_witness:
  "\<exists>s1 V'. write_entry ex_st 5 77 = (Inr (), s1) \<and> mounted {0} (\<lambda>_. ex_dev) ex_super V' s1 \<and>
     slot ex_super V' 1 5 mod 2 ^ 28 = 77 \<and> tab ex_super V' 1 2 = 3"
proof -
  obtain s1 where w: "write_entry ex_st 5 77 = (Inr (), s1)"
    using write_entry_succeeds [OF ex_mounted ex_healthy, of 5 77] by (auto simp: ex_clusters)
  from write_entry_all_copies [OF ex_mounted w] obtain V' where V': "mounted {0} (\<lambda>_. ex_dev) ex_super V' s1"
    "\<forall>f < num_fats ex_super. \<forall>c' \<le> total_clusters ex_super + 1. slot ex_super V' f c' =
       (if c' = 5 then slot ex_super (dev_sector ex_vol) f 5 div 2 ^ 28 * 2 ^ 28 + 77 mod 2 ^ 28 else slot ex_super (dev_sector ex_vol) f c')"
    by blast
  then have "slot ex_super V' 1 5 mod 2 ^ 28 = 77" "slot ex_super V' 1 2 = slot ex_super (dev_sector ex_vol) 1 2"
    by (simp_all add: ex_clusters)
  then show ?thesis using w V'(1) ex_tab [of 2 1] by (auto simp: tab_def)
qed

text \<open>C12. \<open>alloc_cluster\<close> hands out a cluster that was free, marks it as the end of a chain in all
  copies of the FAT, changes no other entry and no other sector, and keeps the count of free clusters
  right; it reports a full volume only when every cluster is taken, and with a device that works that
  is its only error.\<close>

theorem alloc_cluster_correct:
  assumes "mounted U dv g V s" "alloc_cluster s = (r, s1)"
  shows "case r of
      Inr c \<Rightarrow> c \<in> clusters g \<and> tab g V 0 c = FAT_CLUSTER_FREE \<and>
        (count_ok g (tab g V 0) s \<longrightarrow> count_ok g ((tab g V 0)(c := FAT_CLUSTER_EOC)) s1) \<and>
        (\<exists>V'. mounted U dv g V' s1 \<and> only_fat g V V' \<and> (mirrored g V \<longrightarrow> mirrored g V') \<and>
           (\<forall>c' \<le> total_clusters g + 1. tab g V' 0 c' = (if c' = c then FAT_CLUSTER_EOC else tab g V 0 c')))
    | Inl e \<Rightarrow> (e = ENOSPC \<longrightarrow> (\<forall>c \<in> clusters g. tab g V 0 c \<noteq> FAT_CLUSTER_FREE)) \<and>
        (healthy U (dsk s) \<longrightarrow> e = ENOSPC)"
proof (cases r)
  case (Inl e)
  then show ?thesis
    using alloc_cluster_spec(2) [OF assms(1) shows_tab_self assms(2)] alloc_cluster_succeeds [OF assms(1) _ assms(2)]
    by (auto simp: free_clusters_def)
next
  case (Inr c)
  note sp = alloc_cluster_spec(1) [OF assms(1) shows_tab_self assms(2) Inr]
  then obtain V' where "mounted U dv g V' s1" "keeps g V V'" "shows_tab g V' ((tab g V 0)(c := FAT_CLUSTER_EOC))" by blast
  then have "mounted U dv g V' s1 \<and> only_fat g V V' \<and> (mirrored g V \<longrightarrow> mirrored g V') \<and>
      (\<forall>c' \<le> total_clusters g + 1. tab g V' 0 c' = (if c' = c then FAT_CLUSTER_EOC else tab g V 0 c'))"
    by (simp add: keeps_def shows_tab_def)
  then show ?thesis using Inr sp by (auto simp: free_clusters_def)
qed

theorem alloc_cluster_correct_witness:
  "\<exists>c s1. alloc_cluster ex_st = (Inr c, s1) \<and> c \<in> {4, 5, 6} \<and> free_count (sb s1) = 2"
proof -
  obtain r s1 where a: "alloc_cluster ex_st = (r, s1)" by force
  note ac = alloc_cluster_correct [OF ex_mounted a]
  show ?thesis
  proof (cases r)
    case (Inl e)
    then have "ex_T 4 \<noteq> FAT_CLUSTER_FREE" using ac ex_healthy by (auto simp: ex_clusters)
    then show ?thesis by (simp add: ex_tab fat_values)
  next
    case (Inr c)
    then have c: "c \<in> clusters ex_super" "ex_T c = FAT_CLUSTER_FREE" "count_ok ex_super (ex_T(c := FAT_CLUSTER_EOC)) s1"
      using ac ex_count(1) by simp_all
    then have fc: "c \<in> {4, 5, 6}" using ex_free by (auto simp: free_clusters_def)
    have "c \<in> free_clusters ex_super ex_T" using fc ex_free by simp
    from free_clusters_take [OF this, of FAT_CLUSTER_EOC] have "card (free_clusters ex_super (ex_T(c := FAT_CLUSTER_EOC))) = 2"
      using fc by (auto simp: ex_free fat_values)
    then show ?thesis using a Inr fc c(3) by (auto simp: count_ok_def)
  qed
qed

text \<open>C27. \<open>free_chain\<close> from the first cluster of a chain frees exactly the clusters of that chain in all
  copies of the FAT and counts them; after an error at any point no entry outside the chain and no
  sector outside the FAT has changed. With a device that works it succeeds: its guard against loops
  never ends it early.\<close>

theorem free_chain_exact:
  assumes "mounted U dv g V s" "file_chain g (tab g V 0) cs" "free_chain s (hd cs) = (r, s1)"
  shows "\<exists>V'. mounted U dv g V' s1 \<and> only_fat g V V' \<and>
    (\<forall>c \<le> total_clusters g + 1. c \<notin> set cs \<longrightarrow> tab g V' 0 c = tab g V 0 c) \<and>
    (r = Inr () \<longrightarrow> (\<forall>c \<in> set cs. tab g V' 0 c = FAT_CLUSTER_FREE) \<and> (mirrored g V \<longrightarrow> mirrored g V') \<and>
       (count_ok g (tab g V 0) s \<longrightarrow> count_ok g (tab g V' 0) s1)) \<and>
    (healthy U (dsk s) \<longrightarrow> r = Inr ())"
proof -
  note l = mountedD(4) [OF assms(1)]
  obtain V' where V': "mounted U dv g V' s1" "only_in g (set cs) V V'"
    "case r of Inl e \<Rightarrow> e \<in> io_errors
     | Inr _ \<Rightarrow> keeps g V V' \<and> shows_tab g V' (freed cs (tab g V 0)) \<and> (count_ok g (tab g V 0) s \<longrightarrow> count_ok g (freed cs (tab g V 0)) s1)"
    using free_chain_spec [OF assms(1) shows_tab_self assms(2,3)] by blast
  have ok: "(\<forall>c \<in> set cs. tab g V' 0 c = FAT_CLUSTER_FREE) \<and> (mirrored g V \<longrightarrow> mirrored g V') \<and>
       (count_ok g (tab g V 0) s \<longrightarrow> count_ok g (tab g V' 0) s1)" if "r = Inr ()"
  proof -
    have k: "keeps g V V'" "shows_tab g V' (freed cs (tab g V 0))" "count_ok g (tab g V 0) s \<longrightarrow> count_ok g (freed cs (tab g V 0)) s1"
      using V'(3) that by auto
    have "free_clusters g (tab g V' 0) = free_clusters g (freed cs (tab g V 0))"
      using k(2) by (intro free_clusters_cong) (simp add: shows_tab_def)
    moreover have "tab g V' 0 c = FAT_CLUSTER_FREE" if "c \<in> set cs" for c
      using k(2) file_chainD(3) [OF l assms(2) that] that by (simp add: shows_tab_def freed_def)
    ultimately show ?thesis using k by (simp add: keeps_def count_ok_def)
  qed
  have "length cs \<le> total_clusters g + 2" using file_chainD(6) [OF l assms(2)] by simp
  then have "r = Inr ()" if "healthy U (dsk s)"
    using free_from_succeeds [OF assms(1) that shows_tab_self assms(2)] assms(3) max_cluster [OF l] geo_eqD(9) [OF mountedD(5) [OF assms(1)]]
    by (force simp: free_chain_def)
  then show ?thesis using V'(1,2) ok by (auto simp: only_in_def)
qed

theorem free_chain_exact_witness:
  "\<exists>s1 V'. free_chain ex_st 2 = (Inr (), s1) \<and> mounted {0} (\<lambda>_. ex_dev) ex_super V' s1 \<and> tab ex_super V' 0 3 = 0 \<and>
     free_clusters ex_super (tab ex_super V' 0) = {2..6} \<and> free_count (sb s1) = 5"
proof -
  obtain r s1 where f: "free_chain ex_st (hd [2, 3]) = (r, s1)" by force
  obtain V' where V': "mounted {0} (\<lambda>_. ex_dev) ex_super V' s1"
    "\<forall>c \<le> total_clusters ex_super + 1. c \<notin> set [2, 3] \<longrightarrow> tab ex_super V' 0 c = ex_T c"
    "r = Inr ()" "\<forall>c \<in> set [2, 3]. tab ex_super V' 0 c = FAT_CLUSTER_FREE" "count_ok ex_super (tab ex_super V' 0) s1"
    using free_chain_exact [OF ex_mounted ex_chain(1) f] ex_healthy ex_count(1) by blast
  have "tab ex_super V' 0 c = 0" if "c \<in> {2..6}" for c
    using V'(2,4) that ex_tab [of c 0] by (cases "c = 2 \<or> c = 3") (auto simp: fat_values ex_clusters)
  then have "free_clusters ex_super (tab ex_super V' 0) = {2..6}" by (auto simp: free_clusters_def ex_clusters fat_values)
  then show ?thesis using f V' by (auto simp: count_ok_def fat_values)
qed

text \<open>C13. \<open>cluster_at\<close>, which walks from the position it remembers, gives the cluster that a walk from
  the start of the file reaches, or that the chain is shorter (\<open>ENXIO\<close>), and keeps what it remembers
  right; with a device that works it finds every cluster of the file.\<close>

theorem cluster_at_follows_chain:
  assumes "mounted U dv g V s" "file_chain g (tab g V 0) cs" "pos_ok (fn s) cs" "cluster_at s i = (r, s1)"
  shows "mounted U dv g V s1 \<and> pos_ok (fn s1) cs \<and>
    (\<forall>c. r = Inr c \<longrightarrow> i < length cs \<and> c = cs ! i) \<and> (r = Inl ENXIO \<longrightarrow> length cs \<le> i) \<and>
    (healthy U (dsk s) \<and> i < length cs \<longrightarrow> r = Inr (cs ! i))"
proof -
  note sp = cluster_at_spec [OF assms(1) shows_tab_self assms(2-4)]
  have "ENXIO \<notin> io_errors" by (simp add: io_errors_def)
  moreover have "r = Inr (cs ! i)" if "healthy U (dsk s)" "i < length cs"
    using cluster_at_succeeds [OF assms(1) that(1) shows_tab_self assms(2,3) that(2)] assms(4) by auto
  ultimately show ?thesis using sp by (auto split: sum.splits)
qed

theorem cluster_at_follows_chain_witness: "fst (cluster_at ex_st 1) = Inr 3"
proof -
  obtain r s1 where c: "cluster_at ex_st 1 = (r, s1)" by (cases "cluster_at ex_st 1")
  have "1 < length [2 :: nat, 3]" by simp
  then have "r = Inr ([2, 3] ! 1)" using cluster_at_follows_chain [OF ex_mounted ex_chain(1,2) c] ex_healthy by blast
  then show ?thesis using c by simp
qed

end
