(* ===== verification/Fatinfo.thy ===== *)
theory Fatinfo
  imports Fat
begin

text \<open>
  The FSInfo sector and the clean flag of a FAT volume: the count of free clusters and the hint after a
  scan, after being written and after being read back; and the geometry that \<open>read_super\<close> takes from a boot
  sector: what it guarantees, and what it does not check.
\<close>

section \<open>The free count and the hint\<close>

lemma count_free_spec:
  assumes "mounted U dv g V s" "healthy U (dsk s)" "set cs \<subseteq> clusters g" "distinct cs" "count_free s free first cs = (k, f, s1)"
  shows "mounted U dv g V s1 \<and> dsk_only s s1 \<and> healthy U (dsk s1) \<and> k = free + card {c \<in> set cs. tab g V 0 c = FAT_CLUSTER_FREE} \<and>
    (if first = 0xFFFFFFFF then (case filter (\<lambda>c. tab g V 0 c = FAT_CLUSTER_FREE) cs of [] \<Rightarrow> f = 0xFFFFFFFF | c # _ \<Rightarrow> f = c) else f = first)"
  using assms
proof (induction cs arbitrary: s free first)
  case (Cons c cs)
  note l = mountedD(4) [OF Cons.prems(1)]
  have c: "c \<in> clusters g" using Cons.prems(3) by simp
  then obtain s2 where r: "read_entry s c = (Inr (tab g V 0 c), s2)" "healthy U (dsk s2)"
    using read_entry_succeeds [OF Cons.prems(1,2), of c] by auto
  note m2 = read_entry_spec(1,2) [OF Cons.prems(1) r(1)]
  have sub: "set cs \<subseteq> clusters g" "distinct cs" "c \<notin> set cs" using Cons.prems(3,4) by auto
  have c': "c \<noteq> 0xFFFFFFFF" using c layout_less [OF l] by simp
  show ?case
  proof (cases "tab g V 0 c = FAT_CLUSTER_FREE")
    case True
    have "{d \<in> set (c # cs). tab g V 0 d = FAT_CLUSTER_FREE} = insert c {d \<in> set cs. tab g V 0 d = FAT_CLUSTER_FREE}" using True by auto
    moreover have "count_free s2 (free + 1) (if first = 0xFFFFFFFF then c else first) cs = (k, f, s1)" using Cons.prems(5) r(1) True by simp
    note ih = Cons.IH [OF m2(1) r(2) sub(1,2) this]
    ultimately show ?thesis using ih sub(3) True c' dsk_only_trans [OF m2(2)] by (auto split: if_splits)
  next
    case False
    then have e: "{d \<in> set (c # cs). tab g V 0 d = FAT_CLUSTER_FREE} = {d \<in> set cs. tab g V 0 d = FAT_CLUSTER_FREE}" by auto
    have "count_free s2 free first cs = (k, f, s1)" using Cons.prems(5) r(1) False by simp
    note ih = Cons.IH [OF m2(1) r(2) sub(1,2) this]
    then show ?thesis unfolding e using False dsk_only_trans [OF m2(2)] by simp
  qed
qed auto

lemma scan_free_hint_spec:
  assumes m: "mounted U dv g V s" and h: "healthy U (dsk s)"
  shows "mounted U dv g V (scan_free_hint s)" "healthy U (dsk (scan_free_hint s))" "count_ok g (tab g V 0) (scan_free_hint s)"
    "fsinfo_valid (sb (scan_free_hint s)) = fsinfo_valid (sb s)"
    "free_clusters g (tab g V 0) \<noteq> {} \<Longrightarrow> next_free (sb (scan_free_hint s)) \<in> free_clusters g (tab g V 0)"
proof -
  note l = mountedD(4) [OF m] and ge = geo_eqD [OF mountedD(5) [OF m]]
  let ?cs = "[2..<total_clusters g + 2]"
  obtain k f s1 where q: "count_free s 0 0xFFFFFFFF ?cs = (k, f, s1)" by (metis prod_cases3)
  have cs: "set ?cs \<subseteq> clusters g" "{c \<in> set ?cs. tab g V 0 c = FAT_CLUSTER_FREE} = free_clusters g (tab g V 0)" by (auto simp: free_clusters_def)
  note sp = count_free_spec [OF m h cs(1) distinct_upt q, unfolded cs(2)]
  have eq: "scan_free_hint s = s1\<lparr>sb := (sb s1)\<lparr>free_count := k, next_free := (if f \<noteq> 0xFFFFFFFF then f else 2)\<rparr>\<rparr>"
    using q ge max_cluster [OF l] by (simp add: scan_free_hint_def)
  show "mounted U dv g V (scan_free_hint s)" unfolding eq by (rule mounted_sb) (use sp in simp_all)
  show "healthy U (dsk (scan_free_hint s))" "count_ok g (tab g V 0) (scan_free_hint s)"
    "fsinfo_valid (sb (scan_free_hint s)) = fsinfo_valid (sb s)"
    unfolding eq using sp dsk_onlyD(1) [of s s1] by (simp_all add: count_ok_def)
  assume ne: "free_clusters g (tab g V 0) \<noteq> {}"
  let ?fs = "filter (\<lambda>c. tab g V 0 c = FAT_CLUSTER_FREE) ?cs"
  have se: "set ?fs = free_clusters g (tab g V 0)" by (auto simp: free_clusters_def)
  then have "?fs \<noteq> []" using ne by (metis list.set(1))
  then obtain c cs' where fs: "?fs = c # cs'" by (meson neq_Nil_conv)
  then have c: "?fs = c # cs'" "c \<in> free_clusters g (tab g V 0)" using se by (metis list.set_intros(1))+
  have "f = c" using sp unfolding c(1) by simp
  moreover have "c \<noteq> 0xFFFFFFFF" using c(2) layout_less [OF l] by (auto simp: free_clusters_def)
  ultimately show "next_free (sb (scan_free_hint s)) \<in> free_clusters g (tab g V 0)" unfolding eq using c(2) by simp
qed

text \<open>The FSInfo sector in its own place, with its three signatures.\<close>

definition fsinfo_ok :: "fat_super \<Rightarrow> (nat \<Rightarrow> nat \<Rightarrow> sector) \<Rightarrow> bool" where
  "fsinfo_ok g V \<longleftrightarrow> 512 \<le> bytes_per_sector g \<and> 0 < fsinfo_sector g \<and> fsinfo_sector g < reserved_sectors g \<and> reserved_sectors g \<le> fat_start g \<and>
     (let x = V (sb_dev g) (fsinfo_sector g) in rd32 x 0 = 0x41615252 \<and> rd32 x 484 = 0x61417272 \<and> rd32 x 508 = 0xAA550000)"

lemma flush_fsinfo_spec:
  assumes m: "mounted U dv g V s" and h: "healthy U (dsk s)" and f: "fsinfo_ok g V" "fsinfo_valid (sb s)"
  shows "\<exists>s1. flush_fsinfo s = (Inr (), s1) \<and> healthy U (dsk s1) \<and> sb s1 = sb s \<and>
    mounted U dv g (V(sb_dev g := (V (sb_dev g))(fsinfo_sector g :=
      wr32 (wr32 (V (sb_dev g) (fsinfo_sector g)) 488 (free_count (sb s))) 492 (next_free (sb s))))) s1 \<and>
    length (V (sb_dev g) (fsinfo_sector g)) = bytes_per_sector g"
proof -
  note d = mountedD [OF m] and ge = geo_eqD [OF mountedD(5) [OF m]] and l = mountedD(4) [OF m]
  let ?l = "fsinfo_sector g" and ?D = "sb_dev g"
  have fi: "512 \<le> bytes_per_sector g" "0 < ?l" using f by (auto simp: fsinfo_ok_def)
  have "?l < data_start g" using f(1) layoutD(6) [OF l] by (simp add: fsinfo_ok_def)
  then have lc: "?l < sector_count (dev_at (dsk s) ?D)" using l at_restD(3) [OF d(1,3)] by (simp add: layout_def)
  obtain i d1 where q: "cache_get (dsk s) (Some ?D) ?l = (Inr i, d1)" "healthy U d1"
    using cache_get_succeeds [OF d(1,3) h lc] by blast
  note gb = bc.get_bytes [OF d(1,3) q(1)]
  let ?x = "data (buf_at d1 i)"
  have V: "V ?D ?l = take (bytes_per_sector g) ?x" using gb layoutD(1) [OF l] by simp
  have rd: "rd32 (V ?D ?l) k = rd32 ?x k" if "k + 4 \<le> 512" for k using that fi unfolding V by (intro rd32_take) simp
  have sg: "rd32 ?x 0 = 0x41615252" "rd32 ?x 484 = 0x61417272" using f(1) rd [of 0] rd [of 484] by (auto simp: fsinfo_ok_def Let_def)
  let ?y = "wr32 (wr32 ?x 488 (free_count (sb s))) 492 (next_free (sb s))"
  have ty: "take (bytes_per_sector g) ?y = wr32 (wr32 (V ?D ?l) 488 (free_count (sb s))) 492 (next_free (sb s))"
    using fi unfolding V by (simp add: wr32_def take_update_swap)
  have "flush_fsinfo s = (Inr (), s\<lparr>dsk := cache_put (set_data d1 i ?y) i True\<rparr>)"
    using q sg f(2) fi(2) ge by (simp add: flush_fsinfo_def Let_def)
  moreover have "at_rest U dv (V(?D := (V ?D)(?l := take (sector_size (dv ?D)) ?y))) (cache_put (set_data d1 i ?y) i True)"
    by (rule bc.put_new [OF d(1,3) q(1)]) (use gb in simp)
  moreover have "inited d1" using cache_get_inited [OF d(1,3) q(1)] d(2) by simp
  moreover have "length (V ?D ?l) = bytes_per_sector g" using V gb sector_sizes [OF m] by simp
  ultimately show ?thesis using d q(2) layoutD(1) [OF l] ty by (simp add: mounted_def)
qed

lemma load_fsinfo_known:
  assumes m: "mounted U dv g V s" and h: "healthy U (dsk s)" and f: "fsinfo_ok g V"
    and k: "rd32 (V (sb_dev g) (fsinfo_sector g)) 488 = fc" "fc \<noteq> 0xFFFFFFFF" "rd32 (V (sb_dev g) (fsinfo_sector g)) 492 = nf" "nf \<in> clusters g"
  shows "\<exists>s1. load_fsinfo s = (Inr (), s1) \<and> fsinfo_valid (sb s1) \<and> free_count (sb s1) = fc \<and> next_free (sb s1) = nf"
proof -
  note d = mountedD [OF m] and ge = geo_eqD [OF mountedD(5) [OF m]] and l = mountedD(4) [OF m]
  let ?l = "fsinfo_sector g" and ?D = "sb_dev g"
  have fi: "512 \<le> bytes_per_sector g" "0 < ?l" "?l < reserved_sectors g" using f by (auto simp: fsinfo_ok_def)
  have "?l < data_start g" using f layoutD(6) [OF l] by (simp add: fsinfo_ok_def)
  then have lc: "?l < sector_count (dev_at (dsk s) ?D)" using l at_restD(3) [OF d(1,3)] by (simp add: layout_def)
  obtain i d1 where q: "cache_get (dsk s) (Some ?D) ?l = (Inr i, d1)" "healthy U d1"
    using cache_get_succeeds [OF d(1,3) h lc] by blast
  let ?x = "data (buf_at d1 i)"
  have V: "V ?D ?l = take (bytes_per_sector g) ?x" using bc.get_bytes [OF d(1,3) q(1)] layoutD(1) [OF l] by simp
  have rd: "rd32 (V ?D ?l) j = rd32 ?x j" if "j + 4 \<le> 512" for j using that fi unfolding V by (intro rd32_take) simp
  have sg: "rd32 ?x 0 = 0x41615252" "rd32 ?x 484 = 0x61417272" "rd32 ?x 508 = 0xAA550000" "rd32 ?x 488 = fc" "rd32 ?x 492 = nf"
    using f k rd [of 0] rd [of 484] rd [of 508] rd [of 488] rd [of 492] by (auto simp: fsinfo_ok_def Let_def)
  then show ?thesis using q k(2,4) fi ge max_cluster [OF l] by (simp add: load_fsinfo_def Let_def)
qed

section \<open>The clean flag\<close>

lemma flush_keeps:
  assumes "mounted U dv g V s" "flush (dsk s) dev = (r, d1)"
  shows "mounted U dv g V (s\<lparr>dsk := d1\<rparr>)"
proof -
  note d = mountedD [OF assms(1)]
  note fs = flush_spec [OF at_restD(1) [OF d(1)] assms(2)]
  obtain C where C: "cleaned C (dsk s) d1" using fs(2) by blast
  have "same_frame (dsk s) d1" using cleanedD(1-3) [OF C] by (simp add: same_frame_def)
  then have "at_rest U dv V d1" "inited d1"
    using at_rest_frame [OF d(1) _ fs(1)] locked_refs [OF at_restD(2) [OF d(1)] refs_cleaned [OF C]] d(2) by (auto simp: same_frame_def)
  then show ?thesis using d by (simp add: mounted_def)
qed

lemma clean_bit_less: "v < 2 ^ 28 \<Longrightarrow> (unset_bit 27 v :: nat) < 2 ^ 28" "v < 2 ^ 28 \<Longrightarrow> (set_bit 27 v :: nat) < 2 ^ 28"
proof -
  assume v: "v < 2 ^ 28"
  then have t: "take_bit 28 v = v" by (simp add: take_bit_nat_eq_self)
  have "take_bit 28 (unset_bit 27 v) = unset_bit 27 v" "take_bit 28 (set_bit 27 v) = set_bit 27 v"
    by (simp_all add: take_bit_unset_bit_eq take_bit_set_bit_eq t)
  then show "unset_bit 27 v < 2 ^ 28" "set_bit 27 v < 2 ^ 28" by (metis take_bit_nat_less_exp)+
qed

lemma set_dirty_bit_spec:
  assumes m: "mounted U dv g V s" and h: "healthy U (dsk s)"
  shows "\<exists>V'. mounted U dv g V' (set_dirty_bit s d) \<and> keeps g V V' \<and>
    shows_tab g V' ((tab g V 0)(1 := (if d then unset_bit 27 (tab g V 0 1) else set_bit 27 (tab g V 0 1))))"
proof -
  define v where "v = tab g V 0 1"
  define w where "w = (if d then unset_bit 27 v else set_bit 27 v)"
  obtain s1 where r: "read_entry s 1 = (Inr v, s1)" "healthy U (dsk s1)" using read_entry_succeeds [OF m h, of 1] by (auto simp: v_def)
  note m1 = read_entry_spec(1) [OF m r(1)]
  have eq: "set_dirty_bit s d = (if w = v then s1 else case write_entry s1 1 w of (Inl e, s2) \<Rightarrow> s2
           | (Inr _, s2) \<Rightarrow> s2\<lparr>dsk := snd (flush (dsk s2) (Some (sb_dev (sb s2))))\<rparr>)"
    unfolding set_dirty_bit_def r(1) w_def Let_def by simp
  have "\<exists>V'. mounted U dv g V' (set_dirty_bit s d) \<and> keeps g V V' \<and> shows_tab g V' ((tab g V 0)(1 := w))"
  proof (cases "w = v")
    case True
    moreover have "(tab g V 0)(1 := w) = tab g V 0" unfolding True v_def by simp
    ultimately show ?thesis using eq m1 shows_tab_self [of g V] by (intro exI [of _ V]) simp
  next
    case False
    obtain s2 where ww: "write_entry s1 1 w = (Inr (), s2)" using write_entry_succeeds [OF m1 r(2), of 1 w] by auto
    have "v < 2 ^ 28" by (simp add: tab_def v_def)
    then have wm: "w mod 2 ^ 28 = w" using clean_bit_less unfolding w_def by (cases d) (simp_all only: mod_less if_True if_False)
    obtain V' where V': "mounted U dv g V' s2" "keeps g V V'" "shows_tab g V' ((tab g V 0)(1 := w))"
      using write_entry_tab [OF m1 shows_tab_self ww, unfolded wm] by blast
    obtain q d1 where q: "flush (dsk s2) (Some (sb_dev (sb s2))) = (q, d1)" by force
    have "set_dirty_bit s d = s2\<lparr>dsk := d1\<rparr>" using eq ww q False by simp
    then show ?thesis using flush_keeps [OF V'(1) q] V'(2,3) by auto
  qed
  then show ?thesis unfolding w_def v_def .
qed

section \<open>The geometry of a boot sector\<close>

lemma read_bpb_fields:
  assumes "read_bpb dev d x = Inr b"
  shows "sb_dev b = d" "bytes_per_sector b = sector_size dev" "sectors_per_cluster b = byte_at x 13" "0 < sectors_per_cluster b"
    "sectors_per_cluster b \<le> 128" "cluster_size b = sectors_per_cluster b * bytes_per_sector b" "0 < num_fats b" "num_fats b = byte_at x 16"
    "fat_start b = rd16 x 14" "fat_size b = rd32 x 36" "data_start b = u32 (fat_start b + num_fats b * fat_size b)"
    "data_start b < total_sectors b" "total_sectors b \<le> sector_count dev" "total_sectors b < 2 ^ 32"
    "total_clusters b = (total_sectors b - data_start b) div sectors_per_cluster b"
proof -
  have r: "rd32 x 32 < 2 ^ 32" by (rule rd32_less)
  have u: "u32 (sector_count dev) = sector_count dev" if "sector_count dev < rd32 x 32" using that r by (simp add: u32_def)
  show "sb_dev b = d" "bytes_per_sector b = sector_size dev" "sectors_per_cluster b = byte_at x 13" "0 < sectors_per_cluster b"
    "sectors_per_cluster b \<le> 128" "cluster_size b = sectors_per_cluster b * bytes_per_sector b" "0 < num_fats b" "num_fats b = byte_at x 16"
    "fat_start b = rd16 x 14" "fat_size b = rd32 x 36" "data_start b = u32 (fat_start b + num_fats b * fat_size b)"
    "data_start b < total_sectors b" "total_sectors b \<le> sector_count dev" "total_sectors b < 2 ^ 32"
    "total_clusters b = (total_sectors b - data_start b) div sectors_per_cluster b"
    using assms u r by (auto simp: read_bpb_def Let_def split: if_splits)
qed

lemma read_bpb_data:
  assumes "read_bpb dev d x = Inr b"
  shows "data_start b + total_clusters b * sectors_per_cluster b \<le> total_sectors b"
proof -
  note f = read_bpb_fields [OF assms(1)]
  have "total_clusters b * sectors_per_cluster b \<le> total_sectors b - data_start b"
    unfolding f(15) by (simp add: div_times_less_eq_dividend)
  then show ?thesis using f(12) by linarith
qed

lemma cluster_lba_exact:
  assumes "data_start b + total_clusters b * sectors_per_cluster b \<le> N" "N < 2 ^ 32" "0 < sectors_per_cluster b" "c \<in> clusters b"
  shows "cluster_lba b c = data_start b + (c - 2) * sectors_per_cluster b"
    "data_start b + (c - 2) * sectors_per_cluster b + sectors_per_cluster b \<le> N"
proof -
  have "(c - 2 + 1) * sectors_per_cluster b \<le> total_clusters b * sectors_per_cluster b"
    using assms(4) by (intro mult_le_mono1) auto
  then show le: "data_start b + (c - 2) * sectors_per_cluster b + sectors_per_cluster b \<le> N" using assms(1) by simp
  have "c - 2 + 1 \<le> total_clusters b" using assms(4) by auto
  also have "\<dots> \<le> total_clusters b * sectors_per_cluster b" using assms(3) by simp
  finally have "c - 2 + 1 < 2 ^ 32" using assms(1,2) by linarith
  moreover have "c + 2 ^ 32 - 2 = (c - 2) + 2 ^ 32" using assms(4) by simp
  ultimately have "sub32 c 2 = c - 2" unfolding sub32_def u32_def by (simp only: mod_add_self2 mod_less add_lessD1)
  then show "cluster_lba b c = data_start b + (c - 2) * sectors_per_cluster b"
    using le assms(2,3) by (simp add: cluster_lba_def u32_def)
qed

lemma steps_apart:
  fixes i j k :: nat
  assumes "i \<noteq> j"
  shows "i * k + k \<le> j * k \<or> j * k + k \<le> i * k"
proof (cases "i < j")
  case True
  then have "(i + 1) * k \<le> j * k" by (intro mult_le_mono1) simp
  then show ?thesis by simp
next
  case False
  then have "(j + 1) * k \<le> i * k" using assms by (intro mult_le_mono1) simp
  then show ?thesis by simp
qed

text \<open>The conditions under which an accepted boot sector is a sound layout for the other theories: those
  that \<open>read_super\<close> does not check.\<close>

lemma read_bpb_layout:
  assumes "read_bpb dev d x = Inr b" "4 dvd sector_size dev" "0 < sector_size dev" "0 < rd16 x 14"
    and "rd16 x 14 + byte_at x 16 * rd32 x 36 < 2 ^ 32" "4 * (total_clusters b + 2) \<le> rd32 x 36 * sector_size dev"
    and "total_clusters b + 2 \<le> FAT_CLUSTER_BAD"
  shows "layout dev b"
proof -
  note f = read_bpb_fields [OF assms(1)]
  have ds: "data_start b = fat_start b + num_fats b * fat_size b" using f(8-11) assms(5) by (simp add: u32_def)
  note tc = read_bpb_data [OF assms(1)]
  have "rd16 x 11 = bytes_per_sector b" using assms(1) by (auto simp: read_bpb_def Let_def split: if_splits)
  moreover have "rd16 x 11 < 2 ^ 16"
  proof -
    have "unat (x ! k) \<le> 255" for k using byte_less [of "x ! k"] by linarith
    from this [of 11] this [of 12] show ?thesis unfolding rd16_def by simp
  qed
  ultimately have "sectors_per_cluster b * bytes_per_sector b \<le> 128 * 2 ^ 16" using f(5) by (intro mult_le_mono) simp_all
  then have "cluster_size b < 2 ^ 32" using f(6) by simp
  then show ?thesis using f ds tc assms(2-4,6,7) by (auto simp: layout_def)
qed

section \<open>Properties\<close>

text \<open>C28. For every boot sector that \<open>read_super\<close> accepts, whatever its fields: the sectors of every
  cluster lie behind \<open>data_start\<close> and inside the device, and those of two clusters are apart. When in
  addition the FAT has an entry for each cluster and its copies end below 32 bits, two conditions that
  \<open>read_super\<close> does not check, the sector of every entry of every copy lies in that copy and before
  the data area, so that writing the FAT never touches a cluster.\<close>

theorem read_bpb_bounds:
  assumes "read_bpb dev d x = Inr b"
  shows "(\<forall>c \<in> clusters b. data_start b \<le> cluster_lba b c \<and> cluster_lba b c + sectors_per_cluster b \<le> sector_count dev) \<and>
    (\<forall>c \<in> clusters b. \<forall>c' \<in> clusters b. c \<noteq> c' \<longrightarrow>
       {cluster_lba b c..<cluster_lba b c + sectors_per_cluster b} \<inter> {cluster_lba b c'..<cluster_lba b c' + sectors_per_cluster b} = {}) \<and>
    (4 * (total_clusters b + 2) \<le> fat_size b * bytes_per_sector b \<and> fat_start b + num_fats b * fat_size b < 2 ^ 32 \<longrightarrow>
       (\<forall>f < num_fats b. \<forall>c \<le> total_clusters b + 1.
          let sector = fat_start b + f * fat_size b + u32 (c * 4) div bytes_per_sector b
          in sector < fat_start b + (f + 1) * fat_size b \<and> sector < data_start b))"
proof (intro conjI ballI impI allI)
  note f = read_bpb_fields [OF assms]
  note l = cluster_lba_exact [OF read_bpb_data [OF assms] f(14,4)]
  fix c assume c: "c \<in> clusters b"
  show "data_start b \<le> cluster_lba b c" "cluster_lba b c + sectors_per_cluster b \<le> sector_count dev"
    using l [OF c] f(13) by simp_all
  fix c' assume c': "c' \<in> clusters b" "c \<noteq> c'"
  then have "c - 2 \<noteq> c' - 2" using c by auto
  then show "{cluster_lba b c..<cluster_lba b c + sectors_per_cluster b} \<inter> {cluster_lba b c'..<cluster_lba b c' + sectors_per_cluster b} = {}"
    unfolding l(1) [OF c] l(1) [OF c'(1)] using steps_apart [of "c - 2" "c' - 2" "sectors_per_cluster b"] by auto
next
  note f = read_bpb_fields [OF assms]
  assume A: "4 * (total_clusters b + 2) \<le> fat_size b * bytes_per_sector b \<and> fat_start b + num_fats b * fat_size b < 2 ^ 32"
  fix i c assume i: "i < num_fats b" and c: "c \<le> total_clusters b + 1"
  have "u32 (c * 4) \<le> c * 4" by (simp add: u32_def)
  also have "c * 4 < 4 * (total_clusters b + 2)" using c by simp
  also have "\<dots> \<le> fat_size b * bytes_per_sector b" using A by (rule conjunct1)
  finally have "u32 (c * 4) < fat_size b * bytes_per_sector b" .
  then have lt: "u32 (c * 4) div bytes_per_sector b < fat_size b" by (rule less_mult_imp_div_less)
  have "(i + 1) * fat_size b \<le> num_fats b * fat_size b" using i by (intro mult_le_mono1) simp
  moreover have "data_start b = fat_start b + num_fats b * fat_size b" using f(11) A by (simp add: u32_def)
  ultimately show "let sector = fat_start b + i * fat_size b + u32 (c * 4) div bytes_per_sector b
      in sector < fat_start b + (i + 1) * fat_size b \<and> sector < data_start b"
    using lt unfolding Let_def by simp
qed

text \<open>A boot sector with 2 reserved sectors, one FAT of 1 sector, clusters of 1 sector, \<open>n\<close> sectors.\<close>

definition ex_boot :: "nat \<Rightarrow> byte list" where
  "ex_boot n = wr32 (wr32 (wr32 (map (\<lambda>i. if i = 12 then 2 else if i = 13 then 1 else if i = 14 then 2 else if i = 16 then 1 else 0)
     [0..<4096])  32 n) 36 1) 44 2"

lemma ex_boot_fields:
  assumes "n < 2 ^ 32"
  shows "rd16 (ex_boot n) 11 = 512" "ex_boot n ! 13 = 1" "rd16 (ex_boot n) 14 = 2" "byte_at (ex_boot n) 16 = 1" "rd32 (ex_boot n) 32 = n"
    "rd32 (ex_boot n) 36 = 1" "rd32 (ex_boot n) 44 = 2"
  using assms by (simp_all add: ex_boot_def rd16_def byte_at_def rd32_wr32 rd32_wr32_other) (simp_all add: wr32_def)

lemma ex_boot_accepted: "\<exists>b. read_bpb ex_dev 0 (ex_boot 8) = Inr b \<and> total_clusters b = 5"
  using ex_boot_fields [of 8, simplified] by (simp add: read_bpb_def Let_def byte_at_def ex_dev_def blank_def u32_def)

lemma ex_boot_layout: "\<exists>b. read_bpb ex_dev 0 (ex_boot 8) = Inr b \<and> layout ex_dev b"
proof -
  obtain b where b: "read_bpb ex_dev 0 (ex_boot 8) = Inr b" "total_clusters b = 5" using ex_boot_accepted by blast
  have "layout ex_dev b"
    by (rule read_bpb_layout [OF b(1)]) (simp_all add: ex_boot_fields [of 8, simplified] b(2) ex_dev_def fat_values)
  with b show ?thesis by blast
qed

theorem read_bpb_bounds_witness:
  "\<exists>b. read_bpb ex_dev 0 (ex_boot 8) = Inr b \<and> total_clusters b = 5 \<and> cluster_lba b 6 + sectors_per_cluster b \<le> sector_count ex_dev \<and>
     fat_start b + u32 (6 * 4) div bytes_per_sector b < data_start b"
proof -
  obtain b where b: "read_bpb ex_dev 0 (ex_boot 8) = Inr b" "total_clusters b = 5" using ex_boot_accepted by blast
  note f = read_bpb_fields [OF b(1), unfolded ex_boot_fields [of 8, simplified]]
  note p = read_bpb_bounds [OF b(1)]
  have "4 * (total_clusters b + 2) \<le> fat_size b * bytes_per_sector b" "fat_start b + num_fats b * fat_size b < 2 ^ 32"
    unfolding b(2) f(2,8-10) by (simp_all add: ex_dev_def)
  then have "\<forall>f < num_fats b. \<forall>c \<le> total_clusters b + 1.
      fat_start b + f * fat_size b + u32 (c * 4) div bytes_per_sector b < data_start b"
    using p unfolding Let_def by blast
  from this [rule_format, of 0 6] have "fat_start b + u32 (6 * 4) div bytes_per_sector b < data_start b"
    using f(7) b(2) by simp
  moreover have "cluster_lba b 6 + sectors_per_cluster b \<le> sector_count ex_dev" using p b(2) by auto
  ultimately show ?thesis using b by blast
qed

text \<open>The check of the FAT's size is missing: a FAT of one sector, 128 entries, is accepted for a volume
  of 1000 clusters, and the entries from 128 on are those in the data area.\<close>

lemma read_bpb_short_fat:
  assumes "sector_size dev = 512" "sector_count dev = 1003"
  shows "\<exists>b. read_bpb dev 0 (ex_boot 1003) = Inr b \<and> total_clusters b = 1000 \<and> entry_sector b 0 128 = data_start b"
  using assms ex_boot_fields [of 1003, simplified] by (simp add: read_bpb_def Let_def byte_at_def u32_def entry_sector_def no_super_def)

text \<open>Neither is there one of the copies: two FATs of \<open>0x80000000\<close> sectors are accepted on a device of 8, and
  the data area starts where the first of them does.\<close>

lemma read_bpb_wraps:
  assumes "sector_size dev = 512" "sector_count dev = 8" "x = wr32 ((ex_boot 8)[16 := 2]) 36 0x80000000"
  shows "\<exists>b. read_bpb dev 0 x = Inr b \<and> num_fats b = 2 \<and> fat_size b = 0x80000000 \<and> data_start b = fat_start b"
proof -
  have "rd16 x 11 = 512" "x ! 13 = 1" "rd16 x 14 = 2" "byte_at x 16 = 2" "rd32 x 32 = 8" "rd32 x 36 = 0x80000000" "rd32 x 44 = 2"
    unfolding assms(3) using ex_boot_fields [of 8, simplified]
    by (simp_all add: rd16_def byte_at_def rd32_def wr32_def ex_boot_def)
  then show ?thesis using assms(1,2) by (simp add: read_bpb_def Let_def byte_at_def u32_def no_super_def)
qed

text \<open>C29. What \<open>flush_fsinfo\<close> writes, \<open>load_fsinfo\<close> of a later mount reads back: the count of free
  clusters and the hint, when the sector has its signatures and the count is known.\<close>

theorem fsinfo_roundtrip:
  assumes m: "mounted U dv g V s" and h: "healthy U (dsk s)" and f: "fsinfo_ok g V" "fsinfo_valid (sb s)"
    and k: "free_count (sb s) < 0xFFFFFFFF" "next_free (sb s) \<in> clusters g"
  shows "\<exists>s1 s2. flush_fsinfo s = (Inr (), s1) \<and> load_fsinfo (s1\<lparr>sb := geo (sb s1)\<rparr>) = (Inr (), s2) \<and>
    fsinfo_valid (sb s2) \<and> free_count (sb s2) = free_count (sb s) \<and> next_free (sb s2) = next_free (sb s)"
proof -
  let ?x = "V (sb_dev g) (fsinfo_sector g)"
  let ?y = "wr32 (wr32 ?x 488 (free_count (sb s))) 492 (next_free (sb s))"
  let ?V = "V(sb_dev g := (V (sb_dev g))(fsinfo_sector g := ?y))"
  obtain s1 where s1: "flush_fsinfo s = (Inr (), s1)" "healthy U (dsk s1)" "sb s1 = sb s" "mounted U dv g ?V s1" "length ?x = bytes_per_sector g"
    using flush_fsinfo_spec [OF m h f] by blast
  have fi: "512 \<le> length ?x" using f(1) s1(5) by (simp add: fsinfo_ok_def)
  have nf: "next_free (sb s) < 2 ^ 32" using k(2) layout_less [OF mountedD(4) [OF m]] by simp
  have rd: "rd32 ?y 488 = free_count (sb s)" "rd32 ?y 492 = next_free (sb s)" "rd32 ?y 0 = rd32 ?x 0" "rd32 ?y 484 = rd32 ?x 484" "rd32 ?y 508 = rd32 ?x 508"
    using fi k(1) nf by (simp_all add: rd32_wr32 rd32_wr32_other)
  have fo: "fsinfo_ok g ?V" using f(1) rd by (simp add: fsinfo_ok_def Let_def)
  have m2: "mounted U dv g ?V (s1\<lparr>sb := geo (sb s1)\<rparr>)" by (rule mounted_sb [OF s1(4)]) simp
  from load_fsinfo_known [OF m2 _ fo _ _ _ k(2), of "free_count (sb s)"] show ?thesis
    using s1 rd k(1) by auto
qed

text \<open>A volume with an FSInfo sector: one FAT in sector 2, the data from sector 3 on.\<close>

definition ex_info_sector :: sector where
  "ex_info_sector = wr32 (wr32 (wr32 (replicate 512 0) 0 0x41615252) 484 0x61417272) 508 0xAA550000"

definition ex_info_super :: fat_super where
  "ex_info_super = ex_super\<lparr>reserved_sectors := 2, fat_start := 2, num_fats := 1, fsinfo_sector := 1, fsinfo_valid := True, free_count := 4, next_free := 5\<rparr>"

definition ex_info_st :: fat_st where
  "ex_info_st = ex_st\<lparr>sb := ex_info_super, dsk := ex_disks\<lparr>medium := (\<lambda>d l. if l = 1 then ex_info_sector else replicate 512 0),
     buffers := replicate 128 (hd (buffers ex_disks))\<rparr>\<rparr>"

lemma ex_info_same: "devices (dsk ex_info_st) = devices ex_disks" "buffers (dsk ex_info_st) = replicate 128 (hd (buffers ex_disks))" "inited (dsk ex_info_st)"
  "faults (dsk ex_info_st) = []" "mallocs (dsk ex_info_st) = []" "medium (dsk ex_info_st) = (\<lambda>d l. if l = 1 then ex_info_sector else replicate 512 0)"
  by (simp_all add: ex_info_st_def ex_disks_def)

lemma ex_info_mounted: "mounted {0} (\<lambda>_. ex_dev) ex_info_super (dev_sector (dsk ex_info_st)) ex_info_st"
proof -
  note bd = by_devices [OF ex_info_same(1)]
  have "init (dsk ex_info_st) 0 [] = dsk ex_info_st" by (simp add: init_def ex_info_same)
  moreover have "\<forall>b \<in> set (buffers (dsk ex_info_st)). \<not> valid b \<and> length (data b) = block_sz"
    by (simp add: ex_info_same ex_disks_def block_sz_def)
  moreover have "vols_ok {0} (dsk ex_info_st)" using ex_vols bd(5) by simp
  moreover have "length (dev_sector (dsk ex_info_st) 0 l) = 512" for l by (simp add: dev_sector_def ex_info_same ex_info_sector_def)
  ultimately have "cache_inv {0} (dev_sector (dsk ex_info_st)) {} (dsk ex_info_st)"
    using init_inv [of "{0}" "dsk ex_info_st" "[]" 0] by (simp add: ex_info_same ex_devs ex_dev_def)
  moreover have "locked (dsk ex_info_st) {}" by (simp add: locked_def ex_info_same) (simp add: ex_disks_def)
  ultimately have "at_rest {0} (\<lambda>_. ex_dev) (dev_sector (dsk ex_info_st)) (dsk ex_info_st)"
    using bd(3) by (simp add: at_rest_def ex_info_same ex_devs ex_place)
  moreover have "layout ex_dev ex_info_super"
    by (simp add: layout_def ex_info_super_def ex_super_def no_super_def ex_dev_def fat_values)
  moreover have "sb ex_info_st = ex_info_super" "sb_dev ex_info_super = 0" by (simp_all add: ex_info_st_def ex_info_super_def ex_super_def no_super_def)
  ultimately show ?thesis by (simp add: mounted_def ex_info_same)
qed

theorem fsinfo_roundtrip_witness:
  "\<exists>s1 s2. flush_fsinfo ex_info_st = (Inr (), s1) \<and> load_fsinfo (s1\<lparr>sb := geo (sb s1)\<rparr>) = (Inr (), s2) \<and>
     free_count (sb s2) = 4 \<and> next_free (sb s2) = 5"
proof -
  have h: "healthy {0} (dsk ex_info_st)" by (simp add: healthy_def ex_info_same ex_devs) (simp add: ex_disks_def ex_dev_def)
  have "disk_of (dsk ex_info_st) 0 = 0" "start_of (dsk ex_info_st) 0 = 0" using by_devices [OF ex_info_same(1)] ex_place by simp_all
  then have "dev_sector (dsk ex_info_st) 0 1 = ex_info_sector" by (simp add: dev_sector_def ex_info_same)
  then have f: "fsinfo_ok ex_info_super (dev_sector (dsk ex_info_st))"
    by (simp add: fsinfo_ok_def ex_info_super_def ex_super_def no_super_def ex_info_sector_def rd32_wr32 rd32_wr32_other)
  have "sb ex_info_st = ex_info_super" by (simp add: ex_info_st_def)
  then have v: "fsinfo_valid (sb ex_info_st)" "free_count (sb ex_info_st) = 4" "next_free (sb ex_info_st) = 5"
    by (simp_all add: ex_info_super_def)
  have "next_free (sb ex_info_st) \<in> clusters ex_info_super" unfolding v by (simp add: ex_info_super_def ex_super_def)
  from fsinfo_roundtrip [OF ex_info_mounted h f v(1) _ this] show ?thesis unfolding v by auto
qed

end
