(* ===== verification/Fatfile.thy ===== *)
theory Fatfile
  imports Fat
begin

text \<open>
  The contents of files on a FAT volume (src/src/kernel/fs/fat32/fat.cpp from \<open>read_cluster\<close> to
  \<open>truncate\<close>). The scratch buffer of the superblock is a value here: every use fills it first. A read
  gives the bytes it delivered, also on an error; a write gives the count of bytes it wrote.
  A cluster size of 0, which \<open>read_super\<close> refuses, would stop the loops with a division error; here
  it ends them.

  The lemmas show that a file reads and writes as the sequence of bytes of the clusters of its chain.
\<close>

section \<open>Clusters\<close>

fun sectors_out :: "disks \<Rightarrow> nat \<Rightarrow> nat list \<Rightarrow> byte list \<times> disks" where
  "sectors_out d bps [] = ([], d)"
| "sectors_out d bps (i # is) =
     (case sectors_out (cache_put d i False) bps is of (xs, d1) \<Rightarrow> (take bps (data (buf_at d i)) @ xs, d1))"

definition read_cluster :: "fat_st \<Rightarrow> nat \<Rightarrow> byte list res \<times> fat_st" where
  "read_cluster s cluster =
     (let b = sb s in
      if cluster < 2 \<or> cluster > u32 (total_clusters b + 1) then (Inl EINVAL, s)
      else case kmalloc_ok (dsk s) of (False, d) \<Rightarrow> (Inl ENOMEM, s\<lparr>dsk := d\<rparr>)
      | (True, d) \<Rightarrow>
        (case get_range d (Some (sb_dev b)) (cluster_lba b cluster) (sectors_per_cluster b) of
           (Inl e, d1) \<Rightarrow> (Inl e, s\<lparr>dsk := d1\<rparr>)
         | (Inr rng, d1) \<Rightarrow>
             (case sectors_out d1 (bytes_per_sector b) rng of (out, d2) \<Rightarrow> (Inr out, s\<lparr>dsk := d2\<rparr>))))"

fun sectors_in :: "disks \<Rightarrow> nat \<Rightarrow> byte list \<Rightarrow> nat list \<Rightarrow> disks" where
  "sectors_in d bps src [] = d"
| "sectors_in d bps src (i # is) =
     sectors_in (cache_put (set_data d i (take bps src @ drop bps (data (buf_at d i)))) i True) bps (drop bps src) is"

definition write_cluster :: "fat_st \<Rightarrow> nat \<Rightarrow> byte list \<Rightarrow> unit res \<times> fat_st" where
  "write_cluster s cluster src =
     (let b = sb s in
      if cluster < 2 \<or> cluster > u32 (total_clusters b + 1) then (Inl EINVAL, s)
      else case kmalloc_ok (dsk s) of (False, d) \<Rightarrow> (Inl ENOMEM, s\<lparr>dsk := d\<rparr>)
      | (True, d) \<Rightarrow>
        (case get_range d (Some (sb_dev b)) (cluster_lba b cluster) (sectors_per_cluster b) of
           (Inl e, d1) \<Rightarrow> (Inl e, s\<lparr>dsk := d1\<rparr>)
         | (Inr rng, d1) \<Rightarrow> (Inr (), s\<lparr>dsk := sectors_in d1 (bytes_per_sector b) src rng\<rparr>)))"

section \<open>Reading\<close>

lemma u32_mod_less: "0 < cs \<Longrightarrow> u32 (off mod cs) < cs"
  unfolding u32_def by (rule le_less_trans [OF mod_less_eq_dividend]) simp

lemma chunk_less: "0 < cs \<Longrightarrow> 0 < (len :: nat) \<Longrightarrow> len - min (cs - u32 (off mod cs)) len < len"
  using u32_mod_less [of cs off] by (simp add: min_def)

function read_loop :: "fat_st \<Rightarrow> nat \<Rightarrow> nat \<Rightarrow> byte list \<Rightarrow> unit res \<times> byte list \<times> fat_st" where
  "read_loop s off len acc =
     (let cs = cluster_size (sb s) in
      if len = 0 \<or> cs = 0 then (Inr (), acc, s)
      else case cluster_at s (u32 (off div cs)) of
        (Inl e, s1) \<Rightarrow> ((if e = ENXIO then Inr () else Inl e), acc, s1)
      | (Inr cluster, s1) \<Rightarrow>
        (let inn = u32 (off mod cs); chunk = min (cs - inn) len in
         case read_cluster s1 cluster of
           (Inl e, s2) \<Rightarrow> (Inl e, acc, s2)
         | (Inr scratch, s2) \<Rightarrow>
             read_loop s2 (off + chunk) (len - chunk) (acc @ take chunk (drop inn scratch))))"
  by pat_completeness auto
termination
  by (relation "measure (\<lambda>(s, off, len, acc). len)") (auto intro!: chunk_less)

declare read_loop.simps [simp del]

definition read_at :: "fat_st \<Rightarrow> nat \<Rightarrow> nat \<Rightarrow> unit res \<times> byte list \<times> fat_st" where
  "read_at s off len =
     (if len = 0 then (Inr (), [], s)
      else if off \<ge> vsize s then (Inr (), [], s)
      else read_loop s off (if u64 (off + len) > vsize s then vsize s - off else len) [])"

section \<open>Extending\<close>

definition zero_from :: "nat \<Rightarrow> byte list \<Rightarrow> byte list" where
  "zero_from i x = take i x @ replicate (length x - i) 0"

text \<open>\<open>n\<close> more clusters.\<close>

fun grow_chain :: "nat \<Rightarrow> fat_st \<Rightarrow> unit res \<times> fat_st" where
  "grow_chain 0 s = (Inr (), s)"
| "grow_chain (Suc n) s =
     bindE (alloc_cluster s) (\<lambda>newc s1.
       case write_cluster s1 newc (replicate (cluster_size (sb s1)) 0) of
         (Inl e, s2) \<Rightarrow> (Inl e, snd (free_chain s2 newc))
       | (Inr _, s2) \<Rightarrow>
         (case chain_append s2 newc of
            (Inl e, s3) \<Rightarrow> (Inl e, snd (free_chain s3 newc))
          | (Inr _, s3) \<Rightarrow> grow_chain n s3))"

definition clusters_of :: "fat_st \<Rightarrow> nat \<Rightarrow> nat" where
  "clusters_of s n = u64 (n + cluster_size (sb s) - 1) div cluster_size (sb s)"

text \<open>The bytes behind the end of the file in its last cluster become zero.\<close>

definition zero_tail :: "fat_st \<Rightarrow> unit res \<times> fat_st" where
  "zero_tail s =
     (let cs = cluster_size (sb s); last_idx = u32 ((vsize s - 1) div cs); in_last = u32 (vsize s mod cs) in
      case cluster_at s last_idx of
        (Inl e, s1) \<Rightarrow> ((if e = ENXIO then Inr () else Inl e), s1)
      | (Inr c, s1) \<Rightarrow>
          if in_last = 0 then (Inr (), s1)
          else bindE (read_cluster s1 c) (\<lambda>x s2. write_cluster s2 c (zero_from in_last x)))"

definition extend_to :: "fat_st \<Rightarrow> nat \<Rightarrow> unit res \<times> fat_st" where
  "extend_to s end_excl =
     (let need = clusters_of s end_excl; hav = (if vsize s \<noteq> 0 then clusters_of s (vsize s) else 0) in
      bindE (if hav > 0 \<and> end_excl > vsize s then zero_tail s else (Inr (), s)) (\<lambda>_ s1.
        grow_chain (need - hav) s1))"

section \<open>Writing\<close>

definition touch :: "fat_st \<Rightarrow> fat_st" where
  "touch s = s\<lparr>vdirty := True, mtime := epoch s, ctime := epoch s\<rparr>"

function write_loop :: "fat_st \<Rightarrow> nat \<Rightarrow> byte list \<Rightarrow> nat \<Rightarrow> unit res \<times> nat \<times> fat_st" where
  "write_loop s off src don =
     (let cs = cluster_size (sb s) in
      if src = [] \<or> cs = 0 then (Inr (), don, s)
      else case cluster_at s (u32 (off div cs)) of
        (Inl e, s1) \<Rightarrow> (Inl e, don, s1)
      | (Inr cluster, s1) \<Rightarrow>
        (let inn = u32 (off mod cs); chunk = min (cs - inn) (length src) in
         case (if inn \<noteq> 0 \<or> chunk \<noteq> cs
               then bindE (read_cluster s1 cluster) (\<lambda>x s2.
                      write_cluster s2 cluster (take inn x @ take chunk src @ drop (inn + chunk) x))
               else write_cluster s1 cluster (take chunk src)) of
           (Inl e, s2) \<Rightarrow> (Inl e, don, s2)
         | (Inr _, s2) \<Rightarrow>
             write_loop s2 (u64 (off + chunk)) (drop chunk src) (don + chunk)))"
  by pat_completeness auto
termination
  by (relation "measure (\<lambda>(s, off, src, don). length src)") (auto intro!: chunk_less)

declare write_loop.simps [simp del]

definition write_at :: "fat_st \<Rightarrow> nat \<Rightarrow> byte list \<Rightarrow> unit res \<times> nat \<times> fat_st" where
  "write_at s off src =
     (if src = [] then (Inr (), 0, s)
      else if u64 (off + length src) > 0xFFFFFFFF then (Inl EFBIG, 0, s)
      else case extend_to s (u64 (off + length src)) of (Inl e, s1) \<Rightarrow> (Inl e, 0, s1)
      | (Inr _, s1) \<Rightarrow>
        (case write_loop s1 off src 0 of (Inl e, don, s2) \<Rightarrow> (Inl e, don, s2)
         | (Inr _, don, s2) \<Rightarrow>
             (Inr (), don, touch (if u64 (off + length src) > vsize s2 then s2\<lparr>vsize := u64 (off + length src)\<rparr> else s2))))"

section \<open>Truncating\<close>

text \<open>Zero the last of \<open>n\<close> clusters from byte \<open>i\<close> on.\<close>

definition zero_cluster :: "fat_st \<Rightarrow> nat \<Rightarrow> nat \<Rightarrow> unit res \<times> fat_st" where
  "zero_cluster s idx i =
     bindE (cluster_at s idx) (\<lambda>c s1.
     bindE (read_cluster s1 c) (\<lambda>x s2. write_cluster s2 c (zero_from i x)))"

definition cut_chain :: "fat_st \<Rightarrow> nat \<Rightarrow> unit res \<times> fat_st" where
  "cut_chain s keep =
     (if keep = 0 then
        if first_cluster (fn s) \<ge> 2 then
          bindE (free_chain s (first_cluster (fn s))) (\<lambda>_ s1.
            (Inr (), s1\<lparr>fn := (fn s1)\<lparr>first_cluster := 0, last_index := 0, last_cluster := 0\<rparr>\<rparr>))
        else (Inr (), s)
      else case cluster_at s (u32 keep) of
        (Inl e, s1) \<Rightarrow> ((if e = ENXIO then Inr () else Inl e), s1)
      | (Inr cutc, s1) \<Rightarrow>
          if cutc \<ge> 2 \<and> cutc < FAT_CLUSTER_EOC then
            bindE (cluster_at s1 (u32 (keep - 1))) (\<lambda>keepc s2.
            bindE (write_entry s2 keepc FAT_CLUSTER_EOC) (\<lambda>_ s3.
            bindE (free_chain s3 cutc) (\<lambda>_ s4.
              (Inr (), s4\<lparr>fn := (fn s4)\<lparr>last_index := u32 (keep - 1), last_cluster := keepc\<rparr>\<rparr>))))
          else (Inr (), s1))"

definition fat_truncate :: "fat_st \<Rightarrow> nat \<Rightarrow> unit res \<times> fat_st" where
  "fat_truncate s n =
     (let cs = cluster_size (sb s) in
      if n > 0xFFFFFFFF then (Inl EFBIG, s)
      else if n = vsize s then (Inr (), s)
      else if n > vsize s then
        bindE (extend_to s n) (\<lambda>_ s1.
          let in_last = u32 (vsize s1 mod cs) in
          bindE (if vsize s1 > 0 \<and> in_last \<noteq> 0
                 then case zero_cluster s1 (u32 ((vsize s1 - 1) div cs)) in_last of
                        (Inl ENXIO, s2) \<Rightarrow> (Inr (), s2) | p \<Rightarrow> p
                 else (Inr (), s1)) (\<lambda>_ s2.
            (Inr (), touch (s2\<lparr>vsize := n\<rparr>))))
      else let keep = (if n \<noteq> 0 then clusters_of s n else 0) in
        bindE (cut_chain s keep) (\<lambda>_ s1.
        bindE (if keep > 0 \<and> n mod cs \<noteq> 0 then zero_cluster s1 (u32 (keep - 1)) (u32 (n mod cs)) else (Inr (), s1)) (\<lambda>_ s2.
          (Inr (), touch (s2\<lparr>vsize := n\<rparr>)))))"

section \<open>Clusters as bytes\<close>

definition clba :: "fat_super \<Rightarrow> nat \<Rightarrow> nat" where
  "clba g c = data_start g + (c - 2) * sectors_per_cluster g"

definition cdata :: "fat_super \<Rightarrow> (nat \<Rightarrow> nat \<Rightarrow> sector) \<Rightarrow> nat \<Rightarrow> byte list" where
  "cdata g V c = concat (map (V (sb_dev g)) [clba g c..<clba g c + sectors_per_cluster g])"

text \<open>The contents with the sectors from \<open>l\<close> on replaced by \<open>src\<close>.\<close>

definition put_sectors :: "nat \<Rightarrow> nat \<Rightarrow> nat \<Rightarrow> nat \<Rightarrow> byte list \<Rightarrow> (nat \<Rightarrow> nat \<Rightarrow> sector) \<Rightarrow> nat \<Rightarrow> nat \<Rightarrow> sector" where
  "put_sectors dev l bps n src V = (\<lambda>d m. if d = dev \<and> l \<le> m \<and> m < l + n then take bps (drop ((m - l) * bps) src) else V d m)"

lemma put_sectors_Suc:
  "put_sectors dev (Suc l) bps n (drop bps src) (V(dev := (V dev)(l := take bps src))) = put_sectors dev l bps (Suc n) src V"
proof (intro ext)
  fix d m
  show "put_sectors dev (Suc l) bps n (drop bps src) (V(dev := (V dev)(l := take bps src))) d m = put_sectors dev l bps (Suc n) src V d m"
  proof (cases "m \<le> l")
    case False
    then have "(m - Suc l) * bps + bps = (m - l) * bps" by (metis Suc_diff_Suc add.commute linorder_not_le mult_Suc)
    then show ?thesis using False by (auto simp: put_sectors_def)
  qed (auto simp: put_sectors_def)
qed

lemma clba_eq:
  assumes "layout x g" "c \<in> clusters g" "geo b = geo g"
  shows "cluster_lba b c = clba g c" "data_start g \<le> clba g c" "clba g c + sectors_per_cluster g \<le> sector_count x"
    "clba g c + sectors_per_cluster g < 2 ^ 32"
proof -
  have "(c - 2 + 1) * sectors_per_cluster g \<le> total_clusters g * sectors_per_cluster g"
    using assms(2) by (intro mult_le_mono1) auto
  then have le: "(c - 2) * sectors_per_cluster g + sectors_per_cluster g \<le> total_clusters g * sectors_per_cluster g" by simp
  then show b: "clba g c + sectors_per_cluster g \<le> sector_count x" "clba g c + sectors_per_cluster g < 2 ^ 32"
    using assms(1) by (simp_all add: clba_def layout_def)
  have "sub32 c 2 = c - 2" using assms(2) layout_less [OF assms(1)] by (intro sub32_id) auto
  then show "cluster_lba b c = clba g c" using b(2) geo_eqD [OF assms(3)] by (simp add: cluster_lba_def clba_def u32_def)
  show "data_start g \<le> clba g c" by (simp add: clba_def)
qed

lemma clba_apart:
  assumes "c \<noteq> c'" "2 \<le> c" "2 \<le> c'"
  shows "clba g c + sectors_per_cluster g \<le> clba g c' \<or> clba g c' + sectors_per_cluster g \<le> clba g c"
proof -
  have "(c - 2 + 1) * sectors_per_cluster g \<le> (c' - 2) * sectors_per_cluster g \<or> (c' - 2 + 1) * sectors_per_cluster g \<le> (c - 2) * sectors_per_cluster g"
  proof (cases "c < c'")
    case True
    then have "c - 2 + 1 \<le> c' - 2" using assms by simp
    then show ?thesis by (intro disjI1 mult_le_mono1)
  next
    case False
    then have "c' - 2 + 1 \<le> c - 2" using assms by simp
    then show ?thesis by (intro disjI2 mult_le_mono1)
  qed
  then show ?thesis by (auto simp: clba_def)
qed

lemma sectors_out_spec:
  assumes "cache_inv U V {} d" "bound_run d dev l is" "locked d (set is)" "\<not> block_gone d dev" "sector_size (dev_at d dev) = bps"
  shows "\<exists>d1. sectors_out d bps is = (concat (map (V dev) [l..<l + length is]), d1) \<and> cache_inv U V {} d1 \<and> locked d1 {} \<and> same_frame d d1"
  using assms
proof (induction "is" arbitrary: d l)
  case (Cons i "is")
  have b: "bound_to d i dev l" using Cons.prems(2) by (auto simp: bound_run_def)
  have i: "i < length (buffers d)" using b by (simp add: bound_to_def)
  let ?d = "cache_put d i False"
  note p = cache_put_spec [OF i, of False] and pc = cache_put_clean [OF Cons.prems(1) b]
  have ni: "i \<notin> set is" using bound_run_distinct [OF Cons.prems(2)] by simp
  have "refcnt (buf_at d i) = 1" using Cons.prems(3) i by (simp add: locked_def)
  then have lk: "locked ?d (set is)" using ni by (intro locked_one_buf [OF Cons.prems(3) p(1)]) (auto simp: p(2))
  have "bound_run d dev (l + 1) is" using Cons.prems(2) bound_run_append [of d dev l "[i]" "is"] by simp
  then have br: "bound_run ?d dev (l + 1) is" by (rule bound_run_one_buf [OF _ p(1) ni])
  have dv: "devices ?d = devices d" using pc(2) by (simp add: same_frame_def)
  have "take bps (data (buf_at d i)) = V dev l"
    using holdsD(1) [OF cache_invD(3) [OF Cons.prems(1)] b] Cons.prems(4,5) by simp
  moreover obtain d1 where "sectors_out ?d bps is = (concat (map (V dev) [l + 1..<l + 1 + length is]), d1)" "cache_inv U V {} d1" "locked d1 {}" "same_frame ?d d1"
    using Cons.IH [OF pc(1) br lk] Cons.prems(4,5) by_devices(3) [OF dv] dv by auto
  moreover have "[l..<l + length (i # is)] = l # [l + 1..<l + 1 + length is]" by (simp add: upt_conv_Cons del: upt_Suc)
  ultimately show ?case using same_frame_trans [OF pc(2)] by (simp del: upt_Suc)
qed auto

lemma sectors_in_spec:
  assumes "cache_inv U V {} d" "bound_run d dev l is" "locked d (set is)" "sector_size (dev_at d dev) = bps" "length src = length is * bps" "bps \<le> block_sz"
  shows "cache_inv U (put_sectors dev l bps (length is) src V) {} (sectors_in d bps src is) \<and> locked (sectors_in d bps src is) {} \<and> same_frame d (sectors_in d bps src is)"
  using assms
proof (induction "is" arbitrary: d l src V)
  case Nil
  have "put_sectors dev l bps 0 src V = V" by (auto simp: put_sectors_def fun_eq_iff)
  then show ?case using Nil by simp
next
  case (Cons i "is")
  have b: "bound_to d i dev l" using Cons.prems(2) by (auto simp: bound_run_def)
  have i: "i < length (buffers d)" using b by (simp add: bound_to_def)
  let ?x = "take bps src @ drop bps (data (buf_at d i))" and ?V = "V(dev := (V dev)(l := take bps src))"
  let ?d = "cache_put (set_data d i (take bps src @ drop bps (data (buf_at d i)))) i True"
  have lx: "length ?x = block_sz" using bufs_okD(1) [OF cache_invD(2) [OF Cons.prems(1)] i] Cons.prems(5,6) by simp
  note pd = cache_put_dirty [OF Cons.prems(1) b lx refl]
  have tk: "take bps ?x = take bps src" using Cons.prems(5) by simp
  have inv: "cache_inv U ?V {} ?d" using pd(1) unfolding Cons.prems(4) tk .
  have ni: "i \<notin> set is" using bound_run_distinct [OF Cons.prems(2)] by simp
  have is2: "i < length (buffers (set_data d i ?x))" using i by (simp add: set_data_def set_buf_def)
  have one: "one_buf i d ?d"
    using one_buf_trans [OF one_buf_set(1) cache_put_spec(1) [OF is2 [unfolded set_data_def], of True]] by (simp add: set_data_def)
  have lk: "locked ?d (set is)"
  proof -
    have "i < length (refs d)" "\<forall>j < length (refs d). refs d ! j = (if j \<in> set (i # is) then 1 else 0)"
      using Cons.prems(3) i by (auto simp: locked_alt refs_def)
    then show ?thesis unfolding locked_alt pd(3) using ni by (auto simp: nth_list_update)
  qed
  have "bound_run d dev (l + 1) is" using Cons.prems(2) bound_run_append [of d dev l "[i]" "is"] by simp
  then have br: "bound_run ?d dev (l + 1) is" by (rule bound_run_one_buf [OF _ one ni])
  have dv: "devices ?d = devices d" using pd(2) by (simp add: same_frame_def)
  have "length (drop bps src) = length is * bps" using Cons.prems(5) by simp
  moreover have "sector_size (dev_at ?d dev) = bps" unfolding dv by (rule Cons.prems(4))
  ultimately have "cache_inv U (put_sectors dev l bps (length (i # is)) src V) {} (sectors_in ?d bps (drop bps src) is) \<and>
      locked (sectors_in ?d bps (drop bps src) is) {} \<and> same_frame ?d (sectors_in ?d bps (drop bps src) is)"
    using Cons.IH [OF inv br lk _ _ Cons.prems(6), of "drop bps src"] unfolding Suc_eq_plus1 [symmetric] put_sectors_Suc length_Cons by blast
  then show ?case using same_frame_trans [OF pd(2)] by simp
qed

lemma read_cluster_spec:
  assumes m: "mounted U dv g V s" and r: "read_cluster s c = (Inr x, s1)"
  shows "mounted U dv g V s1" "dsk_only s s1" "c \<in> clusters g" "x = cdata g V c" "length x = cluster_size g"
proof -
  note d = mountedD [OF m] and ge = geo_eqD [OF mountedD(5) [OF m]] and l = mountedD(4) [OF m]
  obtain a d1 where k: "kmalloc_ok (dsk s) = (a, d1)" by force
  note fr = kmalloc_ok_frame [OF k]
  have c: "c \<in> clusters g" using r max_cluster [OF l] ge by (auto simp: read_cluster_def Let_def split: if_splits)
  have a: a using r k by (cases a) (auto simp: read_cluster_def Let_def split: if_splits)
  note cl = clba_eq [OF l c d(5)]
  obtain q d2 where q: "get_range d1 (Some (sb_dev g)) (clba g c) (sectors_per_cluster g) = (q, d2)" by force
  obtain rng where rng: "q = Inr rng"
    using r k a q c max_cluster [OF l] ge cl(1) by (cases q) (auto simp: read_cluster_def Let_def)
  have inv1: "cache_inv U V {} d1" "locked d1 {}" using at_restD(1,2) [OF d(1)] cache_inv_same [OF fr(1-3)] fr(2) by (simp_all add: locked_def)
  have fit: "clba g c + sectors_per_cluster g < 2 ^ 64" using cl(4) by simp
  note gr = get_range_spec [OF inv1(1) d(3) inv1(2) fit q]
  note gi = gr(4) [OF rng]
  have dv: "devices d2 = devices (dsk s)" using gr(1) fr(1) by (simp add: same_frame_def)
  have g2: "\<not> block_gone d2 (sb_dev g)" "sector_size (dev_at d2 (sb_dev g)) = bytes_per_sector g"
    using at_restD(3,4) [OF d(1,3)] by_devices(3) [OF dv] dv layoutD(1) [OF l] by simp_all
  from sectors_out_spec [OF _ _ _ g2, of U V "clba g c" rng] gi obtain d3 where
    d3: "sectors_out d2 (bytes_per_sector g) rng = (cdata g V c, d3)" "cache_inv U V {} d3" "locked d3 {}" "same_frame d2 d3"
    by (auto simp: cdata_def)
  have x: "x = cdata g V c" "s1 = s\<lparr>dsk := d3\<rparr>"
    using r k a q rng c max_cluster [OF l] ge cl(1) d3(1) by (auto simp: read_cluster_def Let_def)
  then show "x = cdata g V c" "dsk_only s s1" "c \<in> clusters g" using c by simp_all
  have sf: "same_frame (dsk s) d3" using gr(1) fr same_frame_trans d3(4) by (metis same_frame_def)
  show "mounted U dv g V s1" using at_rest_frame [OF d(1) sf d3(2,3)] sf d x(2) by (simp add: mounted_def same_frame_def)
  have "length (V (sb_dev g) m) = bytes_per_sector g" if mm: "m \<in> set [clba g c..<clba g c + sectors_per_cluster g]" for m
  proof -
    obtain j where j: "m = clba g c + j" "j < length rng" using mm gi by (auto simp: le_iff_add)
    have b: "bound_to d2 (rng ! j) (sb_dev g) m" using gi j by (auto simp: bound_run_def)
    have "take (bytes_per_sector g) (data (buf_at d2 (rng ! j))) = V (sb_dev g) m"
      using holdsD(1) [OF cache_invD(3) b] gi g2 by auto
    moreover have "length (data (buf_at d2 (rng ! j))) = block_sz" using bufs_okD(1) [OF cache_invD(2)] gi b by (auto simp: bound_to_def)
    ultimately show ?thesis using sector_sizes [OF m] by (metis length_take min.absorb2)
  qed
  then have "map (length \<circ> V (sb_dev g)) [clba g c..<clba g c + sectors_per_cluster g] = map (\<lambda>_. bytes_per_sector g) [clba g c..<clba g c + sectors_per_cluster g]"
    by (intro map_cong) simp_all
  then have "length x = sectors_per_cluster g * bytes_per_sector g" unfolding x(1) cdata_def length_concat map_map by (simp only: sum_list_triv) simp
  then show "length x = cluster_size g" using l by (simp add: layout_def)
qed

text \<open>The contents after a cluster was written.\<close>

definition put_cluster :: "fat_super \<Rightarrow> nat \<Rightarrow> byte list \<Rightarrow> (nat \<Rightarrow> nat \<Rightarrow> sector) \<Rightarrow> nat \<Rightarrow> nat \<Rightarrow> sector" where
  "put_cluster g c x V = put_sectors (sb_dev g) (clba g c) (bytes_per_sector g) (sectors_per_cluster g) x V"

lemma concat_chunks: "length x = n * b \<Longrightarrow> concat (map (\<lambda>i. take b (drop (i * b) x)) [0..<n]) = x"
proof (induction n arbitrary: x)
  case (Suc n)
  have e: "[0..<Suc n] = 0 # map Suc [0..<n]" by (simp add: upt_conv_Cons map_Suc_upt del: upt_Suc)
  have "concat (map (\<lambda>i. take b (drop (i * b) (drop b x))) [0..<n]) = drop b x" using Suc.prems by (intro Suc.IH) simp
  then show ?case unfolding e by (simp add: comp_def add.commute)
qed simp

lemma cdata_put_cluster:
  assumes "layout x g" "c \<in> clusters g" "c' \<in> clusters g" "length y = cluster_size g"
  shows "cdata g (put_cluster g c y V) c' = (if c' = c then y else cdata g V c')"
proof (cases "c' = c")
  case True
  let ?n = "sectors_per_cluster g" and ?b = "bytes_per_sector g"
  have e: "[clba g c..<clba g c + ?n] = map (\<lambda>i. i + clba g c) [0..<?n]" using map_add_upt [of "clba g c" ?n] by (simp add: add.commute)
  have "cdata g (put_cluster g c y V) c = concat (map (\<lambda>i. take ?b (drop (i * ?b) y)) [0..<?n])"
    unfolding cdata_def e map_map by (rule arg_cong [where f = concat], rule map_cong) (auto simp: put_cluster_def put_sectors_def)
  also have "\<dots> = y" using assms(1,4) by (intro concat_chunks) (simp add: layout_def)
  finally show ?thesis using True by simp
next
  case False
  have "put_cluster g c y V (sb_dev g) m = V (sb_dev g) m" if "m \<in> set [clba g c'..<clba g c' + sectors_per_cluster g]" for m
    using clba_apart [of c c' g] False assms(2,3) that by (auto simp: put_cluster_def put_sectors_def)
  then have "map (put_cluster g c y V (sb_dev g)) [clba g c'..<clba g c' + sectors_per_cluster g] =
      map (V (sb_dev g)) [clba g c'..<clba g c' + sectors_per_cluster g]" by (intro map_cong) auto
  then show ?thesis using False unfolding cdata_def by (simp only: if_False)
qed

lemma put_cluster_outside:
  assumes "c \<in> clusters g" "d \<noteq> sb_dev g \<or> m < data_start g"
  shows "put_cluster g c y V d m = V d m"
  using assms by (auto simp: put_cluster_def put_sectors_def clba_def)

lemma tab_put_cluster:
  assumes "layout x g" "c \<in> clusters g" "c' \<le> total_clusters g + 1" "f < num_fats g"
  shows "tab g (put_cluster g c y V) f c' = tab g V f c'"
  using put_cluster_outside [OF assms(2)] entry_place(4) [OF assms(1,3,4)] by (simp add: tab_def slot_def)

lemma write_cluster_spec:
  assumes m: "mounted U dv g V s" and x: "length x = cluster_size g" and r: "write_cluster s c x = (Inr u, s1)"
  shows "mounted U dv g (put_cluster g c x V) s1" "dsk_only s s1" "c \<in> clusters g"
proof -
  note d = mountedD [OF m] and ge = geo_eqD [OF mountedD(5) [OF m]] and l = mountedD(4) [OF m]
  obtain a d1 where k: "kmalloc_ok (dsk s) = (a, d1)" by force
  note fr = kmalloc_ok_frame [OF k]
  have c: "c \<in> clusters g" using r max_cluster [OF l] ge by (auto simp: write_cluster_def Let_def split: if_splits)
  have a: a using r k by (cases a) (auto simp: write_cluster_def Let_def split: if_splits)
  note cl = clba_eq [OF l c d(5)]
  obtain q d2 where q: "get_range d1 (Some (sb_dev g)) (clba g c) (sectors_per_cluster g) = (q, d2)" by force
  obtain rng where rng: "q = Inr rng"
    using r k a q c max_cluster [OF l] ge cl(1) by (cases q) (auto simp: write_cluster_def Let_def)
  have inv1: "cache_inv U V {} d1" "locked d1 {}" using at_restD(1,2) [OF d(1)] cache_inv_same [OF fr(1-3)] fr(2) by (simp_all add: locked_def)
  have fit: "clba g c + sectors_per_cluster g < 2 ^ 64" using cl(4) by simp
  note gr = get_range_spec [OF inv1(1) d(3) inv1(2) fit q]
  note gi = gr(4) [OF rng]
  have dv: "devices d2 = devices (dsk s)" using gr(1) fr(1) by (simp add: same_frame_def)
  have g2: "sector_size (dev_at d2 (sb_dev g)) = bytes_per_sector g" using at_restD(3) [OF d(1,3)] dv layoutD(1) [OF l] by simp
  let ?d = "sectors_in d2 (bytes_per_sector g) x rng"
  have "length x = length rng * bytes_per_sector g" using x gi l by (simp add: layout_def)
  then have ci: "cache_inv U (put_cluster g c x V) {} ?d" "locked ?d {}" "same_frame d2 ?d"
    using sectors_in_spec [OF _ _ _ g2, of U V "clba g c" rng x] gi sector_sizes [OF m] by (simp_all add: put_cluster_def)
  have s1: "s1 = s\<lparr>dsk := ?d\<rparr>"
    using r k a q rng c max_cluster [OF l] ge cl(1) by (auto simp: write_cluster_def Let_def)
  then show "dsk_only s s1" "c \<in> clusters g" using c by simp_all
  have sf: "same_frame (dsk s) ?d" using gr(1) fr same_frame_trans ci(3) by (metis same_frame_def)
  show "mounted U dv g (put_cluster g c x V) s1" using at_rest_frame [OF d(1) sf ci(1,2)] sf d s1 by (simp add: mounted_def same_frame_def)
qed

section \<open>A file as bytes\<close>

definition full_data :: "fat_super \<Rightarrow> (nat \<Rightarrow> nat \<Rightarrow> sector) \<Rightarrow> bool" where
  "full_data g V \<longleftrightarrow> (\<forall>c \<in> clusters g. length (cdata g V c) = cluster_size g)"

definition chain_bytes :: "fat_super \<Rightarrow> (nat \<Rightarrow> nat \<Rightarrow> sector) \<Rightarrow> nat list \<Rightarrow> byte list" where
  "chain_bytes g V cs = concat (map (cdata g V) cs)"

text \<open>An open file with the clusters \<open>cs\<close>.\<close>

definition opened :: "nat set \<Rightarrow> (nat \<Rightarrow> blkdev) \<Rightarrow> fat_super \<Rightarrow> (nat \<Rightarrow> nat \<Rightarrow> sector) \<Rightarrow> nat list \<Rightarrow> fat_st \<Rightarrow> bool" where
  "opened U dv g V cs s \<longleftrightarrow> mounted U dv g V s \<and> full_data g V \<and> node_chain g (tab g V 0) (fn s) cs"

lemma openedD:
  assumes "opened U dv g V cs s"
  shows "mounted U dv g V s" "full_data g V" "node_chain g (tab g V 0) (fn s) cs" "set cs \<subseteq> clusters g"
    "length (chain_bytes g V cs) = length cs * cluster_size g" "distinct cs" "length cs \<le> total_clusters g" "cluster_size (sb s) = cluster_size g"
    "0 < cluster_size g" "cluster_size g < 2 ^ 32" "\<forall>c \<in> set cs. length (cdata g V c) = cluster_size g"
proof -
  show o: "mounted U dv g V s" "full_data g V" "node_chain g (tab g V 0) (fn s) cs" using assms by (auto simp: opened_def)
  note l = mountedD(4) [OF o(1)]
  show sub: "set cs \<subseteq> clusters g" using o(3) by (auto simp: node_chain_def file_chain_def split: if_splits)
  then show el: "\<forall>c \<in> set cs. length (cdata g V c) = cluster_size g" using o(2) by (auto simp: full_data_def)
  then have "map (length \<circ> cdata g V) cs = map (\<lambda>_. cluster_size g) cs" by simp
  then show "length (chain_bytes g V cs) = length cs * cluster_size g"
    unfolding chain_bytes_def length_concat map_map by (simp only: sum_list_triv) simp
  show "distinct cs" "length cs \<le> total_clusters g" using o(3) file_chainD(5,6) [OF l] by (auto simp: node_chain_def split: if_splits)
  show "cluster_size (sb s) = cluster_size g" using geo_eqD(4) [OF mountedD(5) [OF o(1)]] .
  show "0 < cluster_size g" "cluster_size g < 2 ^ 32" using l by (auto simp: layout_def)
qed

lemma drop_concat: "\<forall>x \<in> set xs. length x = n \<Longrightarrow> drop (i * n) (concat xs) = concat (drop i xs)"
proof (induction xs arbitrary: i)
  case (Cons x xs)
  then show ?case by (cases i) auto
qed simp

lemma take_concat: "\<forall>x \<in> set xs. length x = n \<Longrightarrow> take (i * n) (concat xs) = concat (take i xs)"
proof (induction xs arbitrary: i)
  case (Cons x xs)
  then show ?case by (cases i) auto
qed simp

lemma piece_of_chain:
  assumes "opened U dv g V cs s" "off div cluster_size g < length cs" "chunk \<le> cluster_size g - off mod cluster_size g"
  shows "take chunk (drop (off mod cluster_size g) (cdata g V (cs ! (off div cluster_size g)))) = take chunk (drop off (chain_bytes g V cs))"
proof -
  note o = openedD [OF assms(1)]
  let ?n = "cluster_size g" and ?i = "off div cluster_size g" and ?r = "off mod cluster_size g"
  have el: "\<forall>x \<in> set (map (cdata g V) cs). length x = ?n" using o(11) by simp
  have "drop off (chain_bytes g V cs) = drop ?r (drop (?i * ?n) (chain_bytes g V cs))" by (simp add: mult.commute)
  also have "\<dots> = drop ?r (concat (drop ?i (map (cdata g V) cs)))" unfolding chain_bytes_def drop_concat [OF el] ..
  also have "drop ?i (map (cdata g V) cs) = cdata g V (cs ! ?i) # drop (Suc ?i) (map (cdata g V) cs)"
    using Cons_nth_drop_Suc [of ?i "map (cdata g V) cs"] assms(2) by simp
  finally show ?thesis using assms(2,3) o(11) by simp
qed

lemma opened_cluster_at:
  assumes o: "opened U dv g V cs s" and i: "i < length cs" and c: "cluster_at s i = (r, s1)"
  shows "opened U dv g V cs s1" "vsize s1 = vsize s" "r = Inr x \<Longrightarrow> x = cs ! i" "r = Inl e \<Longrightarrow> e \<noteq> ENXIO"
proof -
  note od = openedD [OF o]
  have nc: "file_chain g (tab g V 0) cs" "pos_ok (fn s) cs" using od(3) i by (auto simp: node_chain_def split: if_splits)
  note sp = cluster_at_spec [OF od(1) shows_tab_self nc c]
  show "opened U dv g V cs s1" using sp(1,2) nc(1) od(2) i by (auto simp: opened_def node_chain_def)
  show "vsize s1 = vsize s" by (rule sp(4))
  show "r = Inr x \<Longrightarrow> x = cs ! i" "r = Inl e \<Longrightarrow> e \<noteq> ENXIO" using sp(5) i by (auto simp: io_errors_def)
qed

lemma opened_dsk_only: "opened U dv g V cs s \<Longrightarrow> dsk_only s s1 \<Longrightarrow> mounted U dv g V s1 \<Longrightarrow> opened U dv g V cs s1"
  using dsk_onlyD(2) [of s s1] by (simp add: opened_def)

lemma read_loop_spec:
  assumes "opened U dv g V cs s" "off + len \<le> length cs * cluster_size g" "read_loop s off len acc = (r, out, s1)"
  shows "(r = Inr () \<longrightarrow> out = acc @ take len (drop off (chain_bytes g V cs)) \<and> opened U dv g V cs s1 \<and> vsize s1 = vsize s) \<and>
    (\<exists>k \<le> len. out = acc @ take k (drop off (chain_bytes g V cs)))"
  using assms
proof (induction s off len acc rule: read_loop.induct)
  case (1 s off len acc)
  note o = openedD [OF "1.prems"(1)]
  let ?n = "cluster_size g"
  show ?case
  proof (cases "len = 0")
    case True
    then show ?thesis using "1.prems" by (auto simp: read_loop.simps [of s] Let_def)
  next
    case False
    then have lim: "off < length cs * ?n" using "1.prems"(2) by linarith
    then have i: "off div ?n < length cs" by (simp add: less_mult_imp_div_less)
    have "total_clusters g < 2 ^ 28" using layout_less [OF mountedD(4) [OF o(1)]] by simp
    then have iu: "u32 (off div ?n) = off div ?n" using i o(7) by (simp add: u32_def)
    have "off mod ?n < ?n" using o(9) by simp
    then have ru: "u32 (off mod ?n) = off mod ?n" "off mod ?n < ?n" using o(10) by (auto simp: u32_def)
    let ?chunk = "min (?n - off mod ?n) len"
    obtain q s2 where q: "cluster_at s (off div ?n) = (q, s2)" by force
    note oc = opened_cluster_at [OF "1.prems"(1) i q]
    show ?thesis
    proof (cases q)
      case (Inl e)
      then have "r = Inl e" "out = acc" using "1.prems"(3) q oc(4) False o(8,9) iu by (auto simp: read_loop.simps [of s] Let_def)
      then show ?thesis by (auto intro: exI [of _ 0])
    next
      case (Inr c)
      then have c: "c = cs ! (off div ?n)" using oc(3) by simp
      obtain p s3 where p: "read_cluster s2 c = (p, s3)" by force
      show ?thesis
      proof (cases p)
        case (Inl e)
        then have "r = Inl e" "out = acc" using "1.prems"(3) q p \<open>q = Inr c\<close> False o(8,9) iu by (auto simp: read_loop.simps [of s] Let_def)
        then show ?thesis by (auto intro: exI [of _ 0])
      next
        case (Inr x)
        note rc = read_cluster_spec [OF openedD(1) [OF oc(1)] p [unfolded Inr]]
        have o3: "opened U dv g V cs s3" using opened_dsk_only [OF oc(1) rc(2,1)] .
        have piece: "take ?chunk (drop (off mod ?n) x) = take ?chunk (drop off (chain_bytes g V cs))"
          using piece_of_chain [OF "1.prems"(1) i, of ?chunk] rc(4) c by simp
        have rec: "read_loop s3 (off + ?chunk) (len - ?chunk) (acc @ take ?chunk (drop off (chain_bytes g V cs))) = (r, out, s1)"
          using "1.prems"(3) q p \<open>q = Inr c\<close> Inr False o(8,9) iu ru(1) piece by (simp add: read_loop.simps [of s] Let_def)
        have lim2: "off + ?chunk + (len - ?chunk) \<le> length cs * ?n" using "1.prems"(2) by simp
        have cond: "\<not> (len = 0 \<or> cluster_size (sb s) = 0)" using False o(8,9) by simp
        have q': "(Inr c, s2) = cluster_at s (u32 (off div cluster_size (sb s)))" using q \<open>q = Inr c\<close> o(8) iu by simp
        have p': "(Inr x, s3) = read_cluster s2 c" using p Inr by simp
        have pc: "take ?chunk (drop (u32 (off mod cluster_size (sb s))) x) = take ?chunk (drop off (chain_bytes g V cs))"
          using piece o(8) ru(1) by simp
        note ih = "1.IH" [OF refl cond q' refl refl refl p' refl, unfolded o(8) ru(1), OF o3]
        have tt: "take ?chunk ys @ take k (drop ?chunk ys) = take (?chunk + k) ys" for k and ys :: "byte list" by (simp add: take_add)
        have *: "(r = Inr () \<longrightarrow> out = (acc @ take ?chunk (drop off (chain_bytes g V cs))) @ take (len - ?chunk) (drop (off + ?chunk) (chain_bytes g V cs)) \<and>
              opened U dv g V cs s1 \<and> vsize s1 = vsize s3) \<and>
            (\<exists>k \<le> len - ?chunk. out = (acc @ take ?chunk (drop off (chain_bytes g V cs))) @ take k (drop (off + ?chunk) (chain_bytes g V cs)))"
          using ih lim2 rec unfolding piece by blast
        have dd: "drop (off + ?chunk) ys = drop ?chunk (drop off ys)" for ys :: "byte list" by (simp add: add.commute)
        have "\<exists>k \<le> len. out = acc @ take k (drop off (chain_bytes g V cs))"
        proof -
          obtain k where k: "k \<le> len - ?chunk" "out = (acc @ take ?chunk (drop off (chain_bytes g V cs))) @ take k (drop (off + ?chunk) (chain_bytes g V cs))"
            using * by blast
          then have "out = acc @ take (?chunk + k) (drop off (chain_bytes g V cs))" unfolding dd append_assoc tt by simp
          moreover have "?chunk + k \<le> len" using k(1) by simp
          ultimately show ?thesis by blast
        qed
        moreover have "out = acc @ take len (drop off (chain_bytes g V cs)) \<and> opened U dv g V cs s1 \<and> vsize s1 = vsize s" if "r = Inr ()"
        proof -
          have "out = (acc @ take ?chunk (drop off (chain_bytes g V cs))) @ take (len - ?chunk) (drop (off + ?chunk) (chain_bytes g V cs))"
            "opened U dv g V cs s1" "vsize s1 = vsize s3" using * that by blast+
          then show ?thesis unfolding dd append_assoc tt using oc(2) dsk_onlyD(3) [OF rc(2)] by simp
        qed
        ultimately show ?thesis by blast
      qed
    qed
  qed
qed

section \<open>Changing a file\<close>

lemma cdata_keeps:
  assumes "only_fat g V V'" "layout x g"
  shows "cdata g V' c = cdata g V c"
proof -
  have "V' (sb_dev g) m = V (sb_dev g) m" if "m \<in> set [clba g c..<clba g c + sectors_per_cluster g]" for m
    using assms that by (auto simp: only_fat_def clba_def)
  then have "map (V' (sb_dev g)) [clba g c..<clba g c + sectors_per_cluster g] = map (V (sb_dev g)) [clba g c..<clba g c + sectors_per_cluster g]"
    by (intro map_cong) auto
  then show ?thesis unfolding cdata_def by (simp only:)
qed

lemma chain_bytes_keeps: "only_fat g V V' \<Longrightarrow> layout x g \<Longrightarrow> chain_bytes g V' cs = chain_bytes g V cs"
  "only_fat g V V' \<Longrightarrow> layout x g \<Longrightarrow> full_data g V' = full_data g V"
proof -
  assume a: "only_fat g V V'" "layout x g"
  have e: "cdata g V' = cdata g V" using cdata_keeps [OF a] by (rule ext)
  show "chain_bytes g V' cs = chain_bytes g V cs" "full_data g V' = full_data g V" unfolding chain_bytes_def full_data_def e by (rule refl)+
qed

lemma shows_tab_put_cluster:
  assumes "layout x g" "c \<in> clusters g" "shows_tab g V T"
  shows "shows_tab g (put_cluster g c y V) T"
  using assms tab_put_cluster [OF assms(1,2), of _ 0 y V] layoutD(4) [OF assms(1)] by (simp add: shows_tab_def)

lemma node_chain_cong:
  assumes "node_chain g T n cs" "\<And>c. c \<in> set cs \<Longrightarrow> T' c = T c"
  shows "node_chain g T' n cs"
proof (cases "cs = []")
  case False
  then have "is_chain T cs" using assms(1) by (simp add: node_chain_def file_chain_def)
  then have "is_chain T' cs" by (rule is_chain_cong) (rule assms(2))
  then show ?thesis using assms(1) False by (simp add: node_chain_def file_chain_def)
qed (use assms(1) in \<open>simp add: node_chain_def\<close>)

lemma node_chain_shows:
  assumes "node_chain g T n cs" "shows_tab g V T"
  shows "node_chain g (tab g V 0) n cs"
proof (rule node_chain_cong [OF assms(1)])
  fix c assume "c \<in> set cs"
  then have "c \<in> clusters g" using assms(1) by (auto simp: node_chain_def file_chain_def split: if_splits)
  then show "tab g V 0 c = T c" using assms(2) by (simp add: shows_tab_def)
qed

lemma full_data_put_cluster:
  assumes "layout x g" "c \<in> clusters g" "length y = cluster_size g" "full_data g V"
  shows "full_data g (put_cluster g c y V)"
  using assms cdata_put_cluster [OF assms(1,2) _ assms(3)] by (simp add: full_data_def)

lemma free_clusters_shows: "shows_tab g V T \<Longrightarrow> free_clusters g (tab g V 0) = free_clusters g T"
  by (auto simp: free_clusters_def shows_tab_def)

text \<open>Writing a cluster of the file.\<close>

lemma opened_put_cluster:
  assumes o: "opened U dv g V cs s" and i: "i < length cs" and x: "length x = cluster_size g"
    and m: "mounted U dv g (put_cluster g (cs ! i) x V) s1" and d: "fn s1 = fn s"
  shows "opened U dv g (put_cluster g (cs ! i) x V) cs s1"
    "free_clusters g (tab g (put_cluster g (cs ! i) x V) 0) = free_clusters g (tab g V 0)"
    "chain_bytes g (put_cluster g (cs ! i) x V) cs =
      take (i * cluster_size g) (chain_bytes g V cs) @ x @ drop (Suc i * cluster_size g) (chain_bytes g V cs)"
proof -
  note od = openedD [OF o]
  note l = mountedD(4) [OF od(1)]
  let ?V = "put_cluster g (cs ! i) x V"
  have "cs ! i \<in> set cs" using i by simp
  then have c: "cs ! i \<in> clusters g" using od(4) by blast
  have nc: "node_chain g (tab g ?V 0) (fn s1) cs"
    using node_chain_shows [OF od(3) shows_tab_put_cluster [OF l c shows_tab_self]] d by simp
  show "opened U dv g ?V cs s1" using m nc full_data_put_cluster [OF l c x od(2)] by (simp add: opened_def)
  have "map (cdata g ?V) cs = (map (cdata g V) cs)[i := x]"
  proof (rule nth_equalityI)
    fix j assume j: "j < length (map (cdata g ?V) cs)"
    then have "cs ! j \<in> set cs" by simp
    then have "cs ! j \<in> clusters g" using od(4) by blast
    then show "map (cdata g ?V) cs ! j = (map (cdata g V) cs)[i := x] ! j"
      using j i cdata_put_cluster [OF l c _ x, of "cs ! j"] nth_eq_iff_index_eq [OF od(6), of i j] by (auto simp: nth_list_update)
  qed simp
  then have "chain_bytes g ?V cs = concat (take i (map (cdata g V) cs)) @ x @ concat (drop (Suc i) (map (cdata g V) cs))"
    using i unfolding chain_bytes_def by (simp add: upd_conv_take_nth_drop)
  then show "chain_bytes g ?V cs = take (i * cluster_size g) (chain_bytes g V cs) @ x @ drop (Suc i * cluster_size g) (chain_bytes g V cs)"
    using od(11) unfolding chain_bytes_def by (simp only: take_concat [of "map (cdata g V) cs" "cluster_size g"] drop_concat [of "map (cdata g V) cs" "cluster_size g"] list.set_map ball_simps)
  show "free_clusters g (tab g ?V 0) = free_clusters g (tab g V 0)"
    by (rule free_clusters_shows [OF shows_tab_put_cluster [OF l c shows_tab_self]])
qed

lemma opened_write_cluster:
  assumes o: "opened U dv g V cs s" and i: "i < length cs" and x: "length x = cluster_size g" and w: "write_cluster s (cs ! i) x = (Inr u, s1)"
  shows "\<exists>V'. opened U dv g V' cs s1 \<and> dsk_only s s1 \<and> free_clusters g (tab g V' 0) = free_clusters g (tab g V 0) \<and>
    chain_bytes g V' cs = take (i * cluster_size g) (chain_bytes g V cs) @ x @ drop (Suc i * cluster_size g) (chain_bytes g V cs)"
proof -
  note ws = write_cluster_spec [OF openedD(1) [OF o] x w]
  from opened_put_cluster [OF o i x ws(1) dsk_onlyD(2) [OF ws(2)]] show ?thesis using ws(2) by blast
qed

lemma fresh_cluster:
  assumes "node_chain g T n cs" "layout x g" "c \<in> free_clusters g T"
  shows "c \<notin> set cs"
proof
  assume c: "c \<in> set cs"
  then have fc: "file_chain g T cs" using assms(1) by (auto simp: node_chain_def split: if_splits)
  note fd = file_chainD [OF assms(2) fc]
  obtain i where i: "i < length cs" "c = cs ! i" using c by (auto simp: in_set_conv_nth)
  have "T c \<noteq> FAT_CLUSTER_FREE"
  proof (cases "Suc i < length cs")
    case True
    then have "T c = cs ! Suc i" using is_chain_nth [OF fd(1)] i by simp
    then show ?thesis using fd(4) [of "cs ! Suc i"] True by (auto simp: fat_values)
  next
    case False
    then have "i = length cs - 1" using i by linarith
    then have "c = last cs" using i fd(2) by (simp add: last_conv_nth)
    then show ?thesis using is_chain_last [OF fd(1)] by (auto simp: fat_values)
  qed
  then show False using assms(3) by (simp add: free_clusters_def)
qed

text \<open>A fresh cluster, cleared and appended.\<close>

lemma grow_chain_step:
  assumes o: "opened U dv g V cs s" and q: "alloc_cluster s = (Inr c, s2)"
    and w: "write_cluster s2 c (replicate (cluster_size g) 0) = (Inr wu, s3)" and p: "chain_append s3 c = (Inr pu, s4)"
  shows "\<exists>V4. opened U dv g V4 (cs @ [c]) s4 \<and> vsize s4 = vsize s \<and> chain_bytes g V4 (cs @ [c]) = chain_bytes g V cs @ replicate (cluster_size g) 0 \<and>
    c \<in> free_clusters g (tab g V 0) \<and> free_clusters g (tab g V4 0) = free_clusters g (tab g V 0) - {c}"
proof -
  note od = openedD [OF o]
  note l = mountedD(4) [OF od(1)]
  let ?z = "replicate (cluster_size g) 0 :: byte list"
  note ac = alloc_cluster_spec(1) [OF od(1) shows_tab_self q refl]
  let ?T = "(tab g V 0)(c := FAT_CLUSTER_EOC)"
  obtain V2 where V2: "mounted U dv g V2 s2" "keeps g V V2" "shows_tab g V2 ?T" using ac by blast
  have cc: "c \<in> clusters g" using ac by (simp add: free_clusters_def)
  have nin: "c \<notin> set cs" using fresh_cluster [OF od(3) l] ac by blast
  note ws = write_cluster_spec [OF V2(1) _ w, simplified]
  let ?V3 = "put_cluster g c ?z V2"
  have T3: "shows_tab g ?V3 ?T" by (rule shows_tab_put_cluster [OF l cc V2(3)])
  have "fn s3 = fn s" using ac dsk_onlyD(2) [OF ws(2)] by simp
  moreover have "node_chain g ?T (fn s) cs" by (rule node_chain_cong [OF od(3)]) (use nin in auto)
  ultimately have nc3: "node_chain g ?T (fn s3) cs" by simp
  have "?T c \<ge> FAT_CLUSTER_EOC" by simp
  from chain_append_spec [OF ws(1) T3 nc3 cc nin this p] obtain V4 T4 where
    V4: "mounted U dv g V4 s4" "vsize s4 = vsize s3" "keeps g ?V3 V4" "shows_tab g V4 T4" "node_chain g T4 (fn s4) (cs @ [c])"
      "free_clusters g T4 = free_clusters g ?T" by auto
  have of4: "only_fat g ?V3 V4" "only_fat g V V2" using V4(3) V2(2) by (auto simp: keeps_def)
  have fd3: "full_data g ?V3" using full_data_put_cluster [OF l cc _] chain_bytes_keeps(2) [OF of4(2) l] od(2) by simp
  have o4: "opened U dv g V4 (cs @ [c]) s4"
    using V4(1) node_chain_shows [OF V4(5,4)] fd3 chain_bytes_keeps(2) [OF of4(1) l] by (simp add: opened_def)
  have "cdata g ?V3 x = cdata g V x" if "x \<in> set cs" for x
    using cdata_put_cluster [OF l cc, of x ?z V2] that nin od(4) cdata_keeps [OF of4(2) l] by auto
  then have me: "map (cdata g ?V3) cs = map (cdata g V) cs" by (intro map_cong) auto
  have "cdata g ?V3 c = ?z" using cdata_put_cluster [OF l cc cc, of ?z V2] by simp
  then have "chain_bytes g ?V3 (cs @ [c]) = chain_bytes g V cs @ ?z" unfolding chain_bytes_def map_append me by simp
  then have cb: "chain_bytes g V4 (cs @ [c]) = chain_bytes g V cs @ ?z" unfolding chain_bytes_keeps(1) [OF of4(1) l] .
  have fr: "free_clusters g ?T = free_clusters g (tab g V 0) - {c}" by (auto simp: free_clusters_def fat_values)
  have "vsize s4 = vsize s" using V4(2) dsk_onlyD(3) [OF ws(2)] ac by simp
  then show ?thesis using o4 cb ac fr V4(6) free_clusters_shows [OF V4(4)] by blast
qed

lemma grow_chain_spec:
  assumes "opened U dv g V cs s" "grow_chain n s = (Inr u, s1)"
  shows "\<exists>V' ds. opened U dv g V' (cs @ ds) s1 \<and> length ds = n \<and> vsize s1 = vsize s \<and>
    chain_bytes g V' (cs @ ds) = chain_bytes g V cs @ replicate (n * cluster_size g) 0"
  using assms
proof (induction n arbitrary: V cs s)
  case 0
  then show ?case by (intro exI [of _ V] exI [of _ "[]"]) simp
next
  case (Suc n)
  note od = openedD [OF Suc.prems(1)]
  let ?z = "replicate (cluster_size g) 0 :: byte list"
  obtain q s2 where q: "alloc_cluster s = (q, s2)" by force
  obtain c where c: "q = Inr c" using Suc.prems(2) q by (cases q) auto
  obtain V2 where V2: "mounted U dv g V2 s2" using alloc_cluster_spec(1) [OF od(1) shows_tab_self q c] by blast
  have csz: "cluster_size (sb s2) = cluster_size g" using geo_eqD(4) [OF mountedD(5) [OF V2]] .
  obtain w s3 where w: "write_cluster s2 c ?z = (w, s3)" by force
  obtain wu where wu: "w = Inr wu" using Suc.prems(2) q c w csz by (cases w) auto
  obtain p s4 where p: "chain_append s3 c = (p, s4)" by force
  obtain pu where pu: "p = Inr pu" using Suc.prems(2) q c w wu csz p by (cases p) auto
  obtain V4 where V4: "opened U dv g V4 (cs @ [c]) s4" "vsize s4 = vsize s" "chain_bytes g V4 (cs @ [c]) = chain_bytes g V cs @ ?z"
    using grow_chain_step [OF Suc.prems(1) q [unfolded c] w [unfolded wu] p [unfolded pu]] by blast
  have "grow_chain n s4 = (Inr u, s1)" using Suc.prems(2) q c w wu csz p pu by simp
  from Suc.IH [OF V4(1) this] obtain V' ds where "opened U dv g V' ((cs @ [c]) @ ds) s1" "length ds = n" "vsize s1 = vsize s4"
    "chain_bytes g V' ((cs @ [c]) @ ds) = chain_bytes g V4 (cs @ [c]) @ replicate (n * cluster_size g) 0" by blast
  then show ?case using V4(2,3) by (intro exI [of _ V'] exI [of _ "c # ds"]) (simp add: replicate_add)
qed

text \<open>Zeroing a cluster of the file from byte \<open>k\<close> on.\<close>

lemma zero_from_length: "k \<le> length x \<Longrightarrow> length (zero_from k x) = length x"
  by (simp add: zero_from_def)

lemma opened_zero_cluster:
  assumes o: "opened U dv g V cs s" and i: "i < length cs" and k: "k \<le> cluster_size g"
    and z: "bindE (read_cluster s (cs ! i)) (\<lambda>x s2. write_cluster s2 (cs ! i) (zero_from k x)) = (Inr u, s1)"
  shows "\<exists>V'. opened U dv g V' cs s1 \<and> vsize s1 = vsize s \<and> free_clusters g (tab g V' 0) = free_clusters g (tab g V 0) \<and>
    chain_bytes g V' cs = take (i * cluster_size g + k) (chain_bytes g V cs) @ replicate (cluster_size g - k) 0 @ drop (Suc i * cluster_size g) (chain_bytes g V cs)"
proof -
  note od = openedD [OF o]
  obtain q s2 where q: "read_cluster s (cs ! i) = (q, s2)" by force
  obtain x where x: "q = Inr x" using z q by (cases q) auto
  note rc = read_cluster_spec [OF od(1) q [unfolded x]]
  have o2: "opened U dv g V cs s2" by (rule opened_dsk_only [OF o rc(2,1)])
  have w: "write_cluster s2 (cs ! i) (zero_from k x) = (Inr u, s1)" using z q x by simp
  have lz: "length (zero_from k x) = cluster_size g" using zero_from_length k rc(5) by simp
  obtain V' where V': "opened U dv g V' cs s1" "dsk_only s2 s1"
    "chain_bytes g V' cs = take (i * cluster_size g) (chain_bytes g V cs) @ zero_from k x @ drop (Suc i * cluster_size g) (chain_bytes g V cs)"
    "free_clusters g (tab g V' 0) = free_clusters g (tab g V 0)"
    using opened_write_cluster [OF o2 i lz w] by blast
  have "(i * cluster_size g) div cluster_size g = i" "(i * cluster_size g) mod cluster_size g = 0" using od(9) by simp_all
  then have "take k x = take k (drop (i * cluster_size g) (chain_bytes g V cs))"
    using piece_of_chain [OF o, of "i * cluster_size g" k] i k rc(4) by simp
  then have "take (i * cluster_size g) (chain_bytes g V cs) @ zero_from k x = take (i * cluster_size g + k) (chain_bytes g V cs) @ replicate (cluster_size g - k) 0"
    using rc(5) by (simp add: zero_from_def take_add)
  then have "chain_bytes g V' cs = take (i * cluster_size g + k) (chain_bytes g V cs) @ replicate (cluster_size g - k) 0 @ drop (Suc i * cluster_size g) (chain_bytes g V cs)"
    using V'(3) by (metis append_assoc)
  then show ?thesis using V'(1,4) dsk_onlyD(3) [OF V'(2)] dsk_onlyD(3) [OF rc(2)] by auto
qed

text \<open>The file has exactly the clusters its size needs.\<close>

definition sized :: "fat_super \<Rightarrow> nat list \<Rightarrow> nat \<Rightarrow> bool" where
  "sized g cs n \<longleftrightarrow> length cs = (n + cluster_size g - 1) div cluster_size g \<and> n < 2 ^ 32"

lemma sized_le:
  assumes "sized g cs n" "0 < cluster_size g"
  shows "n \<le> length cs * cluster_size g" "0 < n \<Longrightarrow> (n - 1) div cluster_size g = length cs - 1 \<and> cs \<noteq> []"
proof -
  let ?z = "cluster_size g"
  have l: "length cs = (n + ?z - 1) div ?z" using assms(1) by (simp add: sized_def)
  have "n + ?z - 1 < (length cs + 1) * ?z"
    using dividend_less_div_times [OF assms(2), of "n + ?z - 1"] l by simp
  then show "n \<le> length cs * ?z" by simp
  assume n: "0 < n"
  then have e: "n + ?z - 1 = (n - 1) + ?z" by simp
  have "length cs = (n - 1) div ?z + 1" unfolding l e using assms(2) by (simp only: div_add_self2)
  then show "(n - 1) div ?z = length cs - 1 \<and> cs \<noteq> []" by auto
qed

lemma clusters_of_eq:
  assumes "opened U dv g V cs s" "n < 2 ^ 33"
  shows "clusters_of s n = (n + cluster_size g - 1) div cluster_size g"
proof -
  note od = openedD [OF assms(1)]
  have "n + cluster_size g - 1 < 2 ^ 64" using od(10) assms(2) by simp
  then show ?thesis using od(8) by (simp add: clusters_of_def u64_def)
qed

definition file_bytes :: "fat_super \<Rightarrow> (nat \<Rightarrow> nat \<Rightarrow> sector) \<Rightarrow> nat list \<Rightarrow> nat \<Rightarrow> byte list" where
  "file_bytes g V cs n = take n (chain_bytes g V cs)"

text \<open>After \<open>zero_tail\<close> the bytes behind the end of the file are zero.\<close>

lemma zero_tail_spec:
  assumes o: "opened U dv g V cs s" and sz: "sized g cs (vsize s)" "0 < vsize s" and z: "zero_tail s = (Inr u, s1)"
  shows "\<exists>V'. opened U dv g V' cs s1 \<and> vsize s1 = vsize s \<and> free_clusters g (tab g V' 0) = free_clusters g (tab g V 0) \<and>
    chain_bytes g V' cs = file_bytes g V cs (vsize s) @ replicate (length cs * cluster_size g - vsize s) 0"
proof -
  note od = openedD [OF o] and sl = sized_le [OF sz(1) openedD(9) [OF o]]
  let ?n = "cluster_size g" and ?i = "length cs - 1"
  have i: "?i < length cs" "(vsize s - 1) div ?n = ?i" using sl(2) [OF sz(2)] by auto
  have tl: "total_clusters g < 2 ^ 28" using layout_less [OF mountedD(4) [OF od(1)]] by simp
  have iu: "u32 ?i = ?i" using od(7) tl by (simp add: u32_def)
  have "vsize s mod ?n < ?n" using od(9) by simp
  then have ru: "u32 (vsize s mod ?n) = vsize s mod ?n" using od(10) by (simp add: u32_def)
  obtain q s2 where q: "cluster_at s ?i = (q, s2)" by force
  note oc = opened_cluster_at [OF o i(1) q]
  have "q \<noteq> Inl ENXIO" using oc(4) by blast
  then obtain c where c: "q = Inr c" using z q i(2) iu od(8) by (cases q) (auto simp: zero_tail_def Let_def split: if_splits)
  then have cc: "c = cs ! ?i" using oc(3) by simp
  have Lb: "length (chain_bytes g V cs) = length cs * ?n" by (rule od(5))
  have "Suc ?i = length cs" using i(1) by simp
  then have ci: "Suc ?i * ?n = length cs * ?n" by (simp only:)
  show ?thesis
  proof (cases "vsize s mod ?n = 0")
    case True
    then have s1: "s1 = s2" using z q c i(2) iu od(8) ru by (simp add: zero_tail_def Let_def)
    have "vsize s = length cs * ?n"
    proof -
      obtain k where k: "vsize s = ?n * k" using True by auto
      then have "length cs = (?n * k + ?n - 1) div ?n" using sz(1) by (simp add: sized_def)
      also have "\<dots> = k" using od(9) by (simp add: div_nat_eqI)
      finally show ?thesis using k by (simp add: mult.commute)
    qed
    then have "chain_bytes g V cs = file_bytes g V cs (vsize s) @ replicate (length cs * ?n - vsize s) 0"
      using Lb by (simp add: file_bytes_def)
    then show ?thesis using oc(1,2) s1 by blast
  next
    case False
    then have w: "bindE (read_cluster s2 (cs ! ?i)) (\<lambda>x s2. write_cluster s2 (cs ! ?i) (zero_from (vsize s mod ?n) x)) = (Inr u, s1)"
      using z q c cc i(2) iu od(8) ru by (simp add: zero_tail_def Let_def)
    have k: "vsize s mod ?n \<le> ?n" using od(9) by simp
    have pos: "?i * ?n + vsize s mod ?n = vsize s"
    proof -
      have "(vsize s - 1) div ?n = vsize s div ?n" using False od(9) sz(2)
        by (metis Suc_diff_1 Suc_eq_plus1 add.commute div_Suc plus_1_eq_Suc)
      then show ?thesis using i(2) by (metis div_mult_mod_eq)
    qed
    obtain V' where V': "opened U dv g V' cs s1" "vsize s1 = vsize s2"
      "chain_bytes g V' cs = take (?i * ?n + vsize s mod ?n) (chain_bytes g V cs) @ replicate (?n - vsize s mod ?n) 0 @ drop (Suc ?i * ?n) (chain_bytes g V cs)"
      "free_clusters g (tab g V' 0) = free_clusters g (tab g V 0)"
      using opened_zero_cluster [OF oc(1) i(1) k w] by blast
    have "length cs * ?n - vsize s = ?n - vsize s mod ?n" using pos ci by (metis add_diff_cancel_left diff_diff_eq mult_Suc add.commute)
    then have "chain_bytes g V' cs = file_bytes g V cs (vsize s) @ replicate (length cs * ?n - vsize s) 0"
      using V'(3) [unfolded pos ci] Lb by (simp add: file_bytes_def)
    then show ?thesis using V'(1,2,4) oc(2) by auto
  qed
qed

lemma extend_to_spec:
  assumes o: "opened U dv g V cs s" and sz: "sized g cs (vsize s)" and n: "n < 2 ^ 32" and e: "extend_to s n = (Inr u, s1)"
  shows "\<exists>V' ds. opened U dv g V' (cs @ ds) s1 \<and> vsize s1 = vsize s \<and>
    (if n > vsize s then sized g (cs @ ds) n \<and>
       chain_bytes g V' (cs @ ds) = file_bytes g V cs (vsize s) @ replicate (length (cs @ ds) * cluster_size g - vsize s) 0
     else ds = [] \<and> chain_bytes g V' cs = chain_bytes g V cs)"
proof -
  note od = openedD [OF o]
  let ?z = "cluster_size g"
  let ?need = "(n + ?z - 1) div ?z" and ?have = "length cs"
  have lc: "?have = (vsize s + ?z - 1) div ?z" "vsize s < 2 ^ 32" using sz by (auto simp: sized_def)
  have h0: "(if vsize s \<noteq> 0 then clusters_of s (vsize s) else 0) = ?have"
    using clusters_of_eq [OF o, of "vsize s"] lc od(9) by auto
  have need: "clusters_of s n = ?need" using clusters_of_eq [OF o, of n] n by simp
  have v0: "0 < ?have \<longleftrightarrow> 0 < vsize s"
  proof (cases "vsize s = 0")
    case True
    then show ?thesis using lc(1) od(9) by simp
  next
    case False
    then show ?thesis using sized_le(2) [OF sz od(9)] by simp
  qed
  obtain q s2 where q: "(if ?have > 0 \<and> n > vsize s then zero_tail s else (Inr (), s)) = (q, s2)" by force
  have eq: "extend_to s n = bindE (q, s2) (\<lambda>_ s1. grow_chain (?need - ?have) s1)"
    unfolding extend_to_def Let_def h0 need q ..
  obtain qu where qu: "q = Inr qu" using e eq by (cases q) auto
  have gr: "grow_chain (?need - ?have) s2 = (Inr u, s1)" using e eq qu by simp
  show ?thesis
  proof (cases "n > vsize s")
    case True
    have "\<exists>V2. opened U dv g V2 cs s2 \<and> vsize s2 = vsize s \<and> chain_bytes g V2 cs = file_bytes g V cs (vsize s) @ replicate (?have * ?z - vsize s) 0"
    proof (cases "vsize s = 0")
      case True
      then have "cs = []" "s2 = s" using v0 q by auto
      then show ?thesis using o True by (intro exI [of _ V]) (simp add: file_bytes_def chain_bytes_def)
    next
      case False
      then have zt: "zero_tail s = (Inr qu, s2)" using q qu v0 True by simp
      then show ?thesis using zero_tail_spec [OF o sz _ zt] False by auto
    qed
    then obtain V2 where V2: "opened U dv g V2 cs s2" "vsize s2 = vsize s" "chain_bytes g V2 cs = file_bytes g V cs (vsize s) @ replicate (?have * ?z - vsize s) 0"
      by blast
    obtain V' ds where V': "opened U dv g V' (cs @ ds) s1" "length ds = ?need - ?have" "vsize s1 = vsize s2"
      "chain_bytes g V' (cs @ ds) = chain_bytes g V2 cs @ replicate ((?need - ?have) * ?z) 0"
      using grow_chain_spec [OF V2(1) gr] by blast
    have "?have \<le> ?need" unfolding lc(1) using True by (intro div_le_mono) simp
    then have len: "length (cs @ ds) = ?need" using V'(2) by simp
    have "vsize s \<le> ?have * ?z" by (rule sized_le(1) [OF sz od(9)])
    then have "?have * ?z - vsize s + (?need - ?have) * ?z = length (cs @ ds) * ?z - vsize s"
      using V'(2) by (simp add: add_mult_distrib)
    then have "chain_bytes g V' (cs @ ds) = file_bytes g V cs (vsize s) @ replicate (length (cs @ ds) * ?z - vsize s) 0"
      using V'(4) V2(3) by (metis append_assoc replicate_add)
    then show ?thesis using V'(1,3) V2(2) len True n by (intro exI [of _ V'] exI [of _ ds]) (simp add: sized_def)
  next
    case False
    then have "?need \<le> ?have" unfolding lc(1) by (intro div_le_mono) simp
    then have "s1 = s2" "s2 = s" using gr q False by auto
    then show ?thesis using o False by (intro exI [of _ V] exI [of _ "[]"]) simp
  qed
qed

lemma splice_cluster:
  fixes B :: "'a list"
  assumes "Suc i * n \<le> length B" "r \<le> n" "k \<le> n"
  shows "take (i * n) B @ (take r (take n (drop (i * n) B)) @ z @ drop k (take n (drop (i * n) B))) @ drop (Suc i * n) B =
    take (i * n + r) B @ z @ drop (i * n + k) B"
proof -
  have "drop (i * n + k) B = take (n - k) (drop (i * n + k) B) @ drop (n - k) (drop (i * n + k) B)" by (rule append_take_drop_id [symmetric])
  moreover have "n - k + (i * n + k) = Suc i * n" using assms(3) by simp
  ultimately have "drop k (take n (drop (i * n) B)) @ drop (Suc i * n) B = drop (i * n + k) B"
    by (simp add: drop_take add.commute)
  then show ?thesis using assms(2) by (simp add: take_add min_def)
qed

lemma splice_again:
  fixes B :: "'a list"
  assumes "off + length src \<le> length B" "c \<le> length src" "B1 = take off B @ take c src @ drop (off + c) B"
  shows "take (off + c) B1 @ drop c src @ drop (off + length src) B1 = take off B @ src @ drop (off + length src) B"
proof -
  have l: "length (take off B) = off" "length (take c src) = c" using assms by auto
  have "take (off + c) B1 = take off B @ take c src" unfolding assms(3) using l by simp
  moreover have "drop (off + length src) B1 = drop (off + length src) B"
    unfolding assms(3) using l assms(2) by (simp add: add.commute)
  ultimately show ?thesis by simp
qed

lemma opened_off:
  assumes "opened U dv g V cs s" "n \<le> length cs * cluster_size g"
  shows "u64 n = n"
proof -
  note o = openedD [OF assms(1)]
  have "total_clusters g < 2 ^ 28" using layout_less [OF mountedD(4) [OF o(1)]] by simp
  then have "length cs * cluster_size g \<le> 2 ^ 28 * 2 ^ 32" using o(7,10) by (intro mult_le_mono) simp_all
  then show ?thesis using assms(2) by (simp add: u64_def)
qed

lemma write_loop_spec:
  assumes "opened U dv g V cs s" "off + length src \<le> length cs * cluster_size g" "write_loop s off src don = (Inr u, d, s1)"
  shows "\<exists>V'. opened U dv g V' cs s1 \<and> vsize s1 = vsize s \<and> d = don + length src \<and>
    chain_bytes g V' cs = take off (chain_bytes g V cs) @ src @ drop (off + length src) (chain_bytes g V cs)"
  using assms
proof (induction s off src don arbitrary: V rule: write_loop.induct)
  case (1 s off src don)
  note o = openedD [OF "1.prems"(1)]
  let ?n = "cluster_size g"
  show ?case
  proof (cases "src = []")
    case True
    then have "s1 = s" "d = don" using "1.prems"(3) by (simp_all add: write_loop.simps [of s] Let_def)
    then show ?thesis using "1.prems"(1) True by (intro exI [of _ V]) simp
  next
    case False
    then have "off < length cs * ?n" using "1.prems"(2) by (cases src) auto
    then have i: "off div ?n < length cs" by (simp add: less_mult_imp_div_less)
    have "total_clusters g < 2 ^ 28" using layout_less [OF mountedD(4) [OF o(1)]] by simp
    then have iu: "u32 (off div ?n) = off div ?n" using i o(7) by (simp add: u32_def)
    have rn: "off mod ?n < ?n" using o(9) by simp
    then have ru: "u32 (off mod ?n) = off mod ?n" using o(10) by (simp add: u32_def)
    define r where "r = off mod ?n"
    define k where "k = off div ?n"
    define chunk where "chunk = min (?n - r) (length src)"
    have off: "off = k * ?n + r" by (simp add: r_def k_def)
    have cond: "\<not> (src = [] \<or> cluster_size (sb s) = 0)" using False o(8,9) by simp
    obtain q s2 where q: "cluster_at s k = (q, s2)" by force
    note oc = opened_cluster_at [OF "1.prems"(1) i q [unfolded k_def]]
    obtain c where c: "q = Inr c" "c = cs ! k"
    proof (cases q)
      case (Inl e)
      then have "write_loop s off src don = (Inl e, don, s2)" using q o(8) iu cond by (simp add: write_loop.simps [of s] Let_def k_def)
      then show thesis using "1.prems"(3) by simp
    qed (use oc(3) in \<open>simp add: k_def\<close>)
    define step where "step = (if r \<noteq> 0 \<or> chunk \<noteq> ?n
        then bindE (read_cluster s2 c) (\<lambda>x s2. write_cluster s2 c (take r x @ take chunk src @ drop (r + chunk) x))
        else write_cluster s2 c (take chunk src))"
    obtain w s3 where w: "step = (w, s3)" by force
    have ou: "u64 (off + chunk) = off + chunk" using "1.prems"(2) by (intro opened_off [OF "1.prems"(1)]) (simp add: chunk_def)
    have unf: "write_loop s off src don = (case (w, s3) of (Inl e, s2) \<Rightarrow> (Inl e, don, s2) | (Inr _, s2) \<Rightarrow> write_loop s2 (u64 (off + chunk)) (drop chunk src) (don + chunk))"
      using cond q c(1) iu ru w unfolding step_def r_def k_def chunk_def
      by (simp add: write_loop.simps [of s off] o(8) Let_def)
    obtain wu where wu: "w = Inr wu" using unf "1.prems"(3) by (cases w) auto
    let ?B = "chain_bytes g V cs" and ?x = "take ?n (drop (k * ?n) (chain_bytes g V cs))"
    have kk: "k < length cs" using i by (simp add: k_def)
    have "Suc k * ?n \<le> length cs * ?n" using kk by (intro mult_le_mono1) simp
    then have kl: "Suc k * ?n \<le> length ?B" using o(5) by simp
    have cd: "cdata g V (cs ! k) = ?x"
      using piece_of_chain [OF "1.prems"(1), of "k * ?n" ?n] kk o(9,11) by simp
    have rc: "r + chunk \<le> ?n" "chunk \<le> length src" using rn by (auto simp: chunk_def r_def)
    let ?y = "take r ?x @ take chunk src @ drop (r + chunk) ?x"
    have lx: "length ?x = ?n" using kl by simp
    have ly: "length ?y = ?n" using lx rc by simp
    have "\<exists>V2. opened U dv g V2 cs s3 \<and> vsize s3 = vsize s2 \<and> chain_bytes g V2 cs = take (k * ?n) ?B @ ?y @ drop (Suc k * ?n) ?B"
    proof (cases "r \<noteq> 0 \<or> chunk \<noteq> ?n")
      case True
      obtain p s4 where p: "read_cluster s2 c = (p, s4)" by force
      obtain x where x: "p = Inr x" using w wu True p by (cases p) (auto simp: step_def)
      note rs = read_cluster_spec [OF openedD(1) [OF oc(1)] p [unfolded x]]
      have xe: "x = ?x" using rs(4) c(2) cd by simp
      have o4: "opened U dv g V cs s4" by (rule opened_dsk_only [OF oc(1) rs(2,1)])
      have "write_cluster s4 (cs ! k) ?y = (Inr wu, s3)" using w wu True p x xe c(2) by (simp add: step_def)
      from opened_write_cluster [OF o4 kk ly this] show ?thesis using dsk_onlyD(3) [OF rs(2)] dsk_onlyD(3) by metis
    next
      case False
      then have "?y = take chunk src" using lx by simp
      then have "write_cluster s2 (cs ! k) ?y = (Inr wu, s3)" using w wu False c(2) by (simp add: step_def)
      from opened_write_cluster [OF oc(1) kk ly this] show ?thesis using dsk_onlyD(3) by metis
    qed
    then obtain V2 where V2: "opened U dv g V2 cs s3" "vsize s3 = vsize s2" "chain_bytes g V2 cs = take (k * ?n) ?B @ ?y @ drop (Suc k * ?n) ?B" by blast
    have B2: "chain_bytes g V2 cs = take off ?B @ take chunk src @ drop (off + chunk) ?B"
      using V2(3) splice_cluster [OF kl, of r "r + chunk" "take chunk src"] rc rn by (simp add: off r_def [symmetric] add.assoc)
    have rec: "write_loop s3 (off + chunk) (drop chunk src) (don + chunk) = (Inr u, d, s1)" using unf [unfolded ou] wu "1.prems"(3) by simp
    have lim: "off + chunk + length (drop chunk src) \<le> length cs * ?n" using "1.prems"(2) rc(2) by simp
    have ih: "\<exists>V'. opened U dv g V' cs s1 \<and> vsize s1 = vsize s3 \<and> d = don + chunk + length (drop chunk src) \<and>
        chain_bytes g V' cs = take (off + chunk) (chain_bytes g V2 cs) @ drop chunk src @ drop (off + chunk + length (drop chunk src)) (chain_bytes g V2 cs)"
    proof -
      have q': "(Inr c, s2) = cluster_at s (u32 (off div cluster_size (sb s)))" using q c(1) o(8) iu by (simp add: k_def)
      have st: "(Inr wu, s3) = (if u32 (off mod cluster_size (sb s)) \<noteq> 0 \<or> min (cluster_size (sb s) - u32 (off mod cluster_size (sb s))) (length src) \<noteq> cluster_size (sb s)
          then bindE (read_cluster s2 c) (\<lambda>x s2. write_cluster s2 c (take (u32 (off mod cluster_size (sb s))) x @
             take (min (cluster_size (sb s) - u32 (off mod cluster_size (sb s))) (length src)) src @
             drop (u32 (off mod cluster_size (sb s)) + min (cluster_size (sb s) - u32 (off mod cluster_size (sb s))) (length src)) x))
          else write_cluster s2 c (take (min (cluster_size (sb s) - u32 (off mod cluster_size (sb s))) (length src)) src))"
        using w wu unfolding o(8) ru step_def r_def chunk_def by simp
      show ?thesis
        using "1.IH" [OF refl cond q' refl refl refl st refl, unfolded o(8) ru, folded r_def, folded chunk_def, unfolded ou, OF V2(1) lim rec] .
    qed
    have tot: "off + chunk + length (drop chunk src) = off + length src" "don + chunk + length (drop chunk src) = don + length src" using rc(2) by simp_all
    have lB: "off + length src \<le> length ?B" using "1.prems"(2) o(5) by simp
    show ?thesis using ih V2(2) oc(2) splice_again [OF lB rc(2) B2] unfolding tot by auto
  qed
qed

text \<open>The bytes of a file after \<open>src\<close> was written at \<open>off\<close>; a gap reads as zeros.\<close>

definition spliced :: "byte list \<Rightarrow> nat \<Rightarrow> byte list \<Rightarrow> byte list" where
  "spliced F off src = take off (F @ replicate (off - length F) 0) @ src @ drop (off + length src) F"

lemma opened_touch: "opened U dv g V cs (touch (s\<lparr>vsize := n\<rparr>)) = opened U dv g V cs s" "opened U dv g V cs (touch s) = opened U dv g V cs s"
  "opened U dv g V cs (s\<lparr>vsize := n\<rparr>) = opened U dv g V cs s"
  by (simp_all add: opened_def mounted_def touch_def)

lemma write_at_spec:
  assumes o: "opened U dv g V cs s" and sz: "sized g cs (vsize s)" and off: "off < 2 ^ 64" "off + length src < 2 ^ 64"
    and w: "write_at s off src = (Inr u, d, s1)"
  shows "\<exists>V' cs'. opened U dv g V' cs' s1 \<and> sized g cs' (vsize s1) \<and> d = length src \<and>
    (src \<noteq> [] \<longrightarrow> vsize s1 = max (vsize s) (off + length src) \<and>
       file_bytes g V' cs' (vsize s1) = spliced (file_bytes g V cs (vsize s)) off src) \<and>
    (src = [] \<longrightarrow> s1 = s \<and> V' = V \<and> cs' = cs)"
proof (cases "src = []")
  case True
  then show ?thesis using w o sz by (intro exI [of _ V] exI [of _ cs]) (simp add: write_at_def)
next
  case False
  note od = openedD [OF o]
  let ?n = "off + length src" and ?z = "cluster_size g" and ?F = "file_bytes g V cs (vsize s)"
  have un: "u64 ?n = ?n" using off(2) by (simp add: u64_def)
  have lim: "?n < 2 ^ 32" using w False un by (auto simp: write_at_def split: if_splits)
  obtain q s2 where q: "extend_to s ?n = (q, s2)" by force
  obtain qu where qu: "q = Inr qu" using w False un lim q by (cases q) (auto simp: write_at_def)
  obtain p d2 s3 where p: "write_loop s2 off src 0 = (p, d2, s3)" by (metis prod_cases3)
  obtain pu where pu: "p = Inr pu" using w False un lim q qu p by (cases p) (auto simp: write_at_def)
  have res: "d = d2" "s1 = touch (if ?n > vsize s3 then s3\<lparr>vsize := ?n\<rparr> else s3)"
    using w False un lim q qu p pu by (auto simp: write_at_def)
  have vF: "vsize s \<le> length cs * ?z" by (rule sized_le(1) [OF sz od(9)])
  then have lF: "length ?F = vsize s" using od(5) by (simp add: file_bytes_def)
  obtain V2 ds where V2: "opened U dv g V2 (cs @ ds) s2" "vsize s2 = vsize s"
    "if ?n > vsize s then sized g (cs @ ds) ?n \<and>
       chain_bytes g V2 (cs @ ds) = ?F @ replicate (length (cs @ ds) * ?z - vsize s) 0
     else ds = [] \<and> chain_bytes g V2 cs = chain_bytes g V cs"
    using extend_to_spec [OF o sz lim q [unfolded qu]] by blast
  let ?cs = "cs @ ds" and ?B = "chain_bytes g V2 (cs @ ds)" and ?m = "max (vsize s) ?n"
  have szm: "sized g ?cs ?m" using V2(3) sz by (auto simp: max_def split: if_splits)
  have room: "?m \<le> length ?cs * ?z" by (rule sized_le(1) [OF szm od(9)])
  then have fit: "off + length src \<le> length ?cs * ?z" by simp
  obtain V3 where V3: "opened U dv g V3 ?cs s3" "vsize s3 = vsize s2" "d2 = 0 + length src"
    "chain_bytes g V3 ?cs = take off ?B @ src @ drop ?n ?B"
    using write_loop_spec [OF V2(1) fit p [unfolded pu]] by blast
  have vs: "vsize s1 = ?m" using res(2) V3(2) V2(2) by (auto simp: touch_def)
  have o1: "opened U dv g V3 ?cs s1" using V3(1) res(2) by (simp add: opened_touch)
  have "take ?m (chain_bytes g V3 ?cs) = spliced ?F off src"
  proof (cases "?n > vsize s")
    case True
    then have B: "?B = ?F @ replicate (length ?cs * ?z - vsize s) 0" using V2(3) by simp
    have "take off ?B = take off (?F @ replicate (off - length ?F) 0)"
    proof -
      have "off \<le> length ?cs * ?z" using fit by simp
      then show ?thesis unfolding B by (simp add: lF min_def)
    qed
    moreover have "length (take off ?B) = off" using openedD(5) [OF V2(1)] fit by simp
    moreover have "drop ?n ?F = []" using True lF by simp
    ultimately show ?thesis using True V3(4) by (simp add: spliced_def)
  next
    case False
    then have B: "?B = chain_bytes g V cs" "ds = []" using V2(3) by auto
    have le: "?n \<le> vsize s" using False by simp
    have l1: "length (take off (chain_bytes g V cs)) = off" using od(5) vF le by simp
    have "take ?m (chain_bytes g V3 ?cs) = take off (chain_bytes g V cs) @ src @ take (vsize s - ?n) (drop ?n (chain_bytes g V cs))"
      unfolding V3(4) B(1) using l1 le by (simp add: max_def)
    also have "take (vsize s - ?n) (drop ?n (chain_bytes g V cs)) = drop ?n ?F" by (simp add: file_bytes_def drop_take)
    also have "take off (chain_bytes g V cs) = take off (?F @ replicate (off - length ?F) 0)"
      using le lF by (simp add: file_bytes_def min_def)
    finally show ?thesis by (simp add: spliced_def)
  qed
  then show ?thesis using o1 szm vs res(1) V3(3) False by (intro exI [of _ V3] exI [of _ ?cs]) (simp add: file_bytes_def)
qed

lemma read_at_spec:
  assumes o: "opened U dv g V cs s" and sz: "sized g cs (vsize s)" and off: "off + len < 2 ^ 64" and r: "read_at s off len = (r, out, s1)"
  shows "(r = Inr () \<longrightarrow> out = take len (drop off (file_bytes g V cs (vsize s))) \<and> opened U dv g V cs s1 \<and> vsize s1 = vsize s) \<and>
    (\<exists>k \<le> len. out = take k (drop off (file_bytes g V cs (vsize s))))"
proof (cases "len = 0 \<or> off \<ge> vsize s")
  case True
  then have "r = Inr ()" "out = []" "s1 = s" using r by (auto simp: read_at_def split: if_splits)
  moreover have "take k (drop off (file_bytes g V cs (vsize s))) = []" if "k \<le> len" for k using True that by (auto simp: file_bytes_def)
  ultimately show ?thesis using o by auto
next
  case False
  note od = openedD [OF o]
  let ?m = "if off + len > vsize s then vsize s - off else len" and ?B = "chain_bytes g V cs"
  have "u64 (off + len) = off + len" using off by (simp add: u64_def)
  then have rl: "read_loop s off ?m [] = (r, out, s1)" using r False by (simp add: read_at_def)
  have vF: "vsize s \<le> length cs * cluster_size g" by (rule sized_le(1) [OF sz od(9)])
  then have fit: "off + ?m \<le> length cs * cluster_size g" using False by auto
  note sp = read_loop_spec [OF o fit rl]
  have tk: "take k (drop off ?B) = take k (drop off (file_bytes g V cs (vsize s)))" if "k \<le> ?m" for k
    using that False by (auto simp: file_bytes_def drop_take min_def split: if_splits)
  have mx: "take ?m (drop off (file_bytes g V cs (vsize s))) = take len (drop off (file_bytes g V cs (vsize s)))"
    by (auto simp: file_bytes_def)
  obtain k where k: "k \<le> ?m" "out = take k (drop off ?B)" using sp by auto
  have "?m \<le> len" by auto
  then have "k \<le> len" using k(1) by (rule order_trans [rotated])
  then have "\<exists>k \<le> len. out = take k (drop off (file_bytes g V cs (vsize s)))" using tk [OF k(1)] k(2) by auto
  then show ?thesis using sp tk [of ?m] mx by auto
qed

section \<open>Truncation\<close>

lemma is_chain_take:
  assumes "is_chain T cs" "k < length cs" "\<And>i. i < k \<Longrightarrow> T' (cs ! i) = T (cs ! i)" "T' (cs ! k) \<ge> FAT_CLUSTER_EOC"
  shows "is_chain T' (take (Suc k) cs)"
  using assms
proof (induction T cs arbitrary: k rule: is_chain.induct)
  case (3 T c c' cs)
  show ?case
  proof (cases k)
    case (Suc j)
    have "is_chain T' (take (Suc j) (c' # cs))"
    proof (rule 3(1))
      show "is_chain T (c' # cs)" "j < length (c' # cs)" "T' ((c' # cs) ! j) \<ge> FAT_CLUSTER_EOC" using 3(2,3,5) Suc by auto
      show "T' ((c' # cs) ! i) = T ((c' # cs) ! i)" if "i < j" for i using 3(4) [of "Suc i"] that Suc by simp
    qed
    moreover have "T' c = c'" using 3(2) 3(4) [of 0] Suc by simp
    ultimately show ?thesis using Suc by simp
  qed (use 3 in simp)
qed auto

lemma opened_cluster_at_end:
  assumes o: "opened U dv g V cs s" and ne: "cs \<noteq> []" and c: "cluster_at s (length cs) = (r, s1)"
  shows "opened U dv g V cs s1" "vsize s1 = vsize s" "\<exists>e. r = Inl e"
proof -
  note od = openedD [OF o]
  have nc: "file_chain g (tab g V 0) cs" "pos_ok (fn s) cs" using od(3) ne by (auto simp: node_chain_def)
  note sp = cluster_at_spec [OF od(1) shows_tab_self nc c]
  show "opened U dv g V cs s1" using sp(1,2) nc(1) od(2) ne by (auto simp: opened_def node_chain_def)
  show "vsize s1 = vsize s" "\<exists>e. r = Inl e" using sp(4,5) by (auto split: sum.splits)
qed

lemma opened_only_fat:
  assumes "opened U dv g V cs s" "mounted U dv g V' s1" "only_fat g V V'" "shows_tab g V' T'" "node_chain g T' (fn s1) cs'"
  shows "opened U dv g V' cs' s1"
  using openedD(2) [OF assms(1)] assms(2) chain_bytes_keeps(2) [OF assms(3) mountedD(4) [OF assms(2)]] node_chain_shows [OF assms(5,4)]
  by (simp add: opened_def)

lemma nth_drop_distinct:
  assumes "distinct cs" "i < k" "k \<le> length cs"
  shows "cs ! i \<notin> set (drop k cs)"
proof
  assume "cs ! i \<in> set (drop k cs)"
  then obtain j where "k \<le> j" "j < length cs" "cs ! j = cs ! i" by (auto simp: in_set_conv_nth) (metis le_add1 less_diff_conv add.commute)
  then show False using nth_eq_iff_index_eq [OF assms(1), of j i] assms(2,3) by simp
qed

text \<open>Ending a chain before its cluster \<open>k\<close> leaves the rest as a chain of its own.\<close>

lemma file_chain_drop_upd:
  assumes "layout x g" "file_chain g T cs" "0 < k" "k < length cs"
  shows "file_chain g (T(cs ! (k - 1) := v)) (drop k cs)"
proof -
  note fd = file_chainD [OF assms(1,2)]
  have nd: "cs ! (k - 1) \<notin> set (drop k cs)" using nth_drop_distinct [OF fd(5), of "k - 1" k] assms(3,4) by simp
  have "is_chain (T(cs ! (k - 1) := v)) (drop k cs)" by (rule is_chain_cong [OF is_chain_drop [OF fd(1) assms(4)]]) (use nd in auto)
  then show ?thesis using assms(2,4) set_drop_subset [of k cs] by (auto simp: file_chain_def)
qed

lemma cut_chain_spec:
  assumes o: "opened U dv g V cs s" and k: "k \<le> length cs" and c: "cut_chain s k = (Inr u, s1)"
  shows "\<exists>V'. opened U dv g V' (take k cs) s1 \<and> vsize s1 = vsize s \<and> only_fat g V V'"
proof -
  note od = openedD [OF o]
  note l = mountedD(4) [OF od(1)]
  let ?T = "tab g V 0"
  show ?thesis
  proof (cases "k = 0")
    case k0: True
    show ?thesis
    proof (cases "cs = []")
      case True
      then have "\<not> first_cluster (fn s) \<ge> 2" using od(3) by (simp add: node_chain_def)
      then have "s1 = s" using c k0 by (auto simp: cut_chain_def split: if_splits)
      then show ?thesis using o k0 True by (intro exI [of _ V]) simp
    next
      case False
      then have nc: "file_chain g ?T cs" "pos_ok (fn s) cs" using od(3) by (auto simp: node_chain_def)
      have fc: "first_cluster (fn s) = hd cs" "2 \<le> hd cs"
        using nc(2) file_chainD(4) [OF l nc(1), of "hd cs"] False by (auto simp: pos_ok_def)
      obtain q s2 where q: "free_chain s (hd cs) = (q, s2)" by force
      obtain qu where qu: "q = Inr qu" using c k0 fc q by (cases q) (auto simp: cut_chain_def)
      have s1: "s1 = s2\<lparr>fn := (fn s2)\<lparr>first_cluster := 0, last_index := 0, last_cluster := 0\<rparr>\<rparr>" using c k0 fc q qu by (simp add: cut_chain_def)
      obtain V' where V': "mounted U dv g V' s2" "vsize s2 = vsize s" "keeps g V V'" "shows_tab g V' (freed cs ?T)"
        using free_chain_spec [OF od(1) shows_tab_self nc(1) q] qu by auto
      have "mounted U dv g V' s1" using V'(1) s1 by (simp add: mounted_def)
      moreover have "only_fat g V V'" using V'(3) by (simp add: keeps_def)
      moreover have "node_chain g (freed cs ?T) (fn s1) []" using s1 by (simp add: node_chain_def)
      ultimately have "opened U dv g V' [] s1" using V'(4) by (intro opened_only_fat [OF o])
      then show ?thesis using k0 V'(2) s1 \<open>only_fat g V V'\<close> by (intro exI [of _ V']) simp
    qed
  next
    case kp: False
    have ne: "cs \<noteq> []" using k kp by auto
    have nc: "file_chain g ?T cs" "pos_ok (fn s) cs" using od(3) ne by (auto simp: node_chain_def)
    note fd = file_chainD [OF l nc(1)]
    have tl: "total_clusters g < 2 ^ 28" using layout_less [OF l] by simp
    have ku: "u32 k = k" "u32 (k - 1) = k - 1" using k fd(6) tl by (simp_all add: u32_def)
    obtain q s2 where q: "cluster_at s k = (q, s2)" by force
    show ?thesis
    proof (cases "k = length cs")
      case True
      note oe = opened_cluster_at_end [OF o ne q [unfolded True]]
      have "s1 = s2" using c kp ku q oe(3) by (auto simp: cut_chain_def split: if_splits)
      then show ?thesis using oe(1,2) True by (intro exI [of _ V]) simp
    next
      case False
      then have kl: "k < length cs" using k by simp
      note oc = opened_cluster_at [OF o kl q]
      have "q \<noteq> Inl ENXIO" using oc(4) by blast
      then obtain x where x: "q = Inr x" using c kp ku q by (cases q) (auto simp: cut_chain_def split: if_splits)
      then have xe: "x = cs ! k" using oc(3) by simp
      have xb: "2 \<le> x" "x < FAT_CLUSTER_EOC" using fd(4) [of x] xe kl by (auto simp: fat_values)
      obtain p s3 where p: "cluster_at s2 (k - 1) = (p, s3)" by force
      have k1: "k - 1 < length cs" using kl by simp
      note oc2 = opened_cluster_at [OF oc(1) k1 p]
      have cc: "cut_chain s k = bindE (p, s3) (\<lambda>keepc s2. bindE (write_entry s2 keepc FAT_CLUSTER_EOC) (\<lambda>_ s3.
            bindE (free_chain s3 (cs ! k)) (\<lambda>_ s4. (Inr (), s4\<lparr>fn := (fn s4)\<lparr>last_index := k - 1, last_cluster := keepc\<rparr>\<rparr>))))"
        using kp q x xe xb p unfolding cut_chain_def ku by simp
      obtain y where y: "p = Inr y" using c cc by (cases p) auto
      then have ye: "y = cs ! (k - 1)" using oc2(3) by simp
      obtain w s4 where w: "write_entry s3 y FAT_CLUSTER_EOC = (w, s4)" by force
      obtain wu where "w = Inr wu" using c cc y w by (cases w) auto
      then have w: "write_entry s3 y FAT_CLUSTER_EOC = (Inr (), s4)" using w by simp
      have eo: "FAT_CLUSTER_EOC mod 2 ^ 28 = FAT_CLUSTER_EOC" by (simp add: fat_values)
      let ?T1 = "?T(y := FAT_CLUSTER_EOC)"
      obtain V4 where V4: "mounted U dv g V4 s4" "keeps g V V4" "shows_tab g V4 ?T1" "dsk_only s3 s4"
        using write_entry_tab [OF openedD(1) [OF oc2(1)] shows_tab_self w, unfolded eo] by blast
      have hd: "hd (drop k cs) = cs ! k" using kl by (simp add: hd_drop_conv_nth)
      have fcd: "file_chain g ?T1 (drop k cs)" unfolding ye by (rule file_chain_drop_upd [OF l nc(1) _ kl]) (use kp in simp)
      obtain f s5 where f: "free_chain s4 (hd (drop k cs)) = (f, s5)" by force
      obtain fu where fu: "f = Inr fu" using c cc y w f hd by (cases f) auto
      obtain V5 where V5: "mounted U dv g V5 s5" "fn s5 = fn s4" "vsize s5 = vsize s4" "keeps g V4 V5" "shows_tab g V5 (freed (drop k cs) ?T1)"
        using free_chain_spec [OF V4(1,3) fcd f] fu by auto
      have s1: "s1 = s5\<lparr>fn := (fn s5)\<lparr>last_index := k - 1, last_cluster := y\<rparr>\<rparr>" using c cc y w f fu hd by simp
      let ?T2 = "freed (drop k cs) ?T1"
      have in1: "T2 (cs ! i) = ?T1 (cs ! i)" if "i < k" "T2 = ?T2" for i T2
      proof -
        have "cs ! i \<notin> set (drop k cs)" using nth_drop_distinct [OF fd(5) that(1)] kl by simp
        then show ?thesis using that(2) by (simp add: freed_def)
      qed
      have "is_chain ?T2 (take (Suc (k - 1)) cs)"
      proof (rule is_chain_take [OF fd(1) k1])
        show "?T2 (cs ! i) = ?T (cs ! i)" if "i < k - 1" for i
          using in1 [of i ?T2] that nth_eq_iff_index_eq [OF fd(5), of i "k - 1"] kl ye by simp
        show "?T2 (cs ! (k - 1)) \<ge> FAT_CLUSTER_EOC" using in1 [of "k - 1" ?T2] kp ye by simp
      qed
      moreover have "Suc (k - 1) = k" using kp by simp
      ultimately have ch: "file_chain g ?T2 (take k cs)" using nc(1) set_take_subset [of k cs] by (auto simp: file_chain_def)
      have "first_cluster (fn s5) = hd cs" using V5(2) dsk_onlyD(2) [OF V4(4)] openedD(3) [OF oc2(1)] ne by (simp add: node_chain_def pos_ok_def)
      then have "node_chain g ?T2 (fn s1) (take k cs)" using ch s1 ye kp ne kl by (simp add: node_chain_def pos_ok_def)
      moreover have of5: "only_fat g V V5" using V4(2) V5(4) only_fat_trans by (auto simp: keeps_def)
      moreover have "mounted U dv g V5 s1" using V5(1) s1 by (simp add: mounted_def)
      ultimately have "opened U dv g V5 (take k cs) s1" using V5(5) by (intro opened_only_fat [OF o])
      moreover have "vsize s1 = vsize s" using s1 V5(3) dsk_onlyD(3) [OF V4(4)] oc2(2) oc(2) by simp
      ultimately show ?thesis using of5 by blast
    qed
  qed
qed

lemma zero_cluster_spec:
  assumes o: "opened U dv g V cs s" and i: "i < length cs" "k \<le> cluster_size g" and z: "zero_cluster s i k = (r, s1)"
  shows "r = Inr u \<Longrightarrow> \<exists>V'. opened U dv g V' cs s1 \<and> vsize s1 = vsize s \<and>
      chain_bytes g V' cs = take (i * cluster_size g + k) (chain_bytes g V cs) @ replicate (cluster_size g - k) 0 @ drop (Suc i * cluster_size g) (chain_bytes g V cs)"
proof -
  obtain q s2 where q: "cluster_at s i = (q, s2)" by force
  note oc = opened_cluster_at [OF o i(1) q]
  assume ru: "r = Inr u"
  obtain c where c: "q = Inr c" using z q ru by (cases q) (auto simp: zero_cluster_def)
  then have "bindE (read_cluster s2 (cs ! i)) (\<lambda>x s2. write_cluster s2 (cs ! i) (zero_from k x)) = (Inr u, s1)"
    using z q ru oc(3) by (simp add: zero_cluster_def)
  from opened_zero_cluster [OF oc(1) i this] show "\<exists>V'. opened U dv g V' cs s1 \<and> vsize s1 = vsize s \<and>
      chain_bytes g V' cs = take (i * cluster_size g + k) (chain_bytes g V cs) @ replicate (cluster_size g - k) 0 @ drop (Suc i * cluster_size g) (chain_bytes g V cs)"
    unfolding oc(2) by blast
qed

text \<open>The errors of the cluster operations; none is \<open>ENXIO\<close>.\<close>

lemma fill_chunks_err: "fill_chunks s d lba bufs chunk don = (Inl e, s1) \<Longrightarrow> e \<in> io_errors"
proof (induction s d lba bufs chunk don rule: fill_chunks.induct)
  case (1 s d lba bufs chunk don)
  let ?n = "min (length bufs - don) chunk"
  obtain q s2 where q: "block_read s (Some d) (u64 (lba + don)) ?n = (q, s2)" by force
  show ?case
  proof (cases q)
    case (Inl a)
    then show ?thesis using "1.prems" q block_io_err(1) [OF q [unfolded Inl]] by (simp add: fill_chunks.simps [of s] Let_def split: if_splits)
  next
    case (Inr xs)
    show ?thesis using "1.prems" "1.IH" [OF _ refl q [symmetric] Inr] q Inr by (simp add: fill_chunks.simps [of s] Let_def split: if_splits)
  qed
qed

lemma fill_run_err: "fill_run s d lba bufs = (Inl e, s1) \<Longrightarrow> e \<in> io_errors"
  using fill_chunks_err by (auto simp: fill_run_def io_errors_def split: prod.splits bool.splits)

lemma fill_pieces_err: "fill_pieces s d lba run = (Inl e, s1) \<Longrightarrow> e \<in> io_errors"
proof (induction s d lba run rule: fill_pieces.induct)
  case (1 s d lba run)
  obtain q s2 where q: "fill_run s d lba (take (min (length run) MAX_RANGE_CHUNK) run) = (q, s2)" by force
  show ?case
  proof (cases q)
    case (Inl a)
    then show ?thesis using "1.prems" q fill_run_err [OF q [unfolded Inl]] by (simp add: fill_pieces.simps [of s] Let_def split: if_splits)
  next
    case (Inr xs)
    show ?thesis using "1.prems" "1.IH" [OF _ refl q [symmetric] Inr] q Inr by (simp add: fill_pieces.simps [of s] Let_def split: if_splits)
  qed
qed

lemma fill_misses_err: "fill_misses s d lba out = (Inl e, s1) \<Longrightarrow> e \<in> io_errors"
  by (induction s d lba out rule: fill_misses.induct)
    (auto simp: Let_def split: prod.splits sum.splits dest: fill_pieces_err)

lemma lock_range_err: "lock_range n s d lba out = (Inl e, s1) \<Longrightarrow> e \<in> io_errors"
proof (induction n arbitrary: s lba out)
  case (Suc n)
  have "EBUSY \<in> io_errors" by (simp add: io_errors_def)
  then show ?case using Suc.prems Suc.IH writeback_err
    by (auto split: option.splits prod.splits sum.splits if_splits)
qed simp

lemma get_range_err: "get_range s (Some d) lba n = (Inl e, s1) \<Longrightarrow> inited s \<Longrightarrow> e \<in> io_errors"
proof -
  assume a: "get_range s (Some d) lba n = (Inl e, s1)" "inited s"
  have "EINVAL \<in> io_errors" "ENOMEM \<in> io_errors" by (simp_all add: io_errors_def)
  then show ?thesis using a lock_range_err fill_misses_err
    by (auto simp: get_range_def split: if_splits prod.splits sum.splits bool.splits)
qed

lemma cluster_io_err:
  assumes "inited (dsk s)"
  shows "read_cluster s c = (Inl e, s1) \<Longrightarrow> e \<in> io_errors" "write_cluster s c x = (Inl e, s1) \<Longrightarrow> e \<in> io_errors"
proof -
  have i: "EINVAL \<in> io_errors" "ENOMEM \<in> io_errors" by (simp_all add: io_errors_def)
  obtain a d1 where k: "kmalloc_ok (dsk s) = (a, d1)" by force
  have "inited d1" using kmalloc_ok_frame [OF k] assms by simp
  note ge = get_range_err [OF _ this]
  show "read_cluster s c = (Inl e, s1) \<Longrightarrow> e \<in> io_errors"
    using i k ge by (auto simp: read_cluster_def Let_def split: if_splits prod.splits sum.splits bool.splits)
  show "write_cluster s c x = (Inl e, s1) \<Longrightarrow> e \<in> io_errors"
    using i k ge by (auto simp: write_cluster_def Let_def split: if_splits prod.splits sum.splits bool.splits)
qed

lemma zero_cluster_err:
  assumes o: "opened U dv g V cs s" and i: "i < length cs" and z: "zero_cluster s i k = (Inl e, s1)"
  shows "e \<noteq> ENXIO"
proof -
  obtain q s2 where q: "cluster_at s i = (q, s2)" by force
  note oc = opened_cluster_at [OF o i q]
  have ne: "ENXIO \<notin> io_errors" by (simp add: io_errors_def)
  show ?thesis
  proof (cases q)
    case (Inl a)
    then show ?thesis using z q oc(4) by (simp add: zero_cluster_def)
  next
    case (Inr c)
    note m2 = openedD(1) [OF oc(1)]
    obtain p s3 where p: "read_cluster s2 c = (p, s3)" by force
    show ?thesis
    proof (cases p)
      case (Inl a)
      then show ?thesis using z q Inr p cluster_io_err(1) [OF mountedD(2) [OF m2] p [unfolded Inl]] ne by (auto simp: zero_cluster_def)
    next
      case x: (Inr x)
      note m3 = read_cluster_spec(1) [OF m2 p [unfolded x]]
      have "write_cluster s3 c (zero_from k x) = (Inl e, s1)" using z q Inr p x by (simp add: zero_cluster_def)
      from cluster_io_err(2) [OF mountedD(2) [OF m3] this] ne show ?thesis by auto
    qed
  qed
qed

lemma chain_bytes_take:
  assumes "opened U dv g V cs s" "n \<le> k * cluster_size g"
  shows "take n (chain_bytes g V (take k cs)) = take n (chain_bytes g V cs)"
proof -
  have "chain_bytes g V (take k cs) = take (k * cluster_size g) (chain_bytes g V cs)"
    using openedD(11) [OF assms(1)] take_concat [of "map (cdata g V) cs" "cluster_size g" k] by (simp add: chain_bytes_def take_map)
  then show ?thesis using assms(2) by (simp add: min_def)
qed

lemma truncate_down:
  assumes o: "opened U dv g V cs s" and sz: "sized g cs (vsize s)" and n: "n < vsize s" and w: "fat_truncate s n = (Inr u, s1)"
  shows "\<exists>V' cs'. opened U dv g V' cs' s1 \<and> sized g cs' n \<and> vsize s1 = n \<and> file_bytes g V' cs' n = take n (file_bytes g V cs (vsize s))"
proof -
  note od = openedD [OF o]
  let ?z = "cluster_size g" and ?k = "(n + cluster_size g - 1) div cluster_size g"
  have lim: "vsize s < 2 ^ 32" using sz by (simp add: sized_def)
  have keep: "(if n \<noteq> 0 then clusters_of s n else 0) = ?k" using clusters_of_eq [OF o, of n] n lim od(9) by auto
  have kl: "?k \<le> length cs" using sz n unfolding sized_def by (auto intro: div_le_mono)
  obtain q s2 where q: "cut_chain s ?k = (q, s2)" by force
  have n32: "\<not> n > 0xFFFFFFFF" "n \<noteq> vsize s" "\<not> n > vsize s" using n lim by auto
  have eq: "fat_truncate s n = bindE (q, s2) (\<lambda>_ s1.
      bindE (if ?k > 0 \<and> n mod ?z \<noteq> 0 then zero_cluster s1 (u32 (?k - 1)) (u32 (n mod ?z)) else (Inr (), s1)) (\<lambda>_ s2. (Inr (), touch (s2\<lparr>vsize := n\<rparr>))))"
    unfolding fat_truncate_def Let_def keep q od(8) using n32 by simp
  obtain qu where qu: "q = Inr qu" using w eq by (cases q) auto
  obtain V2 where V2: "opened U dv g V2 (take ?k cs) s2" "vsize s2 = vsize s" "only_fat g V V2"
    using cut_chain_spec [OF o kl q [unfolded qu]] by blast
  have cb: "chain_bytes g V2 cs = chain_bytes g V cs" by (rule chain_bytes_keeps(1) [OF V2(3) mountedD(4) [OF od(1)]])
  have szk: "sized g (take ?k cs) n" using kl n lim by (simp add: sized_def min_def)
  have nk: "n \<le> ?k * ?z" using sized_le(1) [OF szk od(9)] kl by simp
  have old: "take n (chain_bytes g V2 (take ?k cs)) = take n (file_bytes g V cs (vsize s))"
  proof -
    have "chain_bytes g V2 (take ?k cs) = chain_bytes g V (take ?k cs)" by (rule chain_bytes_keeps(1) [OF V2(3) mountedD(4) [OF od(1)]])
    then show ?thesis using chain_bytes_take [OF o nk] n by (simp add: file_bytes_def min_def)
  qed
  show ?thesis
  proof (cases "?k > 0 \<and> n mod ?z \<noteq> 0")
    case False
    then have s1: "s1 = touch (s2\<lparr>vsize := n\<rparr>)" using w eq qu by (simp add: if_not_P)
    have "opened U dv g V2 (take ?k cs) s1" using V2(1) s1 by (simp add: opened_touch)
    moreover have "vsize s1 = n" using s1 by (simp add: touch_def)
    moreover have "file_bytes g V2 (take ?k cs) n = take n (file_bytes g V cs (vsize s))" using old by (simp add: file_bytes_def)
    ultimately show ?thesis using szk by blast
  next
    case True
    have tl: "total_clusters g < 2 ^ 28" using layout_less [OF mountedD(4) [OF od(1)]] by simp
    have ku: "u32 (?k - 1) = ?k - 1" using kl od(7) tl by (simp add: u32_def)
    have rz: "n mod ?z < ?z" using od(9) by simp
    then have ru: "u32 (n mod ?z) = n mod ?z" using od(10) by (simp add: u32_def)
    obtain p s3 where p: "zero_cluster s2 (?k - 1) (n mod ?z) = (p, s3)" by force
    have eq2: "fat_truncate s n = bindE (p, s3) (\<lambda>_ s2. (Inr (), touch (s2\<lparr>vsize := n\<rparr>)))"
      unfolding eq qu if_P [OF True] ku ru using p by simp
    obtain pu where pu: "p = Inr pu" using w eq2 by (cases p) auto
    have i: "?k - 1 < length (take ?k cs)" using True kl by simp
    obtain V3 where V3: "opened U dv g V3 (take ?k cs) s3"
      "chain_bytes g V3 (take ?k cs) = take ((?k - 1) * ?z + n mod ?z) (chain_bytes g V2 (take ?k cs)) @ replicate (?z - n mod ?z) 0 @ drop (Suc (?k - 1) * ?z) (chain_bytes g V2 (take ?k cs))"
      using zero_cluster_spec [OF V2(1) i _ p pu] rz by auto
    have "n > 0" using True by (cases n) auto
    then have k1: "(n - 1) div ?z = ?k - 1" using sized_le(2) [OF szk od(9)] kl by simp
    have "(n - 1) div ?z = n div ?z" using True od(9) \<open>n > 0\<close> by (metis Suc_diff_1 Suc_eq_plus1 add.commute div_Suc plus_1_eq_Suc)
    then have pos: "(?k - 1) * ?z + n mod ?z = n" using k1 by (metis div_mult_mod_eq)
    have len: "n \<le> length (chain_bytes g V2 (take ?k cs))" using openedD(5) [OF V2(1)] nk kl by simp
    have "take n (chain_bytes g V3 (take ?k cs)) = take n (chain_bytes g V2 (take ?k cs))" unfolding V3(2) pos using len by simp
    then have fb: "file_bytes g V3 (take ?k cs) n = take n (file_bytes g V cs (vsize s))" using old by (simp add: file_bytes_def)
    have s1: "s1 = touch (s3\<lparr>vsize := n\<rparr>)" using w eq2 pu by simp
    have "opened U dv g V3 (take ?k cs) s1" using V3(1) s1 by (simp add: opened_touch)
    moreover have "vsize s1 = n" using s1 by (simp add: touch_def)
    ultimately show ?thesis using szk fb by blast
  qed
qed

lemma truncate_up:
  assumes o: "opened U dv g V cs s" and sz: "sized g cs (vsize s)" and n: "n > vsize s" and w: "fat_truncate s n = (Inr u, s1)"
  shows "\<exists>V' cs'. opened U dv g V' cs' s1 \<and> sized g cs' n \<and> vsize s1 = n \<and>
    file_bytes g V' cs' n = file_bytes g V cs (vsize s) @ replicate (n - vsize s) 0"
proof -
  note od = openedD [OF o]
  let ?z = "cluster_size g" and ?v = "vsize s"
  have lim: "n < 2 ^ 32" using w by (auto simp: fat_truncate_def Let_def split: if_splits)
  obtain q s2 where q: "extend_to s n = (q, s2)" by force
  have n32: "\<not> n > 0xFFFFFFFF" "n \<noteq> ?v" using n lim by auto
  obtain qu where qu: "q = Inr qu" using w n32 n q by (cases q) (auto simp: fat_truncate_def Let_def)
  obtain V2 ds where V2: "opened U dv g V2 (cs @ ds) s2" "vsize s2 = ?v" "sized g (cs @ ds) n"
    "chain_bytes g V2 (cs @ ds) = file_bytes g V cs ?v @ replicate (length (cs @ ds) * ?z - ?v) 0"
    using extend_to_spec [OF o sz lim q [unfolded qu]] n by auto
  have vF: "?v \<le> length cs * ?z" by (rule sized_le(1) [OF sz od(9)])
  then have lF: "length (file_bytes g V cs ?v) = ?v" using od(5) by (simp add: file_bytes_def)
  have nF: "n \<le> length (cs @ ds) * ?z" by (rule sized_le(1) [OF V2(3) od(9)])
  have done2: "take n (chain_bytes g V2 (cs @ ds)) = file_bytes g V cs ?v @ replicate (n - ?v) 0"
    unfolding V2(4) using lF n nF by (simp add: min_def)
  have rz: "?v mod ?z < ?z" using od(9) by simp
  then have ru: "u32 (?v mod ?z) = ?v mod ?z" using od(10) by (simp add: u32_def)
  have eq: "fat_truncate s n = bindE (if ?v > 0 \<and> ?v mod ?z \<noteq> 0
      then case zero_cluster s2 (u32 ((?v - 1) div ?z)) (?v mod ?z) of (Inl ENXIO, s2) \<Rightarrow> (Inr (), s2) | p \<Rightarrow> p
      else (Inr (), s2)) (\<lambda>_ s2. (Inr (), touch (s2\<lparr>vsize := n\<rparr>)))"
    using n32 n q qu unfolding fat_truncate_def Let_def od(8) by (simp add: V2(2) ru)
  show ?thesis
  proof (cases "?v > 0 \<and> ?v mod ?z \<noteq> 0")
    case False
    then have s1: "s1 = touch (s2\<lparr>vsize := n\<rparr>)" using w eq by (simp add: if_not_P)
    have "opened U dv g V2 (cs @ ds) s1" using V2(1) s1 by (simp add: opened_touch)
    moreover have "vsize s1 = n" using s1 by (simp add: touch_def)
    ultimately show ?thesis using V2(3) done2 by (intro exI [of _ V2] exI [of _ "cs @ ds"]) (simp add: file_bytes_def)
  next
    case True
    let ?i = "length cs - 1"
    have ne: "cs \<noteq> []" and i1: "(?v - 1) div ?z = ?i" using sized_le(2) [OF sz od(9)] True by auto
    have tl: "total_clusters g < 2 ^ 28" using layout_less [OF mountedD(4) [OF od(1)]] by simp
    have iu: "u32 ?i = ?i" using od(7) tl by (simp add: u32_def)
    have il: "?i < length (cs @ ds)" using ne by (cases cs) auto
    obtain p s3 where p: "zero_cluster s2 ?i (?v mod ?z) = (p, s3)" by force
    have "p \<noteq> Inl ENXIO" using zero_cluster_err [OF V2(1) il] p by blast
    then have "(case (p, s3) of (Inl ENXIO, s2) \<Rightarrow> (Inr (), s2) | p \<Rightarrow> p) = (p, s3)" by (auto split: sum.splits errno.splits)
    then have eq2: "fat_truncate s n = bindE (p, s3) (\<lambda>_ s2. (Inr (), touch (s2\<lparr>vsize := n\<rparr>)))"
      unfolding eq if_P [OF True] i1 iu p by simp
    obtain pu where pu: "p = Inr pu" using w eq2 by (cases p) auto
    let ?B = "chain_bytes g V2 (cs @ ds)"
    obtain V3 where V3: "opened U dv g V3 (cs @ ds) s3"
      "chain_bytes g V3 (cs @ ds) = take (?i * ?z + ?v mod ?z) ?B @ replicate (?z - ?v mod ?z) 0 @ drop (Suc ?i * ?z) ?B"
      using zero_cluster_spec [OF V2(1) il _ p pu] rz by auto
    have "(?v - 1) div ?z = ?v div ?z" using True od(9) by (metis Suc_diff_1 Suc_eq_plus1 add.commute div_Suc plus_1_eq_Suc)
    then have pos: "?i * ?z + ?v mod ?z = ?v" using i1 by (metis div_mult_mod_eq)
    have "Suc ?i = length cs" using ne by (cases cs) auto
    then have si: "Suc ?i * ?z = length cs * ?z" by (simp only:)
    have gap: "length cs * ?z - ?v = ?z - ?v mod ?z" using pos si by (metis add_diff_cancel_left diff_diff_eq mult_Suc add.commute)
    have "chain_bytes g V3 (cs @ ds) = ?B"
    proof -
      have t: "take ?v ?B = file_bytes g V cs ?v" unfolding V2(4) using lF by simp
      have d: "drop (length cs * ?z) ?B = replicate (length (cs @ ds) * ?z - length cs * ?z) 0" unfolding V2(4) using lF vF by simp
      have l: "?z - ?v mod ?z + (length (cs @ ds) * ?z - length cs * ?z) = length (cs @ ds) * ?z - ?v"
        unfolding gap [symmetric] using vF by (simp add: add_mult_distrib)
      show ?thesis unfolding V3(2) pos si t d replicate_add [symmetric] l unfolding V2(4) ..
    qed
    then have fb: "file_bytes g V3 (cs @ ds) n = file_bytes g V cs ?v @ replicate (n - ?v) 0" using done2 by (simp add: file_bytes_def)
    have s1: "s1 = touch (s3\<lparr>vsize := n\<rparr>)" using w eq2 pu by simp
    have "opened U dv g V3 (cs @ ds) s1" using V3(1) s1 by (simp add: opened_touch)
    moreover have "vsize s1 = n" using s1 by (simp add: touch_def)
    ultimately show ?thesis using V2(3) fb by blast
  qed
qed

end
