(* ===== verification/Fatlive.thy ===== *)
theory Fatlive
  imports Fatfile
begin

text \<open>
  On a healthy disk the operations of the file layer succeed: a read always, a write and an extension
  whenever the volume has as many free clusters as the file needs. With the lemmas of \<open>Fatfile\<close> this
  gives the behaviour of \<open>fat_vn_read\<close>, \<open>fat_vn_write\<close> and \<open>fat_vn_truncate\<close> on the bytes of a file.
\<close>

section \<open>Clusters\<close>

lemma sectors_healthy:
  "sectors_out d bps rng = (x, d1) \<Longrightarrow> healthy U d1 = healthy U d"
  "healthy U (sectors_in d bps src rng) = healthy U d"
  by (induction rng arbitrary: d x d1 src) (auto split: prod.splits)

lemma cluster_range_succeeds:
  assumes m: "mounted U dv g V s" and h: "healthy U (dsk s)" and c: "c \<in> clusters g"
  shows "kmalloc_ok (dsk s) = (True, dsk s)"
    "\<exists>rng d. get_range (dsk s) (Some (sb_dev (sb s))) (cluster_lba (sb s) c) (sectors_per_cluster (sb s)) = (Inr rng, d) \<and> healthy U d"
    "\<not> (c < 2 \<or> c > u32 (total_clusters (sb s) + 1))"
proof -
  note d = mountedD [OF m] and ge = geo_eqD [OF mountedD(5) [OF m]] and l = mountedD(4) [OF m]
  note cl = clba_eq [OF l c d(5)]
  show "kmalloc_ok (dsk s) = (True, dsk s)" using healthyD(5) [OF h] by (simp add: kmalloc_ok_def)
  have "clba g c + sectors_per_cluster g \<le> sector_count (dev_at (dsk s) (sb_dev g))" using cl(3) at_restD(3) [OF d(1,3)] by simp
  moreover have "sectors_per_cluster g \<le> 128" using l by (simp add: layout_def)
  ultimately show "\<exists>rng d. get_range (dsk s) (Some (sb_dev (sb s))) (cluster_lba (sb s) c) (sectors_per_cluster (sb s)) = (Inr rng, d) \<and> healthy U d"
    using get_range_succeeds [OF d(1,3) h] ge cl(1) by simp
  show "\<not> (c < 2 \<or> c > u32 (total_clusters (sb s) + 1))" using c max_cluster [OF l] ge by auto
qed

lemma read_cluster_succeeds:
  assumes "mounted U dv g V s" "healthy U (dsk s)" "c \<in> clusters g"
  shows "\<exists>x s1. read_cluster s c = (Inr x, s1) \<and> healthy U (dsk s1)"
proof -
  note cr = cluster_range_succeeds [OF assms]
  obtain rng d where r: "get_range (dsk s) (Some (sb_dev (sb s))) (cluster_lba (sb s) c) (sectors_per_cluster (sb s)) = (Inr rng, d)" "healthy U d"
    using cr(2) by blast
  obtain x d1 where x: "sectors_out d (bytes_per_sector (sb s)) rng = (x, d1)" by force
  show ?thesis using cr(1,3) r x sectors_healthy(1) [OF x, of U] by (simp add: read_cluster_def Let_def)
qed

lemma write_cluster_succeeds:
  assumes "mounted U dv g V s" "healthy U (dsk s)" "c \<in> clusters g"
  shows "\<exists>s1. write_cluster s c x = (Inr (), s1) \<and> healthy U (dsk s1)"
proof -
  note cr = cluster_range_succeeds [OF assms]
  obtain rng d where r: "get_range (dsk s) (Some (sb_dev (sb s))) (cluster_lba (sb s) c) (sectors_per_cluster (sb s)) = (Inr rng, d)" "healthy U d"
    using cr(2) by blast
  show ?thesis using cr(1,3) r by (simp add: write_cluster_def Let_def sectors_healthy(2))
qed

text \<open>Both on a cluster of an open file.\<close>

lemma opened_cluster_at_succeeds:
  assumes o: "opened U dv g V cs s" and h: "healthy U (dsk s)" and i: "i < length cs"
  shows "\<exists>s1. cluster_at s i = (Inr (cs ! i), s1) \<and> healthy U (dsk s1) \<and> opened U dv g V cs s1 \<and> vsize s1 = vsize s \<and> cs ! i \<in> clusters g"
proof -
  note od = openedD [OF o]
  have nc: "file_chain g (tab g V 0) cs" "pos_ok (fn s) cs" using od(3) i by (auto simp: node_chain_def split: if_splits)
  obtain s1 where s1: "cluster_at s i = (Inr (cs ! i), s1)" "healthy U (dsk s1)"
    using cluster_at_succeeds [OF od(1) h shows_tab_self nc i] by blast
  have "cs ! i \<in> set cs" using i by simp
  then show ?thesis using s1 opened_cluster_at(1,2) [OF o i s1(1)] od(4) by blast
qed

lemma opened_read_succeeds:
  assumes o: "opened U dv g V cs s" and h: "healthy U (dsk s)" and c: "c \<in> clusters g"
  shows "\<exists>x s1. read_cluster s c = (Inr x, s1) \<and> healthy U (dsk s1) \<and> opened U dv g V cs s1 \<and> vsize s1 = vsize s \<and> length x = cluster_size g"
proof -
  obtain x s1 where x: "read_cluster s c = (Inr x, s1)" "healthy U (dsk s1)"
    using read_cluster_succeeds [OF openedD(1) [OF o] h c] by blast
  note rc = read_cluster_spec [OF openedD(1) [OF o] x(1)]
  show ?thesis using x opened_dsk_only [OF o rc(2,1)] dsk_onlyD(3) [OF rc(2)] rc(5) by blast
qed

lemma opened_write_succeeds:
  assumes o: "opened U dv g V cs s" and h: "healthy U (dsk s)" and i: "i < length cs" and x: "length x = cluster_size g"
  shows "\<exists>s1 V'. write_cluster s (cs ! i) x = (Inr (), s1) \<and> healthy U (dsk s1) \<and> opened U dv g V' cs s1 \<and> vsize s1 = vsize s \<and>
    free_clusters g (tab g V' 0) = free_clusters g (tab g V 0)"
proof -
  have "cs ! i \<in> set cs" using i by simp
  then have "cs ! i \<in> clusters g" using openedD(4) [OF o] by blast
  then obtain s1 where s1: "write_cluster s (cs ! i) x = (Inr (), s1)" "healthy U (dsk s1)"
    using write_cluster_succeeds [OF openedD(1) [OF o] h] by blast
  show ?thesis using s1 opened_write_cluster [OF o i x s1(1)] dsk_onlyD(3) by blast
qed

section \<open>Reading\<close>

lemma file_pos:
  assumes o: "opened U dv g V cs s" and off: "off < length cs * cluster_size g"
  shows "off div cluster_size g < length cs" "u32 (off div cluster_size g) = off div cluster_size g"
    "u32 (off mod cluster_size g) = off mod cluster_size g" "off mod cluster_size g < cluster_size g"
proof -
  note od = openedD [OF o]
  show i: "off div cluster_size g < length cs" using off by (simp add: less_mult_imp_div_less)
  have "total_clusters g < 2 ^ 28" using layout_less [OF mountedD(4) [OF od(1)]] by simp
  then show "u32 (off div cluster_size g) = off div cluster_size g" using i od(7) by (simp add: u32_def)
  show r: "off mod cluster_size g < cluster_size g" using od(9) by simp
  then show "u32 (off mod cluster_size g) = off mod cluster_size g" using od(10) by (simp add: u32_def)
qed

lemma read_loop_succeeds:
  assumes "opened U dv g V cs s" "healthy U (dsk s)" "off + len \<le> length cs * cluster_size g"
  shows "\<exists>out s1. read_loop s off len acc = (Inr (), out, s1) \<and> healthy U (dsk s1)"
  using assms
proof (induction len arbitrary: s off acc rule: less_induct)
  case (less len)
  note od = openedD [OF less.prems(1)]
  let ?n = "cluster_size g"
  show ?case
  proof (cases "len = 0")
    case True
    then show ?thesis using less.prems(2) by (simp add: read_loop.simps [of s])
  next
    case False
    then have "off < length cs * ?n" using less.prems(3) by linarith
    note fp = file_pos [OF less.prems(1) this]
    let ?chunk = "min (?n - off mod ?n) len"
    obtain s2 where s2: "cluster_at s (off div ?n) = (Inr (cs ! (off div ?n)), s2)" "healthy U (dsk s2)" "opened U dv g V cs s2" "cs ! (off div ?n) \<in> clusters g"
      using opened_cluster_at_succeeds [OF less.prems(1,2) fp(1)] by blast
    obtain x s3 where s3: "read_cluster s2 (cs ! (off div ?n)) = (Inr x, s3)" "healthy U (dsk s3)" "opened U dv g V cs s3"
      using opened_read_succeeds [OF s2(3,2,4)] by blast
    have "read_loop s off len acc = read_loop s3 (off + ?chunk) (len - ?chunk) (acc @ take ?chunk (drop (off mod ?n) x))"
      using False od(8,9) s2(1) s3(1) fp by (simp add: read_loop.simps [of s] Let_def)
    moreover have "len - ?chunk < len" using False fp(4) by linarith
    ultimately show ?thesis using less.IH [OF _ s3(3,2), of "len - ?chunk" "off + ?chunk"] less.prems(3) by simp
  qed
qed

lemma read_at_succeeds:
  assumes o: "opened U dv g V cs s" and h: "healthy U (dsk s)" and sz: "sized g cs (vsize s)" and off: "off + len < 2 ^ 64"
  shows "\<exists>out s1. read_at s off len = (Inr (), out, s1) \<and> healthy U (dsk s1)"
proof (cases "len = 0 \<or> off \<ge> vsize s")
  case True
  then show ?thesis using h by (auto simp: read_at_def)
next
  case False
  have v: "vsize s \<le> length cs * cluster_size g" by (rule sized_le(1) [OF sz openedD(9) [OF o]])
  have "u64 (off + len) = off + len" using off by (simp add: u64_def)
  then have "off + (if u64 (off + len) > vsize s then vsize s - off else len) \<le> length cs * cluster_size g" using v False by auto
  then show ?thesis using read_loop_succeeds [OF o h] False by (simp add: read_at_def)
qed

section \<open>Growing\<close>

lemma find_end_succeeds:
  assumes "mounted U dv g V s" "healthy U (dsk s)" "shows_tab g V T" "file_chain g T cs" "i < length cs" "length cs \<le> n + i + 1"
  shows "\<exists>p s1. find_end n s (cs ! i) i = (Inr p, s1) \<and> healthy U (dsk s1)"
  using assms
proof (induction n arbitrary: s i)
  case (0 s i)
  note l = mountedD(4) [OF 0(1)]
  note fc = file_chainD [OF l 0(4)]
  have i: "i = length cs - 1" using 0(5,6) by linarith
  then have i: "cs ! i = last cs" using fc(2) by (simp add: last_conv_nth)
  have "cs ! i \<in> clusters g" using fc(3) 0(5) by (simp only: nth_mem)
  then obtain s1 where "read_entry s (cs ! i) = (Inr (T (cs ! i)), s1)" "healthy U (dsk s1)"
    using read_entry_succeeds [OF 0(1,2), of "cs ! i"] 0(3) by (auto simp: shows_tab_def)
  then show ?case using is_chain_last [OF fc(1)] i by (simp add: find_end.simps [of 0 s])
next
  case (Suc n)
  note l = mountedD(4) [OF Suc.prems(1)]
  note fc = file_chainD [OF l Suc.prems(4)]
  have "cs ! i \<in> clusters g" using fc(3) Suc.prems(5) by (simp only: nth_mem)
  then obtain s2 where r: "read_entry s (cs ! i) = (Inr (T (cs ! i)), s2)" "healthy U (dsk s2)"
    using read_entry_succeeds [OF Suc.prems(1,2), of "cs ! i"] Suc.prems(3) by (auto simp: shows_tab_def)
  note m2 = read_entry_spec(1) [OF Suc.prems(1) r(1)]
  show ?case
  proof (cases "Suc i < length cs")
    case True
    then have vn: "T (cs ! i) = cs ! Suc i" using is_chain_nth [OF fc(1)] by simp
    then have v: "2 \<le> T (cs ! i)" "T (cs ! i) < FAT_CLUSTER_EOC" using fc(4) [of "T (cs ! i)"] True by (auto simp: fat_values)
    have "total_clusters g < 2 ^ 28" using layout_less [OF l] by simp
    then have iu: "u32 (i + 1) = Suc i" using Suc.prems(5) fc(6) by (simp add: u32_def)
    have "find_end (Suc n) s (cs ! i) i = find_end n s2 (cs ! Suc i) (Suc i)" using r v vn iu by (simp add: find_end.simps [of "Suc n" s])
    then show ?thesis using Suc.IH [OF m2 r(2) Suc.prems(3,4) True] Suc.prems(6) by simp
  next
    case False
    then have "i = length cs - 1" using Suc.prems(5) by linarith
    then have "cs ! i = last cs" using fc(2) by (simp add: last_conv_nth)
    then show ?thesis using r is_chain_last [OF fc(1)] by (simp add: find_end.simps [of "Suc n" s])
  qed
qed

lemma chain_append_succeeds:
  assumes m: "mounted U dv g V s" and h: "healthy U (dsk s)" and T: "shows_tab g V T" and nc: "node_chain g T (fn s) cs"
  shows "\<exists>s1. chain_append s newc = (Inr (), s1) \<and> healthy U (dsk s1)"
proof (cases "cs = []")
  case True
  then show ?thesis using nc h by (auto simp: node_chain_def chain_append_def Let_def)
next
  case False
  note l = mountedD(4) [OF m] and ge = geo_eqD [OF mountedD(5) [OF m]]
  have fch: "file_chain g T cs" "pos_ok (fn s) cs" using nc False by (auto simp: node_chain_def)
  note fc = file_chainD [OF l fch(1)]
  define i where "i = (if last_cluster (fn s) < 2 then 0 else last_index (fn s))"
  have i: "i < length cs" "(if last_cluster (fn s) \<ge> 2 then last_cluster (fn s) else first_cluster (fn s)) = cs ! i"
    using fch(2) fc(2) by (auto simp: i_def pos_ok_def hd_conv_nth)
  have f2: "\<not> first_cluster (fn s) < 2" using fch(2) fc(2) fc(4) [of "hd cs"] by (auto simp: pos_ok_def)
  have len: "length cs \<le> total_clusters g + 2 + i + 1" using fc(6) by simp
  obtain p s2 where q: "find_end (total_clusters g + 2) s (cs ! i) i = (Inr p, s2)" "healthy U (dsk s2)"
    using find_end_succeeds [OF m h T fch(1) i(1) len] by blast
  have fe: "mounted U dv g V s2" "fst p = last cs" using find_end_spec [OF m T fch(1) i(1) len q(1)] by (auto split: prod.splits)
  have "last cs \<in> clusters g" using fc(3) False by simp
  then have "1 \<le> last cs" "last cs \<le> total_clusters g + 1" by auto
  then obtain s3 where "write_entry s2 (last cs) newc = (Inr (), s3)" "healthy U (dsk s3)"
    using write_entry_succeeds [OF fe(1) q(2)] by blast
  then show ?thesis
    using f2 q(1) fe(2) unfolding chain_append_def Let_def i(2) i_def [symmetric] ge max_cluster [OF l] by (cases p) simp
qed

text \<open>One round of \<open>grow_chain\<close> while a cluster is free.\<close>

lemma grow_chain_round:
  assumes o: "opened U dv g V cs s" and h: "healthy U (dsk s)" and F: "free_clusters g (tab g V 0) \<noteq> {}"
  obtains c s4 V4 where "\<And>n. grow_chain (Suc n) s = grow_chain n s4" "healthy U (dsk s4)" "opened U dv g V4 (cs @ [c]) s4" "vsize s4 = vsize s"
    "chain_bytes g V4 (cs @ [c]) = chain_bytes g V cs @ replicate (cluster_size g) 0"
    "card (free_clusters g (tab g V 0)) = Suc (card (free_clusters g (tab g V4 0)))"
proof -
  note od = openedD [OF o]
  let ?F = "free_clusters g (tab g V 0)" and ?z = "replicate (cluster_size g) 0 :: byte list"
  have fin: "finite ?F" by (simp add: free_clusters_def)
  obtain q s2 where q: "alloc_cluster s = (q, s2)" by force
  have "q \<noteq> Inl ENOSPC" using alloc_cluster_spec(2) [OF od(1) shows_tab_self q] F by blast
  then obtain c where c: "q = Inr c" "healthy U (dsk s2)" using alloc_cluster_succeeds [OF od(1) h q] by blast
  note ac = alloc_cluster_spec(1) [OF od(1) shows_tab_self q c(1)]
  let ?T = "(tab g V 0)(c := FAT_CLUSTER_EOC)"
  obtain V2 where V2: "mounted U dv g V2 s2" "shows_tab g V2 ?T" using ac by blast
  have cc: "c \<in> clusters g" using ac by (simp add: free_clusters_def)
  have nin: "c \<notin> set cs" using fresh_cluster [OF od(3) mountedD(4) [OF od(1)]] ac by blast
  have csz: "cluster_size (sb s2) = cluster_size g" using geo_eqD(4) [OF mountedD(5) [OF V2(1)]] .
  obtain s3 where w: "write_cluster s2 c ?z = (Inr (), s3)" "healthy U (dsk s3)" using write_cluster_succeeds [OF V2(1) c(2) cc] by blast
  note ws = write_cluster_spec [OF V2(1) _ w(1), simplified]
  have T3: "shows_tab g (put_cluster g c ?z V2) ?T" by (rule shows_tab_put_cluster [OF mountedD(4) [OF od(1)] cc V2(2)])
  have "fn s3 = fn s" using ac dsk_onlyD(2) [OF ws(2)] by simp
  moreover have "node_chain g ?T (fn s) cs" by (rule node_chain_cong [OF od(3)]) (use nin in auto)
  ultimately have "node_chain g ?T (fn s3) cs" by simp
  then obtain s4 where p: "chain_append s3 c = (Inr (), s4)" "healthy U (dsk s4)" using chain_append_succeeds [OF ws(1) w(2) T3] by blast
  obtain V4 where V4: "opened U dv g V4 (cs @ [c]) s4" "vsize s4 = vsize s" "chain_bytes g V4 (cs @ [c]) = chain_bytes g V cs @ ?z"
      "c \<in> ?F" "free_clusters g (tab g V4 0) = ?F - {c}"
    using grow_chain_step [OF o q [unfolded c(1)] w(1) p(1)] by blast
  have "card ?F = Suc (card (free_clusters g (tab g V4 0)))" unfolding V4(5) using card_Suc_Diff1 [OF fin V4(4)] by simp
  moreover have "grow_chain (Suc n) s = grow_chain n s4" for n using q c(1) w(1) csz p(1) by simp
  ultimately show thesis using that p(2) V4(1-3) by blast
qed

lemma grow_chain_succeeds:
  assumes "opened U dv g V cs s" "healthy U (dsk s)" "n \<le> card (free_clusters g (tab g V 0))"
  shows "\<exists>s1. grow_chain n s = (Inr (), s1) \<and> healthy U (dsk s1)"
  using assms
proof (induction n arbitrary: V cs s)
  case (Suc n)
  have "free_clusters g (tab g V 0) \<noteq> {}" using Suc.prems(3) by auto
  then obtain c s4 V4 where r: "\<And>n. grow_chain (Suc n) s = grow_chain n s4" "healthy U (dsk s4)" "opened U dv g V4 (cs @ [c]) s4"
    "card (free_clusters g (tab g V 0)) = Suc (card (free_clusters g (tab g V4 0)))"
    using grow_chain_round [OF Suc.prems(1,2)] by metis
  then show ?case using Suc.IH [OF r(3,2)] Suc.prems(3) by simp
qed simp

text \<open>With too few free clusters it takes them all and reports that.\<close>

lemma grow_chain_nospace:
  assumes "opened U dv g V cs s" "healthy U (dsk s)" "n > card (free_clusters g (tab g V 0))"
  shows "\<exists>s1 V' ds. grow_chain n s = (Inl ENOSPC, s1) \<and> opened U dv g V' (cs @ ds) s1 \<and> vsize s1 = vsize s \<and>
    length ds = card (free_clusters g (tab g V 0)) \<and> chain_bytes g V' (cs @ ds) = chain_bytes g V cs @ replicate (length ds * cluster_size g) 0"
  using assms
proof (induction n arbitrary: V cs s)
  case (Suc n)
  note od = openedD [OF Suc.prems(1)]
  show ?case
  proof (cases "free_clusters g (tab g V 0) = {}")
    case True
    obtain q s2 where q: "alloc_cluster s = (q, s2)" by force
    have "q = Inl ENOSPC"
      using alloc_cluster_succeeds [OF od(1) Suc.prems(2) q] alloc_cluster_spec(1) [OF od(1) shows_tab_self q] True by auto
    moreover have "mounted U dv g V s2 \<and> dsk_only s s2" using alloc_cluster_spec(2) [OF od(1) shows_tab_self q] calculation by blast
    ultimately show ?thesis using q True opened_dsk_only [OF Suc.prems(1)] dsk_onlyD(3) [of s s2]
      by (intro exI [of _ s2] exI [of _ V] exI [of _ "[]"]) simp
  next
    case False
    then obtain c s4 V4 where r: "\<And>n. grow_chain (Suc n) s = grow_chain n s4" "healthy U (dsk s4)" "opened U dv g V4 (cs @ [c]) s4" "vsize s4 = vsize s"
      "chain_bytes g V4 (cs @ [c]) = chain_bytes g V cs @ replicate (cluster_size g) 0"
      "card (free_clusters g (tab g V 0)) = Suc (card (free_clusters g (tab g V4 0)))"
      using grow_chain_round [OF Suc.prems(1,2)] by metis
    then have "n > card (free_clusters g (tab g V4 0))" using Suc.prems(3) by simp
    from Suc.IH [OF r(3,2) this] obtain s1 V' ds where "grow_chain n s4 = (Inl ENOSPC, s1)" "opened U dv g V' ((cs @ [c]) @ ds) s1" "vsize s1 = vsize s4"
      "length ds = card (free_clusters g (tab g V4 0))" "chain_bytes g V' ((cs @ [c]) @ ds) = chain_bytes g V4 (cs @ [c]) @ replicate (length ds * cluster_size g) 0"
      by blast
    then show ?thesis using r by (intro exI [of _ s1] exI [of _ V'] exI [of _ "c # ds"]) (simp add: replicate_add)
  qed
qed simp

text \<open>Clearing a cluster of the file from byte \<open>k\<close> on.\<close>

lemma opened_clear_succeeds:
  assumes o: "opened U dv g V cs s" and h: "healthy U (dsk s)" and i: "i < length cs" and k: "k \<le> cluster_size g"
  shows "\<exists>s1. bindE (read_cluster s (cs ! i)) (\<lambda>x s2. write_cluster s2 (cs ! i) (zero_from k x)) = (Inr (), s1) \<and> healthy U (dsk s1)"
proof -
  have "cs ! i \<in> set cs" using i by simp
  then have "cs ! i \<in> clusters g" using openedD(4) [OF o] by blast
  then obtain x s2 where x: "read_cluster s (cs ! i) = (Inr x, s2)" "healthy U (dsk s2)" "opened U dv g V cs s2" "length x = cluster_size g"
    using opened_read_succeeds [OF o h] by blast
  have "length (zero_from k x) = cluster_size g" using zero_from_length k x(4) by simp
  then show ?thesis using opened_write_succeeds [OF x(3,2) i] x(1) by auto
qed

lemma zero_cluster_succeeds:
  assumes o: "opened U dv g V cs s" and h: "healthy U (dsk s)" and i: "i < length cs" and k: "k \<le> cluster_size g"
  shows "\<exists>s1. zero_cluster s i k = (Inr (), s1) \<and> healthy U (dsk s1)"
proof -
  obtain s2 where s2: "cluster_at s i = (Inr (cs ! i), s2)" "healthy U (dsk s2)" "opened U dv g V cs s2"
    using opened_cluster_at_succeeds [OF o h i] by blast
  show ?thesis using opened_clear_succeeds [OF s2(3,2) i k] s2(1) by (auto simp: zero_cluster_def)
qed

lemma zero_tail_succeeds:
  assumes o: "opened U dv g V cs s" and h: "healthy U (dsk s)" and sz: "sized g cs (vsize s)" "0 < vsize s"
  shows "\<exists>s1 V'. zero_tail s = (Inr (), s1) \<and> healthy U (dsk s1) \<and> opened U dv g V' cs s1 \<and> vsize s1 = vsize s \<and>
    free_clusters g (tab g V' 0) = free_clusters g (tab g V 0) \<and> file_bytes g V' cs (vsize s) = file_bytes g V cs (vsize s)"
proof -
  note od = openedD [OF o] and sl = sized_le [OF sz(1) openedD(9) [OF o]]
  let ?n = "cluster_size g" and ?i = "length cs - 1"
  have i: "(vsize s - 1) div ?n = ?i" "?i < length cs" using sl(2) [OF sz(2)] by auto
  have "total_clusters g < 2 ^ 28" using layout_less [OF mountedD(4) [OF od(1)]] by simp
  then have iu: "u32 ?i = ?i" using od(7) by (simp add: u32_def)
  have m: "vsize s mod ?n < ?n" using od(9) by simp
  then have mu: "u32 (vsize s mod ?n) = vsize s mod ?n" using od(10) by (simp add: u32_def)
  obtain s2 where s2: "cluster_at s ?i = (Inr (cs ! ?i), s2)" "healthy U (dsk s2)" "opened U dv g V cs s2" "vsize s2 = vsize s"
    using opened_cluster_at_succeeds [OF o h i(2)] by blast
  have eq: "zero_tail s = (if vsize s mod ?n = 0 then (Inr (), s2)
      else bindE (read_cluster s2 (cs ! ?i)) (\<lambda>x s2. write_cluster s2 (cs ! ?i) (zero_from (vsize s mod ?n) x)))"
    unfolding zero_tail_def Let_def od(8) i(1) iu mu s2(1) by simp
  have "\<exists>s1. zero_tail s = (Inr (), s1) \<and> healthy U (dsk s1)"
    unfolding eq using s2(2) opened_clear_succeeds [OF s2(3,2) i(2) less_imp_le [OF m]] by (cases "vsize s mod ?n = 0") auto
  then obtain s1 where s1: "zero_tail s = (Inr (), s1)" "healthy U (dsk s1)" by blast
  have "length (file_bytes g V cs (vsize s)) = vsize s" using sl(1) od(5) by (simp add: file_bytes_def)
  then show ?thesis using zero_tail_spec [OF o sz s1(1)] s1 by (auto simp: file_bytes_def)
qed

text \<open>The clusters a file of \<open>n\<close> bytes needs beyond those it has.\<close>

definition more_clusters :: "fat_super \<Rightarrow> nat list \<Rightarrow> nat \<Rightarrow> nat" where
  "more_clusters g cs n = (n + cluster_size g - 1) div cluster_size g - length cs"

lemma extend_to_succeeds:
  assumes o: "opened U dv g V cs s" and h: "healthy U (dsk s)" and sz: "sized g cs (vsize s)" and n: "n < 2 ^ 32"
    and f: "more_clusters g cs n \<le> card (free_clusters g (tab g V 0))"
  shows "\<exists>s1. extend_to s n = (Inr (), s1) \<and> healthy U (dsk s1)"
proof -
  note od = openedD [OF o]
  have lim: "vsize s < 2 ^ 32" using sz by (simp add: sized_def)
  have "(if vsize s \<noteq> 0 then clusters_of s (vsize s) else 0) = length cs"
    using sz clusters_of_eq [OF o, of "vsize s"] lim od(9) by (auto simp: sized_def)
  moreover have "clusters_of s n = (n + cluster_size g - 1) div cluster_size g" using clusters_of_eq [OF o, of n] n by simp
  ultimately have eq: "extend_to s n = bindE (if length cs > 0 \<and> n > vsize s then zero_tail s else (Inr (), s)) (\<lambda>_ s1. grow_chain (more_clusters g cs n) s1)"
    by (simp add: extend_to_def Let_def more_clusters_def)
  show ?thesis
  proof (cases "length cs > 0 \<and> n > vsize s")
    case True
    have "0 < vsize s" using True sz od(9) by (cases "vsize s") (auto simp: sized_def)
    then obtain s2 V2 where s2: "zero_tail s = (Inr (), s2)" "healthy U (dsk s2)" "opened U dv g V2 cs s2" "free_clusters g (tab g V2 0) = free_clusters g (tab g V 0)"
      using zero_tail_succeeds [OF o h sz] by blast
    have "more_clusters g cs n \<le> card (free_clusters g (tab g V2 0))" using f s2(4) by simp
    then show ?thesis using grow_chain_succeeds [OF s2(3,2)] eq True s2(1) by simp
  next
    case False
    then show ?thesis using grow_chain_succeeds [OF o h f] eq by auto
  qed
qed

section \<open>Writing\<close>

lemma write_loop_succeeds:
  assumes "opened U dv g V cs s" "healthy U (dsk s)" "off + length src \<le> length cs * cluster_size g"
  shows "\<exists>d s1. write_loop s off src don = (Inr (), d, s1) \<and> healthy U (dsk s1)"
  using assms
proof (induction "length src" arbitrary: s off src don V rule: less_induct)
  case less
  note od = openedD [OF less.prems(1)]
  let ?n = "cluster_size g"
  show ?case
  proof (cases "src = []")
    case True
    then show ?thesis using less.prems(2) by (simp add: write_loop.simps [of s])
  next
    case False
    then have "off < length cs * ?n" using less.prems(3) by (cases src) auto
    note fp = file_pos [OF less.prems(1) this]
    let ?c = "cs ! (off div ?n)" and ?in = "off mod ?n" and ?chunk = "min (?n - off mod ?n) (length src)"
    obtain s2 where s2: "cluster_at s (off div ?n) = (Inr ?c, s2)" "healthy U (dsk s2)" "opened U dv g V cs s2" "?c \<in> clusters g"
      using opened_cluster_at_succeeds [OF less.prems(1,2) fp(1)] by blast
    let ?w = "if ?in \<noteq> 0 \<or> ?chunk \<noteq> ?n
       then bindE (read_cluster s2 ?c) (\<lambda>x s2. write_cluster s2 ?c (take ?in x @ take ?chunk src @ drop (?in + ?chunk) x))
       else write_cluster s2 ?c (take ?chunk src)"
    have "\<exists>s3 V3. ?w = (Inr (), s3) \<and> healthy U (dsk s3) \<and> opened U dv g V3 cs s3"
    proof (cases "?in \<noteq> 0 \<or> ?chunk \<noteq> ?n")
      case True
      obtain x s3 where x: "read_cluster s2 ?c = (Inr x, s3)" "healthy U (dsk s3)" "opened U dv g V cs s3" "length x = ?n"
        using opened_read_succeeds [OF s2(3,2,4)] by blast
      have "length (take ?in x @ take ?chunk src @ drop (?in + ?chunk) x) = ?n" using x(4) fp(4) by auto
      then obtain s4 V4 where "write_cluster s3 ?c (take ?in x @ take ?chunk src @ drop (?in + ?chunk) x) = (Inr (), s4)"
        "healthy U (dsk s4)" "opened U dv g V4 cs s4" using opened_write_succeeds [OF x(3,2) fp(1)] by blast
      then show ?thesis using x(1) True by auto
    next
      case False
      then have "length (take ?chunk src) = ?n" by auto
      then obtain s4 V4 where "write_cluster s2 ?c (take ?chunk src) = (Inr (), s4)" "healthy U (dsk s4)" "opened U dv g V4 cs s4"
        using opened_write_succeeds [OF s2(3,2) fp(1)] by blast
      then show ?thesis unfolding if_not_P [OF False] by blast
    qed
    then obtain s3 V3 where s3: "?w = (Inr (), s3)" "healthy U (dsk s3)" "opened U dv g V3 cs s3" by blast
    have "u64 (off + ?chunk) = off + ?chunk" using less.prems(3) by (intro opened_off [OF less.prems(1)]) simp
    then have "write_loop s off src don = write_loop s3 (off + ?chunk) (drop ?chunk src) (don + ?chunk)"
      using False od(8,9) s2(1) s3(1) fp(2,3) by (simp add: write_loop.simps [of s] Let_def)
    moreover have "length (drop ?chunk src) < length src" using False fp(4) by (cases src) auto
    moreover have "off + ?chunk + length (drop ?chunk src) \<le> length cs * ?n" using less.prems(3) by simp
    ultimately show ?thesis using less.hyps [OF _ s3(3,2)] by simp
  qed
qed

lemma write_at_succeeds:
  assumes o: "opened U dv g V cs s" and h: "healthy U (dsk s)" and sz: "sized g cs (vsize s)" and off: "off + length src < 2 ^ 32"
    and f: "more_clusters g cs (off + length src) \<le> card (free_clusters g (tab g V 0))"
  shows "\<exists>d s1. write_at s off src = (Inr (), d, s1) \<and> healthy U (dsk s1)"
proof (cases "src = []")
  case True
  then show ?thesis using h by (simp add: write_at_def)
next
  case False
  let ?e = "off + length src"
  have u: "u64 ?e = ?e" "\<not> ?e > 0xFFFFFFFF" using off by (simp_all add: u64_def)
  obtain s2 where s2: "extend_to s ?e = (Inr (), s2)" "healthy U (dsk s2)" using extend_to_succeeds [OF o h sz off f] by blast
  obtain V2 ds where V2: "opened U dv g V2 (cs @ ds) s2" "?e > vsize s \<longrightarrow> sized g (cs @ ds) ?e" "?e \<le> vsize s \<longrightarrow> ds = []"
    using extend_to_spec [OF o sz off s2(1)] by (auto split: if_splits)
  have "?e \<le> length (cs @ ds) * cluster_size g"
    using sized_le(1) [OF sz openedD(9) [OF o]] sized_le(1) [OF _ openedD(9) [OF o], of "cs @ ds" ?e] V2(2,3) by (cases "?e > vsize s") auto
  then obtain d s3 where s3: "write_loop s2 off src 0 = (Inr (), d, s3)" "healthy U (dsk s3)"
    using write_loop_succeeds [OF V2(1) s2(2)] by blast
  show ?thesis using False u s2(1) s3 by (simp add: write_at_def touch_def)
qed

section \<open>Truncating\<close>

lemma cluster_at_end_succeeds:
  assumes o: "opened U dv g V cs s" and h: "healthy U (dsk s)" and ne: "cs \<noteq> []"
  shows "\<exists>s1. cluster_at s (length cs) = (Inl ENXIO, s1) \<and> healthy U (dsk s1)"
proof -
  note od = openedD [OF o]
  have nc: "file_chain g (tab g V 0) cs" "pos_ok (fn s) cs" using od(3) ne by (auto simp: node_chain_def)
  note fc = file_chainD [OF mountedD(4) [OF od(1)] nc(1)]
  define near where "near \<longleftrightarrow> last_cluster (fn s) \<ge> 2 \<and> length cs \<ge> last_index (fn s) \<and> length cs - last_index (fn s) < total_clusters (sb s)"
  define k where "k = (if near then last_index (fn s) else 0)"
  have k: "k < length cs" "(if near then last_cluster (fn s) else first_cluster (fn s)) = cs ! k"
    using nc(2) fc(2) by (auto simp: near_def k_def pos_ok_def hd_conv_nth)
  have f2: "\<not> first_cluster (fn s) < 2" using nc(2) fc(2) fc(4) [of "hd cs"] by (auto simp: pos_ok_def)
  obtain q s2 where q: "chain_advance s (cs ! k) (if near then length cs - last_index (fn s) else length cs) = (q, s2)" "healthy U (dsk s2)"
      "q = Inl ENXIO \<or> (\<exists>c. q = Inr c)"
    using chain_advance_succeeds [OF od(1) h shows_tab_self nc(1) k(1)] by blast
  obtain r s1 where r: "cluster_at s (length cs) = (r, s1)" by force
  have eq: "(r, s1) = bindE (q, s2) (\<lambda>c s1. (Inr c, s1\<lparr>fn := (fn s1)\<lparr>last_index := length cs, last_cluster := c\<rparr>\<rparr>))"
    using r f2 k(2) q(1) unfolding cluster_at_def Let_def near_def [symmetric] by simp
  obtain e where e: "r = Inl e" using opened_cluster_at_end(3) [OF o ne r] by blast
  then have "q = Inl ENXIO" using eq q(3) by auto
  then show ?thesis using eq r q(2) by simp
qed

lemma free_chain_succeeds:
  assumes m: "mounted U dv g V s" and h: "healthy U (dsk s)" and T: "shows_tab g V T" and fc: "file_chain g T cs"
  shows "\<exists>s1. free_chain s (hd cs) = (Inr (), s1) \<and> healthy U (dsk s1)"
proof -
  note l = mountedD(4) [OF m]
  have "length cs \<le> total_clusters g + 2" using file_chainD(6) [OF l fc] by simp
  then show ?thesis using free_from_succeeds [OF m h T fc] max_cluster [OF l] geo_eqD(9) [OF mountedD(5) [OF m]] by (simp add: free_chain_def)
qed

lemma cut_chain_succeeds:
  assumes o: "opened U dv g V cs s" and h: "healthy U (dsk s)" and k: "k \<le> length cs"
  shows "\<exists>s1. cut_chain s k = (Inr (), s1) \<and> healthy U (dsk s1)"
proof -
  note od = openedD [OF o]
  note l = mountedD(4) [OF od(1)]
  have tl: "total_clusters g < 2 ^ 28" using layout_less [OF l] by simp
  have ku: "u32 k = k" "u32 (k - 1) = k - 1" using k od(7) tl by (simp_all add: u32_def)
  let ?T = "tab g V 0"
  show ?thesis
  proof (cases "cs = []")
    case True
    then show ?thesis using od(3) h k by (auto simp: cut_chain_def node_chain_def)
  next
    case ne: False
    have nc: "file_chain g ?T cs" "pos_ok (fn s) cs" using od(3) ne by (auto simp: node_chain_def)
    note fc = file_chainD [OF l nc(1)]
    consider (zero) "k = 0" | (all) "0 < k" "k = length cs" | (some) "0 < k" "k < length cs" using k by linarith
    then show ?thesis
    proof cases
      case zero
      have f: "first_cluster (fn s) = hd cs" using nc(2) fc(2) by (simp add: pos_ok_def)
      have f2: "first_cluster (fn s) \<ge> 2" using f fc(4) [of "hd cs"] ne by simp
      obtain s1 where "free_chain s (hd cs) = (Inr (), s1)" "healthy U (dsk s1)"
        using free_chain_succeeds [OF od(1) h shows_tab_self nc(1)] by blast
      then show ?thesis using zero f f2 by (simp add: cut_chain_def)
    next
      case all
      then show ?thesis using cluster_at_end_succeeds [OF o h ne] ku by (auto simp: cut_chain_def)
    next
      case some
      obtain s2 where s2: "cluster_at s k = (Inr (cs ! k), s2)" "healthy U (dsk s2)" "opened U dv g V cs s2"
        using opened_cluster_at_succeeds [OF o h some(2)] by blast
      have k1: "k - 1 < length cs" using some by simp
      obtain s3 where s3: "cluster_at s2 (k - 1) = (Inr (cs ! (k - 1)), s3)" "healthy U (dsk s3)" "opened U dv g V cs s3" "cs ! (k - 1) \<in> clusters g"
        using opened_cluster_at_succeeds [OF s2(3,2) k1] by blast
      note m3 = openedD(1) [OF s3(3)]
      obtain s4 where s4: "write_entry s3 (cs ! (k - 1)) FAT_CLUSTER_EOC = (Inr (), s4)" "healthy U (dsk s4)"
        using write_entry_succeeds [OF m3 s3(2), of "cs ! (k - 1)"] s3(4) by auto
      have eos: "FAT_CLUSTER_EOC mod 2 ^ 28 = FAT_CLUSTER_EOC" by (simp add: fat_values)
      let ?T4 = "?T(cs ! (k - 1) := FAT_CLUSTER_EOC)"
      obtain V4 where V4: "mounted U dv g V4 s4" "shows_tab g V4 ?T4" using write_entry_tab [OF m3 shows_tab_self s4(1), unfolded eos] by blast
      have fc4: "file_chain g ?T4 (drop k cs)" by (rule file_chain_drop_upd [OF l nc(1) some])
      obtain s5 where s5: "free_chain s4 (hd (drop k cs)) = (Inr (), s5)" "healthy U (dsk s5)"
        using free_chain_succeeds [OF V4(1) s4(2) V4(2) fc4] by blast
      have hk: "hd (drop k cs) = cs ! k" using some by (simp add: hd_drop_conv_nth)
      have "cs ! k \<ge> 2 \<and> cs ! k < FAT_CLUSTER_EOC" using fc(4) [of "cs ! k"] some by (auto simp: fat_values)
      then show ?thesis using some ku s2(1) s3(1) s4(1) s5 hk by (simp add: cut_chain_def)
    qed
  qed
qed

lemma fat_truncate_succeeds:
  assumes o: "opened U dv g V cs s" and h: "healthy U (dsk s)" and sz: "sized g cs (vsize s)" and n: "n < 2 ^ 32"
    and f: "more_clusters g cs n \<le> card (free_clusters g (tab g V 0))"
  shows "\<exists>s1. fat_truncate s n = (Inr (), s1) \<and> healthy U (dsk s1)"
proof -
  note od = openedD [OF o]
  let ?z = "cluster_size g" and ?v = "vsize s"
  have n32: "\<not> n > 0xFFFFFFFF" using n by simp
  have mz: "k mod ?z < ?z" "u32 (k mod ?z) = k mod ?z" for k using mod_less_divisor [OF od(9), of k] od(10) by (simp_all add: u32_def del: mod_less_divisor)
  have tl: "total_clusters g < 2 ^ 28" using layout_less [OF mountedD(4) [OF od(1)]] by simp
  consider "n = ?v" | (up) "n > ?v" | (down) "n < ?v" by linarith
  then show ?thesis
  proof cases
    case up
    obtain s2 where s2: "extend_to s n = (Inr (), s2)" "healthy U (dsk s2)" using extend_to_succeeds [OF o h sz n f] by blast
    obtain V2 ds where V2: "opened U dv g V2 (cs @ ds) s2" "vsize s2 = ?v" using extend_to_spec [OF o sz n s2(1)] by blast
    let ?q = "if ?v > 0 \<and> ?v mod ?z \<noteq> 0
      then case zero_cluster s2 (u32 ((?v - 1) div ?z)) (?v mod ?z) of (Inl ENXIO, s2) \<Rightarrow> (Inr (), s2) | p \<Rightarrow> p else (Inr (), s2)"
    have "\<exists>s3. ?q = (Inr (), s3) \<and> healthy U (dsk s3)"
    proof (cases "?v > 0 \<and> ?v mod ?z \<noteq> 0")
      case True
      have i: "(?v - 1) div ?z = length cs - 1" "length cs - 1 < length (cs @ ds)" using sized_le(2) [OF sz od(9)] True by (cases cs; auto)+
      have "u32 (length cs - 1) = length cs - 1" using od(7) tl by (simp add: u32_def)
      then show ?thesis using zero_cluster_succeeds [OF V2(1) s2(2) i(2), of "?v mod ?z"] mz(1) [of ?v] True i(1) by auto
    qed (use s2(2) in auto)
    moreover have "fat_truncate s n = bindE ?q (\<lambda>_ s2. (Inr (), touch (s2\<lparr>vsize := n\<rparr>)))"
      using n32 up s2(1) unfolding fat_truncate_def Let_def od(8) by (simp add: V2(2) mz(2))
    ultimately show ?thesis by (auto simp: touch_def)
  next
    case down
    let ?k = "(n + ?z - 1) div ?z"
    have lim: "?v < 2 ^ 32" using sz by (simp add: sized_def)
    have keep: "(if n \<noteq> 0 then clusters_of s n else 0) = ?k" using clusters_of_eq [OF o, of n] n od(9) by auto
    have kl: "?k \<le> length cs" using sz down unfolding sized_def by (auto intro: div_le_mono)
    obtain s2 where s2: "cut_chain s ?k = (Inr (), s2)" "healthy U (dsk s2)" using cut_chain_succeeds [OF o h kl] by blast
    obtain V2 where V2: "opened U dv g V2 (take ?k cs) s2" using cut_chain_spec [OF o kl s2(1)] by blast
    let ?q = "if ?k > 0 \<and> n mod ?z \<noteq> 0 then zero_cluster s2 (u32 (?k - 1)) (u32 (n mod ?z)) else (Inr (), s2)"
    have ku: "u32 (?k - 1) = ?k - 1" using kl od(7) tl by (simp add: u32_def)
    have "\<exists>s3. ?q = (Inr (), s3) \<and> healthy U (dsk s3)"
    proof (cases "?k > 0 \<and> n mod ?z \<noteq> 0")
      case True
      then have "?k - 1 < length (take ?k cs)" using kl by simp
      from zero_cluster_succeeds [OF V2 s2(2) this, of "n mod ?z"] show ?thesis unfolding if_P [OF True] ku mz(2) using mz(1) [of n] by simp
    qed (use s2(2) in auto)
    moreover have "fat_truncate s n = bindE ?q (\<lambda>_ s2. (Inr (), touch (s2\<lparr>vsize := n\<rparr>)))"
      using n32 down s2(1) unfolding fat_truncate_def Let_def keep od(8) by simp
    ultimately show ?thesis by (auto simp: touch_def)
  qed (use h n32 in \<open>auto simp: fat_truncate_def Let_def\<close>)
qed

text \<open>A write that needs more clusters than there are.\<close>

lemma write_at_nospace:
  assumes o: "opened U dv g V cs s" and h: "healthy U (dsk s)" and sz: "sized g cs (vsize s)" and off: "off + length src < 2 ^ 32" "src \<noteq> []"
    and f: "more_clusters g cs (off + length src) > card (free_clusters g (tab g V 0))"
  shows "\<exists>s1 V' ds. write_at s off src = (Inl ENOSPC, 0, s1) \<and> opened U dv g V' (cs @ ds) s1 \<and> vsize s1 = vsize s \<and>
    file_bytes g V' (cs @ ds) (vsize s) = file_bytes g V cs (vsize s) \<and> length ds = card (free_clusters g (tab g V 0))"
proof -
  note od = openedD [OF o]
  let ?n = "off + length src" and ?v = "vsize s"
  have u: "u64 ?n = ?n" "\<not> ?n > 0xFFFFFFFF" using off by (simp_all add: u64_def)
  have lim: "?v < 2 ^ 32" using sz by (simp add: sized_def)
  have big: "?n > ?v"
  proof (rule ccontr)
    assume "\<not> ?n > ?v"
    then have "(?n + cluster_size g - 1) div cluster_size g \<le> length cs" using sz unfolding sized_def by (auto intro: div_le_mono)
    then show False using f by (simp add: more_clusters_def)
  qed
  have "(if ?v \<noteq> 0 then clusters_of s ?v else 0) = length cs"
    using sz clusters_of_eq [OF o, of ?v] lim od(9) by (auto simp: sized_def)
  moreover have "clusters_of s ?n = (?n + cluster_size g - 1) div cluster_size g" using clusters_of_eq [OF o, of ?n] off by simp
  ultimately have eq: "extend_to s ?n = bindE (if length cs > 0 then zero_tail s else (Inr (), s)) (\<lambda>_ s1. grow_chain (more_clusters g cs ?n) s1)"
    using big by (simp add: extend_to_def Let_def more_clusters_def)
  obtain s2 V2 where s2: "(if length cs > 0 then zero_tail s else (Inr (), s)) = (Inr (), s2)" "healthy U (dsk s2)" "opened U dv g V2 cs s2" "vsize s2 = ?v"
    "free_clusters g (tab g V2 0) = free_clusters g (tab g V 0)" "file_bytes g V2 cs ?v = file_bytes g V cs ?v"
  proof (cases "length cs > 0")
    case True
    have pos: "0 < ?v" using True sz od(9) by (cases ?v) (auto simp: sized_def)
    obtain s2 V2 where z: "zero_tail s = (Inr (), s2)" "healthy U (dsk s2)" "opened U dv g V2 cs s2" "vsize s2 = ?v"
      "free_clusters g (tab g V2 0) = free_clusters g (tab g V 0)" "file_bytes g V2 cs ?v = file_bytes g V cs ?v"
      using zero_tail_succeeds [OF o h sz pos] by blast
    then show thesis using True that by simp
  qed (use that h o in auto)
  have "more_clusters g cs ?n > card (free_clusters g (tab g V2 0))" using f s2(5) by simp
  from grow_chain_nospace [OF s2(3,2) this] obtain s1 V' ds where gr: "grow_chain (more_clusters g cs ?n) s2 = (Inl ENOSPC, s1)" "opened U dv g V' (cs @ ds) s1"
    "vsize s1 = vsize s2" "length ds = card (free_clusters g (tab g V2 0))" "chain_bytes g V' (cs @ ds) = chain_bytes g V2 cs @ replicate (length ds * cluster_size g) 0" by blast
  have "?v \<le> length (chain_bytes g V2 cs)" using sized_le(1) [OF sz od(9)] openedD(5) [OF s2(3)] by simp
  then have "file_bytes g V' (cs @ ds) ?v = file_bytes g V cs ?v" using s2(6) gr(5) by (simp add: file_bytes_def)
  moreover have "write_at s off src = (Inl ENOSPC, 0, s1)" using eq s2(1) gr(1) u off(2) by (simp add: write_at_def)
  ultimately show ?thesis using gr(2-4) s2(4,5) by (intro exI [of _ s1] exI [of _ V'] exI [of _ ds]) simp
qed

section \<open>The small volume\<close>

abbreviation ex_V :: "nat \<Rightarrow> nat \<Rightarrow> sector" where "ex_V \<equiv> dev_sector ex_vol"

lemma ex_cdata: "c \<in> clusters ex_super \<Longrightarrow> cdata ex_super ex_V c = replicate 512 (word_of_nat (c + 1))"
proof -
  assume c: "c \<in> clusters ex_super"
  have "clba ex_super c = c + 1" "sectors_per_cluster ex_super = 1" "sb_dev ex_super = 0" using c by (auto simp: clba_def ex_super_def no_super_def)
  moreover have "ex_V 0 (c + 1) = replicate 512 (word_of_nat (c + 1))"
    using c by_devices [OF ex_vol_same(1)] by (auto simp: dev_sector_def ex_vol_same ex_place ex_clusters)
  ultimately show ?thesis by (simp add: cdata_def)
qed

lemma ex_opened: "opened {0} (\<lambda>_. ex_dev) ex_super ex_V [2, 3] ex_st"
  using ex_mounted ex_chain by (simp add: opened_def full_data_def ex_cdata node_chain_def) (simp add: ex_super_def no_super_def)

lemma ex_sized: "sized ex_super [2, 3] (vsize ex_st)"
  by (simp add: ex_chain(3) sized_def ex_super_def no_super_def)

lemma ex_bytes: "file_bytes ex_super ex_V [2, 3] 600 = replicate 512 3 @ replicate 88 4"
  by (simp add: file_bytes_def chain_bytes_def ex_cdata ex_clusters)

lemma ex_more: "more_clusters ex_super [2, 3] n = (n + 511) div 512 - 2" "card (free_clusters ex_super ex_T) = 3"
  by (simp_all add: more_clusters_def ex_free) (simp add: ex_super_def no_super_def)

section \<open>Properties\<close>

text \<open>C11. Reading refines reading a byte sequence: \<open>read_at\<close> on an open file delivers exactly the bytes of the
  file from the offset on, as many as asked for and the file has; if an error stops it, what it delivered is
  a prefix of them; without disk faults it never fails. The file is not changed.\<close>

theorem read_at_refines:
  assumes "opened U dv g V cs s" "sized g cs (vsize s)" "off + len < 2 ^ 64" "read_at s off len = (r, out, s1)"
  shows "(\<exists>k \<le> len. out = take k (drop off (file_bytes g V cs (vsize s)))) \<and>
    (r = Inr () \<longrightarrow> out = take len (drop off (file_bytes g V cs (vsize s))) \<and> opened U dv g V cs s1 \<and> vsize s1 = vsize s) \<and>
    (healthy U (dsk s) \<longrightarrow> r = Inr ())"
  using read_at_spec [OF assms] read_at_succeeds [OF assms(1) _ assms(2,3)] assms(4) by auto

theorem read_at_refines_witness:
  "\<exists>s1. read_at ex_st 510 1000 = (Inr (), [3, 3] @ replicate 88 4, s1)"
proof -
  obtain r out s1 where r: "read_at ex_st 510 1000 = (r, out, s1)" by (metis prod_cases3)
  have "r = Inr () \<and> out = take 1000 (drop 510 (file_bytes ex_super ex_V [2, 3] (vsize ex_st)))"
    using read_at_refines [OF ex_opened ex_sized _ r] ex_healthy by simp
  moreover have "drop 510 (replicate 512 3 :: byte list) = [3, 3]" by (simp add: numeral_2_eq_2)
  ultimately show ?thesis using r by (simp add: ex_chain(3) ex_bytes)
qed

text \<open>C1. Writing refines splicing bytes into a sequence: a successful \<open>write_at\<close> of a non-empty buffer leaves
  the file with the old bytes, zeros in any gap, the buffer at the offset and the old bytes behind it, and
  exactly the clusters that size needs. It refuses to pass 4 GiB and then changes nothing; without disk
  faults and with enough free clusters it succeeds.\<close>

theorem write_at_refines:
  assumes "opened U dv g V cs s" "sized g cs (vsize s)" "off + length src < 2 ^ 64" "src \<noteq> []" "write_at s off src = (r, d, s1)"
  shows "(r = Inr () \<longrightarrow> d = length src \<and> (\<exists>V' cs'. opened U dv g V' cs' s1 \<and> sized g cs' (vsize s1) \<and>
      vsize s1 = max (vsize s) (off + length src) \<and>
      file_bytes g V' cs' (vsize s1) = spliced (file_bytes g V cs (vsize s)) off src)) \<and>
    (off + length src \<ge> 2 ^ 32 \<longrightarrow> r = Inl EFBIG \<and> d = 0 \<and> s1 = s) \<and>
    (healthy U (dsk s) \<and> off + length src < 2 ^ 32 \<and> more_clusters g cs (off + length src) \<le> card (free_clusters g (tab g V 0)) \<longrightarrow>
      r = Inr ())"
proof -
  have "off < 2 ^ 64" using assms(3) by simp
  then have "r = Inr () \<longrightarrow> d = length src \<and> (\<exists>V' cs'. opened U dv g V' cs' s1 \<and> sized g cs' (vsize s1) \<and>
      vsize s1 = max (vsize s) (off + length src) \<and>
      file_bytes g V' cs' (vsize s1) = spliced (file_bytes g V cs (vsize s)) off src)"
    using write_at_spec [OF assms(1,2) _ assms(3)] assms(4,5) by blast
  moreover have "off + length src \<ge> 2 ^ 32 \<longrightarrow> r = Inl EFBIG \<and> d = 0 \<and> s1 = s"
    using assms(3-5) by (auto simp: write_at_def u64_def)
  moreover have "healthy U (dsk s) \<and> off + length src < 2 ^ 32 \<and> more_clusters g cs (off + length src) \<le> card (free_clusters g (tab g V 0)) \<longrightarrow> r = Inr ()"
    using write_at_succeeds [OF assms(1) _ assms(2), of off src] assms(5) by fastforce
  ultimately show ?thesis by blast
qed

theorem write_at_refines_witness:
  "\<exists>s1 V' cs'. write_at ex_st 1100 [7] = (Inr (), 1, s1) \<and> opened {0} (\<lambda>_. ex_dev) ex_super V' cs' s1 \<and>
     file_bytes ex_super V' cs' 1101 = replicate 512 3 @ replicate 88 4 @ replicate 500 0 @ [7]"
proof -
  obtain r d s1 where w: "write_at ex_st 1100 [7] = (r, d, s1)" by (metis prod_cases3)
  have h: "1100 + length [7 :: byte] < 2 ^ 64" "[7 :: byte] \<noteq> []" by simp_all
  have r: "r = Inr ()" using write_at_refines [OF ex_opened ex_sized h w] ex_healthy by (simp add: ex_more)
  then have d: "d = 1" using write_at_refines [OF ex_opened ex_sized h w] by simp
  obtain V' cs' where V': "opened {0} (\<lambda>_. ex_dev) ex_super V' cs' s1" "vsize s1 = max 600 1101"
    "file_bytes ex_super V' cs' (vsize s1) = spliced (file_bytes ex_super ex_V [2, 3] 600) 1100 [7]"
    using write_at_refines [OF ex_opened ex_sized h w] r by (auto simp: ex_chain(3))
  have "spliced (replicate 512 3 @ replicate 88 4) 1100 [7] = replicate 512 3 @ replicate 88 4 @ replicate 500 0 @ [7 :: byte]"
    by (simp add: spliced_def)
  then have "file_bytes ex_super V' cs' 1101 = replicate 512 3 @ replicate 88 4 @ replicate 500 0 @ [7]"
    using V'(2,3) by (simp only: ex_bytes) simp
  then show ?thesis using w V'(1) r d by blast
qed

text \<open>C26. What was written is read back: after a successful \<open>write_at\<close>, a \<open>read_at\<close> of the same range that
  succeeds returns the written bytes, and without disk faults it succeeds.\<close>

theorem write_read_back:
  assumes "opened U dv g V cs s" "sized g cs (vsize s)" "off + length src < 2 ^ 64" "write_at s off src = (Inr (), d, s1)"
    "read_at s1 off (length src) = (r, out, s2)"
  shows "(r = Inr () \<longrightarrow> out = src) \<and> (healthy U (dsk s1) \<longrightarrow> r = Inr ())"
proof -
  have "off < 2 ^ 64" using assms(3) by simp
  from write_at_spec [OF assms(1,2) this assms(3,4)] obtain V' cs' where
    V': "opened U dv g V' cs' s1" "sized g cs' (vsize s1)"
      "src \<noteq> [] \<longrightarrow> file_bytes g V' cs' (vsize s1) = spliced (file_bytes g V cs (vsize s)) off src" by blast
  have "take (length src) (drop off (spliced F off src)) = src" for F by (simp add: spliced_def)
  then have "r = Inr () \<longrightarrow> out = src" using read_at_spec [OF V'(1,2) assms(3,5)] V'(3) by (cases "src = []") auto
  moreover have "healthy U (dsk s1) \<longrightarrow> r = Inr ()" using read_at_succeeds [OF V'(1) _ V'(2) assms(3)] assms(5) by auto
  ultimately show ?thesis ..
qed

theorem write_read_back_witness:
  "\<exists>s1 s2. write_at ex_st 511 [7, 8] = (Inr (), 2, s1) \<and> read_at s1 511 2 = (Inr (), [7, 8], s2)"
proof -
  have len: "511 + length [7, 8 :: byte] < 2 ^ 32" by simp
  have "more_clusters ex_super [2, 3] (511 + length [7, 8 :: byte]) \<le> card (free_clusters ex_super ex_T)" by (simp add: ex_more)
  then obtain d s1 where w: "write_at ex_st 511 [7, 8] = (Inr (), d, s1)" "healthy {0} (dsk s1)"
    using write_at_succeeds [OF ex_opened ex_healthy ex_sized len] by blast
  have l64: "511 + length [7, 8 :: byte] < 2 ^ 64" by simp
  have "d = 2" using write_at_spec [OF ex_opened ex_sized _ l64 w(1)] by auto
  moreover obtain r out s2 where "read_at s1 511 (length [7, 8 :: byte]) = (r, out, s2)" by (metis prod_cases3)
  moreover have "r = Inr () \<and> out = [7, 8]" using write_read_back [OF ex_opened ex_sized l64 w(1) calculation(2)] w(2) by simp
  ultimately show ?thesis using w(1) by (simp add: numeral_2_eq_2)
qed

text \<open>C16. A write that needs more clusters than are free, on a disk without faults, reports \<open>ENOSPC\<close> and that
  nothing was written; the size and the bytes of the file are as before. The clusters it had taken by then,
  all the free ones, stay appended to the file.\<close>

theorem write_at_full_volume:
  assumes "opened U dv g V cs s" "healthy U (dsk s)" "sized g cs (vsize s)" "off + length src < 2 ^ 32" "src \<noteq> []"
    "more_clusters g cs (off + length src) > card (free_clusters g (tab g V 0))" "write_at s off src = (r, d, s1)"
  shows "r = Inl ENOSPC \<and> d = 0 \<and> vsize s1 = vsize s \<and>
    (\<exists>V' ds. opened U dv g V' (cs @ ds) s1 \<and> length ds = card (free_clusters g (tab g V 0)) \<and>
       file_bytes g V' (cs @ ds) (vsize s) = file_bytes g V cs (vsize s))"
  using write_at_nospace [OF assms(1-6)] assms(7) by auto

theorem write_at_full_volume_witness:
  "\<exists>s1 V' ds. write_at ex_st 2560 [7] = (Inl ENOSPC, 0, s1) \<and> vsize s1 = 600 \<and> opened {0} (\<lambda>_. ex_dev) ex_super V' ([2, 3] @ ds) s1 \<and> length ds = 3"
proof -
  obtain r d s1 where w: "write_at ex_st 2560 [7] = (r, d, s1)" by (metis prod_cases3)
  have h: "2560 + length [7 :: byte] < 2 ^ 32" "[7 :: byte] \<noteq> []"
    "more_clusters ex_super [2, 3] (2560 + length [7 :: byte]) > card (free_clusters ex_super ex_T)" by (simp_all add: ex_more)
  show ?thesis using write_at_full_volume [OF ex_opened ex_healthy ex_sized h w] w by (auto simp: ex_chain(3) ex_more(2))
qed

text \<open>C5. Truncation: on success the file has the asked size, its bytes are the old ones cut or padded with
  zeros, and it has exactly the clusters that size needs. Shrinking succeeds without disk faults; growing
  then needs the clusters to be there.\<close>

theorem fat_truncate_refines:
  assumes "opened U dv g V cs s" "sized g cs (vsize s)" "fat_truncate s n = (r, s1)"
  shows "(r = Inr () \<longrightarrow> vsize s1 = n \<and> (\<exists>V' cs'. opened U dv g V' cs' s1 \<and> sized g cs' n \<and>
      file_bytes g V' cs' n = take n (file_bytes g V cs (vsize s)) @ replicate (n - vsize s) 0)) \<and>
    (n \<ge> 2 ^ 32 \<longrightarrow> r = Inl EFBIG \<and> s1 = s) \<and>
    (healthy U (dsk s) \<and> n < 2 ^ 32 \<and> more_clusters g cs n \<le> card (free_clusters g (tab g V 0)) \<longrightarrow> r = Inr ())"
proof (intro conjI impI)
  assume "r = Inr ()"
  then have w: "fat_truncate s n = (Inr (), s1)" using assms(3) by simp
  have lF: "length (file_bytes g V cs (vsize s)) = vsize s"
    using sized_le(1) [OF assms(2)] openedD(5,9) [OF assms(1)] by (simp add: file_bytes_def)
  consider (same) "n = vsize s" | (up) "n > vsize s" | (down) "n < vsize s" by linarith
  then have "\<exists>V' cs'. opened U dv g V' cs' s1 \<and> sized g cs' n \<and> vsize s1 = n \<and>
      file_bytes g V' cs' n = take n (file_bytes g V cs (vsize s)) @ replicate (n - vsize s) 0"
  proof cases
    case same
    have "s1 = s" using w same assms(2) by (auto simp: fat_truncate_def Let_def sized_def)
    then show ?thesis using same assms(1,2) lF by (intro exI [of _ V] exI [of _ cs]) simp
  next
    case up
    then show ?thesis using truncate_up [OF assms(1,2) up w] lF by simp
  next
    case down
    then show ?thesis using truncate_down [OF assms(1,2) down w] by simp
  qed
  then show "vsize s1 = n" "\<exists>V' cs'. opened U dv g V' cs' s1 \<and> sized g cs' n \<and>
      file_bytes g V' cs' n = take n (file_bytes g V cs (vsize s)) @ replicate (n - vsize s) 0" by blast+
next
  assume "n \<ge> 2 ^ 32"
  then show "r = Inl EFBIG" "s1 = s" using assms(3) by (auto simp: fat_truncate_def)
next
  assume "healthy U (dsk s) \<and> n < 2 ^ 32 \<and> more_clusters g cs n \<le> card (free_clusters g (tab g V 0))"
  then show "r = Inr ()" using fat_truncate_succeeds [OF assms(1) _ assms(2), of n] assms(3) by fastforce
qed

theorem fat_truncate_refines_witness:
  "\<exists>s1 V' cs'. fat_truncate ex_st 510 = (Inr (), s1) \<and> vsize s1 = 510 \<and> opened {0} (\<lambda>_. ex_dev) ex_super V' cs' s1 \<and> length cs' = 1 \<and>
     file_bytes ex_super V' cs' 510 = replicate 510 3"
proof -
  obtain r s1 where w: "fat_truncate ex_st 510 = (r, s1)" by force
  have r: "r = Inr ()" using fat_truncate_refines [OF ex_opened ex_sized w] ex_healthy by (simp add: ex_more)
  obtain V' cs' where V': "vsize s1 = 510" "opened {0} (\<lambda>_. ex_dev) ex_super V' cs' s1" "sized ex_super cs' 510"
    "file_bytes ex_super V' cs' 510 = take 510 (file_bytes ex_super ex_V [2, 3] 600) @ replicate (510 - 600) 0"
    using fat_truncate_refines [OF ex_opened ex_sized w] r by (auto simp: ex_chain(3))
  have "length cs' = 1" using V'(3) by (simp add: sized_def ex_super_def no_super_def)
  moreover have "file_bytes ex_super V' cs' 510 = replicate 510 3" using V'(4) by (simp add: ex_bytes)
  ultimately show ?thesis using w r V'(1,2) by blast
qed

end
