(* ===== verification/Fatname.thy ===== *)
theory Fatname
  imports Prelude
begin

text \<open>
  Names and times of FAT directory records (src/src/kernel/fs/fat32/dir.cpp): the short 8.3 names with
  their case flags, long names between UTF-8 and UCS-2, and the packed dates. A C string is the list of
  its bytes before the closing zero; \<open>cstr\<close> cuts a buffer at that zero. The values of \<open>utf8_to_ucs2\<close>
  are at most 16 bits wide at every point, so \<open>ucs2\<close> serves for its 32-bit variable too.
\<close>

type_synonym ucs2 = "16 word"

definition NAME_MAX :: nat where "NAME_MAX = 255"
definition LFN_CHARS_PER_ENTRY :: nat where "LFN_CHARS_PER_ENTRY = 13"
definition MAX_LFN_ENTRIES :: nat where "MAX_LFN_ENTRIES = 20"
definition FAT_NT_BASE_LOWER :: byte where "FAT_NT_BASE_LOWER = 0x08"
definition FAT_NT_EXT_LOWER :: byte where "FAT_NT_EXT_LOWER = 0x10"
definition FAT_DIR_FREE :: byte where "FAT_DIR_FREE = 0xE5"

lemmas fat_name_values = NAME_MAX_def LFN_CHARS_PER_ENTRY_def MAX_LFN_ENTRIES_def FAT_NT_BASE_LOWER_def FAT_NT_EXT_LOWER_def FAT_DIR_FREE_def

definition cstr :: "byte list \<Rightarrow> byte list" where
  "cstr bs = takeWhile (\<lambda>c. c \<noteq> 0) bs"

section \<open>Comparing\<close>

definition is_lower :: "byte \<Rightarrow> bool" where
  "is_lower c \<longleftrightarrow> 0x61 \<le> c \<and> c \<le> 0x7A"

definition is_upper :: "byte \<Rightarrow> bool" where
  "is_upper c \<longleftrightarrow> 0x41 \<le> c \<and> c \<le> 0x5A"

definition upper :: "byte \<Rightarrow> byte" where
  "upper c = (if is_lower c then c - 0x61 + 0x41 else c)"

fun eq_nocase :: "byte list \<Rightarrow> byte list \<Rightarrow> bool" where
  "eq_nocase [] [] = True"
| "eq_nocase (a # as) (b # bs) = (upper a = upper b \<and> eq_nocase as bs)"
| "eq_nocase _ _ = False"

section \<open>Short names\<close>

definition lower_if :: "bool \<Rightarrow> byte \<Rightarrow> byte" where
  "lower_if b c = (if b \<and> is_upper c then c + 32 else c)"

text \<open>From the 11 bytes of the name and the case flags of a record.\<close>

definition format_short :: "byte list \<Rightarrow> byte \<Rightarrow> byte list" where
  "format_short name nt =
     (let base_lower = (nt AND FAT_NT_BASE_LOWER \<noteq> 0); ext_lower = (nt AND FAT_NT_EXT_LOWER \<noteq> 0);
          base = takeWhile (\<lambda>c. c \<noteq> 0x20) (take 8 name); ext = takeWhile (\<lambda>c. c \<noteq> 0x20) (take 3 (drop 8 name)) in
      cstr (map (lower_if base_lower) base @ (if ext = [] then [] else 0x2E # map (lower_if ext_lower) ext)))"

definition short_checksum :: "byte list \<Rightarrow> byte" where
  "short_checksum name11 =
     fold (\<lambda>i sum. (if sum AND 1 \<noteq> 0 then 0x80 else 0) + drop_bit 1 sum + name11 ! i) [0..<11] 0"

definition last_dot :: "byte list \<Rightarrow> nat option" where
  "last_dot name = fold (\<lambda>i dot. if name ! i = 0x2E then Some i else dot) [1..<length name] None"

definition pad :: "nat \<Rightarrow> byte list \<Rightarrow> byte list" where
  "pad n xs = take n xs @ replicate (n - length xs) 0x20"

definition alias_char :: "byte \<Rightarrow> byte" where
  "alias_char c = (let c = upper c in if c = 0x20 \<or> c = 0x2E \<or> c = 0x7E then 0x5F else c)"

definition split_name :: "byte list \<Rightarrow> byte list \<times> byte list" where
  "split_name name = (case last_dot name of None \<Rightarrow> (name, []) | Some dot \<Rightarrow> (take dot name, drop (dot + 1) name))"

text \<open>The 11 bytes, whether a long name is needed, and the case flags.\<close>

definition make_short_name :: "byte list \<Rightarrow> byte list \<times> bool \<times> byte" where
  "make_short_name name =
     (let (base, ext) = split_name name;
          base_lower = list_ex is_lower base; base_upper = list_ex is_upper base;
          ext_lower = list_ex is_lower ext; ext_upper = list_ex is_upper ext in
      if length base \<ge> 1 \<and> length base \<le> 8 \<and> length ext \<le> 3 \<and> \<not> base_upper \<and> \<not> ext_upper \<and>
         \<not> list_ex (\<lambda>c. c = 0x20 \<or> c = 0x2E) base \<and> \<not> list_ex (\<lambda>c. c = 0x20 \<or> c = 0x2E) ext
      then (pad 8 (map upper base) @ pad 3 (map upper ext), False,
            (if base_lower then FAT_NT_BASE_LOWER else 0) OR (if ext_lower then FAT_NT_EXT_LOWER else 0))
      else let b = pad 8 (map alias_char base);
               b = (if b ! 0 = 0xE5 then b[0 := 0x5F] else b) in
        (b @ pad 3 (map alias_char ext), True, 0))"

definition valid_name :: "byte list \<Rightarrow> bool" where
  "valid_name name \<longleftrightarrow> name \<noteq> [] \<and>
     list_all (\<lambda>c. \<not> (c < 0x20 \<or> c = 0x7F) \<and> c \<notin> {0x22, 0x2A, 0x2F, 0x3A, 0x3C, 0x3E, 0x3F, 0x5C, 0x7C}) name \<and>
     length name \<le> NAME_MAX"

section \<open>UTF-8 and UCS-2\<close>

definition surrogate :: "ucs2 \<Rightarrow> bool" where
  "surrogate c \<longleftrightarrow> 0xD800 \<le> c \<and> c \<le> 0xDFFF"

definition utf8_char :: "ucs2 \<Rightarrow> byte list" where
  "utf8_char c =
     (if c < 0x80 then [ucast c]
      else if c < 0x800 then [ucast (0xC0 OR drop_bit 6 c), ucast (0x80 OR (c AND 0x3F))]
      else [ucast (0xE0 OR drop_bit 12 c), ucast (0x80 OR (drop_bit 6 c AND 0x3F)), ucast (0x80 OR (c AND 0x3F))])"

fun ucs2_to_utf8_from :: "nat \<Rightarrow> byte list \<Rightarrow> ucs2 list \<Rightarrow> byte list" where
  "ucs2_to_utf8_from outmax out [] = out"
| "ucs2_to_utf8_from outmax out (c # cs) =
     (if c = 0x0000 \<or> c = 0xFFFF then out
      else if length out + 4 \<ge> outmax then out
      else ucs2_to_utf8_from outmax (out @ (if surrogate c then [0x3F] else utf8_char c)) cs)"

definition ucs2_to_utf8 :: "ucs2 list \<Rightarrow> nat \<Rightarrow> byte list" where
  "ucs2_to_utf8 cs outmax = ucs2_to_utf8_from outmax [] cs"

text \<open>The byte a pointer into the string shows.\<close>

definition peek :: "byte list \<Rightarrow> byte" where
  "peek p = (case p of [] \<Rightarrow> 0 | b # _ \<Rightarrow> b)"

definition trails :: "byte \<Rightarrow> bool" where
  "trails b \<longleftrightarrow> b AND 0xC0 = 0x80"

text \<open>The next unit and where the pointer stands after it.\<close>

definition ucs2_unit :: "byte \<Rightarrow> byte list \<Rightarrow> ucs2 \<times> byte list" where
  "ucs2_unit b p =
     (let keep = (\<lambda>c. if surrogate c then 0x3F else c) in
      if b < 0x80 then (keep (ucast b), p)
      else if b AND 0xE0 = 0xC0 then
        let c = push_bit 6 (ucast (b AND 0x1F)) in
        if \<not> trails (peek p) then (0x3F, p)
        else (keep (c OR ucast (peek p AND 0x3F)), tl p)
      else if b AND 0xF0 = 0xE0 then
        let c = push_bit 12 (ucast (b AND 0x0F)) in
        if \<not> trails (peek p) then (0x3F, p)
        else let c = c OR push_bit 6 (ucast (peek p AND 0x3F)); p = tl p in
          if \<not> trails (peek p) then (0x3F, p)
          else (keep (c OR ucast (peek p AND 0x3F)), tl p)
      else (0x3F, dropWhile trails p))"

lemma ucs2_unit_shorter: "ucs2_unit b p = (c, q) \<Longrightarrow> length q \<le> length p"
  by (auto simp: ucs2_unit_def Let_def length_dropWhile_le split: if_splits)

function ucs2_from :: "nat \<Rightarrow> byte list \<Rightarrow> ucs2 list \<Rightarrow> ucs2 list" where
  "ucs2_from outmax [] out = out"
| "ucs2_from outmax (b # p) out =
     (if length out \<ge> outmax then out
      else case ucs2_unit b p of (c, q) \<Rightarrow> ucs2_from outmax q (out @ [c]))"
  by pat_completeness auto
termination
  by (relation "measure (\<lambda>(outmax, p, out). length p)") (auto dest!: ucs2_unit_shorter [OF sym])

definition utf8_to_ucs2 :: "byte list \<Rightarrow> nat \<Rightarrow> ucs2 list" where
  "utf8_to_ucs2 s outmax = ucs2_from outmax s []"

text \<open>The long name in the slots of a run, decoded slot by slot through a buffer of 40 bytes.\<close>

definition lfn_decode :: "ucs2 list list \<Rightarrow> nat \<Rightarrow> byte list" where
  "lfn_decode slots outmax =
     fold (\<lambda>chars out. out @ take (outmax - 1 - length out) (ucs2_to_utf8 chars (LFN_CHARS_PER_ENTRY * 3 + 1))) slots []"

section \<open>Dates and times\<close>

text \<open>The date and the time word of seconds since 1970. The intermediate values are in range for their C
  types, and adding \<open>(uint32_t)-9\<close> subtracts 9.\<close>

definition epoch_to_fat :: "nat \<Rightarrow> nat \<times> nat" where
  "epoch_to_fat epoch =
     (if epoch = 0 then (0, 0)
      else let days = epoch div 86400; secs = epoch mod 86400;
        z = days + 719468; era = z div 146097; doe = z - era * 146097;
        yoe = (doe - doe div 1460 + doe div 36524 - doe div 146096) div 365;
        y = yoe + era * 400; doy = doe - (365 * yoe + yoe div 4 - yoe div 100);
        mp = (5 * doy + 2) div 153; d = doy - (153 * mp + 2) div 5 + 1;
        m = (if mp < 10 then mp + 3 else mp - 9);
        y = y + (if m \<le> 2 then 1 else 0) in
      if y < 1980 then (push_bit 5 1 OR 1, 0)
      else let y = (if y > 2107 then 2107 else y) in
        (push_bit 9 (y - 1980) OR push_bit 5 m OR d,
         push_bit 11 (secs div 3600) OR push_bit 5 (secs div 60 mod 60) OR (secs mod 60) div 2))"

definition fat_to_epoch :: "nat \<Rightarrow> nat \<Rightarrow> nat" where
  "fat_to_epoch date time =
     (if date = 0 then 0
      else let y = 1980 + (drop_bit 9 date AND 0x7F); m = drop_bit 5 date AND 0x0F; d = date AND 0x1F in
      if m < 1 \<or> m > 12 \<or> d < 1 \<or> d > 31 then 0
      else let y = y - (if m \<le> 2 then 1 else 0); era = y div 400; yoe = y - era * 400;
        doy = (153 * (if m > 2 then m - 3 else m + 9) + 2) div 5 + d - 1;
        doe = yoe * 365 + yoe div 4 - yoe div 100 + doy;
        days = era * 146097 + doe - 719468;
        h = drop_bit 11 time AND 0x1F; mi = drop_bit 5 time AND 0x3F; s2 = (time AND 0x1F) * 2 in
      days * 86400 + h * 3600 + mi * 60 + s2)"


section \<open>Characters\<close>

lemma bits16: "(\<forall>n < 16. P n) \<longleftrightarrow> P 0 \<and> P 1 \<and> P 2 \<and> P 3 \<and> P 4 \<and> P 5 \<and> P 6 \<and> P 7 \<and> P 8 \<and> P 9 \<and> P 10 \<and> P 11 \<and> P 12 \<and> P 13 \<and> P 14 \<and> P (15 :: nat)"
  unfolding eval_nat_numeral BitM.simps by (simp only: All_less_Suc numeral_One One_nat_def) blast

lemma bits8: "(\<forall>n < 8. P n) \<longleftrightarrow> P 0 \<and> P 1 \<and> P 2 \<and> P 3 \<and> P 4 \<and> P 5 \<and> P 6 \<and> P (7 :: nat)"
  unfolding eval_nat_numeral BitM.simps by (simp only: All_less_Suc numeral_One One_nat_def) blast

lemma ucs2_eqI: "(\<forall>n < 16. bit a n = bit b n) \<Longrightarrow> a = (b :: ucs2)"
  by (rule bit_word_eqI) simp

lemma byte_eqI: "(\<forall>n < 8. bit a n = bit b n) \<Longrightarrow> a = (b :: byte)"
  by (rule bit_word_eqI) simp

lemma high_bits:
  fixes c :: ucs2
  assumes "unat c < 2 ^ k" "k \<le> n"
  shows "\<not> bit c n"
proof -
  have "take_bit k (unat c) = unat c" using assms(1) by (simp add: take_bit_nat_eq_self)
  then have "take_bit k c = c" by (metis unsigned_take_bit_eq word_unat_eq_iff)
  then show ?thesis using assms(2) by (metis bit_take_bit_iff linorder_not_le)
qed

lemma utf8_two:
  assumes "c < (0x800 :: ucs2)"
  shows "(ucast (0xC0 OR drop_bit 6 c) :: byte) AND 0xE0 = 0xC0" "(ucast (0x80 OR (c AND 0x3F)) :: byte) AND 0xC0 = 0x80"
    "push_bit 6 (ucast ((ucast (0xC0 OR drop_bit 6 c) :: byte) AND 0x1F)) OR ucast ((ucast (0x80 OR (c AND 0x3F)) :: byte) AND 0x3F) = c"
proof -
  have h: "\<not> bit c n" if "11 \<le> n" for n using high_bits [of c 11 n] assms that by (simp add: word_less_nat_alt)
  show "(ucast (0xC0 OR drop_bit 6 c) :: byte) AND 0xE0 = 0xC0"
    by (rule byte_eqI) (simp add: bits8 bit_simps h)
  show "(ucast (0x80 OR (c AND 0x3F)) :: byte) AND 0xC0 = 0x80"
    by (rule byte_eqI) (simp add: bits8 bit_simps)
  show "push_bit 6 (ucast ((ucast (0xC0 OR drop_bit 6 c) :: byte) AND 0x1F)) OR ucast ((ucast (0x80 OR (c AND 0x3F)) :: byte) AND 0x3F) = c"
    by (rule ucs2_eqI) (simp add: bits16 bit_simps h)
qed

lemma utf8_three:
  fixes c :: ucs2
  shows "(ucast (0xE0 OR drop_bit 12 c) :: byte) AND 0xF0 = 0xE0" "(ucast (0x80 OR (drop_bit 6 c AND 0x3F)) :: byte) AND 0xC0 = 0x80"
    "(ucast (0x80 OR (c AND 0x3F)) :: byte) AND 0xC0 = 0x80"
    "(push_bit 12 (ucast ((ucast (0xE0 OR drop_bit 12 c) :: byte) AND 0x0F)) OR push_bit 6 (ucast ((ucast (0x80 OR (drop_bit 6 c AND 0x3F)) :: byte) AND 0x3F)))
       OR ucast ((ucast (0x80 OR (c AND 0x3F)) :: byte) AND 0x3F) = c"
proof -
  have h: "\<not> bit c n" if "16 \<le> n" for n using high_bits [of c 16 n] unsigned_less [of c] that by simp
  show "(ucast (0xE0 OR drop_bit 12 c) :: byte) AND 0xF0 = 0xE0" "(ucast (0x80 OR (drop_bit 6 c AND 0x3F)) :: byte) AND 0xC0 = 0x80"
    "(ucast (0x80 OR (c AND 0x3F)) :: byte) AND 0xC0 = 0x80"
    by (rule byte_eqI, simp add: bits8 bit_simps h)+
  show "(push_bit 12 (ucast ((ucast (0xE0 OR drop_bit 12 c) :: byte) AND 0x0F)) OR push_bit 6 (ucast ((ucast (0x80 OR (drop_bit 6 c AND 0x3F)) :: byte) AND 0x3F)))
       OR ucast ((ucast (0x80 OR (c AND 0x3F)) :: byte) AND 0x3F) = c"
    by (rule ucs2_eqI) (simp add: bits16 bit_simps h)
qed

lemma lead_bytes:
  fixes b :: byte
  shows "b AND 0xE0 = 0xC0 \<Longrightarrow> \<not> b < 0x80" "b AND 0xF0 = 0xE0 \<Longrightarrow> \<not> b < 0x80" "b AND 0xF0 = 0xE0 \<Longrightarrow> b AND 0xE0 \<noteq> 0xC0"
proof -
  have low: "\<not> bit b 7" if "b < 0x80"
  proof -
    have "take_bit 7 (unat b) = unat b" using that by (simp add: take_bit_nat_eq_self word_less_nat_alt)
    then have "take_bit 7 b = b" by (metis unsigned_take_bit_eq word_unat_eq_iff)
    then show ?thesis by (metis bit_take_bit_iff less_irrefl)
  qed
  have seven: "bit b 7" if "bit (b AND m) 7" for m using that by (simp add: bit_and_iff)
  show "b AND 0xE0 = 0xC0 \<Longrightarrow> \<not> b < 0x80" "b AND 0xF0 = 0xE0 \<Longrightarrow> \<not> b < 0x80"
    using seven [of "0xE0"] seven [of "0xF0"] low by auto
  show "b AND 0xE0 \<noteq> 0xC0" if "b AND 0xF0 = 0xE0"
  proof
    assume "b AND 0xE0 = 0xC0"
    then have "bit (b AND 0xE0) 5 = bit (0xC0 :: byte) 5" by simp
    moreover have "bit (b AND 0xF0) 5 = bit (0xE0 :: byte) 5" using that by simp
    ultimately show False by (simp add: bit_and_iff)
  qed
qed

text \<open>The characters that UCS-2 and the code can hold.\<close>

definition bmp :: "ucs2 \<Rightarrow> bool" where
  "bmp c \<longleftrightarrow> c \<noteq> 0 \<and> c \<noteq> 0xFFFF \<and> \<not> surrogate c"

definition utf8 :: "ucs2 list \<Rightarrow> byte list" where
  "utf8 cs = concat (map utf8_char cs)"

lemma utf8_ascii:
  assumes "c < (0x80 :: ucs2)"
  shows "(ucast c :: byte) < 0x80" "ucast (ucast c :: byte) = c"
  using assms by (simp_all add: word_less_nat_alt unsigned_ucast_eq unsigned_take_bit_eq take_bit_nat_eq_self word_unat_eq_iff)

lemma ucs2_unit_utf8:
  assumes "bmp c"
  shows "\<exists>b bs. utf8_char c = b # bs \<and> ucs2_unit b (bs @ p) = (c, p)"
proof -
  have s: "\<not> surrogate c" using assms by (simp add: bmp_def)
  consider "c < 0x80" | "\<not> c < 0x80" "c < 0x800" | "\<not> c < 0x80" "\<not> c < 0x800" by blast
  then show ?thesis
  proof cases
    case 1
    then show ?thesis using utf8_ascii [OF 1] s by (simp add: utf8_char_def ucs2_unit_def Let_def)
  next
    case 2
    note u = utf8_two [OF 2(2)]
    show ?thesis using 2 s u lead_bytes(1) [OF u(1)] by (simp add: utf8_char_def ucs2_unit_def Let_def peek_def trails_def)
  next
    case 3
    note u = utf8_three [of c]
    show ?thesis using 3 s u lead_bytes(2,3) [OF u(1)] by (simp add: utf8_char_def ucs2_unit_def Let_def peek_def trails_def)
  qed
qed

lemma ucs2_from_utf8:
  "list_all bmp cs \<Longrightarrow> length out + length cs \<le> outmax \<Longrightarrow> ucs2_from outmax (utf8 cs) out = out @ cs"
proof (induction cs arbitrary: out)
  case (Cons c cs)
  obtain b bs where b: "utf8_char c = b # bs" "ucs2_unit b (bs @ utf8 cs) = (c, utf8 cs)" using ucs2_unit_utf8 Cons.prems(1) by fastforce
  have "utf8 (c # cs) = b # (bs @ utf8 cs)" using b(1) by (simp add: utf8_def)
  then show ?case using Cons b(2) by simp
qed (simp add: utf8_def)

lemma utf8_from_ucs2:
  "list_all bmp cs \<Longrightarrow> length out + length (utf8 cs) + 3 < outmax \<Longrightarrow> ucs2_to_utf8_from outmax out cs = out @ utf8 cs"
proof (induction cs arbitrary: out)
  case (Cons c cs)
  have l: "1 \<le> length (utf8_char c)" by (simp add: utf8_char_def)
  have u: "utf8 (c # cs) = utf8_char c @ utf8 cs" by (simp add: utf8_def)
  show ?case using Cons l unfolding u by (simp add: bmp_def)
qed (simp add: utf8_def)

text \<open>Long names survive the change of encoding both ways: for characters of the basic plane without
  surrogates, \<open>utf8_to_ucs2\<close> reads a name's UTF-8 bytes back as its characters, and \<open>ucs2_to_utf8\<close> writes
  the characters as those bytes, given room for them.\<close>

theorem utf8_ucs2_roundtrip:
  assumes "list_all bmp cs" "length cs \<le> outmax" "length (utf8 cs) + 3 < outmax'"
  shows "utf8_to_ucs2 (utf8 cs) outmax = cs \<and> ucs2_to_utf8 (utf8_to_ucs2 (utf8 cs) outmax) outmax' = utf8 cs"
  using ucs2_from_utf8 [OF assms(1), of "[]" outmax] utf8_from_ucs2 [OF assms(1), of "[]" outmax'] assms(2,3)
  by (simp add: utf8_to_ucs2_def ucs2_to_utf8_def)

theorem utf8_ucs2_roundtrip_witness:
  "utf8_to_ucs2 [0x41, 0xC3, 0xA9, 0xE2, 0x82, 0xAC] 255 = [0x41, 0xE9, 0x20AC]"
proof -
  have u: "utf8 [0x41, 0xE9, 0x20AC] = [0x41, 0xC3, 0xA9, 0xE2, 0x82, 0xAC]" by (simp add: utf8_def utf8_char_def)
  have "list_all bmp [0x41, 0xE9, 0x20AC]" by (simp add: bmp_def surrogate_def)
  from utf8_ucs2_roundtrip [OF this, of 255 256] show ?thesis unfolding u by simp
qed

section \<open>Reading short names back\<close>

lemma upper_lower: "\<not> is_upper c \<Longrightarrow> lower_if True (upper c) = c"
  "\<not> is_lower c \<Longrightarrow> upper c = c" "upper c = 0x20 \<longleftrightarrow> c = 0x20" "upper c = 0 \<longleftrightarrow> c = 0"
proof -
  have l: "is_upper (c - 0x20)" "upper c = c - 0x20" "c - 0x20 \<noteq> 0x20" "c - 0x20 \<noteq> 0" if "is_lower c"
    using that by (auto simp: is_lower_def is_upper_def upper_def word_le_nat_alt unat_sub_if' word_unat_eq_iff)
  show "\<not> is_upper c \<Longrightarrow> lower_if True (upper c) = c" using l by (cases "is_lower c") (auto simp: lower_if_def upper_def)
  show "\<not> is_lower c \<Longrightarrow> upper c = c" by (simp add: upper_def)
  show "upper c = 0x20 \<longleftrightarrow> c = 0x20" "upper c = 0 \<longleftrightarrow> c = 0" using l by (cases "is_lower c"; auto simp: upper_def is_lower_def)+
qed

lemma last_dot_spec:
  "last_dot name = None \<Longrightarrow> \<forall>i. 1 \<le> i \<and> i < length name \<longrightarrow> name ! i \<noteq> 0x2E"
  "last_dot name = Some i \<Longrightarrow> 1 \<le> i \<and> i < length name \<and> name ! i = 0x2E"
proof -
  have *: "case fold (\<lambda>i dot. if name ! i = 0x2E then Some i else dot) [1..<n] None of
      None \<Rightarrow> \<forall>i. 1 \<le> i \<and> i < n \<longrightarrow> name ! i \<noteq> 0x2E | Some i \<Rightarrow> 1 \<le> i \<and> i < n \<and> name ! i = 0x2E" for n
  proof (induction n)
    case (Suc n)
    then show ?case by (cases "1 \<le> n") (auto simp: less_Suc_eq split: option.splits)
  qed simp
  show "last_dot name = None \<Longrightarrow> \<forall>i. 1 \<le> i \<and> i < length name \<longrightarrow> name ! i \<noteq> 0x2E"
    "last_dot name = Some i \<Longrightarrow> 1 \<le> i \<and> i < length name \<and> name ! i = 0x2E"
    using * [of "length name"] by (simp_all add: last_dot_def)
qed

lemma split_name_join:
  assumes "split_name name = (base, ext)"
  shows "name = base @ (if last_dot name = None then [] else 0x2E # ext)"
proof (cases "last_dot name")
  case (Some i)
  then have "name ! i = 0x2E" "i < length name" using last_dot_spec(2) by auto
  then have "name = take i name @ 0x2E # drop (i + 1) name" by (metis id_take_nth_drop Suc_eq_plus1)
  then show ?thesis using assms Some by (simp add: split_name_def)
qed (use assms in \<open>simp add: split_name_def\<close>)

lemma pad_word:
  assumes "length xs \<le> n" "\<forall>c \<in> set xs. c \<noteq> 0x20"
  shows "length (pad n xs) = n" "takeWhile (\<lambda>c. c \<noteq> 0x20) (pad n xs) = xs"
proof -
  show "length (pad n xs) = n" using assms(1) by (simp add: pad_def)
  have "takeWhile (\<lambda>c. c \<noteq> 0x20) (replicate k 0x20 :: byte list) = []" for k by (cases k) simp_all
  then show "takeWhile (\<lambda>c. c \<noteq> 0x20) (pad n xs) = xs" using assms by (simp add: pad_def)
qed

lemma cased_half:
  assumes "\<not> list_ex is_upper xs" "f \<longleftrightarrow> list_ex is_lower xs"
  shows "map (lower_if f) (map upper xs) = xs"
proof -
  have "lower_if f (upper c) = c" if "c \<in> set xs" for c
    using that assms upper_lower(1,2) [of c] by (cases f) (auto simp: list_ex_iff lower_if_def)
  then show ?thesis by (simp add: map_idI)
qed

lemma case_flags:
  "((if b then FAT_NT_BASE_LOWER else 0) OR (if e then FAT_NT_EXT_LOWER else 0)) AND FAT_NT_BASE_LOWER \<noteq> 0 \<longleftrightarrow> b"
  "((if b then FAT_NT_BASE_LOWER else 0) OR (if e then FAT_NT_EXT_LOWER else 0)) AND FAT_NT_EXT_LOWER \<noteq> 0 \<longleftrightarrow> e"
  by (cases b; cases e; simp add: fat_name_values)+

text \<open>A name stored as a short name alone is read back unchanged: when \<open>make_short_name\<close> asks for no long
  name and the name does not end in a dot, \<open>format_short\<close> gives the name back, letter case included.\<close>

theorem short_name_roundtrip:
  assumes "0 \<notin> set name" "make_short_name name = (name11, False, nt)" "last name \<noteq> 0x2E"
  shows "format_short name11 nt = name \<and> length name11 = 11"
proof -
  obtain base ext where be: "split_name name = (base, ext)" by force
  have c: "1 \<le> length base" "length base \<le> 8" "length ext \<le> 3" "\<not> list_ex is_upper base" "\<not> list_ex is_upper ext"
      "\<forall>c \<in> set base. c \<noteq> 0x20" "\<forall>c \<in> set ext. c \<noteq> 0x20"
    and o: "name11 = pad 8 (map upper base) @ pad 3 (map upper ext)"
      "nt = (if list_ex is_lower base then FAT_NT_BASE_LOWER else 0) OR (if list_ex is_lower ext then FAT_NT_EXT_LOWER else 0)"
    using assms(2) be by (auto simp: make_short_name_def Let_def list_ex_iff split: if_splits)
  note j = split_name_join [OF be]
  have pb: "length (pad 8 (map upper base)) = 8" "takeWhile (\<lambda>c. c \<noteq> 0x20) (pad 8 (map upper base)) = map upper base"
    using pad_word [of "map upper base" 8] c(2,6) upper_lower(3) by auto
  have pe: "length (pad 3 (map upper ext)) = 3" "takeWhile (\<lambda>c. c \<noteq> 0x20) (pad 3 (map upper ext)) = map upper ext"
    using pad_word [of "map upper ext" 3] c(3,7) upper_lower(3) by auto
  have t: "take 8 name11 = pad 8 (map upper base)" "take 3 (drop 8 name11) = pad 3 (map upper ext)" using o(1) pb(1) pe(1) by simp_all
  have fl: "nt AND FAT_NT_BASE_LOWER \<noteq> 0 \<longleftrightarrow> list_ex is_lower base" "nt AND FAT_NT_EXT_LOWER \<noteq> 0 \<longleftrightarrow> list_ex is_lower ext"
    unfolding o(2) by (rule case_flags)+
  have ext: "last_dot name = None \<longleftrightarrow> ext = []"
    using j assms(3) be by (auto simp: split_name_def split: option.splits)
  have "format_short name11 nt = cstr (base @ (if ext = [] then [] else 0x2E # ext))"
    unfolding format_short_def Let_def t pb(2) pe(2) fl
    using cased_half [OF c(4) refl] cased_half [OF c(5) refl] by simp
  also have "\<dots> = cstr name" using j ext by simp
  also have "\<dots> = name" using assms(1) unfolding cstr_def takeWhile_eq_all_conv by metis
  finally show ?thesis using o(1) pb(1) pe(1) by simp
qed

text \<open>\<open>readme.txt\<close>.\<close>

theorem short_name_roundtrip_witness:
  "make_short_name [0x72, 0x65, 0x61, 0x64, 0x6D, 0x65, 0x2E, 0x74, 0x78, 0x74] =
     ([0x52, 0x45, 0x41, 0x44, 0x4D, 0x45, 0x20, 0x20, 0x54, 0x58, 0x54], False, 0x18) \<and>
   format_short [0x52, 0x45, 0x41, 0x44, 0x4D, 0x45, 0x20, 0x20, 0x54, 0x58, 0x54] 0x18 =
     [0x72, 0x65, 0x61, 0x64, 0x6D, 0x65, 0x2E, 0x74, 0x78, 0x74]"
proof -
  have "make_short_name [0x72, 0x65, 0x61, 0x64, 0x6D, 0x65, 0x2E, 0x74, 0x78, 0x74] =
     ([0x52, 0x45, 0x41, 0x44, 0x4D, 0x45, 0x20, 0x20, 0x54, 0x58, 0x54], False, 0x18)"
    by code_simp
  then show ?thesis using short_name_roundtrip [of "[0x72, 0x65, 0x61, 0x64, 0x6D, 0x65, 0x2E, 0x74, 0x78, 0x74]"] by simp
qed

text \<open>A trailing dot is lost: \<open>foo.\<close> is stored as \<open>foo\<close>.\<close>

lemma short_name_drops_dot:
  "make_short_name [0x66, 0x6F, 0x6F, 0x2E] = ([0x46, 0x4F, 0x4F, 0x20, 0x20, 0x20, 0x20, 0x20, 0x20, 0x20, 0x20], False, 8) \<and>
   format_short [0x46, 0x4F, 0x4F, 0x20, 0x20, 0x20, 0x20, 0x20, 0x20, 0x20, 0x20] 8 = [0x66, 0x6F, 0x6F] \<and> valid_name [0x66, 0x6F, 0x6F, 0x2E]"
  by code_simp

text \<open>A name of three bytes that is one Chinese character is stored with the mark of a free record.\<close>

lemma short_name_looks_free:
  "make_short_name [0xE5, 0xA4, 0xA7] = ([FAT_DIR_FREE, 0xA4, 0xA7, 0x20, 0x20, 0x20, 0x20, 0x20, 0x20, 0x20, 0x20], False, 0) \<and>
   valid_name [0xE5, 0xA4, 0xA7]"
  by code_simp

text \<open>Thirteen characters of three bytes each fill the buffer before the last one.\<close>

lemma lfn_decode_drops_char: "lfn_decode [replicate 13 0x5927] 256 = utf8 (replicate 12 0x5927)"
  by code_simp

section \<open>The calendar\<close>

text \<open>The first day of year \<open>q\<close> of a 400-year era that starts in March, and the year of a day.\<close>

definition year_start :: "nat \<Rightarrow> nat" where
  "year_start q = 365 * q + q div 4 - q div 100"

definition year_of :: "nat \<Rightarrow> nat" where
  "year_of doe = (doe - doe div 1460 + doe div 36524 - doe div 146096) div 365"

lemma year_start_Suc: "year_start q + 365 \<le> year_start (Suc q)" "year_start (Suc q) \<le> year_start q + 366"
proof -
  have c: "Suc q div 4 \<le> Suc (q div 4)" "q div 4 \<le> Suc q div 4" "q div 100 \<le> Suc q div 100" "q div 100 \<le> q div 4" "Suc q div 100 \<le> Suc q div 4"
    by (simp_all add: div_le_mono div_le_mono2)
  have "Suc q div 4 = Suc (q div 4)" if "Suc q div 100 = Suc (q div 100)"
  proof -
    have "100 dvd Suc q" using that by (simp add: div_Suc mod_eq_0_iff_dvd split: if_splits)
    then have "4 dvd Suc q" by (rule dvd_trans [rotated]) simp
    then show ?thesis by (simp add: div_Suc mod_eq_0_iff_dvd)
  qed
  then have s: "Suc q div 100 = q div 100 \<or> Suc q div 100 = Suc (q div 100) \<and> Suc q div 4 = Suc (q div 4)"
    using div_Suc [of q 100] by (metis zero_neq_numeral)
  have "365 * q + a - b + 365 \<le> 365 * Suc q + a' - b' \<and> 365 * Suc q + a' - b' \<le> 365 * q + a - b + 366"
    if "a \<le> a'" "a' \<le> Suc a" "b \<le> a" "b' = b \<or> b' = Suc b \<and> a' = Suc a" for a a' b b' using that by auto
  from this [OF c(2,1,4) s] show "year_start q + 365 \<le> year_start (Suc q)" "year_start (Suc q) \<le> year_start q + 366"
    unfolding year_start_def by blast+
qed

lemma year_of_mono: "mono year_of"
proof (unfold mono_iff_le_Suc, rule allI)
  fix d :: nat
  have a: "Suc d div 1460 \<le> Suc (d div 1460)" "d div 1460 \<le> d" "Suc d div 1460 \<le> Suc d" by (simp add: div_Suc) (rule div_le_dividend)+
  have e: "d div 146096 = d div 36524 div 4" "Suc d div 146096 = Suc d div 36524 div 4" by (simp_all flip: div_mult2_eq)
  have "d div 36524 - d div 146096 \<le> Suc d div 36524 - Suc d div 146096"
  proof (cases "Suc d div 36524 = d div 36524")
    case False
    then have f: "Suc d div 36524 = Suc (d div 36524)" by (simp add: div_Suc split: if_splits)
    have "Suc x div 4 \<le> Suc (x div 4)" for x :: nat by (simp add: div_Suc)
    then have "Suc (d div 36524) div 4 \<le> Suc (d div 36524 div 4)" .
    moreover have "y \<le> Suc w \<Longrightarrow> x - w \<le> Suc x - y" for x y w :: nat by simp
    ultimately show ?thesis unfolding e f by blast
  qed (simp add: e)
  moreover have "d div 146096 \<le> d div 36524" "Suc d div 146096 \<le> Suc d div 36524" unfolding e by simp_all
  moreover have "d - x + y - z \<le> Suc d - x' + y' - z'"
    if "y - z \<le> y' - z'" "z \<le> y" "z' \<le> y'" "x' \<le> Suc x" "x \<le> d" "x' \<le> Suc d" for x y z x' y' z' using that by linarith
  ultimately have "d - d div 1460 + d div 36524 - d div 146096 \<le> Suc d - Suc d div 1460 + Suc d div 36524 - Suc d div 146096"
    using a by blast
  then show "year_of d \<le> year_of (Suc d)" unfolding year_of_def by (rule div_le_mono)
qed

text \<open>The boundaries of the years that FAT dates reach, checked one by one on integers.\<close>

definition year_check :: "int \<Rightarrow> bool" where
  "year_check q \<longleftrightarrow> (let ys = (\<lambda>q. 365 * q + q div 4 - q div 100);
     yo = (\<lambda>d. (d - d div 1460 + d div 36524 - d div 146096) div 365) in yo (ys q) = q \<and> yo (ys (q + 1) - 1) = q)"

lemma year_checked: "list_all year_check [0..107]" "list_all year_check [379..398]"
  by code_simp+

lemma year_int: "int (year_start q) = 365 * int q + int q div 4 - int q div 100"
  "int (year_of d) = (int d - int d div 1460 + int d div 36524 - int d div 146096) div 365"
proof -
  have "q div 100 \<le> 365 * q + q div 4" by (rule le_trans [OF div_le_dividend]) simp
  then show "int (year_start q) = 365 * int q + int q div 4 - int q div 100" by (simp add: year_start_def of_nat_diff zdiv_int)
  have d: "int (x - a + b - c) = int x - int a + int b - int c" if "a \<le> x" "c \<le> b" for x a b c :: nat using that by simp
  have "d div 146096 = d div 36524 div 4" by (simp flip: div_mult2_eq)
  then have "d div 146096 \<le> d div 36524" using div_le_dividend by metis
  from d [OF div_le_dividend this] show "int (year_of d) = (int d - int d div 1460 + int d div 36524 - int d div 146096) div 365"
    unfolding year_of_def by (simp only: zdiv_int of_nat_numeral)
qed

definition fat_years :: "nat set" where "fat_years = {..<108} \<union> {379..<399}"

lemma year_of_bounds:
  assumes "q \<in> fat_years"
  shows "year_of (year_start q) = q" "year_of (year_start (Suc q) - 1) = q"
proof -
  have "int q \<in> {0..107} \<or> int q \<in> {379..398}" using assms by (auto simp: fat_years_def)
  then have c: "year_check (int q)" using year_checked unfolding list_all_iff set_upto by blast
  have "1 \<le> year_start (Suc q)" using year_start_Suc(1) [of q] by simp
  then have "int (year_of (year_start (Suc q) - 1)) = int q"
    using c unfolding year_check_def Let_def by (simp add: year_int of_nat_diff add.commute)
  then show "year_of (year_start (Suc q) - 1) = q" by simp
  have "int (year_of (year_start q)) = int q" using c unfolding year_check_def Let_def by (simp add: year_int)
  then show "year_of (year_start q) = q" by simp
qed

lemma year_start_mono: "mono year_start"
  unfolding mono_iff_le_Suc using year_start_Suc(1) by (meson le_add1 order_trans)

lemma year_of_correct:
  assumes "doe < year_start 108 \<or> year_start 379 \<le> doe \<and> doe < 146097"
  shows "year_start (year_of doe) \<le> doe \<and> doe - year_start (year_of doe) \<le> 365"
proof (cases "year_start 399 \<le> doe")
  case True
  have v: "year_of 145731 = 399" "year_of 146096 = 399" "year_start 399 = 145731" "year_start 108 = 39446"
    by (simp_all add: year_of_def year_start_def)
  then have d: "145731 \<le> doe" "doe \<le> 146096" using True assms by auto
  then have "year_of doe = 399" using monoD [OF year_of_mono d(1)] monoD [OF year_of_mono d(2)] v by simp
  then show ?thesis using v d by simp
next
  case False
  define q where "q = Max {q. q < 400 \<and> year_start q \<le> doe}"
  have fin: "finite {q. q < 400 \<and> year_start q \<le> doe}" by simp
  have "0 \<in> {q. q < 400 \<and> year_start q \<le> doe}" by (simp add: year_start_def)
  then have q: "q < 400" "year_start q \<le> doe" using Max_in [OF fin] unfolding q_def by blast+
  have q9: "q < 399" using q(1) q(2) False by (cases "q = 399") auto
  have lt: "doe < year_start (Suc q)"
  proof (rule ccontr)
    assume "\<not> doe < year_start (Suc q)"
    then have "Suc q \<le> q" using q9 Max_ge [OF fin, of "Suc q"] unfolding q_def [symmetric] by simp
    then show False by simp
  qed
  have "q \<in> fat_years"
  proof (cases "doe < year_start 108")
    case True
    then have "q < 108" using monoD [OF year_start_mono, of 108 q] q(2) by (meson linorder_not_le order_le_less_trans less_irrefl)
    then show ?thesis by (simp add: fat_years_def)
  next
    case False
    then have "379 \<le> q" using assms Max_ge [OF fin, of 379] unfolding q_def [symmetric] by simp
    then show ?thesis using q9 by (simp add: fat_years_def)
  qed
  note b = year_of_bounds [OF this]
  have "year_of doe \<le> q" using monoD [OF year_of_mono, of doe "year_start (Suc q) - 1"] lt b(2) by simp
  moreover have "q \<le> year_of doe" using monoD [OF year_of_mono q(2)] b(1) by simp
  ultimately have "year_of doe = q" by simp
  then show ?thesis using lt year_start_Suc(2) [of q] q(2) by simp
qed

lemma month_of_day:
  assumes "doy \<le> (365 :: nat)" "mp = (5 * doy + 2) div 153"
  shows "mp \<le> 11" "(153 * mp + 2) div 5 \<le> doy" "doy - (153 * mp + 2) div 5 \<le> 30"
proof -
  define x where "x = (153 * mp + 2) div 5"
  have m: "mp * 153 \<le> 5 * doy + 2" "5 * doy + 2 < mp * 153 + 153"
    unfolding assms(2) using div_times_less_eq_dividend [of "5 * doy + 2" 153] dividend_less_div_times [of 153 "5 * doy + 2"] by simp_all
  have x: "x * 5 \<le> 153 * mp + 2" "153 * mp + 2 < x * 5 + 5"
    unfolding x_def using div_times_less_eq_dividend [of "153 * mp + 2" 5] dividend_less_div_times [of 5 "153 * mp + 2"] by simp_all
  show "mp \<le> 11" using m(1) assms(1) by linarith
  show "(153 * mp + 2) div 5 \<le> doy" "doy - (153 * mp + 2) div 5 \<le> 30" unfolding x_def [symmetric] using m x by linarith+
qed

lemma or_fields: "b < 2 ^ n \<Longrightarrow> push_bit n a OR b = a * 2 ^ n + (b :: nat)"
proof -
  assume "b < 2 ^ n"
  then have "take_bit n b = b" by (simp add: take_bit_nat_eq_self)
  then have "n \<le> m \<Longrightarrow> \<not> bit b m" for m by (metis bit_take_bit_iff linorder_not_le)
  then have "push_bit n a AND b = 0" by (intro bit_eqI) (auto simp: bit_simps)
  then show ?thesis by (simp add: disjunctive_add_eq_or push_bit_eq_mult)
qed

lemma and_low: "x AND 0x7F = x mod 128" "x AND 0x3F = x mod 64" "x AND 0x1F = x mod 32" "x AND 0x0F = x mod (16 :: nat)"
  using take_bit_eq_mask [of 7 x] take_bit_eq_mask [of 6 x] take_bit_eq_mask [of 5 x] take_bit_eq_mask [of 4 x]
  by (simp_all add: mask_eq_exp_minus_1 take_bit_eq_mod)

text \<open>Three packed fields and taking them apart.\<close>

lemma packed:
  assumes "b < 2 ^ (n - k)" "c < 2 ^ k" "k \<le> n"
  shows "push_bit n a OR push_bit k b OR c = a * 2 ^ n + b * 2 ^ k + (c :: nat)"
proof -
  have "b * 2 ^ k + c < (b + 1) * 2 ^ k" using assms(2) by simp
  also have "\<dots> \<le> 2 ^ (n - k) * 2 ^ k" using assms(1) by (intro mult_le_mono1) simp
  finally have "b * 2 ^ k + c < 2 ^ n" using assms(3) by (simp flip: power_add)
  then show ?thesis using or_fields [OF assms(2), of b] or_fields [of "b * 2 ^ k + c" n a] by simp
qed

lemma epoch_days:
  assumes "315532800 \<le> e" "e < (4354819200 :: nat)" "z = e div 86400 + 719468" "era = z div 146097" "doe = z - era * 146097"
  shows "era = 4 \<and> 138732 \<le> doe \<and> doe < 146097 \<or> era = 5 \<and> doe \<le> 39385" "z = era * 146097 + doe"
proof -
  have "315532800 div 86400 \<le> e div 86400" using assms(1) by (rule div_le_mono)
  moreover have "e div 86400 < 50403" using assms(2) by (simp add: less_mult_imp_div_less)
  ultimately have z: "723120 \<le> z" "z \<le> 769870" using assms(3) by simp_all
  show e: "z = era * 146097 + doe" unfolding assms(5,4) by simp
  have "4 \<le> era" using div_le_mono [OF z(1), of 146097] assms(4) by simp
  moreover have "era \<le> 5" using div_le_mono [OF z(2), of 146097] assms(4) by simp
  moreover have "doe < 146097" unfolding assms(5,4) by (simp add: minus_div_mult_eq_mod)
  moreover have "era = 4 \<or> era = 5" using calculation(1,2) by linarith
  ultimately show "era = 4 \<and> 138732 \<le> doe \<and> doe < 146097 \<or> era = 5 \<and> doe \<le> 39385" using e z by auto
qed

lemma time_fields: "s < 86400 \<Longrightarrow> s div 3600 < 32" "s div 60 mod 60 < (64 :: nat)" "s mod 60 div 2 < (32 :: nat)"
proof -
  show "s < 86400 \<Longrightarrow> s div 3600 < 32" by (rule less_mult_imp_div_less) simp
  have m: "x mod 60 < (60 :: nat)" for x by simp
  show "s div 60 mod 60 < 64" by (rule less_trans [OF m]) simp
  show "s mod 60 div 2 < 32" by (rule less_mult_imp_div_less, rule less_trans [OF m]) simp
qed

lemma fat_date:
  assumes e: "315532800 \<le> e" "e < (4354819200 :: nat)"
  shows "\<exists>y m d. fst (epoch_to_fat e) = y * 512 + m * 32 + d \<and> y < 128 \<and> 1 \<le> m \<and> m \<le> 12 \<and> 1 \<le> d \<and> d \<le> 31 \<and>
    snd (epoch_to_fat e) = e mod 86400 div 3600 * 2048 + e mod 86400 div 60 mod 60 * 32 + e mod 86400 mod 60 div 2 \<and>
    (let y' = 1980 + y - (if m \<le> 2 then 1 else 0); yoe = y' - y' div 400 * 400 in
      y' div 400 * 146097 + (yoe * 365 + yoe div 4 - yoe div 100 + ((153 * (if m > 2 then m - 3 else m + 9) + 2) div 5 + d - 1))
      = e div 86400 + 719468)"
proof -
  define z era doe where "z = e div 86400 + 719468" and "era = z div 146097" and "doe = z - era * 146097"
  note ed = epoch_days [OF e z_def era_def doe_def]
  define yoe doy mp where "yoe = year_of doe" and "doy = doe - year_start yoe" and "mp = (5 * doy + 2) div 153"
  have v: "year_start 108 = 39446" "year_start 379 = 138426" "year_start 107 = 39080" "year_start 380 = 138792" by (simp_all add: year_start_def)
  have "doe < year_start 108 \<or> year_start 379 \<le> doe \<and> doe < 146097" using ed(1) v by auto
  from year_of_correct [OF this] have yo: "year_start yoe \<le> doe" "doy \<le> 365" unfolding doy_def yoe_def by auto
  note mo = month_of_day [OF yo(2) mp_def]
  define m d where "m = (if mp < 10 then mp + 3 else mp - 9)" and "d = doy - (153 * mp + 2) div 5 + 1"
  define y where "y = yoe + era * 400 + (if m \<le> 2 then 1 else 0)"
  have md: "1 \<le> m" "m \<le> 12" "1 \<le> d" "d \<le> 31" using mo by (auto simp: m_def d_def)
  have yr: "1980 \<le> y \<and> y \<le> 2107"
    using ed(1)
  proof (elim disjE conjE)
    assume a: "era = 4" "138732 \<le> doe" "doe < 146097"
    have "379 \<le> yoe" using monoD [OF year_of_mono, of 138426 doe] a(2) year_of_bounds(1) [of 379] v by (simp add: yoe_def fat_years_def)
    moreover have "yoe \<le> 399" using monoD [OF year_of_mono, of doe 146096] a(3) by (simp add: yoe_def) (simp add: year_of_def)
    moreover have "m \<le> 2" if "yoe = 379"
    proof -
      have "306 \<le> doy" using a(2) v that by (simp add: doy_def)
      then have "10 \<le> mp" using div_le_mono [of "5 * 306 + 2" "5 * doy + 2" 153] by (simp add: mp_def)
      then show ?thesis using mo(1) by (simp add: m_def)
    qed
    ultimately show ?thesis using a(1) by (cases "yoe = 379") (auto simp: y_def)
  next
    assume a: "era = 5" "doe \<le> 39385"
    have "yoe \<le> 107" using monoD [OF year_of_mono, of doe 39445] a(2) year_of_bounds(2) [of 107] v by (simp add: yoe_def fat_years_def)
    moreover have "2 < m" if "yoe = 107"
    proof -
      have "doy \<le> 305" using a(2) v that by (simp add: doy_def)
      then have "mp \<le> 9" using div_le_mono [of "5 * doy + 2" "5 * 305 + 2" 153] by (simp add: mp_def)
      then show ?thesis by (simp add: m_def)
    qed
    ultimately show ?thesis using a(1) by (cases "yoe = 107") (auto simp: y_def)
  qed
  define h mi s2 where "h = e mod 86400 div 3600" and "mi = e mod 86400 div 60 mod 60" and "s2 = e mod 86400 mod 60 div 2"
  note hms = h_def [symmetric] mi_def [symmetric] s2_def [symmetric]
  have "epoch_to_fat e = (push_bit 9 (y - 1980) OR push_bit 5 m OR d, push_bit 11 h OR push_bit 5 mi OR s2)"
    using e(1) yr unfolding epoch_to_fat_def Let_def z_def [symmetric] era_def [symmetric] doe_def [symmetric] year_of_def [symmetric]
      yoe_def [symmetric] year_start_def [symmetric] doy_def [symmetric] mp_def [symmetric] m_def [symmetric] d_def [symmetric] y_def [symmetric] hms by simp
  moreover have "m < 2 ^ (9 - 5)" "d < 2 ^ 5" "mi < 2 ^ (11 - 5)" "s2 < 2 ^ 5" using md time_fields(2,3) [of "e mod 86400"] by (simp_all add: mi_def s2_def)
  ultimately have f: "fst (epoch_to_fat e) = (y - 1980) * 512 + m * 32 + d"
    "snd (epoch_to_fat e) = e mod 86400 div 3600 * 2048 + e mod 86400 div 60 mod 60 * 32 + e mod 86400 mod 60 div 2"
    unfolding hms using packed [of m 9 5 d] packed [of mi 11 5 s2] by simp_all
  have yb: "yoe < 400"
  proof -
    have "yoe \<le> 399" using monoD [OF year_of_mono, of doe 146096] ed(1) by (auto simp: yoe_def) (simp_all add: year_of_def)
    then show ?thesis by simp
  qed
  let ?y = "1980 + (y - 1980) - (if m \<le> 2 then 1 else 0)"
  have y1: "?y = yoe + era * 400" using yr by (auto simp: y_def)
  have c: "?y div 400 = era" "?y - era * 400 = yoe" unfolding y1 using yb by simp_all
  have c3: "(if m > 2 then m - 3 else m + 9) = mp" using mo(1) by (auto simp: m_def)
  have c4: "(153 * mp + 2) div 5 + d - 1 = doy" unfolding d_def using mo(2) by (metis add_diff_cancel_right' add.assoc le_add_diff_inverse)
  have c5: "yoe * 365 + yoe div 4 - yoe div 100 + doy = doe" using yo(1) unfolding doy_def year_start_def by (metis add.commute le_add_diff_inverse mult.commute)
  have c6: "(let y' = ?y; yoe = y' - y' div 400 * 400 in
      y' div 400 * 146097 + (yoe * 365 + yoe div 4 - yoe div 100 + ((153 * (if m > 2 then m - 3 else m + 9) + 2) div 5 + d - 1))
      = e div 86400 + 719468)" unfolding Let_def z_def [symmetric] c c3 c4 c5 by (rule ed(2) [symmetric])
  have "y - 1980 < 128" using yr by auto
  from f(1) this md f(2) c6 show ?thesis by blast
qed

lemma take_apart:
  assumes "b < 2 ^ (n - k)" "c < 2 ^ k" "k \<le> n"
  shows "(a * 2 ^ n + b * 2 ^ k + c) div 2 ^ n = a" "(a * 2 ^ n + b * 2 ^ k + c) div 2 ^ k mod 2 ^ (n - k) = b"
    "(a * 2 ^ n + b * 2 ^ k + c) mod 2 ^ k = (c :: nat)"
proof -
  have n: "2 ^ n = 2 ^ k * (2 ^ (n - k) :: nat)" using assms(3) by (simp flip: power_add)
  have e: "a * 2 ^ n + b * 2 ^ k + c = (a * 2 ^ (n - k) + b) * 2 ^ k + c" unfolding n by (simp add: algebra_simps)
  have q: "(a * 2 ^ n + b * 2 ^ k + c) div 2 ^ k = a * 2 ^ (n - k) + b" unfolding e using assms(2) by simp
  show "(a * 2 ^ n + b * 2 ^ k + c) div 2 ^ k mod 2 ^ (n - k) = b" unfolding q using assms(1) by simp
  show "(a * 2 ^ n + b * 2 ^ k + c) mod 2 ^ k = c" unfolding e using assms(2) by simp
  show "(a * 2 ^ n + b * 2 ^ k + c) div 2 ^ n = a" unfolding n div_mult2_eq q [unfolded n] using assms(1) by simp
qed

text \<open>File times survive the disk: for every second from 1980 to 2107, the date and time words that
  \<open>epoch_to_fat\<close> packs give back, through \<open>fat_to_epoch\<close>, that second rounded down to FAT's two-second steps.\<close>

theorem fat_time_roundtrip:
  assumes "315532800 \<le> e" "e < 4354819200" "epoch_to_fat e = (date, time)"
  shows "fat_to_epoch date time = e - e mod 2"
proof -
  obtain y m d where f: "date = y * 512 + m * 32 + d" "y < 128" "1 \<le> m" "m \<le> 12" "1 \<le> d" "d \<le> 31"
    "time = e mod 86400 div 3600 * 2048 + e mod 86400 div 60 mod 60 * 32 + e mod 86400 mod 60 div 2"
    and days: "let y' = 1980 + y - (if m \<le> 2 then 1 else 0); yoe = y' - y' div 400 * 400 in
      y' div 400 * 146097 + (yoe * 365 + yoe div 4 - yoe div 100 + ((153 * (if m > 2 then m - 3 else m + 9) + 2) div 5 + d - 1))
      = e div 86400 + 719468"
    using fat_date [OF assms(1,2)] unfolding assms(3) fst_conv snd_conv by blast
  let ?s = "e mod 86400"
  have b: "m < 2 ^ (9 - 5)" "d < 2 ^ 5" "?s div 60 mod 60 < 2 ^ (11 - 5)" "?s mod 60 div 2 < 2 ^ 5" "?s div 3600 < 32"
    using f(3-6) time_fields [of ?s] mod_less_divisor [of 86400 e] by simp_all
  have p: "drop_bit 9 date AND 0x7F = y" "drop_bit 5 date AND 0x0F = m" "date AND 0x1F = d" "date \<noteq> 0"
    using take_apart [OF b(1,2), of y] f(1-3) by (simp_all add: and_low drop_bit_eq_div)
  define h mi s2 where "h = ?s div 3600" and "mi = ?s div 60 mod 60" and "s2 = ?s mod 60 div 2"
  note hms = h_def [symmetric] mi_def [symmetric] s2_def [symmetric]
  have q: "drop_bit 11 time AND 0x1F = h" "drop_bit 5 time AND 0x3F = mi" "time AND 0x1F = s2"
    using take_apart [OF b(3,4) [unfolded hms], of h] f(7) [unfolded hms] b(5) [unfolded hms] by (simp_all add: and_low drop_bit_eq_div)
  have "fat_to_epoch date time = (e div 86400 + 719468 - 719468) * 86400 + h * 3600 + mi * 60 + s2 * 2"
  proof -
    have ok: "\<not> (m < 1 \<or> 12 < m \<or> d < 1 \<or> 31 < d)" using f(3-6) by simp
    define doe where "doe = (let y' = 1980 + y - (if m \<le> 2 then 1 else 0); yoe = y' - y' div 400 * 400 in
      yoe * 365 + yoe div 4 - yoe div 100 + ((153 * (if m > 2 then m - 3 else m + 9) + 2) div 5 + d - 1))"
    have "(let y' = 1980 + y - (if m \<le> 2 then 1 else 0) in y' div 400 * 146097) + doe = e div 86400 + 719468"
      using days unfolding doe_def Let_def .
    then show ?thesis unfolding fat_to_epoch_def p q if_not_P [OF p(4)] if_not_P [OF ok] Let_def doe_def by (simp only:)
  qed
  also have "\<dots> = e div 86400 * 86400 + (?s - ?s mod 2)"
  proof -
    have "?s div 60 = h * 60 + mi" unfolding h_def mi_def using div_mult_mod_eq [of "?s div 60" 60] by (simp flip: div_mult2_eq)
    moreover have "?s = ?s div 60 * 60 + ?s mod 60" by (rule div_mult_mod_eq [symmetric])
    moreover have "?s mod 60 = s2 * 2 + ?s mod 2" using div_mult_mod_eq [of "?s mod 60" 2] mod_mod_cancel [of 2 60 ?s] unfolding s2_def by simp
    ultimately have "?s = h * 3600 + mi * 60 + s2 * 2 + ?s mod 2" by linarith
    then have "?s - ?s mod 2 = h * 3600 + mi * 60 + s2 * 2" by (metis add_diff_cancel_right')
    then show ?thesis by (simp only: add_diff_cancel_right' add.assoc)
  qed
  also have "\<dots> = e - e mod 2"
  proof -
    have "?s mod 2 = e mod 2" by (rule mod_mod_cancel) simp
    moreover have "?s mod 2 \<le> ?s" by simp
    ultimately show ?thesis by (metis Nat.add_diff_assoc div_mult_mod_eq)
  qed
  finally show ?thesis .
qed

theorem fat_time_roundtrip_witness:
  "\<exists>date time. epoch_to_fat 1794935363 = (date, time) \<and> fat_to_epoch date time = 1794935362"
proof -
  obtain date time where d: "epoch_to_fat 1794935363 = (date, time)" by force
  show ?thesis using fat_time_roundtrip [OF _ _ d] d by simp
qed

end
