(* ===== verification/Fatdir.thy ===== *)
theory Fatdir
  imports Fatlive Fatname
begin

text \<open>
  Directories of a FAT volume (src/src/kernel/fs/fat32/dir.cpp): the forward scanner over the 32-byte slots
  of a directory's cluster chain, looking up, listing, creating and removing records. The node of the state
  is the directory. A callback of the scanner is a function on an accumulator that says whether to stop. The
  loops over the chain have no guard in the code; a result \<open>None\<close> stands for a loop that never ends. The
  fields of the packed structs are read at their offsets in the slot, and a fresh struct is written out as
  its 32 bytes.
\<close>

section \<open>Slots\<close>

definition FAT_DIR_END :: byte where "FAT_DIR_END = 0x00"
definition FAT_DIR_LFN_ORD_LAST :: byte where "FAT_DIR_LFN_ORD_LAST = 0x40"
definition FAT_ATTR_VOLUME_ID :: byte where "FAT_ATTR_VOLUME_ID = 0x08"
definition FAT_ATTR_DIRECTORY :: byte where "FAT_ATTR_DIRECTORY = 0x10"
definition FAT_ATTR_ARCHIVE :: byte where "FAT_ATTR_ARCHIVE = 0x20"
definition FAT_ATTR_LFN :: byte where "FAT_ATTR_LFN = 0x0F"

lemmas fat_dir_values = FAT_DIR_END_def FAT_DIR_LFN_ORD_LAST_def FAT_ATTR_VOLUME_ID_def FAT_ATTR_DIRECTORY_def FAT_ATTR_ARCHIVE_def FAT_ATTR_LFN_def FAT_DIR_FREE_def

definition e_name :: "byte list \<Rightarrow> byte list" where "e_name e = take 11 e"
definition e_attr :: "byte list \<Rightarrow> byte" where "e_attr e = e ! 11"
definition e_nt_flags :: "byte list \<Rightarrow> byte" where "e_nt_flags e = e ! 12"
definition l_order :: "byte list \<Rightarrow> byte" where "l_order e = e ! 0"
definition l_checksum :: "byte list \<Rightarrow> byte" where "l_checksum e = e ! 13"

definition ucs2_at :: "byte list \<Rightarrow> nat \<Rightarrow> ucs2" where
  "ucs2_at e i = ucast (e ! i) OR push_bit 8 (ucast (e ! (i + 1)))"

definition l_chars :: "byte list \<Rightarrow> ucs2 list" where
  "l_chars e = map (\<lambda>k. ucs2_at e (1 + 2 * k)) [0..<5] @ map (\<lambda>k. ucs2_at e (14 + 2 * k)) [0..<6] @ map (\<lambda>k. ucs2_at e (28 + 2 * k)) [0..<2]"

definition le_ucs2 :: "ucs2 \<Rightarrow> byte list" where
  "le_ucs2 c = [ucast c, ucast (drop_bit 8 c)]"

definition le16 :: "nat \<Rightarrow> byte list" where
  "le16 v = [word_of_nat v, word_of_nat (v div 256)]"

definition entries_per_cluster :: "fat_super \<Rightarrow> nat" where
  "entries_per_cluster b = cluster_size b div 32"

definition entries_per_sector :: "fat_super \<Rightarrow> nat" where
  "entries_per_sector b = bytes_per_sector b div 32"

section \<open>The scanner\<close>

record scan_ctx =
  chars :: "ucs2 list list"
  run_count :: nat
  expect :: nat
  run_valid :: bool
  checksum :: byte

definition lfn_reset :: "scan_ctx \<Rightarrow> scan_ctx" where
  "lfn_reset sc = sc\<lparr>run_count := 0, expect := 0, run_valid := False, checksum := 0\<rparr>"

text \<open>The characters are unset at first; a run hands out only slots it has stored.\<close>

definition scan_start :: scan_ctx where
  "scan_start = lfn_reset \<lparr>chars = replicate MAX_LFN_ENTRIES (replicate LFN_CHARS_PER_ENTRY 0), run_count = 0, expect = 0,
     run_valid = False, checksum = 0\<rparr>"

definition lfn_slot :: "scan_ctx \<Rightarrow> byte list \<Rightarrow> scan_ctx" where
  "lfn_slot sc e =
     (let ord = unat (l_order e AND 0x3F);
          sc1 = (if l_order e AND FAT_DIR_LFN_ORD_LAST \<noteq> 0
                 then (lfn_reset sc)\<lparr>checksum := l_checksum e, expect := ord, run_count := ord\<rparr> else sc) in
      if ord \<ge> 1 \<and> ord \<le> MAX_LFN_ENTRIES \<and> l_checksum e = checksum sc1 \<and> ord = expect sc1
      then sc1\<lparr>chars := (chars sc1)[ord - 1 := l_chars e], expect := ord - 1,
               run_valid := (if ord - 1 = 0 then True else run_valid sc1)\<rparr>
      else lfn_reset sc1)"

type_synonym 'a scan_cb = "'a \<Rightarrow> byte list \<Rightarrow> nat \<Rightarrow> nat \<Rightarrow> nat \<Rightarrow> scan_ctx option \<Rightarrow> bool \<times> 'a"

definition scan_entry :: "'a scan_cb \<Rightarrow> byte list \<Rightarrow> nat \<Rightarrow> nat \<Rightarrow> nat \<Rightarrow> scan_ctx \<Rightarrow> 'a \<Rightarrow> bool \<times> scan_ctx \<times> 'a" where
  "scan_entry cb e sno lba off sc a =
     (if e ! 0 = FAT_DIR_END then (True, sc, a)
      else if e ! 0 = FAT_DIR_FREE then (False, lfn_reset sc, a)
      else if e_attr e AND FAT_ATTR_LFN = FAT_ATTR_LFN then (False, lfn_slot sc e, a)
      else if e_attr e AND FAT_ATTR_VOLUME_ID \<noteq> 0 then (False, lfn_reset sc, a)
      else let use = (if run_valid sc \<and> run_count sc > 0 \<and> checksum sc = short_checksum (e_name e) then Some sc else None) in
        case cb a e sno lba off use of
          (True, a1) \<Rightarrow> (True, sc, a1)
        | (False, a1) \<Rightarrow> (False, lfn_reset sc, a1))"

fun scan_sector :: "'a scan_cb \<Rightarrow> sector \<Rightarrow> nat \<Rightarrow> nat list \<Rightarrow> nat \<Rightarrow> scan_ctx \<Rightarrow> 'a \<Rightarrow> bool \<times> nat \<times> scan_ctx \<times> 'a" where
  "scan_sector cb b lba [] sno sc a = (False, sno, sc, a)"
| "scan_sector cb b lba (i # is) sno sc a =
     (case scan_entry cb (take 32 (drop (i * 32) b)) sno lba (i * 32) sc a of
        (True, sc1, a1) \<Rightarrow> (True, sno, sc1, a1)
      | (False, sc1, a1) \<Rightarrow> scan_sector cb b lba is (u32 (sno + 1)) sc1 a1)"

fun scan_cluster :: "'a scan_cb \<Rightarrow> nat \<Rightarrow> nat list \<Rightarrow> nat \<Rightarrow> scan_ctx \<Rightarrow> 'a \<Rightarrow> fat_st \<Rightarrow> bool res \<times> nat \<times> scan_ctx \<times> 'a \<times> fat_st" where
  "scan_cluster cb cluster [] sno sc a s = (Inr False, sno, sc, a, s)"
| "scan_cluster cb cluster (sec # secs) sno sc a s =
     (let b = sb s; lba = u32 (cluster_lba b cluster + sec) in
      case cache_get (dsk s) (Some (sb_dev b)) lba of
        (Inl e, d) \<Rightarrow> (Inl e, sno, sc, a, s\<lparr>dsk := d\<rparr>)
      | (Inr i, d) \<Rightarrow>
          (case scan_sector cb (data (buf_at d i)) lba [0..<entries_per_sector b] sno sc a of
             (stop, slot1, sc1, a1) \<Rightarrow>
               if stop then (Inr True, slot1, sc1, a1, s\<lparr>dsk := cache_put d i False\<rparr>)
               else scan_cluster cb cluster secs slot1 sc1 a1 (s\<lparr>dsk := cache_put d i False\<rparr>)))"

partial_function (option) scan_chain :: "'a scan_cb \<Rightarrow> nat \<Rightarrow> nat \<Rightarrow> scan_ctx \<Rightarrow> 'a \<Rightarrow> fat_st \<Rightarrow> (unit res \<times> 'a \<times> fat_st) option" where
  "scan_chain cb cluster sno sc a s =
     (case scan_cluster cb cluster [0..<sectors_per_cluster (sb s)] sno sc a s of
        (r, slot1, sc1, a1, s1) \<Rightarrow>
          (case r of Inl e \<Rightarrow> Some (Inl e, a1, s1)
           | Inr stop \<Rightarrow>
               if stop then Some (Inr (), a1, s1)
               else case read_entry s1 cluster of
                 (q, s2) \<Rightarrow>
                   (case q of Inl e \<Rightarrow> Some (Inl e, a1, s2)
                    | Inr next \<Rightarrow>
                        if next < 2 \<or> next \<ge> FAT_CLUSTER_EOC then Some (Inr (), a1, s2)
                        else scan_chain cb next slot1 sc1 a1 s2)))"

definition scan_dir :: "'a scan_cb \<Rightarrow> 'a \<Rightarrow> fat_st \<Rightarrow> (unit res \<times> 'a \<times> fat_st) option" where
  "scan_dir cb a s =
     (let cluster = first_cluster (fn s) in
      if cluster < 2 then Some (Inl EINVAL, a, s) else scan_chain cb cluster 0 scan_start a s)"

section \<open>Slot addressing\<close>

definition slot_location :: "fat_st \<Rightarrow> nat \<Rightarrow> (nat \<times> nat) res \<times> fat_st" where
  "slot_location s index =
     (let epc = entries_per_cluster (sb s) in
      bindE (cluster_at s (index div epc)) (\<lambda>cluster s1.
        let byte = (index mod epc) * 32 in
        (Inr (u32 (cluster_lba (sb s1) cluster + byte div bytes_per_sector (sb s1)), byte mod bytes_per_sector (sb s1)), s1)))"

section \<open>Reading records\<close>

definition run_name :: "scan_ctx \<Rightarrow> byte list" where
  "run_name sc = lfn_decode (take (run_count sc) (chars sc)) (NAME_MAX + 1)"

definition short_name_of :: "byte list \<Rightarrow> byte list" where
  "short_name_of e = format_short (e_name e) (e_nt_flags e)"

record fat_dirent =
  entry :: "byte list"
  lfn :: "byte list"
  has_lfn :: bool

definition next_record_cb :: "nat \<Rightarrow> (fat_dirent \<times> nat) option scan_cb" where
  "next_record_cb from_slot a e sno lba off use =
     (if sno < from_slot then (False, a)
      else (True, Some (case use of
          Some sc \<Rightarrow> \<lparr>entry = e, lfn = run_name sc, has_lfn = (run_name sc \<noteq> [])\<rparr>
        | None \<Rightarrow> \<lparr>entry = e, lfn = short_name_of e, has_lfn = False\<rparr>, sno)))"

text \<open>The record, its slot and the next cookie, or nothing at the end.\<close>

definition next_record :: "fat_st \<Rightarrow> nat \<Rightarrow> ((fat_dirent \<times> nat \<times> nat) option res \<times> fat_st) option" where
  "next_record s cookie =
     (case scan_dir (next_record_cb cookie) None s of
        None \<Rightarrow> None
      | Some (Inl e, a, s1) \<Rightarrow> Some (Inl e, s1)
      | Some (Inr _, a, s1) \<Rightarrow> Some (Inr (map_option (\<lambda>(d, sno). (d, sno, sno + 1)) a), s1))"

definition find_cb :: "byte list \<Rightarrow> (fat_dirent \<times> nat \<times> nat \<times> nat) option scan_cb" where
  "find_cb name a e sno lba off use =
     (let shown = (case use of Some sc \<Rightarrow> run_name sc | None \<Rightarrow> short_name_of e) in
      if eq_nocase shown name \<or> use \<noteq> None \<and> eq_nocase (short_name_of e) name
      then (True, Some (\<lparr>entry = e, lfn = shown, has_lfn = (use \<noteq> None)\<rparr>, sno, lba, off))
      else (False, a))"

definition find_dir :: "fat_st \<Rightarrow> byte list \<Rightarrow> ((fat_dirent \<times> nat \<times> nat \<times> nat) option res \<times> fat_st) option" where
  "find_dir s name =
     (case scan_dir (find_cb name) None s of
        None \<Rightarrow> None
      | Some (Inl e, a, s1) \<Rightarrow> Some (Inl e, s1)
      | Some (Inr _, a, s1) \<Rightarrow> Some (Inr a, s1))"

section \<open>Making room\<close>

text \<open>The last cluster of the directory, with \<open>n\<close> steps left before the guard.\<close>

fun dir_last :: "nat \<Rightarrow> fat_st \<Rightarrow> nat \<Rightarrow> nat res \<times> fat_st" where
  "dir_last n s lastc =
     bindE (read_entry s lastc) (\<lambda>next s1.
       if next < 2 \<or> next \<ge> FAT_CLUSTER_EOC then (Inr lastc, s1)
       else case n of 0 \<Rightarrow> (Inl EIO, s1) | Suc m \<Rightarrow> dir_last m s1 next)"

declare dir_last.simps [simp del]

definition grow_dir :: "fat_st \<Rightarrow> unit res \<times> fat_st" where
  "grow_dir s =
     bindE (dir_last (u32 (total_clusters (sb s) + 2)) s (first_cluster (fn s))) (\<lambda>lastc s1.
     bindE (alloc_cluster s1) (\<lambda>newc s2.
       case write_cluster s2 newc (replicate (cluster_size (sb s2)) 0) of
         (Inl e, s3) \<Rightarrow> (Inl e, snd (write_entry s3 newc FAT_CLUSTER_FREE))
       | (Inr _, s3) \<Rightarrow>
         (case write_entry s3 lastc newc of
            (Inl e, s4) \<Rightarrow> (Inl e, snd (write_entry s4 newc FAT_CLUSTER_FREE))
          | (Inr _, s4) \<Rightarrow> (Inr (), s4\<lparr>fn := (fn s4)\<lparr>last_index := 0xFFFFFFFF, last_cluster := 0\<rparr>\<rparr>))))"

text \<open>The search for a run of free slots: the length of the current run and where it started; \<open>Inl\<close> when
  a run is long enough.\<close>

fun run_sector :: "nat \<Rightarrow> sector \<Rightarrow> nat list \<Rightarrow> nat \<Rightarrow> nat \<Rightarrow> nat \<Rightarrow> nat + nat \<times> nat \<times> nat" where
  "run_sector need b [] sno run run_start = Inr (sno, run, run_start)"
| "run_sector need b (i # is) sno run run_start =
     (if b ! (i * 32) = FAT_DIR_FREE \<or> b ! (i * 32) = FAT_DIR_END
      then let start = (if run = 0 then sno else run_start) in
        if run + 1 \<ge> need then Inl start
        else run_sector need b is (u32 (sno + 1)) (run + 1) start
      else run_sector need b is (u32 (sno + 1)) 0 run_start)"

fun run_cluster :: "nat \<Rightarrow> nat \<Rightarrow> nat list \<Rightarrow> nat \<Rightarrow> nat \<Rightarrow> nat \<Rightarrow> fat_st \<Rightarrow> (nat + nat \<times> nat \<times> nat) res \<times> fat_st" where
  "run_cluster need cluster [] sno run run_start s = (Inr (Inr (sno, run, run_start)), s)"
| "run_cluster need cluster (sec # secs) sno run run_start s =
     (let b = sb s; lba = u32 (cluster_lba b cluster + sec) in
      case cache_get (dsk s) (Some (sb_dev b)) lba of
        (Inl e, d) \<Rightarrow> (Inl e, s\<lparr>dsk := d\<rparr>)
      | (Inr i, d) \<Rightarrow>
          (case run_sector need (data (buf_at d i)) [0..<entries_per_sector b] sno run run_start of
             Inl start \<Rightarrow> (Inr (Inl start), s\<lparr>dsk := cache_put d i False\<rparr>)
           | Inr (slot1, run1, start1) \<Rightarrow> run_cluster need cluster secs slot1 run1 start1 (s\<lparr>dsk := cache_put d i False\<rparr>)))"

partial_function (option) run_chain :: "nat \<Rightarrow> nat \<Rightarrow> nat \<Rightarrow> nat \<Rightarrow> nat \<Rightarrow> fat_st \<Rightarrow> (nat option res \<times> fat_st) option" where
  "run_chain need cluster sno run run_start s =
     (case run_cluster need cluster [0..<sectors_per_cluster (sb s)] sno run run_start s of
        (r, s1) \<Rightarrow>
          (case r of Inl e \<Rightarrow> Some (Inl e, s1)
           | Inr found \<Rightarrow>
             (case found of Inl start \<Rightarrow> Some (Inr (Some start), s1)
              | Inr p \<Rightarrow>
                 (case read_entry s1 cluster of
                    (q, s2) \<Rightarrow>
                      (case q of Inl e \<Rightarrow> Some (Inl e, s2)
                       | Inr next \<Rightarrow>
                           if next < 2 \<or> next \<ge> FAT_CLUSTER_EOC then Some (Inr None, s2)
                           else run_chain need next (fst p) (fst (snd p)) (snd (snd p)) s2)))))"

partial_function (option) reserve_run :: "fat_st \<Rightarrow> nat \<Rightarrow> (nat res \<times> fat_st) option" where
  "reserve_run s need =
     Option.bind (run_chain need (first_cluster (fn s)) 0 0 0 s) (\<lambda>(r, s1).
       case r of Inl e \<Rightarrow> Some (Inl e, s1)
       | Inr found \<Rightarrow>
           (case found of Some start \<Rightarrow> Some (Inr start, s1)
            | None \<Rightarrow>
                (case grow_dir s1 of
                   (q, s2) \<Rightarrow> (case q of Inl e \<Rightarrow> Some (Inl e, s2) | Inr u \<Rightarrow> reserve_run s2 need))))"

section \<open>Creating\<close>

definition exists_cb :: "byte list \<Rightarrow> bool scan_cb" where
  "exists_cb name11 a e sno lba off use = (if e_name e = name11 then (True, True) else (False, a))"

definition exists_short :: "fat_st \<Rightarrow> byte list \<Rightarrow> (bool res \<times> fat_st) option" where
  "exists_short s name11 =
     (case scan_dir (exists_cb name11) False s of
        None \<Rightarrow> None
      | Some (Inl e, a, s1) \<Rightarrow> Some (Inl e, s1)
      | Some (Inr _, a, s1) \<Rightarrow> Some (Inr a, s1))"

fun alias_digits :: "nat \<Rightarrow> byte list" where
  "alias_digits v = (if v = 0 then [] else alias_digits (v div 10) @ [0x30 + word_of_nat (v mod 10)])"

declare alias_digits.simps [simp del]

text \<open>\<open>BASENA~N\<close>; the base has no spaces behind it to strip.\<close>

definition alias_name :: "byte list \<Rightarrow> nat \<Rightarrow> byte list" where
  "alias_name alias n =
     (let suffix = 0x7E # alias_digits n; keep = 8 - length suffix;
          base = take keep (takeWhile (\<lambda>c. c \<noteq> 0x20) (take 8 alias)) in
      pad 8 (base @ suffix) @ take 3 (drop 8 alias))"

partial_function (option) free_alias :: "fat_st \<Rightarrow> byte list \<Rightarrow> nat \<Rightarrow> (byte list res \<times> fat_st) option" where
  "free_alias s alias n =
     (if length (0x7E # alias_digits n) > 7 then Some (Inl ENAMETOOLONG, s)
      else Option.bind (exists_short s (alias_name alias n)) (\<lambda>(r, s1).
        case r of Inl e \<Rightarrow> Some (Inl e, s1)
        | Inr taken \<Rightarrow>
            if \<not> taken then Some (Inr (alias_name alias n), s1)
            else if n = 999999 then Some (Inl EEXIST, s1)
            else free_alias s1 alias (n + 1)))"

definition choose_short :: "fat_st \<Rightarrow> byte list \<Rightarrow> bool \<Rightarrow> (byte list res \<times> fat_st) option" where
  "choose_short s alias needs_lfn =
     (if needs_lfn then free_alias s alias 1
      else Option.bind (exists_short s alias) (\<lambda>(r, s1).
        case r of Inl e \<Rightarrow> Some (Inl e, s1)
        | Inr taken \<Rightarrow> Some (if taken then Inl EEXIST else Inr alias, s1)))"

text \<open>Writing one slot; gives its place.\<close>

definition put_slot :: "fat_st \<Rightarrow> nat \<Rightarrow> byte list \<Rightarrow> (nat \<times> nat) res \<times> fat_st" where
  "put_slot s sno bytes =
     bindE (slot_location s sno) (\<lambda>(lba, off) s1.
       case cache_get (dsk s1) (Some (sb_dev (sb s1))) lba of
         (Inl e, d) \<Rightarrow> (Inl e, s1\<lparr>dsk := d\<rparr>)
       | (Inr i, d) \<Rightarrow>
           (Inr (lba, off), s1\<lparr>dsk := cache_put (set_data d i (take off (data (buf_at d i)) @ bytes @ drop (off + 32) (data (buf_at d i)))) i True\<rparr>))"

definition lfn_char :: "ucs2 list \<Rightarrow> nat \<Rightarrow> ucs2" where
  "lfn_char u16 ci = (if ci < length u16 then u16 ! ci else if ci = length u16 then 0x0000 else 0xFFFF)"

definition lfn_entry :: "ucs2 list \<Rightarrow> nat \<Rightarrow> byte \<Rightarrow> nat \<Rightarrow> byte list" where
  "lfn_entry u16 lfn_slots cksum s =
     (let ch = (\<lambda>i. le_ucs2 (lfn_char u16 ((s - 1) * LFN_CHARS_PER_ENTRY + i))) in
      [word_of_nat s OR (if s = lfn_slots then FAT_DIR_LFN_ORD_LAST else 0)] @ concat (map ch [0..<5]) @
      [FAT_ATTR_LFN, 0, cksum] @ concat (map ch [5..<11]) @ [0, 0] @ concat (map ch [11..<13]))"

fun put_lfns :: "fat_st \<Rightarrow> ucs2 list \<Rightarrow> nat \<Rightarrow> byte \<Rightarrow> nat \<Rightarrow> nat list \<Rightarrow> unit res \<times> fat_st" where
  "put_lfns s u16 lfn_slots cksum run_start [] = (Inr (), s)"
| "put_lfns s u16 lfn_slots cksum run_start (k # ks) =
     bindE (put_slot s (u32 (run_start + (lfn_slots - k))) (lfn_entry u16 lfn_slots cksum k)) (\<lambda>_ s1.
       put_lfns s1 u16 lfn_slots cksum run_start ks)"

definition new_entry :: "byte list \<Rightarrow> bool \<Rightarrow> byte \<Rightarrow> nat \<Rightarrow> nat \<Rightarrow> byte list" where
  "new_entry short_name is_dir nt cluster now =
     (let (date, time) = epoch_to_fat now in
      short_name @ [FAT_ATTR_ARCHIVE OR (if is_dir then FAT_ATTR_DIRECTORY else 0), nt, 0] @
      le16 time @ le16 date @ le16 date @ le16 (cluster div 65536) @ le16 time @ le16 date @ le16 (cluster mod 65536) @
      [0, 0, 0, 0])"

definition lfn_slots_of :: "bool \<Rightarrow> nat \<Rightarrow> nat" where
  "lfn_slots_of needs_lfn ucount =
     (if needs_lfn then ucount div LFN_CHARS_PER_ENTRY + (if ucount mod LFN_CHARS_PER_ENTRY \<noteq> 0 then 1 else 0) else 0)"

text \<open>The slot, and the place, of the new record.\<close>

definition create_dir :: "fat_st \<Rightarrow> byte list \<Rightarrow> bool \<Rightarrow> nat \<Rightarrow> ((nat \<times> nat \<times> nat) res \<times> fat_st) option" where
  "create_dir s name is_dir cluster =
     (if \<not> valid_name name then Some (Inl EINVAL, s)
      else Option.bind (find_dir s name) (\<lambda>(r, s1). case r of Inl e \<Rightarrow> Some (Inl e, s1)
      | Inr (Some _) \<Rightarrow> Some (Inl EEXIST, s1)
      | Inr None \<Rightarrow>
        (let u16 = utf8_to_ucs2 name NAME_MAX; (alias, needs_lfn, nt_flags) = make_short_name name in
         Option.bind (choose_short s1 alias needs_lfn) (\<lambda>(r, s2). case r of Inl e \<Rightarrow> Some (Inl e, s2)
         | Inr short_name \<Rightarrow>
           (let lfn_slots = lfn_slots_of needs_lfn (length u16) in
            if lfn_slots > MAX_LFN_ENTRIES then Some (Inl ENAMETOOLONG, s2)
            else Option.bind (reserve_run s2 (lfn_slots + 1)) (\<lambda>(r, s3). case r of Inl e \<Rightarrow> Some (Inl e, s3)
            | Inr run_start \<Rightarrow>
                Some (bindE (put_lfns s3 u16 lfn_slots (short_checksum short_name) run_start [1..<lfn_slots + 1]) (\<lambda>_ s4.
                  bindE (put_slot s4 (u32 (run_start + lfn_slots))
                      (new_entry short_name is_dir (if needs_lfn then 0 else nt_flags) cluster (epoch s4))) (\<lambda>(lba, off) s5.
                    (Inr (u32 (run_start + lfn_slots), lba, off), s5))))))))))"

section \<open>Removing and updating\<close>

text \<open>The long-name slots before \<open>index\<close>, freed while their checksum matches; errors end it silently.\<close>

fun remove_lfns :: "nat \<Rightarrow> byte \<Rightarrow> fat_st \<Rightarrow> fat_st" where
  "remove_lfns 0 cksum s = s"
| "remove_lfns (Suc index) cksum s =
     (case slot_location s index of
        (Inl e, s1) \<Rightarrow> s1
      | (Inr (lba, off), s1) \<Rightarrow>
        (case cache_get (dsk s1) (Some (sb_dev (sb s1))) lba of
           (Inl e, d) \<Rightarrow> s1\<lparr>dsk := d\<rparr>
         | (Inr i, d) \<Rightarrow>
           (let raw = take 32 (drop off (data (buf_at d i))) in
            if e_attr raw AND FAT_ATTR_LFN = FAT_ATTR_LFN \<and> raw ! 0 \<noteq> FAT_DIR_FREE \<and> l_checksum raw = cksum
            then remove_lfns index cksum (s1\<lparr>dsk := cache_put (set_data d i ((data (buf_at d i))[off := FAT_DIR_FREE])) i True\<rparr>)
            else s1\<lparr>dsk := cache_put d i False\<rparr>)))"

definition remove_dir :: "fat_st \<Rightarrow> nat \<Rightarrow> unit res \<times> fat_st" where
  "remove_dir s index =
     bindE (slot_location s index) (\<lambda>(lba, off) s1.
       case cache_get (dsk s1) (Some (sb_dev (sb s1))) lba of
         (Inl e, d) \<Rightarrow> (Inl e, s1\<lparr>dsk := d\<rparr>)
       | (Inr i, d) \<Rightarrow>
           (let e = take 32 (drop off (data (buf_at d i))) in
            if e ! 0 = FAT_DIR_FREE \<or> e ! 0 = FAT_DIR_END then (Inl ENOENT, s1\<lparr>dsk := cache_put d i False\<rparr>)
            else (Inr (), remove_lfns index (short_checksum (e_name e))
              (s1\<lparr>dsk := cache_put (set_data d i ((data (buf_at d i))[off := FAT_DIR_FREE])) i True\<rparr>))))"

definition set_bytes :: "byte list \<Rightarrow> nat \<Rightarrow> byte list \<Rightarrow> byte list" where
  "set_bytes e i bs = take i e @ bs @ drop (i + length bs) e"

definition updated_entry :: "byte list \<Rightarrow> nat \<Rightarrow> nat \<Rightarrow> nat \<Rightarrow> nat \<Rightarrow> nat \<Rightarrow> byte list" where
  "updated_entry e sz cluster mt at now =
     (let (date, time) = epoch_to_fat (if mt \<noteq> 0 then mt else now);
          e = wr32 e 28 (u32 sz);
          e = set_bytes e 20 (le16 (cluster div 65536)); e = set_bytes e 26 (le16 (cluster mod 65536));
          e = set_bytes e 24 (le16 date); e = set_bytes e 22 (le16 time) in
      if at \<noteq> 0 then set_bytes e 18 (le16 (fst (epoch_to_fat at))) else e)"

definition update_entry :: "fat_st \<Rightarrow> nat \<Rightarrow> unit res \<times> fat_st" where
  "update_entry s at =
     (let n = fn s in
      if entry_index n = 0xFFFFFFFF then (Inr (), s)
      else case cache_get (dsk s) (Some (sb_dev (sb s))) (entry_lba n) of
        (Inl e, d) \<Rightarrow> (Inl e, s\<lparr>dsk := d\<rparr>)
      | (Inr i, d) \<Rightarrow>
          (let x = data (buf_at d i); off = entry_off n;
               e = updated_entry (take 32 (drop off x)) (vsize s) (first_cluster n) (mtime s) at (epoch s) in
           (Inr (), s\<lparr>dsk := cache_put (set_data d i (take off x @ e @ drop (off + 32) x)) i True, vdirty := False\<rparr>)))"

section \<open>A directory as a list of slots\<close>

definition slot_of :: "byte list \<Rightarrow> nat \<Rightarrow> byte list" where
  "slot_of B k = take 32 (drop (32 * k) B)"

definition slots_in :: "byte list \<Rightarrow> byte list list" where
  "slots_in B = map (slot_of B) [0..<length B div 32]"

definition dir_slots :: "fat_super \<Rightarrow> (nat \<Rightarrow> nat \<Rightarrow> sector) \<Rightarrow> nat list \<Rightarrow> byte list list" where
  "dir_slots g V cs = slots_in (chain_bytes g V cs)"

text \<open>Where slot \<open>k\<close> of the chain \<open>cs\<close> is on the device.\<close>

definition slot_lba :: "fat_super \<Rightarrow> nat list \<Rightarrow> nat \<Rightarrow> nat" where
  "slot_lba g cs k = clba g (cs ! (k div entries_per_cluster g)) + (k mod entries_per_cluster g) * 32 div bytes_per_sector g"

definition slot_off :: "fat_super \<Rightarrow> nat \<Rightarrow> nat" where
  "slot_off g k = (k mod entries_per_cluster g) * 32 mod bytes_per_sector g"

text \<open>The scanner on a list of slots.\<close>

fun visit :: "'a scan_cb \<Rightarrow> (nat \<Rightarrow> nat) \<Rightarrow> (nat \<Rightarrow> nat) \<Rightarrow> byte list list \<Rightarrow> nat \<Rightarrow> scan_ctx \<Rightarrow> 'a \<Rightarrow> bool \<times> scan_ctx \<times> 'a" where
  "visit cb L P [] k sc a = (False, sc, a)"
| "visit cb L P (e # es) k sc a =
     (case scan_entry cb e k (L k) (P k) sc a of
        (True, sc1, a1) \<Rightarrow> (True, sc1, a1)
      | (False, sc1, a1) \<Rightarrow> visit cb L P es (Suc k) sc1 a1)"

lemma visit_append:
  "visit cb L P (xs @ ys) k sc a =
     (case visit cb L P xs k sc a of (True, sc1, a1) \<Rightarrow> (True, sc1, a1) | (False, sc1, a1) \<Rightarrow> visit cb L P ys (k + length xs) sc1 a1)"
  by (induction xs arbitrary: k sc a) (auto split: prod.splits bool.splits)

lemma slots_in_append:
  assumes "32 dvd length X"
  shows "slots_in (X @ Y) = slots_in X @ slots_in Y"
proof -
  obtain n where n: "length X = 32 * n" using assms by blast
  have a: "map (slot_of (X @ Y)) [0..<n] = map (slot_of X) [0..<n]"
  proof (rule map_cong [OF refl])
    fix k assume "k \<in> set [0..<n]"
    then have "32 * k + 32 \<le> length X" using n by auto
    then show "slot_of (X @ Y) k = slot_of X k" by (simp add: slot_of_def)
  qed
  have b: "map (slot_of (X @ Y)) [n..<n + m] = map (slot_of Y) [0..<m]" for m
  proof (rule nth_equalityI)
    fix k assume "k < length (map (slot_of (X @ Y)) [n..<n + m])"
    then show "map (slot_of (X @ Y)) [n..<n + m] ! k = map (slot_of Y) [0..<m] ! k" using n by (simp add: slot_of_def algebra_simps)
  qed simp
  have l: "length (X @ Y) div 32 = n + length Y div 32" "length X div 32 = n" using n by simp_all
  have "[0..<n + length Y div 32] = [0..<n] @ [n..<n + length Y div 32]" by (rule upt_add_eq_append) simp
  then show ?thesis unfolding slots_in_def l by (simp only: map_append a b)
qed

lemma slots_in_nth: "k < length B div 32 \<Longrightarrow> slots_in B ! k = slot_of B k" "length (slots_in B) = length B div 32"
  by (simp_all add: slots_in_def)

text \<open>One sector.\<close>

lemma scan_sector_visit:
  assumes "\<And>j. j < n \<Longrightarrow> L (k + j) = lba \<and> P (k + j) = (i + j) * 32" "k + n < 2 ^ 32" "(i + n) * 32 \<le> m" "m \<le> length b"
  shows "scan_sector cb b lba [i..<i + n] k sc a =
    (case visit cb L P (map (slot_of (take m b)) [i..<i + n]) k sc a of (st, sc1, a1) \<Rightarrow>
      (st, fst (snd (scan_sector cb b lba [i..<i + n] k sc a)), sc1, a1)) \<and>
    (\<not> fst (scan_sector cb b lba [i..<i + n] k sc a) \<longrightarrow> fst (snd (scan_sector cb b lba [i..<i + n] k sc a)) = k + n)"
  using assms
proof (induction n arbitrary: i k sc a)
  case (Suc n)
  have u: "[i..<i + Suc n] = i # [Suc i..<Suc i + n]" by (simp add: upt_rec)
  have s: "take 32 (drop (i * 32) b) = slot_of (take m b) i"
    using Suc.prems(3,4) by (simp add: slot_of_def drop_take min_def mult.commute)
  have lo: "L k = lba" "P k = i * 32" using Suc.prems(1) [of 0] by auto
  have k: "u32 (k + 1) = Suc k" using Suc.prems(2) by (simp add: u32_def)
  obtain st sc1 a1 where e: "scan_entry cb (slot_of (take m b) i) k lba (i * 32) sc a = (st, sc1, a1)" by (metis prod_cases3)
  show ?case
  proof (cases st)
    case True
    then show ?thesis unfolding u using e s lo by simp
  next
    case False
    have "L (Suc k + j) = lba \<and> P (Suc k + j) = (Suc i + j) * 32" if "j < n" for j using Suc.prems(1) [of "Suc j"] that by simp
    from Suc.IH [OF this, of sc1 a1] Suc.prems(2-4) show ?thesis unfolding u using e s lo False k by (simp add: split_beta)
  qed
qed simp

lemma layout_cluster: "layout x g \<Longrightarrow> cluster_size g = sectors_per_cluster g * bytes_per_sector g" "layout x g \<Longrightarrow> 0 < sectors_per_cluster g"
  by (auto simp: layout_def)

lemma slot_geometry:
  assumes "layout x g" "32 dvd bytes_per_sector g"
  shows "bytes_per_sector g = 32 * entries_per_sector g" "entries_per_cluster g = sectors_per_cluster g * entries_per_sector g"
    "0 < entries_per_sector g" "cluster_size g = 32 * entries_per_cluster g" "0 < entries_per_cluster g"
proof -
  show b: "bytes_per_sector g = 32 * entries_per_sector g" using assms(2) by (simp add: entries_per_sector_def)
  show c: "entries_per_cluster g = sectors_per_cluster g * entries_per_sector g"
    using layout_cluster(1) [OF assms(1)] b by (simp add: entries_per_cluster_def)
  show e: "0 < entries_per_sector g" using layoutD(2) [OF assms(1)] b by simp
  show "cluster_size g = 32 * entries_per_cluster g" using layout_cluster(1) [OF assms(1)] b c by simp
  show "0 < entries_per_cluster g" using c e layout_cluster(2) [OF assms(1)] by simp
qed

lemma slot_place:
  assumes "layout x g" "32 dvd bytes_per_sector g" "i < entries_per_sector g" "j < sectors_per_cluster g"
  shows "slot_lba g cs (q * entries_per_cluster g + j * entries_per_sector g + i) = clba g (cs ! q) + j"
    "slot_off g (q * entries_per_cluster g + j * entries_per_sector g + i) = i * 32"
proof -
  note sg = slot_geometry [OF assms(1,2)]
  let ?s = "entries_per_sector g"
  have "j * ?s + i < (j + 1) * ?s" using assms(3) by simp
  also have "\<dots> \<le> sectors_per_cluster g * ?s" using assms(4) by (intro mult_le_mono1) simp
  finally have lt: "j * ?s + i < entries_per_cluster g" using sg(2) by simp
  have dm: "(q * entries_per_cluster g + j * ?s + i) div entries_per_cluster g = q"
    "(q * entries_per_cluster g + j * ?s + i) mod entries_per_cluster g = j * ?s + i"
    using lt by (simp_all add: add.assoc)
  have e: "(j * ?s + i) * 32 = i * 32 + j * bytes_per_sector g" using sg(1) by simp
  have i: "i * 32 < bytes_per_sector g" using assms(3) sg(1) by simp
  show "slot_lba g cs (q * entries_per_cluster g + j * ?s + i) = clba g (cs ! q) + j"
    "slot_off g (q * entries_per_cluster g + j * ?s + i) = i * 32"
    unfolding slot_lba_def slot_off_def dm e using i by simp_all
qed

text \<open>Reading one sector of a cluster.\<close>

lemma get_cluster_sector:
  assumes m: "mounted U dv g V s" and c: "c \<in> clusters g" and j: "j < sectors_per_cluster g"
    and q: "cache_get (dsk s) (Some (sb_dev (sb s))) (cluster_lba (sb s) c + j) = (q, d)"
  shows "q = Inl e \<Longrightarrow> mounted U dv g V (s\<lparr>dsk := d\<rparr>) \<and> e \<in> io_errors"
    "q = Inr i \<Longrightarrow> mounted U dv g V (s\<lparr>dsk := cache_put d i False\<rparr>) \<and>
       take (bytes_per_sector g) (data (buf_at d i)) = V (sb_dev g) (clba g c + j) \<and> length (data (buf_at d i)) = block_sz \<and>
       bytes_per_sector g \<le> block_sz \<and>
       (\<forall>x. length x = block_sz \<longrightarrow>
          mounted U dv g (V(sb_dev g := (V (sb_dev g))(clba g c + j := take (bytes_per_sector g) x))) (s\<lparr>dsk := cache_put (set_data d i x) i True\<rparr>))"
    "healthy U (dsk s) \<Longrightarrow> \<exists>i. q = Inr i \<and> healthy U d"
proof -
  note d = mountedD [OF m] and ge = geo_eqD [OF mountedD(5) [OF m]] and l = mountedD(4) [OF m]
  note cl = clba_eq [OF l c d(5)]
  have q': "cache_get (dsk s) (Some (sb_dev g)) (clba g c + j) = (q, d)" using q ge cl(1) by simp
  note ini = cache_get_inited [OF d(1,3) q']
  show "mounted U dv g V (s\<lparr>dsk := d\<rparr>) \<and> e \<in> io_errors" if "q = Inl e"
    using bc.get_err [OF d(1,3) q' [unfolded that]] cache_get_err [OF q' [unfolded that] d(2)] d ini that by (simp add: mounted_def)
  show "mounted U dv g V (s\<lparr>dsk := cache_put d i False\<rparr>) \<and>
       take (bytes_per_sector g) (data (buf_at d i)) = V (sb_dev g) (clba g c + j) \<and> length (data (buf_at d i)) = block_sz \<and>
       bytes_per_sector g \<le> block_sz \<and>
       (\<forall>x. length x = block_sz \<longrightarrow>
          mounted U dv g (V(sb_dev g := (V (sb_dev g))(clba g c + j := take (bytes_per_sector g) x))) (s\<lparr>dsk := cache_put (set_data d i x) i True\<rparr>))" if qi: "q = Inr i"
    using bc.put_same [OF d(1,3) q' [unfolded qi]] bc.get_bytes [OF d(1,3) q' [unfolded qi]] bc.put_new [OF d(1,3) q' [unfolded qi]]
      d ini layoutD(1) [OF l] sector_sizes [OF m] by (simp add: mounted_def)
  assume h: "healthy U (dsk s)"
  have "clba g c + j < sector_count (dev_at (dsk s) (sb_dev g))" using cl(3) j at_restD(3) [OF d(1,3)] by simp
  then show "\<exists>i. q = Inr i \<and> healthy U d" using cache_get_succeeds [OF d(1,3) h] q' by force
qed

lemma sector_lba:
  assumes "layout x g" "c \<in> clusters g" "geo b = geo g" "j < sectors_per_cluster g"
  shows "u32 (cluster_lba b c + j) = cluster_lba b c + j"
  using clba_eq(1,4) [OF assms(1-3)] assms(4) by (simp add: u32_def)

definition sector_slots :: "fat_super \<Rightarrow> (nat \<Rightarrow> nat \<Rightarrow> sector) \<Rightarrow> nat \<Rightarrow> nat \<Rightarrow> byte list list" where
  "sector_slots g V c j = slots_in (V (sb_dev g) (clba g c + j))"

lemma scan_cluster_spec:
  assumes "mounted U dv g V s" "cs ! q \<in> clusters g" "32 dvd bytes_per_sector g" "j + n = sectors_per_cluster g"
    "k = q * entries_per_cluster g + j * entries_per_sector g" "k + n * entries_per_sector g < 2 ^ 32"
    "scan_cluster cb (cs ! q) [j..<j + n] k sc a s = (r, k1, sc1, a1, s1)"
  shows "mounted U dv g V s1 \<and> dsk_only s s1 \<and> (healthy U (dsk s) \<longrightarrow> healthy U (dsk s1) \<and> (\<exists>st. r = Inr st)) \<and>
    (case r of Inl e \<Rightarrow> e \<in> io_errors
     | Inr st \<Rightarrow> visit cb (slot_lba g cs) (slot_off g) (concat (map (sector_slots g V (cs ! q)) [j..<j + n])) k sc a = (st, sc1, a1) \<and>
         (\<not> st \<longrightarrow> k1 = k + n * entries_per_sector g))"
  using assms
proof (induction n arbitrary: s j k sc a)
  case 0
  then show ?case by auto
next
  case (Suc n)
  note m = Suc.prems(1) and c = Suc.prems(2)
  note ge = geo_eqD [OF mountedD(5) [OF m]] and l = mountedD(4) [OF m]
  note sg = slot_geometry [OF l Suc.prems(3)]
  let ?c = "cs ! q" and ?e = "entries_per_sector g"
  have u: "[j..<j + Suc n] = j # [Suc j..<Suc j + n]" by (simp add: upt_rec)
  have j: "j < sectors_per_cluster g" using Suc.prems(4) by simp
  have es: "entries_per_sector (sb s) = ?e" using ge by (simp add: entries_per_sector_def)
  obtain p d where p: "cache_get (dsk s) (Some (sb_dev (sb s))) (cluster_lba (sb s) ?c + j) = (p, d)" by force
  note gc = get_cluster_sector [OF m c j p]
  note lu = sector_lba [OF l c mountedD(5) [OF m] j]
  show ?case
  proof (cases p)
    case (Inl e)
    then have "r = Inl e" "s1 = s\<lparr>dsk := d\<rparr>" using Suc.prems(7) p lu unfolding u by simp_all
    then show ?thesis using gc(1) [OF Inl] gc(3) Inl by auto
  next
    case (Inr i)
    let ?b = "data (buf_at d i)" and ?s = "s\<lparr>dsk := cache_put d i False\<rparr>" and ?lba = "cluster_lba (sb s) ?c + j"
    note gi = gc(2) [OF Inr]
    have lba: "?lba = clba g ?c + j" using clba_eq(1) [OF l c mountedD(5) [OF m]] by simp
    obtain st k2 sc2 a2 where ss: "scan_sector cb ?b ?lba [0..<?e] k sc a = (st, k2, sc2, a2)" by (metis prod_cases4)
    have LO: "slot_lba g cs (k + i) = ?lba \<and> slot_off g (k + i) = (0 + i) * 32" if "i < ?e" for i
      using slot_place(1) [OF l Suc.prems(3) that j, of cs q] slot_place(2) [OF l Suc.prems(3) that j, of q] Suc.prems(5) lba by simp
    have sl: "map (slot_of (take (bytes_per_sector g) ?b)) [0..<0 + ?e] = sector_slots g V ?c j"
      using gi sg(1) by (simp add: sector_slots_def slots_in_def) (metis length_take min.absorb2 nonzero_mult_div_cancel_left zero_neq_numeral)
    have v: "visit cb (slot_lba g cs) (slot_off g) (sector_slots g V ?c j) k sc a = (st, sc2, a2)" "\<not> st \<longrightarrow> k2 = k + ?e"
      using scan_sector_visit [of ?e "slot_lba g cs" k ?lba "slot_off g" 0 "bytes_per_sector g" ?b cb sc a] LO Suc.prems(6) gi sg(1) ss
      unfolding sl by (auto split: prod.splits)
    have ls: "length (sector_slots g V ?c j) = ?e" using sl by (metis length_map length_upt add_0 diff_zero)
    have ds: "dsk_only s ?s" by simp
    show ?thesis
    proof (cases st)
      case True
      then have "r = Inr True" "sc1 = sc2" "a1 = a2" "s1 = ?s" using Suc.prems(7) p Inr ss es lu unfolding u by (simp_all add: Let_def)
      then show ?thesis using gi ds gc(3) Inr v True unfolding u by (auto simp: visit_append)
    next
      case False
      then have rec: "scan_cluster cb ?c [Suc j..<Suc j + n] k2 sc2 a2 ?s = (r, k1, sc1, a1, s1)"
        using Suc.prems(7) p Inr ss es lu unfolding u by (simp add: Let_def)
      have "Suc j + n = sectors_per_cluster g" "k2 = q * entries_per_cluster g + Suc j * ?e" "k2 + n * ?e < 2 ^ 32"
        using Suc.prems(4-6) v(2) False by simp_all
      from Suc.IH [OF conjunct1 [OF gi] c Suc.prems(3) this rec] show ?thesis
        using dsk_only_trans [OF ds, of s1] v False gc(3) Inr ls unfolding u by (auto simp: visit_append split: sum.splits)
    qed
  qed
qed

lemma sector_length:
  assumes m: "mounted U dv g V s" and c: "c \<in> clusters g" and j: "j < sectors_per_cluster g"
  shows "length (V (sb_dev g) (clba g c + j)) = bytes_per_sector g"
proof -
  note d = mountedD [OF m] and cl = clba_eq [OF mountedD(4) [OF m] c mountedD(5) [OF m]]
  have "holds U V {} (dsk s)" using at_restD(1) [OF d(1)] by (simp add: cache_inv_def)
  then show ?thesis using d(3) cl(3) j at_restD(3) [OF d(1,3)] layoutD(1) [OF d(4)] by (simp add: holds_def)
qed

lemma slots_in_concat:
  assumes "\<forall>x \<in> set xs. 32 dvd length x"
  shows "slots_in (concat xs) = concat (map slots_in xs)"
  using assms
proof (induction xs)
  case (Cons x xs)
  then show ?case by (simp add: slots_in_append)
qed (simp add: slots_in_def)

lemma cluster_slots:
  assumes "mounted U dv g V s" "c \<in> clusters g" "32 dvd bytes_per_sector g"
  shows "concat (map (sector_slots g V c) [0..<sectors_per_cluster g]) = slots_in (cdata g V c)"
proof -
  let ?n = "sectors_per_cluster g"
  have e: "map (V (sb_dev g)) [clba g c..<clba g c + ?n] = map (\<lambda>j. V (sb_dev g) (clba g c + j)) [0..<?n]"
    by (rule nth_equalityI) simp_all
  have "\<forall>x \<in> set (map (\<lambda>j. V (sb_dev g) (clba g c + j)) [0..<?n]). 32 dvd length x"
    using sector_length [OF assms(1,2)] assms(3) by auto
  from slots_in_concat [OF this] show ?thesis unfolding cdata_def e by (simp add: sector_slots_def [abs_def] comp_def)
qed

lemma dir_slots_concat:
  assumes "opened U dv g V cs s" "32 dvd bytes_per_sector g"
  shows "dir_slots g V cs = concat (map (\<lambda>c. slots_in (cdata g V c)) cs)" "length (dir_slots g V cs) = length cs * entries_per_cluster g"
    "\<forall>c \<in> set cs. length (slots_in (cdata g V c)) = entries_per_cluster g"
proof -
  note od = openedD [OF assms(1)]
  have d: "32 dvd cluster_size g" using layout_cluster(1) [OF mountedD(4) [OF od(1)]] assms(2) by simp
  then have "\<forall>x \<in> set (map (cdata g V) cs). 32 dvd length x" using od(11) by auto
  from slots_in_concat [OF this] show "dir_slots g V cs = concat (map (\<lambda>c. slots_in (cdata g V c)) cs)"
    by (simp add: dir_slots_def chain_bytes_def comp_def)
  show "length (dir_slots g V cs) = length cs * entries_per_cluster g"
    using od(5) d by (simp add: dir_slots_def slots_in_nth(2) entries_per_cluster_def div_mult_swap)
  show "\<forall>c \<in> set cs. length (slots_in (cdata g V c)) = entries_per_cluster g"
    using od(11) by (simp add: slots_in_nth(2) entries_per_cluster_def)
qed

lemma scan_chain_spec:
  assumes "opened U dv g V cs s" "32 dvd bytes_per_sector g" "length cs * entries_per_cluster g < 2 ^ 32" "q < length cs"
    "k = q * entries_per_cluster g"
  shows "\<exists>r a1 s1. scan_chain cb (cs ! q) k sc a s = Some (r, a1, s1) \<and> mounted U dv g V s1 \<and> dsk_only s s1 \<and>
    (healthy U (dsk s) \<longrightarrow> healthy U (dsk s1) \<and> r = Inr ()) \<and>
    (case r of Inl e \<Rightarrow> e \<in> io_errors
     | Inr _ \<Rightarrow> a1 = snd (snd (visit cb (slot_lba g cs) (slot_off g) (concat (map (\<lambda>c. slots_in (cdata g V c)) (drop q cs))) k sc a)))"
  using assms
proof (induction "length cs - q" arbitrary: q k sc a s)
  case 0
  then show ?case by simp
next
  case (Suc n)
  note od = openedD [OF Suc.prems(1)]
  note l = mountedD(4) [OF od(1)] and ge = geo_eqD [OF mountedD(5) [OF od(1)]]
  let ?c = "cs ! q" and ?epc = "entries_per_cluster g" and ?n = "sectors_per_cluster g"
  have cin: "?c \<in> set cs" using Suc.prems(4) by simp
  then have c: "?c \<in> clusters g" using od(4) by blast
  have dr: "drop q cs = ?c # drop (Suc q) cs" using Suc.prems(4) by (simp add: Cons_nth_drop_Suc)
  have "Suc q * ?epc \<le> length cs * ?epc" using Suc.prems(4) by (intro mult_le_mono1) simp
  then have lim: "k + ?n * entries_per_sector g < 2 ^ 32" using Suc.prems(3,5) slot_geometry(2) [OF l Suc.prems(2)] by simp
  have k0: "k = q * ?epc + 0 * entries_per_sector g" using Suc.prems(5) by simp
  obtain r k1 sc1 a1 s1 where sc: "scan_cluster cb ?c [0..<?n] k sc a s = (r, k1, sc1, a1, s1)" by (metis prod_cases5)
  have sc': "scan_cluster cb ?c [0..<0 + ?n] k sc a s = (r, k1, sc1, a1, s1)" using sc by simp
  have sl: "concat (map (sector_slots g V ?c) [0..<?n]) = slots_in (cdata g V ?c)" by (rule cluster_slots [OF od(1) c Suc.prems(2)])
  note sp = scan_cluster_spec [OF od(1) c Suc.prems(2) _ k0 lim sc', unfolded add_0 sl, simplified]
  have eq: "scan_chain cb ?c k sc a s = (case r of Inl e \<Rightarrow> Some (Inl e, a1, s1)
           | Inr stop \<Rightarrow> if stop then Some (Inr (), a1, s1)
               else case read_entry s1 ?c of (q, s2) \<Rightarrow>
                   (case q of Inl e \<Rightarrow> Some (Inl e, a1, s2)
                    | Inr next \<Rightarrow> if next < 2 \<or> next \<ge> FAT_CLUSTER_EOC then Some (Inr (), a1, s2) else scan_chain cb next k1 sc1 a1 s2))"
    using scan_chain.simps [of cb ?c k sc a s] sc ge by simp
  show ?case
  proof (cases r)
    case (Inl e)
    then show ?thesis using eq sp by auto
  next
    case (Inr st)
    have v: "visit cb (slot_lba g cs) (slot_off g) (slots_in (cdata g V ?c)) k sc a = (st, sc1, a1)" "\<not> st \<longrightarrow> k1 = k + ?n * entries_per_sector g"
      using sp Inr by auto
    have m1: "mounted U dv g V s1" "dsk_only s s1" using sp by auto
    have o1: "opened U dv g V cs s1" by (rule opened_dsk_only [OF Suc.prems(1) m1(2,1)])
    have hh: "healthy U (dsk s) \<Longrightarrow> healthy U (dsk s1)" using sp by auto
    show ?thesis
    proof (cases st)
      case True
      then show ?thesis using eq Inr m1 hh v unfolding dr by (simp add: visit_append)
    next
      case False
      obtain p s2 where p: "read_entry s1 ?c = (p, s2)" by force
      note re = read_entry_spec [OF m1(1) p]
      have d2: "dsk_only s s2" using dsk_only_trans [OF m1(2) re(2)] .
      have hr: "healthy U (dsk s) \<Longrightarrow> healthy U (dsk s2) \<and> p = Inr (tab g V 0 ?c)"
        using read_entry_succeeds [OF m1(1) hh, of ?c] c p by auto
      show ?thesis
      proof (cases p)
        case (Inl e)
        then show ?thesis using eq Inr False p re(1) re(4) [OF Inl] d2 hr by auto
      next
        case (Inr v')
        then have v': "v' = tab g V 0 ?c" using re(3) by blast
        have fc: "file_chain g (tab g V 0) cs" using od(3) Suc.prems(4) by (auto simp: node_chain_def split: if_splits)
        note fd = file_chainD [OF l fc]
        have k1: "k1 = Suc q * ?epc" using v(2) False Suc.prems(5) slot_geometry(2) [OF l Suc.prems(2)] by simp
        have ls: "length (slots_in (cdata g V ?c)) = ?epc" using dir_slots_concat(3) [OF Suc.prems(1,2)] cin by blast
        have ok: "k + ?epc = k1" using k1 Suc.prems(5) by simp
        show ?thesis
        proof (cases "Suc q < length cs")
          case True
          then have nx: "v' = cs ! Suc q" using is_chain_nth [OF fd(1)] v' by simp
          then have "2 \<le> v'" "v' < FAT_CLUSTER_EOC" using fd(4) [of v'] True by (auto simp: fat_values)
          then have rec: "scan_chain cb ?c k sc a s = scan_chain cb (cs ! Suc q) k1 sc1 a1 s2"
            using eq \<open>r = Inr st\<close> False p Inr nx by simp
          have o2: "opened U dv g V cs s2" by (rule opened_dsk_only [OF o1 re(2,1)])
          have "n = length cs - Suc q" using Suc.hyps(2) by simp
          from Suc.hyps(1) [OF this o2 Suc.prems(2,3) True k1, of sc1 a1] obtain r' a' s' where
            ih: "scan_chain cb (cs ! Suc q) k1 sc1 a1 s2 = Some (r', a', s')" "mounted U dv g V s'" "dsk_only s2 s'"
              "healthy U (dsk s2) \<longrightarrow> healthy U (dsk s') \<and> r' = Inr ()"
              "case r' of Inl e \<Rightarrow> e \<in> io_errors | Inr _ \<Rightarrow> a' = snd (snd (visit cb (slot_lba g cs) (slot_off g)
                 (concat (map (\<lambda>c. slots_in (cdata g V c)) (drop (Suc q) cs))) k1 sc1 a1))" by blast
          have vis: "visit cb (slot_lba g cs) (slot_off g) (concat (map (\<lambda>c. slots_in (cdata g V c)) (drop q cs))) k sc a =
              visit cb (slot_lba g cs) (slot_off g) (concat (map (\<lambda>c. slots_in (cdata g V c)) (drop (Suc q) cs))) k1 sc1 a1"
            unfolding dr using v(1) False ls ok by (simp add: visit_append)
          show ?thesis unfolding vis rec using ih hr dsk_only_trans [OF d2 ih(3)] by blast
        next
          case nl: False
          then have "q = length cs - 1" using Suc.prems(4) by linarith
          then have "?c = last cs" using fd(2) by (simp add: last_conv_nth)
          then have "v' \<ge> FAT_CLUSTER_EOC" using v' is_chain_last [OF fd(1)] by simp
          then have "scan_chain cb ?c k sc a s = Some (Inr (), a1, s2)" using eq \<open>r = Inr st\<close> False p Inr by simp
          then show ?thesis using re(1) d2 hr v nl False unfolding dr by (simp add: visit_append)
        qed
      qed
    qed
  qed
qed

text \<open>The scan of a whole directory.\<close>

lemma scan_dir_spec:
  assumes o: "opened U dv g V cs s" and b: "32 dvd bytes_per_sector g" "length cs * entries_per_cluster g < 2 ^ 32" and ne: "cs \<noteq> []"
  shows "\<exists>r a1 s1. scan_dir cb a s = Some (r, a1, s1) \<and> opened U dv g V cs s1 \<and> dsk_only s s1 \<and>
    (healthy U (dsk s) \<longrightarrow> healthy U (dsk s1) \<and> r = Inr ()) \<and>
    (case r of Inl e \<Rightarrow> e \<in> io_errors
     | Inr _ \<Rightarrow> a1 = snd (snd (visit cb (slot_lba g cs) (slot_off g) (dir_slots g V cs) 0 scan_start a)))"
proof -
  note od = openedD [OF o]
  have nc: "file_chain g (tab g V 0) cs" "pos_ok (fn s) cs" using od(3) ne by (auto simp: node_chain_def)
  have f: "first_cluster (fn s) = cs ! 0" using nc(2) ne by (simp add: pos_ok_def hd_conv_nth)
  have "\<not> first_cluster (fn s) < 2" using f file_chainD(4) [OF mountedD(4) [OF od(1)] nc(1), of "cs ! 0"] ne by simp
  then have eq: "scan_dir cb a s = scan_chain cb (cs ! 0) 0 scan_start a s" using f by (simp add: scan_dir_def)
  have q: "0 < length cs" using ne by simp
  have "0 = 0 * entries_per_cluster g" by simp
  from scan_chain_spec [OF o b q this, of cb scan_start a] obtain r a1 s1 where
    r: "scan_chain cb (cs ! 0) 0 scan_start a s = Some (r, a1, s1)" "mounted U dv g V s1" "dsk_only s s1"
      "healthy U (dsk s) \<longrightarrow> healthy U (dsk s1) \<and> r = Inr ()"
      "case r of Inl e \<Rightarrow> e \<in> io_errors | Inr _ \<Rightarrow> a1 = snd (snd (visit cb (slot_lba g cs) (slot_off g)
         (concat (map (\<lambda>c. slots_in (cdata g V c)) (drop 0 cs))) 0 scan_start a))" by blast
  have d: "concat (map (\<lambda>c. slots_in (cdata g V c)) (drop 0 cs)) = dir_slots g V cs" unfolding dir_slots_concat(1) [OF o b(1)] by simp
  show ?thesis unfolding eq using r(1,3,4) r(5) [unfolded d] opened_dsk_only [OF o r(3,2)] by blast
qed

end
