(* ===== verification/Fatlist.thy ===== *)
theory Fatlist
  imports Fatdir
begin

text \<open>
  What the directory operations of src/src/kernel/fs/fat32/dir.cpp do to the records of a directory. The
  specification side is the listing of a directory: its records in slot order, each with its 32-byte entry
  and, when a complete long-name run with the right checksum stands before it, the characters of the run.
  The lemmas show that scanning, looking up and listing read exactly that listing, and what reading and
  writing one slot does to it.
\<close>

section \<open>The listing of a directory\<close>

text \<open>A long-name run being read: its checksum, the ordinal still to come, the characters so far.\<close>

type_synonym run = "(byte \<times> nat \<times> ucs2 list list) option"

definition run_step :: "run \<Rightarrow> byte list \<Rightarrow> run" where
  "run_step r e =
     (let ord = unat (l_order e AND 0x3F) in
      if l_order e AND FAT_DIR_LFN_ORD_LAST \<noteq> 0
      then if 1 \<le> ord \<and> ord \<le> MAX_LFN_ENTRIES then Some (l_checksum e, ord - 1, [l_chars e]) else None
      else case r of None \<Rightarrow> None
        | Some (ck, n, us) \<Rightarrow> if 1 \<le> ord \<and> ord = n \<and> l_checksum e = ck then Some (ck, n - 1, l_chars e # us) else None)"

definition run_for :: "run \<Rightarrow> byte list \<Rightarrow> ucs2 list list option" where
  "run_for r e = (case r of Some (ck, n, us) \<Rightarrow> if n = 0 \<and> ck = short_checksum (e_name e) then Some us else None | None \<Rightarrow> None)"

definition is_lfn :: "byte list \<Rightarrow> bool" where "is_lfn e \<longleftrightarrow> e_attr e AND FAT_ATTR_LFN = FAT_ATTR_LFN"
definition is_label :: "byte list \<Rightarrow> bool" where "is_label e \<longleftrightarrow> e_attr e AND FAT_ATTR_VOLUME_ID \<noteq> 0"

type_synonym rec = "nat \<times> byte list \<times> ucs2 list list option"

fun records :: "byte list list \<Rightarrow> nat \<Rightarrow> run \<Rightarrow> rec list" where
  "records [] k r = []"
| "records (e # es) k r =
     (if e ! 0 = FAT_DIR_END then []
      else if e ! 0 = FAT_DIR_FREE then records es (Suc k) None
      else if is_lfn e then records es (Suc k) (run_step r e)
      else if is_label e then records es (Suc k) None
      else (k, e, run_for r e) # records es (Suc k) None)"

definition dir_records :: "fat_super \<Rightarrow> (nat \<Rightarrow> nat \<Rightarrow> sector) \<Rightarrow> nat list \<Rightarrow> rec list" where
  "dir_records g V cs = records (dir_slots g V cs) 0 None"

definition run_chars :: "scan_ctx \<Rightarrow> ucs2 list list" where
  "run_chars sc = take (run_count sc) (chars sc)"

definition shows_run :: "scan_ctx \<Rightarrow> run \<Rightarrow> bool" where
  "shows_run sc r \<longleftrightarrow> length (chars sc) = MAX_LFN_ENTRIES \<and>
     (case r of None \<Rightarrow> run_count sc = 0 \<and> expect sc = 0 \<and> \<not> run_valid sc
      | Some (ck, n, us) \<Rightarrow> us \<noteq> [] \<and> run_count sc = n + length us \<and> run_count sc \<le> MAX_LFN_ENTRIES \<and> expect sc = n \<and>
          (run_valid sc \<longleftrightarrow> n = 0) \<and> checksum sc = ck \<and> drop n (run_chars sc) = us)"

lemma shows_reset: "shows_run sc r \<Longrightarrow> shows_run (lfn_reset sc) None"
  by (simp add: shows_run_def lfn_reset_def)

lemma shows_start: "shows_run scan_start None"
  by (simp add: shows_run_def scan_start_def lfn_reset_def)

lemma drop_take_update:
  assumes "i < m" "m \<le> length xs"
  shows "drop i (take m (xs[i := x])) = x # drop (Suc i) (take m xs)"
proof -
  have "i < length ((take m xs)[i := x])" using assms by simp
  from Cons_nth_drop_Suc [OF this] show ?thesis using assms by (simp add: take_update_swap)
qed

lemma shows_slot:
  assumes "shows_run sc r"
  shows "shows_run (lfn_slot sc e) (run_step r e)"
proof -
  define ord where "ord = unat (l_order e AND 0x3F)"
  have len: "length (chars sc) = MAX_LFN_ENTRIES" using assms by (simp add: shows_run_def)
  show ?thesis
  proof (cases "l_order e AND FAT_DIR_LFN_ORD_LAST \<noteq> 0")
    case True
    show ?thesis
    proof (cases "1 \<le> ord \<and> ord \<le> MAX_LFN_ENTRIES")
      case o: True
      have "drop (ord - 1) (take ord ((chars sc)[ord - 1 := l_chars e])) = [l_chars e]"
        using drop_take_update [of "ord - 1" ord "chars sc"] o len by simp
      then show ?thesis using True o len
        by (auto simp: shows_run_def lfn_slot_def run_step_def lfn_reset_def Let_def run_chars_def simp flip: ord_def)
    next
      case False
      then show ?thesis using True len by (auto simp: shows_run_def lfn_slot_def run_step_def lfn_reset_def Let_def simp flip: ord_def)
    qed
  next
    case nl: False
    show ?thesis
    proof (cases r)
      case None
      then show ?thesis using nl len assms by (auto simp: shows_run_def lfn_slot_def run_step_def lfn_reset_def Let_def simp flip: ord_def)
    next
      case (Some q)
      obtain ck n us where q: "q = (ck, n, us)" by (cases q) auto
      note s = assms [unfolded shows_run_def Some q, simplified]
      show ?thesis
      proof (cases "1 \<le> ord \<and> ord = n \<and> l_checksum e = ck")
        case True
        obtain p where p: "n = Suc p" using True by (cases n) auto
        have nl': "n - 1 < length (chars sc)" "n \<le> run_count sc" "run_count sc \<le> length (chars sc)" using s True by auto
        have "drop (n - 1) (take (run_count sc) ((chars sc)[n - 1 := l_chars e])) = l_chars e # drop n (take (run_count sc) (chars sc))"
          using drop_take_update [of p "run_count sc" "chars sc" "l_chars e"] nl' unfolding p by simp
        then show ?thesis using nl s True
          by (auto simp: Some q shows_run_def lfn_slot_def run_step_def lfn_reset_def Let_def run_chars_def simp flip: ord_def)
      next
        case False
        then show ?thesis using nl s by (auto simp: Some q shows_run_def lfn_slot_def run_step_def lfn_reset_def Let_def simp flip: ord_def)
      qed
    qed
  qed
qed

lemma shows_for:
  assumes "shows_run sc r"
  shows "map_option run_chars (if run_valid sc \<and> run_count sc > 0 \<and> checksum sc = short_checksum (e_name e) then Some sc else None) = run_for r e"
  using assms by (auto simp: shows_run_def run_for_def split: option.splits prod.splits)

text \<open>A callback on a listing.\<close>

fun each :: "('a \<Rightarrow> rec \<Rightarrow> bool \<times> 'a) \<Rightarrow> rec list \<Rightarrow> 'a \<Rightarrow> 'a" where
  "each f [] a = a"
| "each f (x # xs) a = (case f a x of (True, a1) \<Rightarrow> a1 | (False, a1) \<Rightarrow> each f xs a1)"

lemma visit_records:
  assumes "\<And>a e k u. cb a e k (L k) (P k) u = f a (k, e, map_option run_chars u)" "shows_run sc r"
  shows "snd (snd (visit cb L P es k sc a)) = each f (records es k r) a"
  using assms(2)
proof (induction es arbitrary: k sc r a)
  case (Cons e es)
  note sf = shows_for [OF Cons.prems, of e]
  show ?case
  proof (cases "e ! 0 = FAT_DIR_END \<or> e ! 0 = FAT_DIR_FREE \<or> is_lfn e \<or> is_label e")
    case True
    then show ?thesis using Cons.IH [OF shows_reset [OF Cons.prems]] Cons.IH [OF shows_slot [OF Cons.prems]]
      by (elim disjE) (simp_all add: scan_entry_def is_lfn_def is_label_def)
  next
    case False
    let ?u = "if run_valid sc \<and> run_count sc > 0 \<and> checksum sc = short_checksum (e_name e) then Some sc else None"
    obtain st a1 where f: "f a (k, e, run_for r e) = (st, a1)" by force
    then have "cb a e k (L k) (P k) ?u = (st, a1)" using assms(1) sf by simp
    then have "scan_entry cb e k (L k) (P k) sc a = (if st then (True, sc, a1) else (False, lfn_reset sc, a1))"
      using False by (simp add: scan_entry_def is_lfn_def is_label_def Let_def split: bool.splits)
    then show ?thesis using False f Cons.IH [OF shows_reset [OF Cons.prems]] by (cases st) simp_all
  qed
qed simp

section \<open>Looking up and listing\<close>

text \<open>A directory that can be scanned: its chain is in order and its slot numbers fit.\<close>

definition dir_open :: "nat set \<Rightarrow> (nat \<Rightarrow> blkdev) \<Rightarrow> fat_super \<Rightarrow> (nat \<Rightarrow> nat \<Rightarrow> sector) \<Rightarrow> nat list \<Rightarrow> fat_st \<Rightarrow> bool" where
  "dir_open U dv g V cs s \<longleftrightarrow> opened U dv g V cs s \<and> 32 dvd bytes_per_sector g \<and> total_clusters g * entries_per_cluster g < 2 ^ 32 \<and> cs \<noteq> []"

lemma dir_openD:
  assumes "dir_open U dv g V cs s"
  shows "opened U dv g V cs s" "32 dvd bytes_per_sector g" "length cs * entries_per_cluster g < 2 ^ 32" "cs \<noteq> []"
    "total_clusters g * entries_per_cluster g < 2 ^ 32"
proof -
  show o: "opened U dv g V cs s" "32 dvd bytes_per_sector g" "cs \<noteq> []" and c: "total_clusters g * entries_per_cluster g < 2 ^ 32"
    using assms by (simp_all add: dir_open_def)
  show "length cs * entries_per_cluster g < 2 ^ 32"
    using c mult_le_mono1 [OF openedD(7) [OF o(1)], of "entries_per_cluster g"] by linarith
qed

lemma scan_dir_each:
  assumes "dir_open U dv g V cs s" "\<And>a e k u. cb a e k (slot_lba g cs k) (slot_off g k) u = f a (k, e, map_option run_chars u)"
  obtains r a1 s1 where "scan_dir cb a s = Some (r, a1, s1)" "dir_open U dv g V cs s1" "dsk_only s s1"
    "healthy U (dsk s) \<longrightarrow> healthy U (dsk s1) \<and> r = Inr ()"
    "case r of Inl e \<Rightarrow> e \<in> io_errors | Inr _ \<Rightarrow> a1 = each f (dir_records g V cs) a"
proof -
  note d = dir_openD [OF assms(1)]
  have v: "snd (snd (visit cb (slot_lba g cs) (slot_off g) (dir_slots g V cs) 0 scan_start a)) = each f (dir_records g V cs) a"
    unfolding dir_records_def by (rule visit_records) (rule assms(2), rule shows_start)
  from scan_dir_spec [OF d(1-4), of cb a, unfolded v] obtain r a1 s1 where
    r: "scan_dir cb a s = Some (r, a1, s1)" "opened U dv g V cs s1" "dsk_only s s1"
    "healthy U (dsk s) \<longrightarrow> healthy U (dsk s1) \<and> r = Inr ()"
    "case r of Inl e \<Rightarrow> e \<in> io_errors | Inr _ \<Rightarrow> a1 = each f (dir_records g V cs) a" by blast
  have "dir_open U dv g V cs s1" using r(2) d by (simp add: dir_open_def)
  then show ?thesis by (rule that [OF r(1) _ r(3,4,5)])
qed

definition shown :: "byte list \<Rightarrow> ucs2 list list option \<Rightarrow> byte list" where
  "shown e u = (case u of Some us \<Rightarrow> lfn_decode us (NAME_MAX + 1) | None \<Rightarrow> short_name_of e)"

text \<open>A record answers to the name it shows and to its alias, upper and lower case alike.\<close>

definition answers :: "byte list \<Rightarrow> rec \<Rightarrow> bool" where
  "answers name x = (case x of (k, e, u) \<Rightarrow> eq_nocase (shown e u) name \<or> eq_nocase (short_name_of e) name)"

definition located :: "fat_super \<Rightarrow> nat list \<Rightarrow> rec \<Rightarrow> fat_dirent \<times> nat \<times> nat \<times> nat" where
  "located g cs x = (case x of (k, e, u) \<Rightarrow> (\<lparr>entry = e, lfn = shown e u, has_lfn = (u \<noteq> None)\<rparr>, k, slot_lba g cs k, slot_off g k))"

definition listed :: "rec \<Rightarrow> fat_dirent \<times> nat \<times> nat" where
  "listed x = (case x of (k, e, u) \<Rightarrow> (\<lparr>entry = e, lfn = shown e u, has_lfn = (u \<noteq> None \<and> shown e u \<noteq> [])\<rparr>, k, k + 1))"

lemma each_find:
  assumes "\<And>x. f None x = (if P x then (True, Some (h x)) else (False, None))"
  shows "each f xs None = map_option h (find P xs)"
  by (induction xs) (simp_all add: assms)

lemma find_cb_rec:
  "find_cb name a e k (slot_lba g cs k) (slot_off g k) u =
     (\<lambda>a x. if answers name x then (True, Some (located g cs x)) else (False, a)) a (k, e, map_option run_chars u)"
  by (auto simp: find_cb_def answers_def located_def shown_def run_name_def run_chars_def Let_def split: option.splits)

lemma next_record_cb_rec:
  "next_record_cb from a e k l p u =
     (\<lambda>a x. if from \<le> fst x then (True, Some (fst (listed x), fst x)) else (False, a)) a (k, e, map_option run_chars u)"
  by (auto simp: next_record_cb_def listed_def shown_def run_name_def run_chars_def Let_def split: option.splits)

lemma find_dir_spec:
  assumes "dir_open U dv g V cs s"
  obtains r s1 where "find_dir s name = Some (r, s1)" "dir_open U dv g V cs s1" "dsk_only s s1"
    "healthy U (dsk s) \<longrightarrow> healthy U (dsk s1) \<and> (\<exists>x. r = Inr x)"
    "case r of Inl e \<Rightarrow> e \<in> io_errors | Inr x \<Rightarrow> x = map_option (located g cs) (find (answers name) (dir_records g V cs))"
proof -
  let ?f = "\<lambda>a x. if answers name x then (True, Some (located g cs x)) else (False, a)"
  obtain r a1 s1 where r: "scan_dir (find_cb name) None s = Some (r, a1, s1)" "dir_open U dv g V cs s1" "dsk_only s s1"
    "healthy U (dsk s) \<longrightarrow> healthy U (dsk s1) \<and> r = Inr ()"
    "case r of Inl e \<Rightarrow> e \<in> io_errors | Inr _ \<Rightarrow> a1 = each ?f (dir_records g V cs) None"
    by (rule scan_dir_each [OF assms, of "find_cb name" ?f None]) (rule find_cb_rec)
  have e: "each ?f (dir_records g V cs) None = map_option (located g cs) (find (answers name) (dir_records g V cs))" by (rule each_find) simp
  show ?thesis using that r unfolding e by (cases r) (auto simp: find_dir_def)
qed

lemma next_record_spec:
  assumes "dir_open U dv g V cs s"
  obtains r s1 where "next_record s cookie = Some (r, s1)" "dir_open U dv g V cs s1" "dsk_only s s1"
    "healthy U (dsk s) \<longrightarrow> healthy U (dsk s1) \<and> (\<exists>x. r = Inr x)"
    "case r of Inl e \<Rightarrow> e \<in> io_errors | Inr x \<Rightarrow> x = map_option listed (find (\<lambda>x. cookie \<le> fst x) (dir_records g V cs))"
proof -
  let ?f = "\<lambda>a x. if cookie \<le> fst x then (True, Some (fst (listed x), fst x)) else (False, a)"
  obtain r a1 s1 where r: "scan_dir (next_record_cb cookie) None s = Some (r, a1, s1)" "dir_open U dv g V cs s1" "dsk_only s s1"
    "healthy U (dsk s) \<longrightarrow> healthy U (dsk s1) \<and> r = Inr ()"
    "case r of Inl e \<Rightarrow> e \<in> io_errors | Inr _ \<Rightarrow> a1 = each ?f (dir_records g V cs) None"
    by (rule scan_dir_each [OF assms, of "next_record_cb cookie" ?f None]) (rule next_record_cb_rec)
  have e: "each ?f (dir_records g V cs) None = map_option (\<lambda>x. (fst (listed x), fst x)) (find (\<lambda>x. cookie \<le> fst x) (dir_records g V cs))"
    by (rule each_find) simp
  have l: "(\<lambda>(d, sno). (d, sno, sno + 1)) (fst (listed x), fst x) = listed x" for x by (simp add: listed_def split: prod.splits)
  have "map_option (\<lambda>(d, sno). (d, sno, sno + 1)) (each ?f (dir_records g V cs) None) = map_option listed (find (\<lambda>x. cookie \<le> fst x) (dir_records g V cs))"
    unfolding e option.map_comp comp_def l ..
  then show ?thesis using that r by (cases r) (auto simp: next_record_def)
qed

lemma exists_short_spec:
  assumes "dir_open U dv g V cs s"
  obtains r s1 where "exists_short s name11 = Some (r, s1)" "dir_open U dv g V cs s1" "dsk_only s s1"
    "healthy U (dsk s) \<longrightarrow> healthy U (dsk s1) \<and> (\<exists>x. r = Inr x)"
    "case r of Inl e \<Rightarrow> e \<in> io_errors | Inr x \<Rightarrow> x = (\<exists>y \<in> set (dir_records g V cs). e_name (fst (snd y)) = name11)"
proof -
  let ?f = "\<lambda>a x. if e_name (fst (snd x)) = name11 then (True, True) else (False, a)"
  have cb: "exists_cb name11 a e k l p u = ?f a (k, e, map_option run_chars u)" for a e k l p u by (simp add: exists_cb_def)
  obtain r a1 s1 where r: "scan_dir (exists_cb name11) False s = Some (r, a1, s1)" "dir_open U dv g V cs s1" "dsk_only s s1"
    "healthy U (dsk s) \<longrightarrow> healthy U (dsk s1) \<and> r = Inr ()"
    "case r of Inl e \<Rightarrow> e \<in> io_errors | Inr _ \<Rightarrow> a1 = each ?f (dir_records g V cs) False"
    by (rule scan_dir_each [OF assms, of "exists_cb name11" ?f False]) (rule cb)
  have "each ?f xs False = (\<exists>y \<in> set xs. e_name (fst (snd y)) = name11)" for xs :: "rec list" by (induction xs) auto
  then show ?thesis using that r by (cases r) (auto simp: exists_short_def)
qed

section \<open>Reading and writing one slot\<close>

lemma splice_before: "m + n \<le> p \<Longrightarrow> p \<le> length C \<Longrightarrow> take n (drop m (take p C @ Z)) = take n (drop m C)"
  by (auto simp: drop_take min_def)

lemma splice_behind: "p + length b \<le> m \<Longrightarrow> p + length b \<le> length C \<Longrightarrow> drop m (take p C @ b @ drop (p + length b) C) = drop m C"
  by simp

lemma splice_inside:
  assumes "p + length b \<le> n" "a + n \<le> length C"
  shows "take n (drop a (take (a + p) C @ b @ drop (a + p + length b) C)) = take p (take n (drop a C)) @ b @ drop (p + length b) (take n (drop a C))"
proof -
  have "take n (drop a (take (a + p) C @ b @ drop (a + p + length b) C)) = take n (take p (drop a C) @ b @ drop (a + p + length b) C)"
    using assms by (simp add: drop_take)
  also have "\<dots> = take p (drop a C) @ b @ take (n - p - length b) (drop (a + p + length b) C)" using assms by simp
  also have "\<dots> = take p (take n (drop a C)) @ b @ drop (p + length b) (take n (drop a C))"
    using assms by (simp add: drop_take min_def add.commute add.left_commute)
  finally show ?thesis .
qed

lemma splice_piece:
  assumes "C = take z (drop a B)" "p + n \<le> z" "a + z \<le> length B"
  shows "take a B @ (take p C @ b @ drop (p + n) C) @ drop (a + z) B = take (a + p) B @ b @ drop (a + p + n) B"
proof -
  have "take a B @ take p C = take (a + p) B" unfolding assms(1) take_add using assms(2) by (simp add: min_def)
  moreover have "drop (p + n) (drop a B) = drop (p + n) (take z (drop a B)) @ drop z (drop a B)"
  proof -
    have "drop (p + n) (take z (drop a B) @ drop z (drop a B)) = drop (p + n) (take z (drop a B)) @ drop z (drop a B)"
      unfolding drop_append using assms(2,3) by (simp add: min_def)
    then show ?thesis by (simp only: append_take_drop_id)
  qed
  then have "drop (p + n) C @ drop (a + z) B = drop (a + p + n) B"
    unfolding assms(1) by (simp add: ac_simps)
  ultimately show ?thesis by (metis append_assoc)
qed

lemma cdata_sector:
  assumes "mounted U dv g V s" "c \<in> clusters g" "t < sectors_per_cluster g"
  shows "take (bytes_per_sector g) (drop (t * bytes_per_sector g) (cdata g V c)) = V (sb_dev g) (clba g c + t)"
proof -
  let ?n = "sectors_per_cluster g" and ?b = "bytes_per_sector g"
  let ?xs = "map (V (sb_dev g)) [clba g c..<clba g c + ?n]"
  have ln: "\<forall>x \<in> set ?xs. length x = ?b"
  proof
    fix x assume "x \<in> set ?xs"
    then obtain m where "x = V (sb_dev g) m" "clba g c \<le> m" "m - clba g c < ?n" by auto
    then show "length x = ?b" using sector_length [OF assms(1,2), of "m - clba g c"] by simp
  qed
  have "drop t ?xs = ?xs ! t # drop (Suc t) ?xs" by (rule Cons_nth_drop_Suc [symmetric]) (use assms(3) in simp)
  moreover have "?xs ! t = V (sb_dev g) (clba g c + t)" using assms(3) by simp
  moreover have "length (V (sb_dev g) (clba g c + t)) = ?b" by (rule sector_length [OF assms])
  ultimately show ?thesis unfolding cdata_def drop_concat [OF ln] by simp
qed

lemma put_cluster_sector:
  assumes m: "mounted U dv g V s" "c \<in> clusters g" and j: "j < sectors_per_cluster g"
    and p: "off + length b \<le> bytes_per_sector g" and x: "take (bytes_per_sector g) x = V (sb_dev g) (clba g c + j)" "bytes_per_sector g \<le> length x"
    and lc: "length (cdata g V c) = sectors_per_cluster g * bytes_per_sector g"
  shows "put_cluster g c (take (j * bytes_per_sector g + off) (cdata g V c) @ b @ drop (j * bytes_per_sector g + off + length b) (cdata g V c)) V =
    V(sb_dev g := (V (sb_dev g))(clba g c + j := take (bytes_per_sector g) (take off x @ b @ drop (off + length b) x)))"
proof -
  let ?b = "bytes_per_sector g" and ?n = "sectors_per_cluster g" and ?C = "cdata g V c"
  let ?y = "take (j * ?b + off) ?C @ b @ drop (j * ?b + off + length b) ?C"
  have "Suc j * ?b \<le> ?n * ?b" using j by (intro mult_le_mono1) simp
  then have le: "j * ?b + ?b \<le> length ?C" using lc by simp
  have ch: "take ?b (drop (t * ?b) ?y) = (if t = j then take ?b (take off x @ b @ drop (off + length b) x) else V (sb_dev g) (clba g c + t))" if t: "t < ?n" for t
  proof (cases t j rule: linorder_cases)
    case less
    then have "Suc t * ?b \<le> j * ?b" by (intro mult_le_mono1) simp
    then have "take ?b (drop (t * ?b) ?y) = take ?b (drop (t * ?b) ?C)" using le p by (intro splice_before) simp_all
    then show ?thesis using less cdata_sector [OF m t] by simp
  next
    case equal
    have "take ?b (drop (j * ?b) ?y) = take off (take ?b (drop (j * ?b) ?C)) @ b @ drop (off + length b) (take ?b (drop (j * ?b) ?C))"
      by (rule splice_inside [OF p le])
    also have "\<dots> = take off (take ?b (drop 0 x)) @ b @ drop (off + length b) (take ?b (drop 0 x))" using x cdata_sector [OF m j] by simp
    also have "\<dots> = take ?b (drop 0 (take (0 + off) x @ b @ drop (0 + off + length b) x))" using x(2) by (intro splice_inside [OF p, symmetric]) simp
    finally show ?thesis using equal by simp
  next
    case greater
    then have "Suc j * ?b \<le> t * ?b" by (intro mult_le_mono1) simp
    then have "drop (t * ?b) ?y = drop (t * ?b) ?C" using le p by (intro splice_behind) simp_all
    then show ?thesis using greater cdata_sector [OF m t] by simp
  qed
  show ?thesis
  proof (intro ext)
    fix d i
    show "put_cluster g c ?y V d i = (V(sb_dev g := (V (sb_dev g))(clba g c + j := take ?b (take off x @ b @ drop (off + length b) x)))) d i"
    proof (cases "d = sb_dev g \<and> clba g c \<le> i \<and> i < clba g c + ?n")
      case True
      then show ?thesis using ch [of "i - clba g c"] unfolding put_cluster_def put_sectors_def by auto
    next
      case False
      then show ?thesis using j unfolding put_cluster_def put_sectors_def by auto
    qed
  qed
qed

lemma slots_in_update:
  assumes "32 dvd length B" "k < length B div 32" "length b = 32"
  shows "slots_in (take (32 * k) B @ b @ drop (32 * k + 32) B) = (slots_in B)[k := b]"
proof -
  have k: "32 * k + 32 \<le> length B" using assms(1,2) by auto
  have b: "slots_in b = [b]" using assms(3) by (simp add: slots_in_def slot_of_def)
  let ?X = "take (32 * k) B" and ?M = "take 32 (drop (32 * k) B)" and ?Y = "drop (32 * k + 32) B"
  have "?M @ ?Y = drop (32 * k) B" using append_take_drop_id [of 32 "drop (32 * k) B"] by (simp add: add.commute)
  then have "B = ?X @ ?M @ ?Y" by simp
  then have "slots_in B = slots_in (?X @ ?M @ ?Y)" by (rule arg_cong)
  also have "\<dots> = slots_in ?X @ slots_in (?M @ ?Y)" using k by (intro slots_in_append) simp
  also have "slots_in (?M @ ?Y) = slots_in ?M @ slots_in ?Y" using k by (intro slots_in_append) simp
  finally have "slots_in B = slots_in ?X @ slots_in ?M @ slots_in ?Y" .
  moreover have "length (slots_in ?X) = k" "length (slots_in ?M) = 1" using k by (simp_all add: slots_in_nth(2))
  moreover have "slots_in (?X @ b @ ?Y) = slots_in ?X @ [b] @ slots_in ?Y"
    using slots_in_append [of ?X "b @ ?Y"] slots_in_append [of b ?Y] k assms(3) b by simp
  ultimately show ?thesis by (cases "slots_in ?M") (auto simp: list_update_append)
qed

lemma slot_indices:
  assumes "layout x g" "32 dvd bytes_per_sector g" "k < n * entries_per_cluster g"
  obtains q j i where "q < n" "j < sectors_per_cluster g" "i < entries_per_sector g" "k = q * entries_per_cluster g + j * entries_per_sector g + i"
    "k div entries_per_cluster g = q" "k mod entries_per_cluster g = j * entries_per_sector g + i"
proof -
  note sg = slot_geometry [OF assms(1,2)]
  define q where "q = k div entries_per_cluster g"
  define m where "m = k mod entries_per_cluster g"
  define j where "j = m div entries_per_sector g"
  define i where "i = m mod entries_per_sector g"
  have k: "k = q * entries_per_cluster g + m" "m < entries_per_cluster g" using sg(5) by (simp_all add: q_def m_def)
  have m: "m = j * entries_per_sector g + i" "i < entries_per_sector g" using sg(3) by (simp_all add: j_def i_def)
  have "q < n" unfolding q_def using assms(3) by (simp add: less_mult_imp_div_less)
  moreover have "j < sectors_per_cluster g" unfolding j_def using k(2) sg(2) by (simp add: less_mult_imp_div_less)
  ultimately show ?thesis using that [of q j i] k(1) m unfolding q_def [symmetric] m_def [symmetric] by simp
qed

lemma dir_slots_length: "dir_open U dv g V cs s \<Longrightarrow> length (dir_slots g V cs) = length cs * entries_per_cluster g"
  using dir_openD(1,2) dir_slots_concat(2) by blast

lemma slot_location_spec:
  assumes o: "dir_open U dv g V cs s" and k: "k < length (dir_slots g V cs)" and q: "slot_location s k = (q, s1)"
  shows "dir_open U dv g V cs s1" "case q of Inl e \<Rightarrow> e \<in> io_errors | Inr p \<Rightarrow> p = (slot_lba g cs k, slot_off g k)"
    "healthy U (dsk s) \<Longrightarrow> healthy U (dsk s1) \<and> (\<exists>p. q = Inr p)"
proof -
  note d = dir_openD [OF o] and od = openedD [OF dir_openD(1) [OF o]]
  note l = mountedD(4) [OF od(1)] and ge = geo_eqD [OF mountedD(5) [OF od(1)]]
  have k': "k < length cs * entries_per_cluster g" using k dir_slots_length [OF o] by simp
  have epc: "entries_per_cluster (sb s) = entries_per_cluster g" using ge by (simp add: entries_per_cluster_def)
  have lt: "k div entries_per_cluster g < length cs" using k' by (simp add: less_mult_imp_div_less)
  obtain r s2 where c: "cluster_at s (k div entries_per_cluster g) = (r, s2)" by force
  have nc: "file_chain g (tab g V 0) cs" "pos_ok (fn s) cs" using od(3) d(4) by (auto simp: node_chain_def)
  note ca = opened_cluster_at [OF d(1) lt c] and sp = cluster_at_spec [OF od(1) shows_tab_self nc c]
  have s1: "s1 = s2" "q = (case r of Inl e \<Rightarrow> Inl e | Inr cl \<Rightarrow> Inr (u32 (cluster_lba (sb s2) cl + k mod entries_per_cluster g * 32 div bytes_per_sector (sb s2)), k mod entries_per_cluster g * 32 mod bytes_per_sector (sb s2)))"
    using q c epc by (auto simp: slot_location_def bindE_def Let_def split: sum.splits)
  show "dir_open U dv g V cs s1" using ca(1) d s1(1) by (simp add: dir_open_def)
  have lin: "cs ! (k div entries_per_cluster g) \<in> clusters g" using od(4) lt by (simp add: subset_iff)
  have ge2: "geo (sb s2) = geo g" using mountedD(5) [OF sp(1)] .
  obtain t j p where ix: "t < length cs" "j < sectors_per_cluster g" "p < entries_per_sector g" "k = t * entries_per_cluster g + j * entries_per_sector g + p"
    "k div entries_per_cluster g = t" "k mod entries_per_cluster g = j * entries_per_sector g + p" by (rule slot_indices [OF l d(2) k'])
  have "k mod entries_per_cluster g * 32 div bytes_per_sector g = j"
    using slot_place(1) [OF l d(2) ix(3,2), of cs t, folded ix(4)] ix(5) by (simp add: slot_lba_def)
  then have lu: "u32 (cluster_lba (sb s2) (cs ! (k div entries_per_cluster g)) + k mod entries_per_cluster g * 32 div bytes_per_sector g) =
      cluster_lba (sb s2) (cs ! (k div entries_per_cluster g)) + k mod entries_per_cluster g * 32 div bytes_per_sector g"
    using sector_lba [OF l lin ge2 ix(2)] by simp
  show "case q of Inl e \<Rightarrow> e \<in> io_errors | Inr p \<Rightarrow> p = (slot_lba g cs k, slot_off g k)"
    using s1(2) sp(5) ca(3) lt clba_eq(1) [OF l lin ge2] geo_eqD [OF ge2] lu by (auto simp: slot_lba_def slot_off_def split: sum.splits)
  show "healthy U (dsk s1) \<and> (\<exists>p. q = Inr p)" if "healthy U (dsk s)"
    using opened_cluster_at_succeeds [OF d(1) that lt] c s1 by auto
qed

lemma slot_get:
  assumes o: "dir_open U dv g V cs s" and k: "k < length (dir_slots g V cs)"
    and q: "cache_get (dsk s) (Some (sb_dev (sb s))) (slot_lba g cs k) = (q, d)"
  shows "q = Inl e \<Longrightarrow> dir_open U dv g V cs (s\<lparr>dsk := d\<rparr>) \<and> e \<in> io_errors"
    "q = Inr i \<Longrightarrow> dir_open U dv g V cs (s\<lparr>dsk := cache_put d i False\<rparr>)"
    "q = Inr i \<Longrightarrow> take 32 (drop (slot_off g k) (data (buf_at d i))) = dir_slots g V cs ! k \<and> slot_off g k + 32 \<le> length (data (buf_at d i))"
    "q = Inr i \<Longrightarrow> length b = 32 \<Longrightarrow> \<exists>V'. dir_open U dv g V' cs (s\<lparr>dsk := cache_put (set_data d i
        (take (slot_off g k) (data (buf_at d i)) @ b @ drop (slot_off g k + 32) (data (buf_at d i)))) i True\<rparr>) \<and>
        dir_slots g V' cs = (dir_slots g V cs)[k := b] \<and> free_clusters g (tab g V' 0) = free_clusters g (tab g V 0)"
    "healthy U (dsk s) \<Longrightarrow> \<exists>i. q = Inr i \<and> healthy U d"
proof -
  note do = dir_openD [OF o] and od = openedD [OF dir_openD(1) [OF o]]
  note l = mountedD(4) [OF od(1)] and ge = geo_eqD [OF mountedD(5) [OF od(1)]]
  have k': "k < length cs * entries_per_cluster g" using k dir_slots_length [OF o] by simp
  obtain t j p where ix: "t < length cs" "j < sectors_per_cluster g" "p < entries_per_sector g" "k = t * entries_per_cluster g + j * entries_per_sector g + p"
    "k div entries_per_cluster g = t" "k mod entries_per_cluster g = j * entries_per_sector g + p" by (rule slot_indices [OF l do(2) k'])
  let ?c = "cs ! t" and ?b = "bytes_per_sector g"
  have cin: "?c \<in> set cs" using ix(1) by simp
  then have c: "?c \<in> clusters g" using od(4) by blast
  note pl = slot_place [OF l do(2) ix(3,2), folded ix(4)]
  have lba: "slot_lba g cs k = clba g ?c + j" using slot_place(1) [OF l do(2) ix(3,2), of cs t] ix(4) by simp
  have off: "slot_off g k = p * 32" using slot_place(2) [OF l do(2) ix(3,2), of t] ix(4) by simp
  have q': "cache_get (dsk s) (Some (sb_dev (sb s))) (cluster_lba (sb s) ?c + j) = (q, d)"
    using q lba clba_eq(1) [OF l c mountedD(5) [OF od(1)]] by simp
  note gc = get_cluster_sector [OF od(1) c ix(2) q']
  have keep: "dir_open U dv g V cs (s\<lparr>dsk := d'\<rparr>)" if "mounted U dv g V (s\<lparr>dsk := d'\<rparr>)" for d'
    using opened_dsk_only [OF do(1) dsk_only_set that] do by (simp add: dir_open_def)
  show "dir_open U dv g V cs (s\<lparr>dsk := d\<rparr>) \<and> e \<in> io_errors" if "q = Inl e" using gc(1) [OF that] keep by blast
  show "\<exists>i. q = Inr i \<and> healthy U d" if "healthy U (dsk s)" by (rule gc(3) [OF that])
  show "dir_open U dv g V cs (s\<lparr>dsk := cache_put d i False\<rparr>)" if "q = Inr i" using gc(2) [OF that] keep by blast
  note sg = slot_geometry [OF l do(2)]
  have ps: "p * 32 + 32 \<le> ?b" using ix(3) sg(1) by simp
  have cz: "cluster_size g = sectors_per_cluster g * ?b" by (rule layout_cluster(1) [OF l])
  let ?C = "cdata g V ?c"
  have lc: "length ?C = sectors_per_cluster g * ?b" using od(11) cin cz by simp
  have "Suc j * ?b \<le> sectors_per_cluster g * ?b" using ix(2) by (intro mult_le_mono1) simp
  then have jb: "j * ?b + ?b \<le> length ?C" using lc by simp
  have kb: "32 * k = t * cluster_size g + (j * ?b + p * 32)" using ix(4) sg(1,2,4) by simp
  let ?B = "chain_bytes g V cs"
  have "Suc t * cluster_size g \<le> length cs * cluster_size g" using ix(1) by (intro mult_le_mono1) simp
  then have tb: "t * cluster_size g + cluster_size g \<le> length ?B" using od(5) by simp
  have "(t * cluster_size g) div cluster_size g = t" "(t * cluster_size g) mod cluster_size g = 0" using od(9) by simp_all
  have C: "?C = take (cluster_size g) (drop (t * cluster_size g) ?B)"
  proof -
    have "drop t (map (cdata g V) cs) = ?C # drop (Suc t) (map (cdata g V) cs)" using ix(1) by (simp add: drop_map Cons_nth_drop_Suc [symmetric])
    then show ?thesis using od(11) cin drop_concat [of "map (cdata g V) cs" "cluster_size g" t] unfolding chain_bytes_def by simp
  qed
  have d32: "32 dvd length ?B" "length ?B div 32 = length cs * entries_per_cluster g" using od(5) sg(4) by simp_all
  fix i assume qi: "q = Inr i"
  note g2 = gc(2) [OF qi]
  let ?x = "data (buf_at d i)"
  have xt: "take ?b ?x = V (sb_dev g) (clba g ?c + j)" "length ?x = block_sz" "?b \<le> length ?x" using g2 by auto
  have "take 32 (drop (p * 32) ?x) = take 32 (drop (p * 32) (take ?b ?x))" using ps by (simp add: drop_take min_def)
  also have "\<dots> = take 32 (drop (p * 32) (take ?b (drop (j * ?b) ?C)))" unfolding xt(1) cdata_sector [OF od(1) c ix(2)] ..
  also have "\<dots> = take 32 (drop (j * ?b + p * 32) ?C)" using ps by (simp add: drop_take min_def add.commute)
  also have "\<dots> = take 32 (drop (32 * k) ?B)" unfolding C kb using jb ps lc cz by (simp add: drop_take min_def add.commute)
  finally show "take 32 (drop (slot_off g k) ?x) = dir_slots g V cs ! k \<and> slot_off g k + 32 \<le> length ?x"
    using slots_in_nth(1) [of k ?B] k' d32 off ps xt(3) by (simp add: dir_slots_def slot_of_def)
  assume lb: "length b = 32"
  let ?y = "take (j * ?b + p * 32) ?C @ b @ drop (j * ?b + p * 32 + length b) ?C" and ?x' = "take (p * 32) ?x @ b @ drop (p * 32 + length b) ?x"
  have ly: "length ?y = cluster_size g" using jb ps lb lc cz by simp
  have pb: "p * 32 + length b \<le> ?b" using ps lb by simp
  have "length ?x' = block_sz" using ps xt(2,3) lb by simp
  then have m: "mounted U dv g (put_cluster g ?c ?y V) (s\<lparr>dsk := cache_put (set_data d i ?x') i True\<rparr>)"
    unfolding put_cluster_sector [OF od(1) c ix(2) pb xt(1,3) lc] using g2 by blast
  note op = opened_put_cluster [OF do(1) ix(1) ly m, simplified]
  have "j * ?b + p * 32 + 32 \<le> cluster_size g" using jb ps lc cz by simp
  from splice_piece [OF C this tb, of b]
  have "take (t * cluster_size g) ?B @ ?y @ drop (Suc t * cluster_size g) ?B = take (32 * k) ?B @ b @ drop (32 * k + 32) ?B"
    using lb by (simp only: kb add.assoc mult_Suc add.commute [of "cluster_size g"])
  then have "dir_slots g (put_cluster g ?c ?y V) cs = (dir_slots g V cs)[k := b]"
    using op(3) slots_in_update [OF d32(1) _ lb, of k] k' d32(2) by (simp add: dir_slots_def)
  moreover have "dir_open U dv g (put_cluster g ?c ?y V) cs (s\<lparr>dsk := cache_put (set_data d i ?x') i True\<rparr>)" using op(1) do by (simp add: dir_open_def)
  ultimately show "\<exists>V'. dir_open U dv g V' cs (s\<lparr>dsk := cache_put (set_data d i
        (take (slot_off g k) ?x @ b @ drop (slot_off g k + 32) ?x)) i True\<rparr>) \<and>
        dir_slots g V' cs = (dir_slots g V cs)[k := b] \<and> free_clusters g (tab g V' 0) = free_clusters g (tab g V 0)"
    using op(2) off lb by auto
qed

section \<open>A small directory\<close>

text \<open>The two clusters of the small volume as a directory: 16 records whose name is the byte 3 eleven times,
  then 16 with the byte 4.\<close>

lemma ex_dir_open: "dir_open {0} (\<lambda>_. ex_dev) ex_super ex_V [2, 3] ex_st"
  using ex_opened by (simp add: dir_open_def entries_per_cluster_def ex_super_def no_super_def)

lemma ex_dir_slots: "dir_slots ex_super ex_V [2, 3] = map (\<lambda>k. replicate 32 (if k < 16 then 3 else 4)) [0..<32]"
proof -
  have "slot_of (replicate 512 3 @ replicate 512 4) k = replicate 32 (if k < 16 then 3 else 4)" if "k < 32" for k
  proof (cases "k < 16")
    case False
    then have "32 * k - 512 + 32 \<le> 512" "512 \<le> 32 * k" using that by simp_all
    then show ?thesis using False by (simp add: slot_of_def)
  qed (simp add: slot_of_def)
  then show ?thesis by (simp add: dir_slots_def slots_in_def chain_bytes_def ex_cdata ex_clusters)
qed

lemma records_plain:
  assumes "\<And>e. e \<in> set es \<Longrightarrow> e ! 0 \<noteq> FAT_DIR_END \<and> e ! 0 \<noteq> FAT_DIR_FREE \<and> \<not> is_lfn e \<and> \<not> is_label e"
  shows "records es k None = map (\<lambda>i. (k + i, es ! i, None)) [0..<length es]"
  using assms
proof (induction es arbitrary: k)
  case (Cons e es)
  have "map (\<lambda>i. (k + i, (e # es) ! i, None :: ucs2 list list option)) [0..<length (e # es)] =
      (k, e, None) # map (\<lambda>i. (Suc k + i, es ! i, None)) [0..<length es]"
    unfolding length_Cons map_upt_Suc by simp
  then show ?case using Cons.IH [of "Suc k"] Cons.prems [of e] Cons.prems by (simp add: run_for_def)
qed simp

lemma ex_dir_records: "dir_records ex_super ex_V [2, 3] = map (\<lambda>k. (k, replicate 32 (if k < 16 then 3 else 4), None)) [0..<32]"
  unfolding dir_records_def ex_dir_slots
  by (subst records_plain) (auto simp: is_lfn_def is_label_def e_attr_def fat_dir_values split: if_splits)

lemma short_name_replicate:
  assumes "b \<noteq> 0" "b \<noteq> 0x20" "\<not> is_upper b"
  shows "short_name_of (replicate 32 b) = replicate 8 b @ 0x2E # replicate 3 b"
proof -
  have "cstr (replicate 8 b @ 0x2E # replicate 3 b) = replicate 8 b @ 0x2E # replicate 3 b"
    unfolding cstr_def takeWhile_eq_all_conv using assms(1) by auto
  moreover have "map (lower_if x) (replicate n b) = replicate n b" for x n using assms(3) by (simp add: lower_if_def map_replicate)
  ultimately show ?thesis using assms(2)
    by (simp add: short_name_of_def format_short_def e_name_def Let_def takeWhile_replicate del: map_replicate)
qed

section \<open>Properties\<close>

text \<open>C14. Looking a name up and listing refine searching the list of records. On a directory whose chain is in
  order, whatever its slots hold, \<open>find\<close> returns: the first record, with its slot and its place on the
  device, that answers to the name in its long form or its alias, or nothing exactly when no record does; and \<open>next_record\<close>
  the first record from the cookie on. A record has a long name only through a complete run of slots with
  its checksum. Only a disk error can stop either, and nothing of the volume changes.\<close>

theorem find_dir_refines:
  assumes "dir_open U dv g V cs s"
  shows "(\<exists>r s1. find_dir s name = Some (r, s1) \<and> dir_open U dv g V cs s1 \<and> dsk_only s s1 \<and> (healthy U (dsk s) \<longrightarrow> (\<exists>x. r = Inr x)) \<and>
      (case r of Inl e \<Rightarrow> e \<in> io_errors | Inr x \<Rightarrow> x = map_option (located g cs) (find (answers name) (dir_records g V cs)))) \<and>
    (\<exists>r s1. next_record s cookie = Some (r, s1) \<and> dir_open U dv g V cs s1 \<and> dsk_only s s1 \<and> (healthy U (dsk s) \<longrightarrow> (\<exists>x. r = Inr x)) \<and>
      (case r of Inl e \<Rightarrow> e \<in> io_errors | Inr x \<Rightarrow> x = map_option listed (find (\<lambda>x. cookie \<le> fst x) (dir_records g V cs))))"
proof
  show "\<exists>r s1. find_dir s name = Some (r, s1) \<and> dir_open U dv g V cs s1 \<and> dsk_only s s1 \<and> (healthy U (dsk s) \<longrightarrow> (\<exists>x. r = Inr x)) \<and>
      (case r of Inl e \<Rightarrow> e \<in> io_errors | Inr x \<Rightarrow> x = map_option (located g cs) (find (answers name) (dir_records g V cs)))"
    by (rule find_dir_spec [OF assms, of name]) blast
  show "\<exists>r s1. next_record s cookie = Some (r, s1) \<and> dir_open U dv g V cs s1 \<and> dsk_only s s1 \<and> (healthy U (dsk s) \<longrightarrow> (\<exists>x. r = Inr x)) \<and>
      (case r of Inl e \<Rightarrow> e \<in> io_errors | Inr x \<Rightarrow> x = map_option listed (find (\<lambda>x. cookie \<le> fst x) (dir_records g V cs)))"
    by (rule next_record_spec [OF assms, of cookie]) blast
qed

theorem find_dir_refines_witness:
  "\<exists>x s1. find_dir ex_st (replicate 8 4 @ 0x2E # replicate 3 4) = Some (Inr (Some (x, 16, 4, 0)), s1) \<and> entry x = replicate 32 4"
proof -
  let ?n = "replicate 8 4 @ 0x2E # replicate 3 4 :: byte list"
  obtain r s1 where r: "find_dir ex_st ?n = Some (r, s1)" "\<exists>x. r = Inr x"
    "case r of Inl e \<Rightarrow> e \<in> io_errors | Inr x \<Rightarrow> x = map_option (located ex_super [2, 3]) (find (answers ?n) (dir_records ex_super ex_V [2, 3]))"
    using find_dir_refines [OF ex_dir_open, of ?n] ex_healthy by blast
  have "short_name_of (replicate 32 (3 :: byte)) = replicate 8 3 @ 0x2E # replicate 3 3" "short_name_of (replicate 32 4) = ?n"
    by (rule short_name_replicate; simp add: is_upper_def)+
  moreover have "eq_nocase xs xs" for xs by (induction xs) simp_all
  moreover have "replicate 8 x = x # replicate 7 x" for x :: byte by (simp add: numeral_eq_Suc)
  then have "\<not> eq_nocase (replicate 8 3 @ 0x2E # replicate 3 3) ?n" by (simp add: upper_def is_lower_def)
  ultimately have a: "\<not> answers ?n (k, replicate 32 3, None)" "answers ?n (k, replicate 32 4, None)" for k
    by (simp_all add: answers_def shown_def)
  have "find (answers ?n) (dir_records ex_super ex_V [2, 3]) = Some (16, replicate 32 4, None)"
    unfolding ex_dir_records find_Some_iff by (rule exI [of _ 16]) (simp add: a)
  moreover have "located ex_super [2, 3] (16, replicate 32 4, None) =
      (\<lparr>entry = replicate 32 4, lfn = shown (replicate 32 4) None, has_lfn = False\<rparr>, 16, 4, 0)"
    by (simp add: located_def slot_lba_def slot_off_def entries_per_cluster_def clba_def ex_super_def no_super_def)
  ultimately show ?thesis using r by auto
qed

end
