(* ===== verification/Spec2Isabelle.thy ===== *)
theory Spec2Isabelle
  imports Kobject Event Sleeplock Tty Pipe Heap Format Bcflush Part Fatinfo Fatlist
begin

text \<open>
  A verification of the core of SurfaceOS, a 64-bit operating system: its memory managers, kernel objects
  and blocking primitives, the whole path from a file on a FAT32 volume down to the sectors of a disk, and
  the parts of the C library that compute on text.

  \<^bold>\<open>The parts and how they meet.\<close> The boot loader hands over a memory map; the frame allocator owns the
  frames in it, and the kernel heap takes its chunks of memory from the frame allocator. Threads meet in objects with
  reference counts, held through handle tables, and sleep on wait queues: events, the sleep lock, pipes and
  the key queues of the screens are built on these. Disk drivers register block devices; the partition scanner adds
  their partitions to the registry; the sector cache sits on the registry, and all of the FAT code works
  through the cache.

  \<^bold>\<open>Memory.\<close> \<open>Pmm\<close> (src/src/kernel/mm/pmm.cpp): the bitmap of frames, its construction, \<open>alloc_frames\<close> and
  \<open>free_frames\<close>. \<open>Heap\<close> (mm/heap.cpp): the sorted list of blocks, \<open>kmalloc\<close>, \<open>kfree\<close>, splitting, merging and
  growth. The interface of both is the locale \<open>range_allocator\<close> of \<open>Alloc\<close>, interpreted on each: from its laws
  follows that no two clients ever share a unit. Further lemmas give the result of each call on every branch.

  \<^bold>\<open>Objects and waiting.\<close> \<open>Kobject\<close> (obj/object.cpp): reference counts and handle tables; in every
  reachable state the counts are exact, and only unreferenced objects are destroyed. \<open>Waitqueue\<close>: the
  discipline of wait queues (cpu/process.cpp, include/cpu/wait.h) as the locale \<open>wait_discipline\<close>, from which
  no thread sleeps on a condition that holds; the pipes, the sleep lock and the key queues are
  interpretations. \<open>Event\<close> (obj/event.cpp): events and waiting on objects. \<open>Sleeplock\<close> (cpu/process.cpp): the
  ticket lock; mutual exclusion, order and progress. \<open>Pipe\<close> (fs/pipe.cpp): the ring, blocking reads and writes
  and the closing of the ends. \<open>Tty\<close> (drivers/tty.cpp): the key rings, interpreting the locale
  \<open>bounded_fifo\<close> of \<open>Fifo\<close>. Concurrency is a step relation whose steps are the stretches of code that run with
  interrupts off or otherwise undisturbed; all interleavings are covered.

  \<^bold>\<open>Disks.\<close> \<open>Blkdev\<close> (dev/blkdev.cpp): the registry, requests with their splitting and retries, unplugging.
  \<open>Part\<close> (dev/part.cpp): GPT and MBR tables. \<open>Bcache\<close> and \<open>Bcflush\<close> (dev/bcache.cpp): the sector cache; what users
  see of a device is a function \<open>V\<close> from sectors to bytes, and every operation is proved against it, errors
  included. Its contract is the locale \<open>sector_cache\<close>, interpreted on the cache, and the FAT theories rest on its facts. \<open>Bclive\<close>:
  without faults its operations succeed.

  \<^bold>\<open>FAT32.\<close> \<open>Fat\<close> (fs/fat32/fat.cpp): table entries in all copies, chains, allocation, FSInfo, and
  \<open>read_super\<close> of vnode.cpp. \<open>Fatinfo\<close>: the hints of FSInfo and what an accepted boot sector guarantees.
  \<open>Fatfile\<close> and \<open>Fatlive\<close>: clusters and files; \<open>read_at\<close>, \<open>write_at\<close> and \<open>truncate\<close> refine the operations on a
  sequence of bytes, and succeed on a healthy disk with enough clusters. \<open>Fatname\<close>, \<open>Fatdir\<close> and \<open>Fatlist\<close>
  (fs/fat32/dir.cpp): names, times, and the directory operations; \<open>find\<close> and \<open>next_record\<close> refine a search in the list
  of records.

  \<^bold>\<open>Text.\<close> \<open>Cstring\<close> (sdk/libc/string.c, memory.c, kernel/stdlib/string.cpp, kernel/mm/memory.cpp),
  \<open>Number\<close> (sdk/libc/number.c and the digits of string.cpp) and \<open>Format\<close> (sdk/libc/format.c).

  \<^bold>\<open>How the code is read.\<close> A struct is a record, an array of structs a list, a pointer into a pool its index.
  A function that can fail returns \<open>errno + 'a\<close>, named \<open>res\<close>, with the state. Unsigned numbers are natural
  numbers, cut to 32 or 64 bits by \<open>u32\<close>, \<open>u64\<close>, \<open>sub32\<close> and \<open>sub64\<close> where a C expression can wrap; bytes are
  8-bit words. \<open>Prelude\<close> holds these and the error codes. What the environment decides is in the state: which
  disk requests and which allocations fail are schedules, arbitrary in the theorems; \<open>medium\<close> is what reads of a disk
  give and \<open>committed\<close> what a loss of power leaves.

  \<^bold>\<open>Loops.\<close> Loops are structural, have a termination proof, or carry the guard the code has. The one bound
  that is not the code's is on the walk from a partition to its disk: as many steps as there are devices, enough
  because the parent of a device in a sound registry is a whole disk. Growing the heap and the loops over the chain of a directory may run for ever in the code: they
  are partial functions into an option. Of \<open>kmalloc\<close> it is proved that it returns, of the scan of a directory that it does when the
  chain is in order; the search for free slots has no such theorem. In \<open>Part\<close> a result \<open>None\<close> is a read outside a buffer. A transfer limit of 0, with which the
  loop of \<open>block::read\<close> would never end, is excluded: no driver registers it.

  \<^bold>\<open>Not modelled.\<close> The scheduler, paging, interrupts, the other processors, system calls and program
  loading act on registers, page tables and stacks; ACPI, PCI, USB and the other drivers on device registers; the
  virtual file system and the vnode operations run through tables of function pointers over the parts above;
  floating point in the C library; the runtime, the user interface, the shell and the applications. Messages on the
  console and the serial port are left out everywhere.
\<close>

end
